(* ===== verification/CRT_Prelude.thy ===== *)
theory CRT_Prelude
  imports Main "HOL-Library.Word" "HOL-Library.Monad_Syntax"
begin

text \<open>
  Names, lemma collections and generic facts that every component of the development shares:
  the C library's types (\<open>char\<close> is HOL's 8-bit \<open>char\<close>, \<open>int\<close> and \<open>long\<close> are words of
  the width the code relies on, an address is a \<open>nat\<close> with 0 as the null pointer) and the
  error numbers of \<^verbatim>\<open>include/errno.h\<close> that the modelled functions store.
\<close>

unbundle bit_operations_syntax

named_theorems mem_simps \<open>rewriting of loads, stores and block updates\<close>
named_theorems cstr_simps \<open>facts about NUL-terminated strings in memory\<close>

type_synonym addr = nat
type_synonym i32 = "32 word"
type_synonym u64 = "64 word"

text \<open>The largest \<open>size_t\<close>: the hosts are 64-bit.\<close>

definition SIZE_MAX :: nat where "SIZE_MAX = 2 ^ 64 - 1"

abbreviation NUL :: char where "NUL \<equiv> CHR 0x00"

abbreviation (input) null :: addr where "null \<equiv> 0"

text \<open>Error numbers (\<^verbatim>\<open>include/errno.h\<close>).\<close>

definition EIO :: int where "EIO = 5"
definition EAGAIN :: int where "EAGAIN = 11"
definition ENOMEM :: int where "ENOMEM = 12"
definition EFAULT :: int where "EFAULT = 14"
definition EINVAL :: int where "EINVAL = 22"
definition ERANGE :: int where "ERANGE = 34"
definition EILSEQ :: int where "EILSEQ = 84"

text \<open>A byte read as \<open>unsigned char\<close> and converted to \<open>int\<close>, as a value and as a word.\<close>

abbreviation uchar :: "char \<Rightarrow> int" where "uchar c \<equiv> of_char c"
abbreviation uch32 :: "char \<Rightarrow> i32" where "uch32 c \<equiv> of_char c"

subsection \<open>Option monad\<close>

lemma bind_Some_iff [simp]: "(Option.bind x f = Some y) = (\<exists>a. x = Some a \<and> f a = Some y)"
  by (cases x) auto

subsection \<open>Lists\<close>

lemma nth_append_at [simp]: "(xs @ y # ys) ! length xs = y"
  by (simp add: nth_append)

lemma list_update_id_nth: "i < length xs \<Longrightarrow> xs[i := xs ! i] = xs"
  by simp

lemma swap_id: "i < length xs \<Longrightarrow> j < length xs \<Longrightarrow>
    (xs[i := xs ! j, j := xs ! i])[i := (xs[i := xs ! j, j := xs ! i]) ! j,
      j := (xs[i := xs ! j, j := xs ! i]) ! i] = xs"
  by (rule nth_equalityI) (auto simp: nth_list_update)

subsection \<open>Bytes and characters\<close>

lemma unat_uch32 [simp]: "unat (uch32 c) = of_char c"
proof -
  have w: "uch32 c = word_of_nat (of_char c)" by (simp only: of_nat_of_char)
  have "of_char c < (2 :: nat) ^ LENGTH(32)"
    using nat_of_char_less_256 [of c] by (rule less_trans) simp
  then show ?thesis unfolding w unat_of_nat by (rule mod_less)
qed

lemma uint_uch32 [simp]: "uint (uch32 c) = uchar c"
  by (simp add: uint_nat of_nat_of_char)

lemma char_of_uch32 [simp]: "char_of (unat (uch32 c)) = c"
  by simp

lemma char_of_0 [simp]: "char_of (0 :: nat) = NUL" "char_of (0 :: int) = NUL"
  by (simp_all add: char_of_def)

lemma uchar_bounds: "0 \<le> uchar c" "uchar c < 256"
proof -
  have "uchar c = int (of_char c)" by (simp only: of_nat_of_char)
  with nat_of_char_less_256 [of c] show "0 \<le> uchar c" "uchar c < 256" by linarith+
qed

end
