(* ===== verification/CRT_Mem.thy ===== *)
theory CRT_Mem
  imports CRT_Prelude
begin

text \<open>
  The flat byte memory that the C library's routines run on. A memory maps an address to the
  byte stored there, and has no entry where nothing is mapped: a load or a store outside the
  mapped bytes is a fault, the value \<^term>\<open>None\<close>, so a theorem that a routine returns
  \<^term>\<open>Some\<close> says in particular that it stays inside its buffers. Pointer arithmetic is on
  \<open>nat\<close>: the end of the address space is not modelled.

  \<open>mem_put m p s\<close> is the memory after the block \<open>s\<close> has been written at \<open>p\<close>; the routines'
  specifications state the final memory as one \<open>mem_put\<close>, which fixes both what is written and
  what is left alone. The cells are bytes; an array of wide characters is a memory whose cells are
  words.
\<close>

type_synonym 'a cells = "addr \<rightharpoonup> 'a"
type_synonym mem = "char cells"

definition load :: "'a cells \<Rightarrow> addr \<Rightarrow> 'a option" where
  "load m p = m p"

definition store :: "'a cells \<Rightarrow> addr \<Rightarrow> 'a \<Rightarrow> 'a cells option" where
  "store m p c = (if m p = None then None else Some (m(p \<mapsto> c)))"

definition mem_put :: "'a cells \<Rightarrow> addr \<Rightarrow> 'a list \<Rightarrow> 'a cells" where
  "mem_put m p s = (\<lambda>a. if p \<le> a \<and> a < p + length s then Some (s ! (a - p)) else m a)"

definition mapped :: "'a cells \<Rightarrow> addr \<Rightarrow> nat \<Rightarrow> bool" where
  "mapped m p n \<longleftrightarrow> list_all (\<lambda>i. m (p + i) \<noteq> None) [0..<n]"

definition bytes_at :: "'a cells \<Rightarrow> addr \<Rightarrow> 'a list \<Rightarrow> bool" where
  "bytes_at m p s \<longleftrightarrow> list_all (\<lambda>i. m (p + i) = Some (s ! i)) [0..<length s]"

text \<open>A load or store of a machine word: all its bytes at once.\<close>

primrec load_n :: "'a cells \<Rightarrow> addr \<Rightarrow> nat \<Rightarrow> 'a list option" where
  "load_n m p 0 = Some []"
| "load_n m p (Suc n) = do { c \<leftarrow> load m p; cs \<leftarrow> load_n m (p + 1) n; Some (c # cs) }"

definition store_n :: "'a cells \<Rightarrow> addr \<Rightarrow> 'a list \<Rightarrow> 'a cells option" where
  "store_n m p cs = (if mapped m p (length cs) then Some (mem_put m p cs) else None)"

text \<open>A string in memory: its bytes, none of them NUL, then a NUL.\<close>

definition cstr :: "mem \<Rightarrow> addr \<Rightarrow> string \<Rightarrow> bool" where
  "cstr m p s \<longleftrightarrow> NUL \<notin> set s \<and> bytes_at m p (s @ [NUL])"

text \<open>A memory for examples: the given block and nothing else.\<close>

definition mem_of :: "addr \<Rightarrow> 'a list \<Rightarrow> 'a cells" where
  "mem_of p s = mem_put Map.empty p s"

subsection \<open>Reading\<close>

lemma mapped_iff: "mapped m p n \<longleftrightarrow> (\<forall>i<n. m (p + i) \<noteq> None)"
  by (auto simp: mapped_def list_all_iff)

lemma bytes_at_iff: "bytes_at m p s \<longleftrightarrow> (\<forall>i<length s. m (p + i) = Some (s ! i))"
  by (auto simp: bytes_at_def list_all_iff)

lemma bytes_at_Nil [simp, mem_simps]: "bytes_at m p []"
  by (simp add: bytes_at_iff)

lemma bytes_at_Cons [simp, mem_simps]:
  "bytes_at m p (c # s) \<longleftrightarrow> m p = Some c \<and> bytes_at m (Suc p) s"
  by (auto simp: bytes_at_iff less_Suc_eq_0_disj)

lemma bytes_at_append [simp, mem_simps]:
  "bytes_at m p (s @ t) \<longleftrightarrow> bytes_at m p s \<and> bytes_at m (p + length s) t"
  by (induction s arbitrary: p) auto

lemma bytes_at_nth: "bytes_at m p s \<Longrightarrow> i < length s \<Longrightarrow> m (p + i) = Some (s ! i)"
  by (simp add: bytes_at_iff)

lemma bytes_at_mapped: "bytes_at m p s \<Longrightarrow> mapped m p (length s)"
  by (simp add: bytes_at_iff mapped_iff)

lemma bytes_at_take: "bytes_at m p s \<Longrightarrow> bytes_at m p (take n s)"
  by (simp add: bytes_at_iff)

lemma bytes_at_drop: "bytes_at m p s \<Longrightarrow> n \<le> length s \<Longrightarrow> bytes_at m (p + n) (drop n s)"
  by (simp add: bytes_at_iff add.assoc)

lemma bytes_at_unique: "bytes_at m p s \<Longrightarrow> bytes_at m p t \<Longrightarrow> length s = length t \<Longrightarrow> s = t"
  by (rule nth_equalityI) (auto simp: bytes_at_iff)

lemma load_n_iff [mem_simps]: "load_n m p n = Some s \<longleftrightarrow> bytes_at m p s \<and> length s = n"
proof (induction n arbitrary: p s)
  case (Suc n)
  then show ?case by (cases s) (auto simp: load_def)
qed auto

lemma load_n_Some: "bytes_at m p s \<Longrightarrow> n = length s \<Longrightarrow> load_n m p n = Some s"
  by (simp add: load_n_iff)

lemma mapped_0 [simp]: "mapped m p 0"
  by (simp add: mapped_iff)

lemma mapped_Suc [mem_simps]: "mapped m p (Suc n) \<longleftrightarrow> m p \<noteq> None \<and> mapped m (Suc p) n"
  by (auto simp: mapped_iff less_Suc_eq_0_disj)

lemma mapped_add: "mapped m p (a + b) \<longleftrightarrow> mapped m p a \<and> mapped m (p + a) b"
  by (induction a arbitrary: p) (auto simp: mapped_Suc)

lemma mapped_mono: "mapped m p n \<Longrightarrow> k \<le> n \<Longrightarrow> mapped m p k"
  by (simp add: mapped_iff)

lemma mapped_bytes: "mapped m p n \<Longrightarrow> \<exists>s. length s = n \<and> bytes_at m p s"
proof (induction n arbitrary: p)
  case (Suc n)
  then obtain c where c: "m p = Some c" and rest: "mapped m (Suc p) n"
    by (auto simp: mapped_Suc)
  from Suc.IH[OF rest] obtain s where "length s = n" "bytes_at m (Suc p) s" by blast
  with c have "length (c # s) = Suc n \<and> bytes_at m p (c # s)" by simp
  then show ?case by blast
qed simp

subsection \<open>Writing\<close>

lemma mem_put_Nil [simp, mem_simps]: "mem_put m p [] = m"
  by (rule ext) (auto simp: mem_put_def)

lemma mem_put_single [mem_simps]: "mem_put m p [c] = m(p \<mapsto> c)"
  by (rule ext) (auto simp: mem_put_def)

lemma mem_put_Cons: "mem_put m p (c # s) = mem_put (m(p \<mapsto> c)) (Suc p) s"
proof
  fix a
  consider "a < p" | "a = p" | i where "a = Suc p + i"
    by (metis less_linear less_iff_Suc_add add_Suc)
  then show "mem_put m p (c # s) a = mem_put (m(p \<mapsto> c)) (Suc p) s a"
    by cases (auto simp: mem_put_def)
qed

lemma mem_put_append: "mem_put m p (s @ t) = mem_put (mem_put m p s) (p + length s) t"
  by (rule ext) (auto simp: mem_put_def nth_append diff_diff_left)

lemma mem_put_snoc: "mem_put m p (s @ [c]) = (mem_put m p s)(p + length s \<mapsto> c)"
  by (simp add: mem_put_append mem_put_single)

lemma mem_put_outside [simp]:
  "a < p \<or> p + length s \<le> a \<Longrightarrow> mem_put m p s a = m a"
  by (auto simp: mem_put_def)

lemma mem_put_inside: "i < length s \<Longrightarrow> mem_put m p s (p + i) = Some (s ! i)"
  by (simp add: mem_put_def)

lemma bytes_at_mem_put [simp]: "bytes_at (mem_put m p s) p s"
  by (simp add: bytes_at_iff mem_put_inside)

lemma bytes_at_put_other:
  "q + length t \<le> p \<or> p + length s \<le> q \<Longrightarrow> bytes_at (mem_put m p s) q t = bytes_at m q t"
  by (auto simp: bytes_at_iff)

lemma bytes_at_upd_other [simp]:
  "a < q \<or> q + length t \<le> a \<Longrightarrow> bytes_at (m(a \<mapsto> c)) q t = bytes_at m q t"
  using bytes_at_put_other [of q t a "[c]" m] by (simp add: mem_put_single Suc_le_eq disj_commute)

lemma mapped_upd [simp]: "mapped m p n \<Longrightarrow> mapped (m(a \<mapsto> c)) p n"
  by (simp add: mapped_iff)

lemma mapped_mem_put [simp]: "mapped m p n \<Longrightarrow> mapped (mem_put m q s) p n"
  by (simp add: mapped_iff mem_put_def)

lemma mapped_put_iff: "mapped m q (length s) \<Longrightarrow> mapped (mem_put m q s) p n = mapped m p n"
  unfolding mapped_iff mem_put_def
  by (metis le_add_diff_inverse nat_add_left_cancel_less not_Some_eq)

lemma mem_put_same: "bytes_at m p s \<Longrightarrow> mem_put m p s = m"
  by (rule ext) (auto simp: mem_put_def bytes_at_iff le_iff_add)

lemma mem_put_twice: "length s = length t \<Longrightarrow> mem_put (mem_put m p s) p t = mem_put m p t"
  by (rule ext) (auto simp: mem_put_def)

lemma mem_put_swap:
  "p + length s \<le> q \<or> q + length t \<le> p \<Longrightarrow>
   mem_put (mem_put m p s) q t = mem_put (mem_put m q t) p s"
  by (rule ext) (auto simp: mem_put_def)

lemma store_Some [simp]: "m p \<noteq> None \<Longrightarrow> store m p c = Some (m(p \<mapsto> c))"
  by (simp add: store_def)

lemma store_n_Some: "mapped m p (length s) \<Longrightarrow> store_n m p s = Some (mem_put m p s)"
  by (simp add: store_n_def)

subsection \<open>Strings\<close>

lemma cstr_Nil [cstr_simps]: "cstr m p [] \<longleftrightarrow> m p = Some NUL"
  by (simp add: cstr_def)

lemma cstr_Cons [cstr_simps]:
  "cstr m p (c # s) \<longleftrightarrow> c \<noteq> NUL \<and> m p = Some c \<and> cstr m (Suc p) s"
  by (auto simp: cstr_def)

lemma cstr_bytes: "cstr m p s \<Longrightarrow> bytes_at m p s"
  by (simp add: cstr_def)

lemma cstr_bytes_NUL: "cstr m p s \<Longrightarrow> bytes_at m p (s @ [NUL])"
  by (simp add: cstr_def)

lemma cstr_end: "cstr m p s \<Longrightarrow> m (p + length s) = Some NUL"
  by (simp add: cstr_def)

lemma cstr_drop: "cstr m p s \<Longrightarrow> n \<le> length s \<Longrightarrow> cstr m (p + n) (drop n s)"
  by (auto simp: cstr_def bytes_at_iff nth_append add.assoc dest: in_set_dropD)

lemma cstr_unique: "cstr m p s \<Longrightarrow> cstr m p t \<Longrightarrow> s = t"
proof (induction s arbitrary: p t)
  case Nil then show ?case by (cases t) (auto simp: cstr_simps)
next
  case (Cons c s) then show ?case by (cases t) (auto simp: cstr_simps)
qed

lemma cstr_put: "NUL \<notin> set s \<Longrightarrow> cstr (mem_put m p (s @ [NUL])) p s"
  by (simp only: cstr_def bytes_at_mem_put simp_thms)

lemma cstr_put_other:
  "q + length t < p \<or> p + length s \<le> q \<Longrightarrow> cstr m q t \<Longrightarrow> cstr (mem_put m p s) q t"
  unfolding cstr_def by (subst bytes_at_put_other) auto

lemma cstr_mem_of [cstr_simps]: "NUL \<notin> set s \<Longrightarrow> cstr (mem_of p (s @ [NUL])) p s"
  unfolding mem_of_def by (rule cstr_put)

end
