(* ===== verification/CRT_Ctype.thy ===== *)
theory CRT_Ctype
  imports CRT_Mem
begin

text \<open>
  Character classification: \<^verbatim>\<open>libc/src/ctype.c\<close> and \<^verbatim>\<open>libc/src/wctype.c\<close>. The
  argument is the 32-bit \<open>int\<close> (or \<open>wint_t\<close>) of the code, with the unsigned wrap-around that
  the range test relies on; a result the code uses as a truth value is a \<open>bool\<close>.
\<close>

subsection \<open>ctype.c\<close>

definition ctype_in_range :: "i32 \<Rightarrow> i32 \<Rightarrow> i32 \<Rightarrow> bool" where
  "ctype_in_range lo ch hi \<longleftrightarrow> ch - lo < hi - lo + 1"

definition tolower_unsafe :: "i32 \<Rightarrow> i32" where "tolower_unsafe ch = ch OR 0x20"
definition toupper_unsafe :: "i32 \<Rightarrow> i32" where "toupper_unsafe ch = ch XOR 0x20"

definition isalpha :: "i32 \<Rightarrow> bool" where
  "isalpha ch = ctype_in_range (uch32 CHR ''a'') (tolower_unsafe ch) (uch32 CHR ''z'')"
definition isblank :: "i32 \<Rightarrow> bool" where
  "isblank ch \<longleftrightarrow> ch = uch32 CHR '' '' \<or> ch = uch32 CHR 0x09"
definition iscntrl :: "i32 \<Rightarrow> bool" where
  "iscntrl ch \<longleftrightarrow> ch < uch32 CHR '' '' \<or> ch = 0x7f"
definition isdigit :: "i32 \<Rightarrow> bool" where
  "isdigit ch = ctype_in_range (uch32 CHR ''0'') ch (uch32 CHR ''9'')"
definition isgraph :: "i32 \<Rightarrow> bool" where
  "isgraph ch = ctype_in_range (uch32 CHR ''!'') ch (uch32 CHR ''~'')"
definition islower :: "i32 \<Rightarrow> bool" where
  "islower ch = ctype_in_range (uch32 CHR ''a'') ch (uch32 CHR ''z'')"
definition isprint :: "i32 \<Rightarrow> bool" where
  "isprint ch = ctype_in_range (uch32 CHR '' '') ch (uch32 CHR ''~'')"
definition isspace :: "i32 \<Rightarrow> bool" where
  "isspace ch \<longleftrightarrow> ch = uch32 CHR '' '' \<or> ctype_in_range (uch32 CHR 0x09) ch (uch32 CHR 0x0D)"
definition isupper :: "i32 \<Rightarrow> bool" where
  "isupper ch = ctype_in_range (uch32 CHR ''A'') ch (uch32 CHR ''Z'')"
definition isxdigit :: "i32 \<Rightarrow> bool" where
  "isxdigit ch \<longleftrightarrow>
     isdigit ch \<or> ctype_in_range (uch32 CHR ''a'') (tolower_unsafe ch) (uch32 CHR ''f'')"
definition isalnum :: "i32 \<Rightarrow> bool" where
  "isalnum ch \<longleftrightarrow> isalpha ch \<or> isdigit ch"
definition ispunct :: "i32 \<Rightarrow> bool" where
  "ispunct ch \<longleftrightarrow> isgraph ch \<and> \<not> isalnum ch"
definition tolower :: "i32 \<Rightarrow> i32" where
  "tolower ch =
     (if ctype_in_range (uch32 CHR ''A'') ch (uch32 CHR ''Z'') then tolower_unsafe ch else ch)"
definition toupper :: "i32 \<Rightarrow> i32" where
  "toupper ch =
     (if ctype_in_range (uch32 CHR ''a'') ch (uch32 CHR ''z'') then toupper_unsafe ch else ch)"
definition isascii :: "i32 \<Rightarrow> bool" where "isascii ch \<longleftrightarrow> ch < 0x80"
definition toascii :: "i32 \<Rightarrow> i32" where "toascii ch = ch AND 0x7f"

lemmas ctype_defs =
  isalpha_def isblank_def iscntrl_def isdigit_def isgraph_def islower_def isprint_def
  isspace_def isupper_def isxdigit_def isalnum_def ispunct_def tolower_def toupper_def
  isascii_def toascii_def tolower_unsafe_def toupper_unsafe_def

subsection \<open>wctype.c\<close>

definition ascii_wint :: "i32 \<Rightarrow> bool" where "ascii_wint wc \<longleftrightarrow> wc \<le> 0x7f"

definition iswalnum :: "i32 \<Rightarrow> bool" where "iswalnum wc \<longleftrightarrow> ascii_wint wc \<and> isalnum wc"
definition iswalpha :: "i32 \<Rightarrow> bool" where "iswalpha wc \<longleftrightarrow> ascii_wint wc \<and> isalpha wc"
definition iswblank :: "i32 \<Rightarrow> bool" where "iswblank wc \<longleftrightarrow> ascii_wint wc \<and> isblank wc"
definition iswcntrl :: "i32 \<Rightarrow> bool" where "iswcntrl wc \<longleftrightarrow> ascii_wint wc \<and> iscntrl wc"
definition iswdigit :: "i32 \<Rightarrow> bool" where "iswdigit wc \<longleftrightarrow> ascii_wint wc \<and> isdigit wc"
definition iswgraph :: "i32 \<Rightarrow> bool" where "iswgraph wc \<longleftrightarrow> ascii_wint wc \<and> isgraph wc"
definition iswlower :: "i32 \<Rightarrow> bool" where "iswlower wc \<longleftrightarrow> ascii_wint wc \<and> islower wc"
definition iswprint :: "i32 \<Rightarrow> bool" where "iswprint wc \<longleftrightarrow> ascii_wint wc \<and> isprint wc"
definition iswpunct :: "i32 \<Rightarrow> bool" where "iswpunct wc \<longleftrightarrow> ascii_wint wc \<and> ispunct wc"
definition iswspace :: "i32 \<Rightarrow> bool" where "iswspace wc \<longleftrightarrow> ascii_wint wc \<and> isspace wc"
definition iswupper :: "i32 \<Rightarrow> bool" where "iswupper wc \<longleftrightarrow> ascii_wint wc \<and> isupper wc"
definition iswxdigit :: "i32 \<Rightarrow> bool" where "iswxdigit wc \<longleftrightarrow> ascii_wint wc \<and> isxdigit wc"
definition towlower :: "i32 \<Rightarrow> i32" where
  "towlower wc = (if ascii_wint wc then tolower wc else wc)"
definition towupper :: "i32 \<Rightarrow> i32" where
  "towupper wc = (if ascii_wint wc then toupper wc else wc)"

definition wctype :: "string option \<Rightarrow> nat" where
  "wctype property = (case property of None \<Rightarrow> 0 | Some p \<Rightarrow>
     if p = ''alnum'' then 1 else if p = ''alpha'' then 2
     else if p = ''blank'' then 3 else if p = ''cntrl'' then 4
     else if p = ''digit'' then 5 else if p = ''graph'' then 6
     else if p = ''lower'' then 7 else if p = ''print'' then 8
     else if p = ''punct'' then 9 else if p = ''space'' then 10
     else if p = ''upper'' then 11 else if p = ''xdigit'' then 12 else 0)"

definition iswctype :: "i32 \<Rightarrow> nat \<Rightarrow> bool" where
  "iswctype wc desc =
     (if desc = 1 then iswalnum wc else if desc = 2 then iswalpha wc
      else if desc = 3 then iswblank wc else if desc = 4 then iswcntrl wc
      else if desc = 5 then iswdigit wc else if desc = 6 then iswgraph wc
      else if desc = 7 then iswlower wc else if desc = 8 then iswprint wc
      else if desc = 9 then iswpunct wc else if desc = 10 then iswspace wc
      else if desc = 11 then iswupper wc else if desc = 12 then iswxdigit wc else False)"

definition wctrans :: "string option \<Rightarrow> nat" where
  "wctrans property = (case property of None \<Rightarrow> 0 | Some p \<Rightarrow>
     if p = ''tolower'' then 1 else if p = ''toupper'' then 2 else 0)"

definition towctrans :: "i32 \<Rightarrow> nat \<Rightarrow> i32" where
  "towctrans wc desc =
     (if desc = 1 then towlower wc else if desc = 2 then towupper wc else wc)"

subsection \<open>The range test\<close>

text \<open>
  The unsigned subtraction makes one comparison of two: it is the interval test on the value, for
  every 32-bit argument, as long as the interval is not empty and does not wrap.
\<close>

lemma range_test_int:
  "0 \<le> c \<Longrightarrow> l \<le> h \<Longrightarrow> h < 2 ^ 31 \<Longrightarrow> c < 2 ^ 32 \<Longrightarrow>
    ((if l \<le> c then c - l else c - l + 2 ^ 32) < h - l + 1) \<longleftrightarrow> l \<le> c \<and> c \<le> (h :: int)"
  by auto

lemma ctype_in_range_iff:
  assumes "lo \<le> hi" and "uint hi < 2 ^ 31"
  shows "ctype_in_range lo ch hi \<longleftrightarrow> lo \<le> ch \<and> ch \<le> hi"
proof -
  have b: "uint lo \<le> uint hi" using assms(1) by (simp add: word_le_def)
  have "uint (hi - lo) = uint hi - uint lo" using b by (simp add: uint_sub_if')
  moreover have "uint hi - uint lo < 2 ^ 31"
    using assms(2) uint_ge_0 [of lo] by linarith
  ultimately have hl: "uint (hi - lo + 1) = uint hi - uint lo + 1"
    by (simp add: uint_plus_if')
  have "uint (ch - lo) = (if uint lo \<le> uint ch then uint ch - uint lo
          else uint ch - uint lo + 2 ^ 32)"
    by (simp add: uint_sub_if')
  then have "uint (ch - lo) < uint hi - uint lo + 1 \<longleftrightarrow> uint lo \<le> uint ch \<and> uint ch \<le> uint hi"
    using range_test_int [of "uint ch" "uint lo" "uint hi"] b assms(2) uint_lt2p [of ch] by simp
  then show ?thesis
    by (simp add: ctype_in_range_def word_less_def word_le_def hl)
qed

lemma isdigit_iff: "isdigit ch \<longleftrightarrow> 48 \<le> ch \<and> ch \<le> 57"
  by (simp add: isdigit_def ctype_in_range_iff)

lemma isupper_iff: "isupper ch \<longleftrightarrow> 65 \<le> ch \<and> ch \<le> 90"
  by (simp add: isupper_def ctype_in_range_iff)

lemma islower_iff: "islower ch \<longleftrightarrow> 97 \<le> ch \<and> ch \<le> 122"
  by (simp add: islower_def ctype_in_range_iff)

lemma isgraph_iff: "isgraph ch \<longleftrightarrow> 33 \<le> ch \<and> ch \<le> 126"
  by (simp add: isgraph_def ctype_in_range_iff)

lemma isprint_iff: "isprint ch \<longleftrightarrow> 32 \<le> ch \<and> ch \<le> 126"
  by (simp add: isprint_def ctype_in_range_iff)

lemma isspace_iff: "isspace ch \<longleftrightarrow> ch = 32 \<or> 9 \<le> ch \<and> ch \<le> 13"
  by (simp add: isspace_def ctype_in_range_iff)

text \<open>
  Where the case bit is forced on first, an argument in the range is ASCII (setting a bit never
  makes the value smaller), and the 128 ASCII values are checked one by one.
\<close>

lemma ascii_induct:
  assumes "list_all (\<lambda>n. P (word_of_nat n)) [0..<128]" and "(ch :: i32) < 128"
  shows "P ch"
proof -
  have "unat ch < 128" using assms(2) by (simp add: word_less_nat_alt)
  moreover have "\<forall>n < 128. P (word_of_nat n)" using assms(1) by (simp add: list_all_iff)
  ultimately have "P (word_of_nat (unat ch))" by blast
  then show ?thesis by simp
qed

lemma or_case_bit_ge: "(ch :: i32) \<le> ch OR 0x20"
  by (rule le_word_or2)

lemma isalpha_iff: "isalpha ch \<longleftrightarrow> isupper ch \<or> islower ch"
proof (cases "ch < 128")
  case True
  then show ?thesis
    by (rule ascii_induct [where P = "\<lambda>ch. isalpha ch \<longleftrightarrow> isupper ch \<or> islower ch", rotated])
      (code_simp)
next
  case False
  then have "\<not> ch \<le> 122" and "\<not> ch OR 0x20 \<le> 122" and "\<not> ch \<le> 90"
    using or_case_bit_ge [of ch] by (auto simp: word_le_def word_less_def)
  then show ?thesis
    by (simp add: isalpha_def tolower_unsafe_def ctype_in_range_iff isupper_iff islower_iff)
qed

lemma isxdigit_iff:
  "isxdigit ch \<longleftrightarrow> isdigit ch \<or> 65 \<le> ch \<and> ch \<le> 70 \<or> 97 \<le> ch \<and> ch \<le> 102"
proof (cases "ch < 128")
  case True
  then show ?thesis
    by (rule ascii_induct [where P = "\<lambda>ch. isxdigit ch \<longleftrightarrow>
          isdigit ch \<or> 65 \<le> ch \<and> ch \<le> 70 \<or> 97 \<le> ch \<and> ch \<le> 102", rotated]) code_simp
next
  case False
  then have "\<not> ch OR 0x20 \<le> 102" and "\<not> ch \<le> 102" and "\<not> ch \<le> 70"
    using or_case_bit_ge [of ch] by (auto simp: word_le_def word_less_def)
  then show ?thesis
    by (simp add: isxdigit_def tolower_unsafe_def ctype_in_range_iff)
qed

lemmas ctype_iffs = isdigit_iff isupper_iff islower_iff isgraph_iff isprint_iff isspace_iff

lemma tolower_idem: "tolower (tolower ch) = tolower ch"
proof (cases "ch < 128")
  case True
  then show ?thesis
    by (rule ascii_induct [where P = "\<lambda>ch. tolower (tolower ch) = tolower ch", rotated]) code_simp
next
  case False
  then show ?thesis by (simp add: tolower_def ctype_in_range_iff word_le_def word_less_def)
qed

lemma toupper_tolower:
  "isalpha ch \<Longrightarrow> toupper (tolower ch) = toupper ch \<and> tolower (toupper ch) = tolower ch"
proof -
  assume a: "isalpha ch"
  then have "ch < 128"
    by (auto simp: isalpha_iff isupper_iff islower_iff word_le_def word_less_def)
  then have "isalpha ch \<longrightarrow> toupper (tolower ch) = toupper ch \<and> tolower (toupper ch) = tolower ch"
    by (rule ascii_induct [where P = "\<lambda>ch. isalpha ch \<longrightarrow> toupper (tolower ch) = toupper ch \<and>
          tolower (toupper ch) = tolower ch", rotated]) code_simp
  with a show ?thesis by simp
qed

lemma isalpha_uint:
  "isalpha ch \<longleftrightarrow> 65 \<le> uint ch \<and> uint ch \<le> 90 \<or> 97 \<le> uint ch \<and> uint ch \<le> 122"
  by (simp add: isalpha_iff ctype_iffs word_le_def)

lemma isalnum_uint:
  "isalnum ch \<longleftrightarrow> isalpha ch \<or> 48 \<le> uint ch \<and> uint ch \<le> 57"
  by (simp add: isalnum_def ctype_iffs word_le_def)

text \<open>The classes by the ranges of the codes, and how they divide the ASCII characters.\<close>

lemma classes_by_range:
  "(isalpha ch \<longleftrightarrow> 65 \<le> uint ch \<and> uint ch \<le> 90 \<or> 97 \<le> uint ch \<and> uint ch \<le> 122) \<and>
   (isdigit ch \<longleftrightarrow> 48 \<le> uint ch \<and> uint ch \<le> 57) \<and>
   (isgraph ch \<longleftrightarrow> isalnum ch \<noteq> ispunct ch) \<and>
   (isprint ch \<longleftrightarrow> uint ch = 32 \<or> isgraph ch) \<and>
   (isascii ch \<longleftrightarrow> iscntrl ch \<noteq> isprint ch)"
  unfolding ispunct_def isalnum_uint isalpha_uint isascii_def iscntrl_def ctype_iffs
    word_le_def word_less_def word_uint_eq_iff
  by (simp, presburger)

end
