(* ===== verification/CRT_Copy.thy ===== *)
theory CRT_Copy
  imports CRT_Ctype
begin

text \<open>
  Block operations on memory: \<^verbatim>\<open>libc/src/string/bcopy.c\<close>, which \<open>memcpy.c\<close> and
  \<open>memmove.c\<close> include as their body, and \<open>memset.c\<close>, \<open>memccpy.c\<close>, \<open>memchr.c\<close>,
  \<open>memrchr.c\<close>, \<open>memcmp.c\<close>, \<open>memmem.c\<close>, \<open>memset_explicit.c\<close>, \<open>strings_compat.c\<close>.
  A pointer's low bits are those of its address; \<open>uintptr_t\<close> is 8 bytes. An access through
  \<open>word*\<close> to an address that is not a multiple of 8 is undefined in C and a fault here.
\<close>

subsection \<open>bcopy.c\<close>

definition wsize :: nat where "wsize = 8"
definition wmask :: nat where "wmask = wsize - 1"

definition copy_small_stores :: "mem \<Rightarrow> addr \<Rightarrow> addr \<Rightarrow> nat \<Rightarrow> (addr \<times> string) list option" where
  "copy_small_stores m dst src len =
     (if len \<ge> 8 then do {
        head \<leftarrow> load_n m src 8;
        tail \<leftarrow> load_n m (src + len - 8) 8;
        Some [(dst, head), (dst + len - 8, tail)] }
      else if len \<ge> 4 then do {
        head \<leftarrow> load_n m src 4;
        tail \<leftarrow> load_n m (src + len - 4) 4;
        Some [(dst, head), (dst + len - 4, tail)] }
      else if len \<ge> 2 then do {
        head \<leftarrow> load_n m src 2;
        tail \<leftarrow> load_n m (src + len - 2) 2;
        Some [(dst, head), (dst + len - 2, tail)] }
      else if len = 1 then do {
        c \<leftarrow> load m src;
        Some [(dst, [c])] }
      else Some [])"

fun do_stores :: "mem \<Rightarrow> (addr \<times> string) list \<Rightarrow> mem option" where
  "do_stores m [] = Some m"
| "do_stores m ((p, cs) # sts) = do { m \<leftarrow> store_n m p cs; do_stores m sts }"

definition crt_copy_small :: "mem \<Rightarrow> addr \<Rightarrow> addr \<Rightarrow> nat \<Rightarrow> (bool \<times> mem) option" where
  "crt_copy_small m dst src len =
     (if len > 16 then Some (False, m)
      else do {
        sts \<leftarrow> copy_small_stores m dst src len;
        m \<leftarrow> do_stores m sts;
        Some (True, m) })"

definition word_copy :: "nat \<Rightarrow> mem \<Rightarrow> addr \<Rightarrow> addr \<Rightarrow> mem option" where
  "word_copy w m dst src =
     (if src mod w = 0 \<and> dst mod w = 0
      then do { cs \<leftarrow> load_n m src w; store_n m dst cs } else None)"

fun tloop_up :: "nat \<Rightarrow> mem \<Rightarrow> addr \<Rightarrow> addr \<Rightarrow> nat \<Rightarrow> (mem \<times> addr \<times> addr) option" where
  "tloop_up w m dst src 0 = Some (m, dst, src)"
| "tloop_up w m dst src (Suc t) = do {
     m \<leftarrow> word_copy w m dst src;
     tloop_up w m (dst + w) (src + w) t }"

fun tloop_down :: "nat \<Rightarrow> mem \<Rightarrow> addr \<Rightarrow> addr \<Rightarrow> nat \<Rightarrow> (mem \<times> addr \<times> addr) option" where
  "tloop_down w m dst src 0 = Some (m, dst, src)"
| "tloop_down w m dst src (Suc t) = do {
     m \<leftarrow> word_copy w m (dst - w) (src - w);
     tloop_down w m (dst - w) (src - w) t }"

definition bcopy_up :: "mem \<Rightarrow> addr \<Rightarrow> addr \<Rightarrow> nat \<Rightarrow> mem option" where
  "bcopy_up m dst src len = do {
     (m, dst, src, len) \<leftarrow>
       (if (src OR dst) AND wmask \<noteq> 0 then
          let t = (if (src XOR dst) AND wmask \<noteq> 0 \<or> len < wsize then len
                   else wsize - (src AND wmask))
          in do {
            (m, dst, src) \<leftarrow> tloop_up 1 m dst src t;
            Some (m, dst, src, len - t) }
        else Some (m, dst, src, len));
     (m, dst, src) \<leftarrow> tloop_up wsize m dst src (len div wsize);
     (m, dst, src) \<leftarrow> tloop_up 1 m dst src (len AND wmask);
     Some m }"

definition bcopy_down :: "mem \<Rightarrow> addr \<Rightarrow> addr \<Rightarrow> nat \<Rightarrow> mem option" where
  "bcopy_down m dst src len = (
     let src = src + len; dst = dst + len in do {
     (m, dst, src, len) \<leftarrow>
       (if (src OR dst) AND wmask \<noteq> 0 then
          let t = (if (src XOR dst) AND wmask \<noteq> 0 \<or> len \<le> wsize then len
                   else src AND wmask)
          in do {
            (m, dst, src) \<leftarrow> tloop_down 1 m dst src t;
            Some (m, dst, src, len - t) }
        else Some (m, dst, src, len));
     (m, dst, src) \<leftarrow> tloop_down wsize m dst src (len div wsize);
     (m, dst, src) \<leftarrow> tloop_down 1 m dst src (len AND wmask);
     Some m })"

definition bcopy :: "mem \<Rightarrow> addr \<Rightarrow> addr \<Rightarrow> nat \<Rightarrow> mem option" where
  "bcopy m src dst len =
     (if len = 0 \<or> dst = src then Some m
      else do {
        (small, m) \<leftarrow> crt_copy_small m dst src len;
        if small then Some m
        else if dst < src then bcopy_up m dst src len
        else bcopy_down m dst src len })"

text \<open>\<open>memcpy\<close> and \<open>memmove\<close> are the same body, and return the destination.\<close>

definition memcpy :: "mem \<Rightarrow> addr \<Rightarrow> addr \<Rightarrow> nat \<Rightarrow> (mem \<times> addr) option" where
  "memcpy m dst src len = map_option (\<lambda>m. (m, dst)) (bcopy m src dst len)"

definition memmove :: "mem \<Rightarrow> addr \<Rightarrow> addr \<Rightarrow> nat \<Rightarrow> (mem \<times> addr) option" where
  "memmove m dst src len = map_option (\<lambda>m. (m, dst)) (bcopy m src dst len)"

subsection \<open>The copy loops\<close>

lemma word_copy_Some:
  assumes "bytes_at m src s" and "length s = w" and "mapped m dst w"
    and "src mod w = 0" and "dst mod w = 0"
  shows "word_copy w m dst src = Some (mem_put m dst s)"
  using assms by (simp add: word_copy_def load_n_Some store_n_Some)

text \<open>Upwards: the destination lies below the source, so no store reaches a byte still to be read.\<close>

lemma tloop_up_Some:
  assumes "bytes_at m src s" and "length s = w * t" and "mapped m dst (w * t)" and "dst \<le> src"
    and "src mod w = 0" and "dst mod w = 0"
  shows "tloop_up w m dst src t = Some (mem_put m dst s, dst + w * t, src + w * t)"
  using assms
proof (induction t arbitrary: m dst src s)
  case (Suc t)
  define s1 s2 where "s1 = take w s" and "s2 = drop w s"
  have s: "s = s1 @ s2" and l1: "length s1 = w" and l2: "length s2 = w * t"
    using Suc.prems(2) by (simp_all add: s1_def s2_def)
  have b1: "bytes_at m src s1" and b2: "bytes_at m (src + w) s2"
    using Suc.prems(1) l1 by (simp_all add: s)
  have m1: "mapped m dst w" and m2: "mapped m (dst + w) (w * t)"
    using Suc.prems(3) by (simp_all add: mapped_add)
  have "bytes_at (mem_put m dst s1) (src + w) s2"
    using b2 Suc.prems(4) by (subst bytes_at_put_other) (simp_all add: l1)
  from Suc.IH [OF this l2 mapped_mem_put [OF m2]] Suc.prems(4-6)
  have "tloop_up w (mem_put m dst s1) (dst + w) (src + w) t =
      Some (mem_put (mem_put m dst s1) (dst + w) s2, dst + w + w * t, src + w + w * t)"
    by simp
  then show ?case
    using word_copy_Some [OF b1 l1 m1 Suc.prems(5,6)]
    by (simp add: s mem_put_append l1 add.assoc)
qed simp

text \<open>Downwards: the destination lies above the source.\<close>

lemma tloop_down_Some:
  assumes "bytes_at m src s" and "length s = w * t" and "mapped m dst (w * t)" and "src \<le> dst"
    and "src mod w = 0" and "dst mod w = 0"
  shows "tloop_down w m (dst + w * t) (src + w * t) t = Some (mem_put m dst s, dst, src)"
  using assms
proof (induction t arbitrary: m s)
  case (Suc t)
  define s1 s2 where "s1 = take (w * t) s" and "s2 = drop (w * t) s"
  have s: "s = s1 @ s2" and l1: "length s1 = w * t" and l2: "length s2 = w"
    using Suc.prems(2) by (simp_all add: s1_def s2_def)
  let ?m = "mem_put m (dst + w * t) s2"
  have b2: "bytes_at m (src + w * t) s2" and b1: "bytes_at ?m src s1"
    using Suc.prems(1,4) l1 by (simp_all add: s bytes_at_put_other)
  have m1: "mapped m dst (w * t)" and m2: "mapped m (dst + w * t) w"
    using Suc.prems(3) mapped_add [of m dst "w * t" w] by (simp_all add: add.commute)
  have "word_copy w m (dst + w * t) (src + w * t) = Some ?m"
    using Suc.prems(5,6) by (intro word_copy_Some [OF b2 l2 m2]) simp_all
  moreover have "tloop_down w ?m (dst + w * t) (src + w * t) t = Some (mem_put ?m dst s1, dst, src)"
    using Suc.prems(4-6) by (intro Suc.IH [OF b1 l1 mapped_mem_put [OF m1]])
  moreover have "mem_put ?m dst s1 = mem_put m dst s"
    by (simp add: s mem_put_append l1 mem_put_swap)
  ultimately show ?case by (simp add: add.commute [of w] add.assoc)
qed simp

subsection \<open>Alignment arithmetic\<close>

lemma and_wmask: "n AND wmask = n mod wsize"
  unfolding wmask_def wsize_def using take_bit_eq_mod [of 3 n] by (simp add: take_bit_eq_mask mask_eq_exp_minus_1)

lemma or_wmask_zero: "(a OR b) AND wmask = 0 \<longleftrightarrow> a mod wsize = 0 \<and> b mod wsize = 0"
proof -
  have "(a OR b) AND wmask = (a AND wmask) OR (b AND wmask)"
    by (simp add: bit.conj_disj_distrib2 bit_eq_iff bit_simps; blast)
  then show ?thesis by (simp add: and_wmask [symmetric] or_eq_0_iff)
qed

lemma xor_wmask_zero: "(a XOR b) AND wmask = 0 \<longleftrightarrow> a mod wsize = b mod wsize"
proof -
  have "(a XOR b) AND wmask = (a AND wmask) XOR (b AND wmask)"
    by (simp add: bit_eq_iff bit_simps; blast)
  moreover have "x XOR y = 0 \<longleftrightarrow> x = y" for x y :: nat
    by (auto simp: bit_eq_iff bit_simps)
  ultimately show ?thesis by (simp add: and_wmask [symmetric])
qed

lemma wsize_dvd_mod: "n mod wsize + wsize * (n div wsize) = n"
  by simp

subsection \<open>Correctness of the copy\<close>

lemma tloop_up_tail:
  assumes b: "bytes_at m src s" and n: "n = length s" and mp: "mapped m dst n" and le: "dst \<le> src"
    and al: "n = 0 \<or> src mod wsize = 0 \<and> dst mod wsize = 0"
  shows "do { (m, dst, src) \<leftarrow> tloop_up wsize m dst src (n div wsize);
              (m, dst, src) \<leftarrow> tloop_up 1 m dst src (n AND wmask);
              Some m } = Some (mem_put m dst s)"
proof (cases "n = 0")
  case True
  with n show ?thesis by (simp add: and_wmask)
next
  case False
  define k where "k = wsize * (n div wsize)"
  define s1 s2 where "s1 = take k s" and "s2 = drop k s"
  have k: "k + n mod wsize = n" "k \<le> n" by (simp_all add: k_def)
  have s: "s = s1 @ s2" and l1: "length s1 = k" and l2: "length s2 = n mod wsize"
    using n k by (simp_all add: s1_def s2_def)
  have b1: "bytes_at m src s1" and b2: "bytes_at m (src + k) s2"
    using b l1 by (simp_all add: s)
  have m1: "mapped m dst k" and m2: "mapped m (dst + k) (n mod wsize)"
    using mp k(1) mapped_add [of m dst k "n mod wsize"] by simp_all
  have "tloop_up wsize m dst src (n div wsize) = Some (mem_put m dst s1, dst + k, src + k)"
    using tloop_up_Some [OF b1 l1 [unfolded k_def] m1 [unfolded k_def] le] al False
    by (simp add: k_def)
  moreover have "bytes_at (mem_put m dst s1) (src + k) s2"
    using b2 le by (subst bytes_at_put_other) (simp_all add: l1)
  then have "tloop_up 1 (mem_put m dst s1) (dst + k) (src + k) (n mod wsize) =
      Some (mem_put (mem_put m dst s1) (dst + k) s2, dst + k + n mod wsize, src + k + n mod wsize)"
    using tloop_up_Some [of _ _ s2 1 "n mod wsize" "dst + k"] m2 le by (simp add: l2)
  ultimately show ?thesis
    by (simp add: and_wmask s mem_put_append l1)
qed

lemma bcopy_up_Some:
  assumes b: "bytes_at m src s" and n: "n = length s" and mp: "mapped m dst n" and le: "dst \<le> src"
  shows "bcopy_up m dst src n = Some (mem_put m dst s)"
proof (cases "(src OR dst) AND wmask = 0")
  case True
  then show ?thesis
    using tloop_up_tail [OF b n mp le] by (simp add: bcopy_up_def or_wmask_zero)
next
  case False
  define t where "t = (if (src XOR dst) AND wmask \<noteq> 0 \<or> n < wsize then n
      else wsize - (src AND wmask))"
  have tn: "t \<le> n" by (auto simp: t_def wsize_def)
  define s1 s2 where "s1 = take t s" and "s2 = drop t s"
  have s: "s = s1 @ s2" and l1: "length s1 = 1 * t" and l2: "n - t = length s2"
    using n tn by (simp_all add: s1_def s2_def)
  have b1: "bytes_at m src s1" and b2: "bytes_at m (src + t) s2"
    using b l1 by (simp_all add: s)
  have m1: "mapped m dst (1 * t)" and m2: "mapped m (dst + t) (n - t)"
    using mp tn mapped_add [of m dst t "n - t"] by simp_all
  have copy1: "tloop_up 1 m dst src t = Some (mem_put m dst s1, dst + t, src + t)"
    using tloop_up_Some [OF b1 l1 m1 le] by simp
  have b2': "bytes_at (mem_put m dst s1) (src + t) s2"
    using b2 le l1 by (subst bytes_at_put_other) simp_all
  have "n - t = 0 \<or> (src + t) mod wsize = 0 \<and> (dst + t) mod wsize = 0"
  proof (cases "n - t = 0")
    case False
    then have x: "(src XOR dst) AND wmask = 0" and t: "t = wsize - src mod wsize"
      by (auto simp: t_def and_wmask [of src] split: if_splits)
    from x have eq: "src mod wsize = dst mod wsize" by (simp only: xor_wmask_zero)
    have "(x + (wsize - x mod wsize)) mod wsize = 0" for x
      unfolding wsize_def by presburger
    from this [of src] this [of dst] eq t show ?thesis by simp
  qed simp
  from tloop_up_tail [OF b2' l2 mapped_mem_put [OF m2] _ this] le
  show ?thesis
    using False copy1 l1 unfolding bcopy_up_def Let_def t_def [symmetric]
    by (simp add: s mem_put_append)
qed

lemma tloop_down_tail:
  assumes b: "bytes_at m src s" and n: "n = length s" and mp: "mapped m dst n" and le: "src \<le> dst"
    and al: "n = 0 \<or> (src + n) mod wsize = 0 \<and> (dst + n) mod wsize = 0"
  shows "do { (m, dst, src) \<leftarrow> tloop_down wsize m (dst + n) (src + n) (n div wsize);
              (m, dst, src) \<leftarrow> tloop_down 1 m dst src (n AND wmask);
              Some m } = Some (mem_put m dst s)"
proof (cases "n = 0")
  case True
  with n show ?thesis by (simp add: and_wmask)
next
  case False
  define r k where "r = n mod wsize" and "k = wsize * (n div wsize)"
  define s1 s2 where "s1 = take r s" and "s2 = drop r s"
  have k: "r + k = n" by (simp add: k_def r_def)
  have s: "s = s1 @ s2" and l1: "length s1 = r" and l2: "length s2 = k"
    using n k by (simp_all add: s1_def s2_def)
  have b1: "bytes_at m src s1" and b2: "bytes_at m (src + r) s2"
    using b l1 by (simp_all add: s)
  have m1: "mapped m dst r" and m2: "mapped m (dst + r) k"
    using mp k mapped_add [of m dst r k] by simp_all
  have al': "(src + r) mod wsize = 0" "(dst + r) mod wsize = 0"
    using al False k by (simp_all add: r_def k_def mod_add_eq mod_add_right_eq)
  let ?m = "mem_put m (dst + r) s2"
  have "tloop_down wsize m (dst + n) (src + n) (n div wsize) = Some (?m, dst + r, src + r)"
    using tloop_down_Some [OF b2 l2 [unfolded k_def] m2 [unfolded k_def] _ al'] le k
    by (simp add: k_def add.assoc)
  moreover have "bytes_at ?m src s1"
    using b1 le l1 by (subst bytes_at_put_other) simp_all
  then have "tloop_down 1 ?m (dst + r) (src + r) r = Some (mem_put ?m dst s1, dst, src)"
    using tloop_down_Some [of ?m src s1 1 r dst] m1 le l1 by simp
  moreover have "mem_put ?m dst s1 = mem_put m dst s"
    by (simp add: s mem_put_append l1 mem_put_swap)
  ultimately show ?thesis by (simp add: and_wmask r_def [symmetric])
qed

lemma bcopy_down_Some:
  assumes b: "bytes_at m src s" and n: "n = length s" and mp: "mapped m dst n" and le: "src \<le> dst"
  shows "bcopy_down m dst src n = Some (mem_put m dst s)"
proof (cases "((src + n) OR (dst + n)) AND wmask = 0")
  case True
  then show ?thesis
    using tloop_down_tail [OF b n mp le] by (simp add: bcopy_down_def or_wmask_zero)
next
  case False
  define t where "t = (if ((src + n) XOR (dst + n)) AND wmask \<noteq> 0 \<or> n \<le> wsize then n
      else (src + n) AND wmask)"
  have tn: "t \<le> n" using mod_less_divisor [of wsize "src + n"]
    by (auto simp: t_def wsize_def and_wmask simp del: mod_less_divisor)
  define r where "r = n - t"
  define s1 s2 where "s1 = take r s" and "s2 = drop r s"
  have s: "s = s1 @ s2" and l1: "r = length s1" and l2: "length s2 = 1 * t"
    using n tn by (simp_all add: s1_def s2_def r_def)
  have rt: "n = r + t" using tn by (simp add: r_def)
  have b1: "bytes_at m src s1" and b2: "bytes_at m (src + r) s2"
    using b l1 by (simp_all add: s)
  have m1: "mapped m dst r" and m2: "mapped m (dst + r) (1 * t)"
    using mp rt mapped_add [of m dst r t] by simp_all
  let ?m = "mem_put m (dst + r) s2"
  have copy2: "tloop_down 1 m (dst + n) (src + n) t = Some (?m, dst + r, src + r)"
    using tloop_down_Some [OF b2 l2 m2] le rt by (simp add: add.assoc)
  have b1': "bytes_at ?m src s1"
    using b1 le l1 by (subst bytes_at_put_other) simp_all
  have "r = 0 \<or> (src + r) mod wsize = 0 \<and> (dst + r) mod wsize = 0"
  proof (cases "r = 0")
    case False
    then have x: "((src + n) XOR (dst + n)) AND wmask = 0" and t: "t = (src + n) mod wsize"
      by (auto simp: t_def r_def and_wmask [of "src + n"] split: if_splits)
    from x have eq: "(src + n) mod wsize = (dst + n) mod wsize" by (simp only: xor_wmask_zero)
    have "src + r = src + n - (src + n) mod wsize" "dst + r = dst + n - (dst + n) mod wsize"
      using rt eq t by simp_all
    then show ?thesis by (simp only: minus_mod_eq_mult_div) simp
  qed simp
  from tloop_down_tail [OF b1' l1 mapped_mem_put [OF m1] le this]
  show ?thesis
    using False copy2 rt unfolding bcopy_down_def Let_def t_def [symmetric]
    by (simp add: s mem_put_append l1 [symmetric] mem_put_swap)
qed

text \<open>
  The small path loads head and tail before it stores either, so it also serves overlapping blocks;
  the two stores agree on the bytes they share.
\<close>

lemma two_stores:
  assumes "length s = n" and "w \<le> n" and "n \<le> 2 * w" and "mapped m dst n"
  shows "do_stores m [(dst, take w s), (dst + n - w, drop (n - w) s)] = Some (mem_put m dst s)"
proof -
  have m1: "mapped m dst w" and m2: "mapped m (dst + n - w) w"
    using assms mapped_mono [of m dst n w] mapped_add [of m dst "n - w" w] by simp_all
  have "mem_put (mem_put m dst (take w s)) (dst + n - w) (drop (n - w) s) = mem_put m dst s"
    using assms by (intro ext) (auto simp: mem_put_def add.commute)
  with m1 m2 assms show ?thesis by (simp add: store_n_Some)
qed

lemma two_loads:
  assumes "bytes_at m src s" and "length s = n" and "w \<le> n"
  shows "load_n m src w = Some (take w s)" "load_n m (src + n - w) w = Some (drop (n - w) s)"
  using assms bytes_at_take [of m src s w] bytes_at_drop [of m src s "n - w"]
  by (simp_all add: load_n_Some)

lemma copy_small_stores_Some:
  assumes b: "bytes_at m src s" and n: "length s = n" and "0 < n" "n \<le> 16"
  shows "\<exists>w. w \<le> n \<and> n \<le> 2 * w \<and>
    (copy_small_stores m dst src n = Some [(dst, take w s), (dst + n - w, drop (n - w) s)] \<or>
     w = n \<and> copy_small_stores m dst src n = Some [(dst, s)])"
proof -
  consider "8 \<le> n" | "4 \<le> n" "n < 8" | "2 \<le> n" "n < 4" | "n = 1"
    using assms(3) by linarith
  then show ?thesis
  proof cases
    case 1 then show ?thesis using two_loads [OF b n, of 8] assms(4)
      by (intro exI [of _ 8]) (simp add: copy_small_stores_def)
  next
    case 2 then show ?thesis using two_loads [OF b n, of 4]
      by (intro exI [of _ 4]) (simp add: copy_small_stores_def)
  next
    case 3 then show ?thesis using two_loads [OF b n, of 2]
      by (intro exI [of _ 2]) (simp add: copy_small_stores_def)
  next
    case 4 then obtain c where "s = [c]" using n by (cases s) auto
    then show ?thesis using b 4
      by (intro exI [of _ 1]) (simp add: copy_small_stores_def load_def)
  qed
qed

lemma crt_copy_small_Some:
  assumes "bytes_at m src s" and "length s = n" and "0 < n" "n \<le> 16" and mp: "mapped m dst n"
  shows "crt_copy_small m dst src n = Some (True, mem_put m dst s)"
proof -
  from copy_small_stores_Some [OF assms(1-4), of dst] obtain w where w: "w \<le> n" "n \<le> 2 * w"
    and st: "copy_small_stores m dst src n = Some [(dst, take w s), (dst + n - w, drop (n - w) s)] \<or>
      w = n \<and> copy_small_stores m dst src n = Some [(dst, s)]" by blast
  from st show ?thesis
    using two_stores [OF assms(2) w mp] assms(2,4) mp
    by (auto simp: crt_copy_small_def store_n_Some)
qed

lemma bcopy_Some:
  assumes b: "bytes_at m src s" and n: "n = length s" and mp: "mapped m dst n"
  shows "bcopy m src dst n = Some (mem_put m dst s)"
proof -
  consider "n = 0" | "dst = src" | "0 < n" "n \<le> 16" "dst \<noteq> src"
    | "16 < n" "dst < src" | "16 < n" "src < dst"
    by linarith
  then show ?thesis
  proof cases
    case 1 then show ?thesis using n by (simp add: bcopy_def)
  next
    case 2 then show ?thesis using b by (simp add: bcopy_def mem_put_same)
  next
    case 3 then show ?thesis using crt_copy_small_Some [OF b n [symmetric] _ _ mp]
      by (simp add: bcopy_def)
  next
    case 4 then show ?thesis using bcopy_up_Some [OF b n mp]
      by (simp add: bcopy_def crt_copy_small_def)
  next
    case 5 then show ?thesis using bcopy_down_Some [OF b n mp]
      by (simp add: bcopy_def crt_copy_small_def)
  qed
qed

text \<open>
  The contract its callers rely on: a copy of a block that is really there to a place that is really
  there leaves the memory updated with exactly that block.
\<close>

locale block_copy =
  fixes copy :: "'a cells \<Rightarrow> addr \<Rightarrow> addr \<Rightarrow> nat \<Rightarrow> ('a cells \<times> addr) option"
  assumes copy_block: "bytes_at m src s \<Longrightarrow> n = length s \<Longrightarrow> mapped m dst n \<Longrightarrow>
      copy m dst src n = Some (mem_put m dst s, dst)"
begin

lemma copy_readable: "mapped m src n \<Longrightarrow> mapped m dst n \<Longrightarrow>
    \<exists>s. length s = n \<and> bytes_at m src s \<and> copy m dst src n = Some (mem_put m dst s, dst)"
  using mapped_bytes [of m src n] copy_block by metis

lemma copy_outside: "mapped m src n \<Longrightarrow> mapped m dst n \<Longrightarrow> a < dst \<or> dst + n \<le> a \<Longrightarrow>
    \<exists>m'. copy m dst src n = Some (m', dst) \<and> m' a = m a"
  using copy_readable [of m src n dst] by auto

lemma copy_terminate:
  assumes "bytes_at m src s" and "k \<le> length s" and "mapped m dst (Suc k)"
  shows "do { (m, _) \<leftarrow> copy m dst src k; store m (dst + k) z } =
    Some (mem_put m dst (take k s @ [z]))"
proof -
  have "mapped m dst k" and d: "m (dst + k) \<noteq> None"
    using assms(3) mapped_add [of m dst k 1] by (simp_all add: mapped_Suc)
  with copy_block [OF bytes_at_take [OF assms(1), of k], of k dst] assms(2)
  have "copy m dst src k = Some (mem_put m dst (take k s), dst)" by simp
  moreover have "mem_put m dst (take k s) (dst + k) \<noteq> None"
    using d assms(2) by simp
  ultimately show ?thesis using assms(2)
    by (simp add: mem_put_snoc del: not_None_eq)
qed

end

text \<open>The same contract for bytes, where a string goes over with its terminator.\<close>

locale byte_copy = block_copy copy for copy :: "mem \<Rightarrow> addr \<Rightarrow> addr \<Rightarrow> nat \<Rightarrow> (mem \<times> addr) option"
begin

lemma copy_cstr:
  assumes "cstr m src s" and "mapped m dst (Suc (length s))"
  shows "copy m dst src (Suc (length s)) = Some (mem_put m dst (s @ [NUL]), dst)"
  using copy_block [OF cstr_bytes_NUL [OF assms(1)]] assms(2) by simp

end

interpretation memcpy: byte_copy memcpy
  by unfold_locales (simp add: memcpy_def bcopy_Some)

interpretation memmove: byte_copy memmove
  by unfold_locales (simp add: memmove_def bcopy_Some)

subsection \<open>memset and memccpy\<close>

function memset_loop :: "mem \<Rightarrow> addr \<Rightarrow> addr \<Rightarrow> char \<Rightarrow> mem option" where
  "memset_loop m q e c =
     (if q \<ge> e then Some m else do {
        m \<leftarrow> store m q c;
        if q + 1 \<ge> e then Some m else do {
        m \<leftarrow> store m (q + 1) c;
        if q + 2 \<ge> e then Some m else do {
        m \<leftarrow> store m (q + 2) c;
        if q + 3 \<ge> e then Some m else do {
        m \<leftarrow> store m (q + 3) c;
        memset_loop m (q + 4) e c }}}})"
  by pat_completeness auto
termination by (relation "measure (\<lambda>(m, q, e, c). e - q)") auto

declare memset_loop.simps [simp del]

definition memset :: "mem \<Rightarrow> addr \<Rightarrow> i32 \<Rightarrow> nat \<Rightarrow> (mem \<times> addr) option" where
  "memset m dst c n = map_option (\<lambda>m. (m, dst)) (memset_loop m dst (dst + n) (char_of (unat c)))"

text \<open>The empty assembly statement of \<open>memset_explicit\<close> only keeps the compiler from dropping the
  stores, which the model never drops.\<close>

definition memset_explicit :: "mem \<Rightarrow> addr \<Rightarrow> i32 \<Rightarrow> nat \<Rightarrow> (mem \<times> addr) option" where
  "memset_explicit m dst ch n = do { (m, _) \<leftarrow> memset m dst ch n; Some (m, dst) }"

definition bzero :: "mem \<Rightarrow> addr \<Rightarrow> nat \<Rightarrow> mem option" where
  "bzero m s n = map_option fst (memset m s 0 n)"

function memccpy_loop :: "mem \<Rightarrow> addr \<Rightarrow> addr \<Rightarrow> char \<Rightarrow> nat \<Rightarrow> nat \<Rightarrow> (mem \<times> addr) option" where
  "memccpy_loop m d s ch i n =
     (if i < n then do {
        c \<leftarrow> load m (s + i);
        m \<leftarrow> store m (d + i) c;
        c \<leftarrow> load m (s + i);
        if c = ch then Some (m, d + i + 1)
        else memccpy_loop m d s ch (i + 1) n }
      else Some (m, null))"
  by pat_completeness auto
termination by (relation "measure (\<lambda>(m, d, s, ch, i, n). n - i)") auto

declare memccpy_loop.simps [simp del]

definition memccpy :: "mem \<Rightarrow> addr \<Rightarrow> addr \<Rightarrow> i32 \<Rightarrow> nat \<Rightarrow> (mem \<times> addr) option" where
  "memccpy m dst src c n = memccpy_loop m dst src (char_of (unat c)) 0 n"

text \<open>Unrolling four stores per round changes nothing: \<open>memset\<close> is a plain fill.\<close>

primrec fill :: "mem \<Rightarrow> addr \<Rightarrow> char \<Rightarrow> nat \<Rightarrow> mem option" where
  "fill m q c 0 = Some m"
| "fill m q c (Suc n) = do { m \<leftarrow> store m q c; fill m (Suc q) c n }"

lemma fill_Some: "mapped m q n \<Longrightarrow> fill m q c n = Some (mem_put m q (replicate n c))"
  by (induction n arbitrary: m q) (simp_all add: mapped_Suc mem_put_Cons del: not_None_eq)

lemma nat_cases4:
  obtains "k = 0" | "k = Suc 0" | "k = Suc (Suc 0)" | "k = Suc (Suc (Suc 0))"
    | j where "k = Suc (Suc (Suc (Suc j)))"
  by (metis old.nat.exhaust)

lemma memset_loop_fill: "memset_loop m q (q + k) c = fill m q c k"
proof (induction k arbitrary: m q rule: less_induct)
  case (less k)
  show ?case
  proof (cases k rule: nat_cases4)
    case (5 j)
    then have "memset_loop m (q + 4) (q + 4 + j) c = fill m (q + 4) c j" for m
      by (intro less.IH) simp
    with 5 show ?thesis
      by (subst memset_loop.simps) (simp add: numeral_eq_Suc)
  qed (subst memset_loop.simps, simp add: numeral_eq_Suc bind_assoc)+
qed

lemma memset_Some:
  "mapped m dst n \<Longrightarrow> memset m dst c n = Some (mem_put m dst (replicate n (char_of (unat c))), dst)"
  by (simp add: memset_def memset_loop_fill fill_Some)

lemma bzero_Some: "mapped m s n \<Longrightarrow> bzero m s n = Some (mem_put m s (replicate n NUL))"
  by (simp add: bzero_def memset_Some)

text \<open>
  The prefix that the search routines skip: the bytes before the first occurrence of \<open>c\<close>.
\<close>

abbreviation before :: "'a \<Rightarrow> 'a list \<Rightarrow> 'a list" where
  "before c s \<equiv> takeWhile (\<lambda>x. x \<noteq> c) s"

lemma memccpy_loop_Some:
  assumes "bytes_at m (src + i) s" and "mapped m (dst + i) (length s)" and "n = i + length s"
    and "dst + n \<le> src \<or> src + n \<le> dst"
  shows "memccpy_loop m dst src ch i n =
    (if ch \<in> set s
     then Some (mem_put m (dst + i) (before ch s @ [ch]), dst + i + length (before ch s) + 1)
     else Some (mem_put m (dst + i) s, null))"
  using assms
proof (induction s arbitrary: m i)
  case (Cons c s)
  have st: "store m (dst + i) c = Some (m(dst + i \<mapsto> c))"
    using Cons.prems(2) by (simp add: mapped_Suc del: not_None_eq)
  have ne: "dst + i \<noteq> src + i" using Cons.prems(3,4) by auto
  have b: "bytes_at (m(dst + i \<mapsto> c)) (src + Suc i) s"
    using Cons.prems(1,3,4) by (subst bytes_at_upd_other) auto
  have mp: "mapped (m(dst + i \<mapsto> c)) (dst + Suc i) (length s)"
    using Cons.prems(2) by (simp add: mapped_Suc)
  have n: "n = Suc i + length s" using Cons.prems(3) by simp
  have IH: "memccpy_loop (m(dst + i \<mapsto> c)) dst src ch (Suc i) n =
    (if ch \<in> set s
     then Some (mem_put (m(dst + i \<mapsto> c)) (dst + Suc i) (before ch s @ [ch]),
       dst + Suc i + length (before ch s) + 1)
     else Some (mem_put (m(dst + i \<mapsto> c)) (dst + Suc i) s, null))"
    by (rule Cons.IH [OF b mp n Cons.prems(4)])
  have step: "memccpy_loop m dst src ch i n =
    (if c = ch then Some (m(dst + i \<mapsto> c), dst + i + 1)
     else memccpy_loop (m(dst + i \<mapsto> c)) dst src ch (Suc i) n)"
    using Cons.prems(1,3) ne st by (subst memccpy_loop.simps) (simp add: load_def)
  show ?case
  proof (cases "c = ch")
    case True
    then show ?thesis unfolding step by (simp add: mem_put_single)
  next
    case False
    then show ?thesis unfolding step using IH by (simp add: mem_put_Cons [of m])
  qed
qed (simp add: memccpy_loop.simps)

lemma memccpy_Some:
  assumes "bytes_at m src s" and "mapped m dst (length s)" and "n = length s"
    and "dst + n \<le> src \<or> src + n \<le> dst"
  shows "memccpy m dst src c n = (let ch = char_of (unat c) in
    if ch \<in> set s then Some (mem_put m dst (before ch s @ [ch]), dst + length (before ch s) + 1)
    else Some (mem_put m dst s, null))"
  using memccpy_loop_Some [of m src 0 s dst n] assms by (simp add: memccpy_def Let_def)

subsection \<open>Searching and comparing blocks\<close>

function memchr_loop :: "mem \<Rightarrow> addr \<Rightarrow> addr \<Rightarrow> char \<Rightarrow> addr option" where
  "memchr_loop m p e ch =
     (if p < e then do {
        c \<leftarrow> load m p;
        if c = ch then Some p else memchr_loop m (p + 1) e ch }
      else Some null)"
  by pat_completeness auto
termination by (relation "measure (\<lambda>(m, p, e, ch). e - p)") auto

definition memchr :: "mem \<Rightarrow> addr \<Rightarrow> i32 \<Rightarrow> nat \<Rightarrow> addr option" where
  "memchr m s c n = memchr_loop m s (s + n) (char_of (unat c))"

text \<open>\<open>memrchr\<close> walks down from the end; \<open>n\<close> is the number of bytes left below \<open>p\<close>.\<close>

fun memrchr_loop :: "mem \<Rightarrow> addr \<Rightarrow> nat \<Rightarrow> char \<Rightarrow> addr option" where
  "memrchr_loop m s 0 ch = Some null"
| "memrchr_loop m s (Suc n) ch = do {
     c \<leftarrow> load m (s + n);
     if c = ch then Some (s + n) else memrchr_loop m s n ch }"

definition memrchr :: "mem \<Rightarrow> addr \<Rightarrow> i32 \<Rightarrow> nat \<Rightarrow> addr option" where
  "memrchr m s c n = memrchr_loop m s n (char_of (unat c))"

function memcmp_loop :: "mem \<Rightarrow> addr \<Rightarrow> addr \<Rightarrow> addr \<Rightarrow> int option" where
  "memcmp_loop m p1 p2 e =
     (if p1 < e then do {
        c1 \<leftarrow> load m p1;
        c2 \<leftarrow> load m p2;
        let diff = uchar c1 - uchar c2;
        if diff \<noteq> 0 then Some diff else memcmp_loop m (p1 + 1) (p2 + 1) e }
      else Some 0)"
  by pat_completeness auto
termination by (relation "measure (\<lambda>(m, p1, p2, e). e - p1)") auto

definition memcmp :: "mem \<Rightarrow> addr \<Rightarrow> addr \<Rightarrow> nat \<Rightarrow> int option" where
  "memcmp m s1 s2 n = memcmp_loop m s1 s2 (s1 + n)"

definition bcmp :: "mem \<Rightarrow> addr \<Rightarrow> addr \<Rightarrow> nat \<Rightarrow> int option" where
  "bcmp m s1 s2 n = memcmp m s1 s2 n"

declare memchr_loop.simps [simp del] memcmp_loop.simps [simp del]

text \<open>The value of a comparison: the difference at the first position where the blocks differ.\<close>

fun cmp_blocks :: "string \<Rightarrow> string \<Rightarrow> int" where
  "cmp_blocks (a # s) (b # t) = (if a = b then cmp_blocks s t else uchar a - uchar b)"
| "cmp_blocks _ _ = 0"

lemma uchar_eq_iff [simp]: "uchar a - uchar b = 0 \<longleftrightarrow> a = b"
  by simp

lemma cmp_blocks_eq_0: "length s = length t \<Longrightarrow> cmp_blocks s t = 0 \<longleftrightarrow> s = t"
  by (induction s t rule: cmp_blocks.induct) auto

lemma memchr_loop_Some:
  "bytes_at m p s \<Longrightarrow> memchr_loop m p (p + length s) ch =
    Some (if ch \<in> set s then p + length (before ch s) else null)"
proof (induction s arbitrary: p)
  case Nil then show ?case by (simp add: memchr_loop.simps)
next
  case (Cons c s)
  with Cons.IH [of "Suc p"] show ?case by (subst memchr_loop.simps) (auto simp: load_def)
qed

lemma memchr_Some:
  "bytes_at m p s \<Longrightarrow> memchr m p c (length s) = (let ch = char_of (unat c) in
    Some (if ch \<in> set s then p + length (before ch s) else null))"
  by (simp add: memchr_def memchr_loop_Some Let_def)

lemma memrchr_loop_Some:
  "bytes_at m p s \<Longrightarrow> memrchr_loop m p (length s) ch =
    Some (if ch \<in> set s then p + (length s - Suc (length (before ch (rev s)))) else null)"
  by (induction s rule: rev_induct) (auto simp: load_def)

lemma memcmp_loop_Some:
  "bytes_at m p s \<Longrightarrow> bytes_at m q t \<Longrightarrow> length s = length t \<Longrightarrow>
    memcmp_loop m p q (p + length s) = Some (cmp_blocks s t)"
proof (induction s t arbitrary: p q rule: list_induct2')
  case (4 a s b t)
  with "4.IH" [of "Suc p" "Suc q"] show ?case
    by (subst memcmp_loop.simps) (auto simp: load_def Let_def)
qed (simp_all add: memcmp_loop.simps)

lemma memcmp_Some:
  "bytes_at m p s \<Longrightarrow> bytes_at m q t \<Longrightarrow> length s = n \<Longrightarrow> length t = n \<Longrightarrow>
    memcmp m p q n = Some (cmp_blocks s t)"
  using memcmp_loop_Some [of m p s q t] by (simp add: memcmp_def)

subsection \<open>memmem\<close>

lemma memchr_loop_range:
  "memchr_loop m p e ch = Some r \<Longrightarrow> r \<noteq> null \<Longrightarrow> p \<le> r \<and> r < e"
proof (induction m p e ch rule: memchr_loop.induct)
  case (1 m p e ch)
  then show ?case
    by (subst (asm) (2) memchr_loop.simps) (auto split: if_splits dest: Suc_leD)
qed

lemma memchr_range: "memchr m s c n = Some r \<Longrightarrow> r \<noteq> null \<Longrightarrow> s \<le> r \<and> r < s + n"
  unfolding memchr_def by (rule memchr_loop_range)

function memmem_loop :: "mem \<Rightarrow> addr \<Rightarrow> nat \<Rightarrow> addr \<Rightarrow> nat \<Rightarrow> nat \<Rightarrow> addr option" where
  "memmem_loop m hay haystack_len pat needle_len i =
     (if i + needle_len \<le> haystack_len then do {
        c \<leftarrow> load m pat;
        hit \<leftarrow> memchr m (hay + i) (uch32 c) (haystack_len - needle_len + 1 - i);
        if hit = null then Some null
        else do {
          d \<leftarrow> memcmp m hit pat needle_len;
          if d = 0 then Some hit
          else memmem_loop m hay haystack_len pat needle_len (hit - hay + 1) } }
      else Some null)"
  by pat_completeness auto
termination
  by (relation "measure (\<lambda>(m, hay, hl, pat, nl, i). hl + 1 - i)") (auto dest: memchr_range)

declare memmem_loop.simps [simp del]

definition memmem :: "mem \<Rightarrow> addr \<Rightarrow> nat \<Rightarrow> addr \<Rightarrow> nat \<Rightarrow> addr option" where
  "memmem m haystack haystack_len needle needle_len =
     (if needle_len = 0 then Some haystack
      else if haystack_len < needle_len then Some null
      else memmem_loop m haystack haystack_len needle needle_len 0)"

definition occurs_at :: "string \<Rightarrow> string \<Rightarrow> nat \<Rightarrow> bool" where
  "occurs_at h pat i \<longleftrightarrow> i + length pat \<le> length h \<and> take (length pat) (drop i h) = pat"

text \<open>What a search returns: the first occurrence, or null when there is none.\<close>

definition first_occurrence :: "addr \<Rightarrow> string \<Rightarrow> string \<Rightarrow> nat \<Rightarrow> addr \<Rightarrow> bool" where
  "first_occurrence base h pat from r \<longleftrightarrow>
     (r = null \<and> (\<forall>i\<ge>from. \<not> occurs_at h pat i) \<or>
      (\<exists>i\<ge>from. r = base + i \<and> occurs_at h pat i \<and> (\<forall>j. from \<le> j \<and> j < i \<longrightarrow> \<not> occurs_at h pat j)))"

lemma occurs_at_iff:
  "occurs_at h pat i \<longleftrightarrow> i + length pat \<le> length h \<and> (\<forall>k<length pat. h ! (i + k) = pat ! k)"
  by (auto simp: occurs_at_def list_eq_iff_nth_eq)

lemma occurs_at_hd: "occurs_at h (c # pat) i \<Longrightarrow> i < length h \<and> h ! i = c"
  by (auto simp: occurs_at_iff dest!: spec [of _ 0])

lemma before_window:
  assumes "c \<in> set w"
  shows "length (before c w) < length w" "w ! length (before c w) = c"
    "j < length (before c w) \<Longrightarrow> w ! j \<noteq> c"
proof -
  from assms obtain u v where w: "w = u @ c # v" "c \<notin> set u" by (meson split_list_first)
  then have "before c w = u" by (simp, subst takeWhile_append2) auto
  with w show "length (before c w) < length w" "w ! length (before c w) = c"
    "j < length (before c w) \<Longrightarrow> w ! j \<noteq> c"
    by (auto simp: nth_append in_set_conv_nth split: if_splits)
qed

lemma first_occurrence_skip:
  assumes "\<And>k. i \<le> k \<Longrightarrow> k < j \<Longrightarrow> \<not> occurs_at h pat k" and "i \<le> j"
    and "first_occurrence base h pat j r"
  shows "first_occurrence base h pat i r"
  using assms unfolding first_occurrence_def
  by (smt (verit, best) le_trans linorder_not_le)

lemma memmem_loop_Some:
  assumes h: "bytes_at m hay h" and hl: "hl = length h" and p: "bytes_at m pp (c # pat)"
    and nl: "nl = length (c # pat)" and hay: "hay \<noteq> null" and nh: "nl \<le> hl"
  shows "\<exists>r. memmem_loop m hay hl pp nl i = Some r \<and> first_occurrence hay h (c # pat) i r"
proof (induction "hl + 1 - i" arbitrary: i rule: less_induct)
  case less
  show ?case
  proof (cases "i + nl \<le> hl")
    case False
    then show ?thesis using nl hl
      by (subst memmem_loop.simps) (auto simp: first_occurrence_def occurs_at_def)
  next
    case True
    define w where "w = take (hl - nl + 1 - i) (drop i h)"
    have lw: "length w = hl - nl + 1 - i" using hl nl nh True by (simp add: w_def)
    have wn: "w ! k = h ! (i + k)" if "k < length w" for k
      using that hl True by (simp add: w_def)
    have "bytes_at m (hay + i) w"
      using bytes_at_take [OF bytes_at_drop [OF h, of i]] True hl by (simp add: w_def)
    from memchr_Some [OF this, of "uch32 c"]
    have hit: "memchr m (hay + i) (uch32 c) (hl - nl + 1 - i) =
        Some (if c \<in> set w then hay + i + length (before c w) else null)"
      by (simp add: lw Let_def)
    have ld: "load m pp = Some c" using p by (simp add: load_def)
    have occ: "k - i < length w \<and> w ! (k - i) = c" if "occurs_at h (c # pat) k" "i \<le> k" for k
      using that occurs_at_hd [OF that(1)] lw nl hl wn [of "k - i"] by (auto simp: occurs_at_def)
    show ?thesis
    proof (cases "c \<in> set w")
      case False
      then have "first_occurrence hay h (c # pat) i null"
        using occ by (auto simp: first_occurrence_def in_set_conv_nth)
      then show ?thesis using True False hit ld by (subst memmem_loop.simps) simp
    next
      case c: True
      define j where "j = i + length (before c w)"
      have jb: "i \<le> j" "j + nl \<le> hl"
        using before_window(1) [OF c] lw True by (simp_all add: j_def)
      have skip: "\<not> occurs_at h (c # pat) k" if "i \<le> k" "k < j" for k
        using occ [of k] before_window(3) [OF c, of "k - i"] that by (auto simp: j_def)
      define b where "b = take nl (drop j h)"
      have b: "bytes_at m (hay + j) b" "length b = nl"
        using bytes_at_take [OF bytes_at_drop [OF h, of j]] jb hl by (simp_all add: b_def)
      have cmp: "memcmp m (hay + j) pp nl = Some (cmp_blocks b (c # pat))"
        using memcmp_Some [OF b(1) p] b(2) nl by simp
      have here: "cmp_blocks b (c # pat) = 0 \<longleftrightarrow> occurs_at h (c # pat) j"
        using cmp_blocks_eq_0 [of b "c # pat"] b(2) jb hl nl by (simp add: b_def occurs_at_def)
      have unf: "memmem_loop m hay hl pp nl i =
          (if cmp_blocks b (c # pat) = 0 then Some (hay + j) else memmem_loop m hay hl pp nl (j + 1))"
        using True c hit ld cmp hay by (subst memmem_loop.simps) (simp add: j_def add.assoc)
      show ?thesis
      proof (cases "occurs_at h (c # pat) j")
        case True
        then show ?thesis using unf here skip jb(1) by (auto simp: first_occurrence_def)
      next
        case no: False
        have "hl + 1 - (j + 1) < hl + 1 - i" using jb nl by simp
        from less.hyps [OF this] obtain r where r: "memmem_loop m hay hl pp nl (j + 1) = Some r"
          "first_occurrence hay h (c # pat) (j + 1) r" by blast
        have "first_occurrence hay h (c # pat) i r"
          using skip no jb(1) by (intro first_occurrence_skip [OF _ _ r(2)]) (auto simp: less_Suc_eq)
        then show ?thesis using r(1) unf no here by simp
      qed
    qed
  qed
qed

lemma memmem_Some:
  assumes "bytes_at m hay h" and "bytes_at m pp pat" and "hay \<noteq> null"
  shows "\<exists>r. memmem m hay (length h) pp (length pat) = Some r \<and> first_occurrence hay h pat 0 r"
proof (cases pat)
  case Nil
  then show ?thesis by (auto simp: memmem_def first_occurrence_def occurs_at_def)
next
  case (Cons c q)
  show ?thesis
  proof (cases "length h < length pat")
    case True
    then show ?thesis using Cons by (auto simp: memmem_def first_occurrence_def occurs_at_def)
  next
    case False
    then show ?thesis
      using memmem_loop_Some [OF assms(1) refl assms(2) [unfolded Cons] refl assms(3), of 0] Cons
      by (auto simp: memmem_def)
  qed
qed

end
