(* ===== verification/CRT_String.thy ===== *)
theory CRT_String
  imports CRT_Copy
begin

text \<open>
  The NUL-terminated string routines of \<^verbatim>\<open>libc/src/string/\<close>. A scan for the terminator has
  no bound of its own, so it is a \<open>partial_function\<close>: on a memory without a terminator it faults
  or does not return, both the value \<^term>\<open>None\<close>; on a string it returns, which the lemmas below
  show. Where the C text reads a byte twice, the model reads it twice only if it could have changed.
\<close>

subsection \<open>Length, search\<close>

partial_function (option) strlen_loop :: "mem \<Rightarrow> addr \<Rightarrow> addr option" where
  "strlen_loop m s = do { c \<leftarrow> load m s; if c = NUL then Some s else strlen_loop m (s + 1) }"

definition strlen :: "mem \<Rightarrow> addr \<Rightarrow> nat option" where
  "strlen m str = do { s \<leftarrow> strlen_loop m str; Some (s - str) }"

definition strnlen :: "mem \<Rightarrow> addr \<Rightarrow> nat \<Rightarrow> nat option" where
  "strnlen m s n = do { e \<leftarrow> memchr m s 0 n; if e = null then Some n else Some (e - s) }"

partial_function (option) strchr_loop :: "mem \<Rightarrow> addr \<Rightarrow> char \<Rightarrow> addr option" where
  "strchr_loop m p c = do {
     x \<leftarrow> load m p;
     if x = c then Some p else if x = NUL then Some null else strchr_loop m (p + 1) c }"

definition strchr :: "mem \<Rightarrow> addr \<Rightarrow> i32 \<Rightarrow> addr option" where
  "strchr m p ch = strchr_loop m p (char_of (unat ch))"

partial_function (option) strrchr_loop :: "mem \<Rightarrow> addr \<Rightarrow> char \<Rightarrow> addr \<Rightarrow> addr option" where
  "strrchr_loop m p c save = do {
     x \<leftarrow> load m p;
     let save = (if x = c then p else save);
     if x = NUL then Some save else strrchr_loop m (p + 1) c save }"

definition strrchr :: "mem \<Rightarrow> addr \<Rightarrow> i32 \<Rightarrow> addr option" where
  "strrchr m p ch = strrchr_loop m p (char_of (unat ch)) null"

text \<open>The inner loops of \<open>strspn\<close> and \<open>strpbrk\<close> (the set's NUL never matches) and of \<open>strcspn\<close>
  (it matches the end of the scanned string).\<close>

partial_function (option) span_find :: "mem \<Rightarrow> addr \<Rightarrow> char \<Rightarrow> bool option" where
  "span_find m spanp c = do {
     sc \<leftarrow> load m spanp;
     if sc = NUL then Some False
     else if sc = c then Some True else span_find m (spanp + 1) c }"

partial_function (option) cspan_find :: "mem \<Rightarrow> addr \<Rightarrow> char \<Rightarrow> bool option" where
  "cspan_find m spanp c = do {
     sc \<leftarrow> load m spanp;
     if sc = c then Some True
     else if sc \<noteq> NUL then cspan_find m (spanp + 1) c else Some False }"

partial_function (option) strspn_loop :: "mem \<Rightarrow> addr \<Rightarrow> addr \<Rightarrow> addr option" where
  "strspn_loop m p s2 = do {
     c \<leftarrow> load m p;
     found \<leftarrow> span_find m s2 c;
     if found then strspn_loop m (p + 1) s2 else Some p }"

definition strspn :: "mem \<Rightarrow> addr \<Rightarrow> addr \<Rightarrow> nat option" where
  "strspn m s1 s2 = do { p \<leftarrow> strspn_loop m s1 s2; Some (p - s1) }"

partial_function (option) strcspn_loop :: "mem \<Rightarrow> addr \<Rightarrow> addr \<Rightarrow> addr option" where
  "strcspn_loop m p s2 = do {
     c \<leftarrow> load m p;
     found \<leftarrow> cspan_find m s2 c;
     if found then Some p else strcspn_loop m (p + 1) s2 }"

definition strcspn :: "mem \<Rightarrow> addr \<Rightarrow> addr \<Rightarrow> nat option" where
  "strcspn m s1 s2 = do { p \<leftarrow> strcspn_loop m s1 s2; Some (p - s1) }"

partial_function (option) strpbrk :: "mem \<Rightarrow> addr \<Rightarrow> addr \<Rightarrow> addr option" where
  "strpbrk m s1 s2 = do {
     c \<leftarrow> load m s1;
     if c = NUL then Some null
     else do {
       found \<leftarrow> span_find m s2 c;
       if found then Some s1 else strpbrk m (s1 + 1) s2 } }"

subsection \<open>Comparison\<close>

partial_function (option) strcmp :: "mem \<Rightarrow> addr \<Rightarrow> addr \<Rightarrow> int option" where
  "strcmp m s1 s2 = do {
     a \<leftarrow> load m s1;
     b \<leftarrow> load m s2;
     if a = b then if a = NUL then Some 0 else strcmp m (s1 + 1) (s2 + 1)
     else Some (uchar a - uchar b) }"

definition strcoll :: "mem \<Rightarrow> addr \<Rightarrow> addr \<Rightarrow> int option" where
  "strcoll m s1 s2 = strcmp m s1 s2"

fun strncmp :: "mem \<Rightarrow> addr \<Rightarrow> addr \<Rightarrow> nat \<Rightarrow> int option" where
  "strncmp m s1 s2 0 = Some 0"
| "strncmp m s1 s2 (Suc n) = do {
     a \<leftarrow> load m s1;
     b \<leftarrow> load m s2;
     if a \<noteq> b then Some (uchar a - uchar b)
     else if a = NUL then Some 0
     else strncmp m (s1 + 1) (s2 + 1) n }"

definition lower :: "char \<Rightarrow> int" where "lower c = uint (tolower (uch32 c))"

partial_function (option) strcasecmp :: "mem \<Rightarrow> addr \<Rightarrow> addr \<Rightarrow> int option" where
  "strcasecmp m p1 p2 = do {
     a \<leftarrow> load m p1;
     b \<leftarrow> load m p2;
     if a \<noteq> NUL \<and> b \<noteq> NUL
     then if lower a \<noteq> lower b then Some (lower a - lower b) else strcasecmp m (p1 + 1) (p2 + 1)
     else Some (lower a - lower b) }"

function strncasecmp_loop :: "mem \<Rightarrow> addr \<Rightarrow> addr \<Rightarrow> nat \<Rightarrow> nat \<Rightarrow> int option" where
  "strncasecmp_loop m p1 p2 i n =
     (if i < n then do {
        a \<leftarrow> load m (p1 + i);
        b \<leftarrow> load m (p2 + i);
        let c1 = lower a;
        let c2 = lower b;
        if c1 \<noteq> c2 \<or> c1 = 0 then Some (c1 - c2) else strncasecmp_loop m p1 p2 (i + 1) n }
      else Some 0)"
  by pat_completeness auto
termination by (relation "measure (\<lambda>(m, p1, p2, i, n). n - i)") auto

declare strncasecmp_loop.simps [simp del]

definition strncasecmp :: "mem \<Rightarrow> addr \<Rightarrow> addr \<Rightarrow> nat \<Rightarrow> int option" where
  "strncasecmp m s1 s2 n = strncasecmp_loop m s1 s2 0 n"

subsection \<open>Copying\<close>

partial_function (option) stpcpy :: "mem \<Rightarrow> addr \<Rightarrow> addr \<Rightarrow> (mem \<times> addr) option" where
  "stpcpy m dst src = do {
     c \<leftarrow> load m src;
     m \<leftarrow> store m dst c;
     if c = NUL then Some (m, dst) else stpcpy m (dst + 1) (src + 1) }"

partial_function (option) strcpy_loop :: "mem \<Rightarrow> addr \<Rightarrow> addr \<Rightarrow> mem option" where
  "strcpy_loop m to from = do {
     c \<leftarrow> load m from;
     m \<leftarrow> store m to c;
     if c = NUL then Some m else strcpy_loop m (to + 1) (from + 1) }"

definition strcpy :: "mem \<Rightarrow> addr \<Rightarrow> addr \<Rightarrow> (mem \<times> addr) option" where
  "strcpy m to from = map_option (\<lambda>m. (m, to)) (strcpy_loop m to from)"

text \<open>\<open>strcat\<close> finds the end of \<open>s\<close> with \<open>strlen\<close>'s loop, then copies with \<open>strcpy\<close>'s.\<close>

definition strcat :: "mem \<Rightarrow> addr \<Rightarrow> addr \<Rightarrow> (mem \<times> addr) option" where
  "strcat m s app = do {
     e \<leftarrow> strlen_loop m s;
     m \<leftarrow> strcpy_loop m e app;
     Some (m, s) }"

fun strncat_loop :: "mem \<Rightarrow> addr \<Rightarrow> addr \<Rightarrow> nat \<Rightarrow> (mem \<times> addr) option" where
  "strncat_loop m dst src 0 = Some (m, dst)"
| "strncat_loop m dst src (Suc n) = do {
     c \<leftarrow> load m src;
     if c = NUL then Some (m, dst)
     else do { m \<leftarrow> store m dst c; strncat_loop m (dst + 1) (src + 1) n } }"

definition strncat :: "mem \<Rightarrow> addr \<Rightarrow> addr \<Rightarrow> nat \<Rightarrow> (mem \<times> addr) option" where
  "strncat m dst src n = do {
     e \<leftarrow> strlen_loop m dst;
     (m, e) \<leftarrow> strncat_loop m e src n;
     m \<leftarrow> store m e NUL;
     Some (m, dst) }"

text \<open>\<open>while (--n != 0) *d++ = 0;\<close> entered with \<open>n > 0\<close>.\<close>

fun pad_loop :: "mem \<Rightarrow> addr \<Rightarrow> nat \<Rightarrow> mem option" where
  "pad_loop m d (Suc (Suc n)) = do { m \<leftarrow> store m d NUL; pad_loop m (d + 1) (Suc n) }"
| "pad_loop m d _ = Some m"

fun strncpy_loop :: "mem \<Rightarrow> addr \<Rightarrow> addr \<Rightarrow> nat \<Rightarrow> mem option" where
  "strncpy_loop m d src 0 = Some m"
| "strncpy_loop m d src (Suc n) = do {
     c \<leftarrow> load m src;
     m \<leftarrow> store m d c;
     if c = NUL then pad_loop m (d + 1) (Suc n)
     else strncpy_loop m (d + 1) (src + 1) n }"

definition strncpy :: "mem \<Rightarrow> addr \<Rightarrow> addr \<Rightarrow> nat \<Rightarrow> (mem \<times> addr) option" where
  "strncpy m dst src n = map_option (\<lambda>m. (m, dst)) (strncpy_loop m dst src n)"

function stpncpy_copy :: "mem \<Rightarrow> addr \<Rightarrow> addr \<Rightarrow> nat \<Rightarrow> nat \<Rightarrow> (mem \<times> nat) option" where
  "stpncpy_copy m dst src i n =
     (if i < n then do {
        c \<leftarrow> load m (src + i);
        if c = NUL then Some (m, i)
        else do { m \<leftarrow> store m (dst + i) c; stpncpy_copy m dst src (i + 1) n } }
      else Some (m, i))"
  by pat_completeness auto
termination by (relation "measure (\<lambda>(m, dst, src, i, n). n - i)") auto

function stpncpy_pad :: "mem \<Rightarrow> addr \<Rightarrow> nat \<Rightarrow> nat \<Rightarrow> mem option" where
  "stpncpy_pad m dst i n =
     (if i + 1 < n then do { m \<leftarrow> store m (dst + i + 1) NUL; stpncpy_pad m dst (i + 1) n }
      else Some m)"
  by pat_completeness auto
termination by (relation "measure (\<lambda>(m, dst, i, n). n - i)") auto

declare stpncpy_copy.simps [simp del] stpncpy_pad.simps [simp del]

definition stpncpy :: "mem \<Rightarrow> addr \<Rightarrow> addr \<Rightarrow> nat \<Rightarrow> (mem \<times> addr) option" where
  "stpncpy m dst src n = do {
     (m, i) \<leftarrow> stpncpy_copy m dst src 0 n;
     if i = n then Some (m, dst + n)
     else do {
       m \<leftarrow> store m (dst + i) NUL;
       m \<leftarrow> stpncpy_pad m dst i n;
       l \<leftarrow> strlen m dst;
       Some (m, dst + l) } }"

definition strlcpy :: "mem \<Rightarrow> addr \<Rightarrow> addr \<Rightarrow> nat \<Rightarrow> (mem \<times> nat) option" where
  "strlcpy m dst src sz = do {
     src_len \<leftarrow> strlen m src;
     if sz \<noteq> 0 then do {
       let copy_len = (if src_len \<ge> sz then sz - 1 else src_len);
       (m, _) \<leftarrow> memcpy m dst src copy_len;
       m \<leftarrow> store m (dst + copy_len) NUL;
       Some (m, src_len) }
     else Some (m, src_len) }"

definition strlcat :: "mem \<Rightarrow> addr \<Rightarrow> addr \<Rightarrow> nat \<Rightarrow> (mem \<times> nat) option" where
  "strlcat m dst src sz = do {
     dst_len \<leftarrow> strnlen m dst sz;
     src_len \<leftarrow> strlen m src;
     if dst_len = sz then Some (m, sz + src_len)
     else if src_len < sz - dst_len then do {
       (m, _) \<leftarrow> memcpy m (dst + dst_len) src (src_len + 1);
       Some (m, dst_len + src_len) }
     else do {
       (m, _) \<leftarrow> memcpy m (dst + dst_len) src (sz - dst_len - 1);
       m \<leftarrow> store m (dst + sz - 1) NUL;
       Some (m, dst_len + src_len) } }"

definition strxfrm :: "mem \<Rightarrow> addr \<Rightarrow> addr \<Rightarrow> nat \<Rightarrow> (mem \<times> nat) option" where
  "strxfrm m dst src n = do {
     len \<leftarrow> strlen m src;
     if n \<noteq> 0 then do {
       let copy_len = (if len \<ge> n then n - 1 else len);
       (m, _) \<leftarrow> memcpy m dst src copy_len;
       m \<leftarrow> store m (dst + copy_len) NUL;
       Some (m, len) }
     else Some (m, len) }"

subsection \<open>Substrings and tokens\<close>

partial_function (option) strstr_loop ::
  "mem \<Rightarrow> addr \<Rightarrow> addr \<Rightarrow> char \<Rightarrow> nat \<Rightarrow> addr option" where
  "strstr_loop m s needle c len = do {
     sc \<leftarrow> load m s;
     if sc = NUL then Some null
     else if sc \<noteq> c then strstr_loop m (s + 1) needle c len
     else do {
       d \<leftarrow> strncmp m (s + 1) needle len;
       if d \<noteq> 0 then strstr_loop m (s + 1) needle c len else Some s } }"

definition strstr :: "mem \<Rightarrow> addr \<Rightarrow> addr \<Rightarrow> addr option" where
  "strstr m s needle = do {
     c \<leftarrow> load m needle;
     if c \<noteq> NUL then do {
       len \<leftarrow> strlen m (needle + 1);
       strstr_loop m s (needle + 1) c len }
     else Some s }"

text \<open>
  \<open>strtok_r\<close>: \<open>lastp\<close> is the caller's pointer variable (\<open>None\<close> when the caller passes a null
  \<open>char**\<close>); the result is the memory, the token and the new value of that variable.
\<close>

definition strtok_r ::
  "mem \<Rightarrow> addr \<Rightarrow> addr \<Rightarrow> addr option \<Rightarrow> (mem \<times> addr \<times> addr option) option" where
  "strtok_r m s delim lastp = (case lastp of
     None \<Rightarrow> Some (m, null, None)
   | Some saved \<Rightarrow>
     if delim = null then Some (m, null, lastp)
     else (let s = (if s = null then saved else s) in
       if s = null then Some (m, null, lastp)
       else do {
         n \<leftarrow> strspn m s delim;
         let s = s + n;
         c \<leftarrow> load m s;
         if c = NUL then Some (m, null, Some s)
         else do {
           let token = s;
           s \<leftarrow> strpbrk m token delim;
           if s \<noteq> null then do {
             m \<leftarrow> store m s NUL;
             Some (m, token, Some (s + 1)) }
           else do {
             l \<leftarrow> strlen m token;
             Some (m, token, Some (token + l)) } } }))"

text \<open>\<open>strtok\<close> keeps the variable in a static, \<open>saved\<close>.\<close>

definition strtok :: "mem \<Rightarrow> addr \<Rightarrow> addr \<Rightarrow> addr \<Rightarrow> (mem \<times> addr \<times> addr) option" where
  "strtok m saved s delim = do {
     (m, token, lastp) \<leftarrow> strtok_r m s delim (Some saved);
     Some (m, token, the lastp) }"

subsection \<open>Length and search on strings\<close>

lemma strlen_loop_Some [cstr_simps]: "cstr m p s \<Longrightarrow> strlen_loop m p = Some (p + length s)"
  by (induction s arbitrary: p; subst strlen_loop.simps) (simp_all add: cstr_simps load_def)

lemma strlen_Some [cstr_simps]: "cstr m p s \<Longrightarrow> strlen m p = Some (length s)"
  by (simp add: strlen_def strlen_loop_Some)

text \<open>With its terminator a string is a block that ends in its only NUL.\<close>

lemma before_NUL: "NUL \<notin> set s \<Longrightarrow> before NUL (s @ [NUL]) = s"
  by (subst takeWhile_append2) auto

lemma strnlen_Some:
  assumes "bytes_at m p s" and "n = length s" and "p \<noteq> null"
  shows "strnlen m p n = Some (length (before NUL s))"
proof -
  have r: "memchr m p 0 n = Some (if NUL \<in> set s then p + length (before NUL s) else null)"
    using memchr_Some [OF assms(1), of 0] assms(2) by (simp add: Let_def)
  show ?thesis
  proof (cases "NUL \<in> set s")
    case True
    with r assms(3) show ?thesis by (simp add: strnlen_def)
  next
    case False
    then have "length (before NUL s) = length s" by (subst takeWhile_eq_all_conv [THEN iffD2]) auto
    with False r assms(2) show ?thesis by (simp add: strnlen_def)
  qed
qed

lemma strchr_loop_Some:
  "cstr m p s \<Longrightarrow> strchr_loop m p c =
    Some (if c \<in> set (s @ [NUL]) then p + length (before c (s @ [NUL])) else null)"
  by (induction s arbitrary: p; subst strchr_loop.simps) (auto simp: cstr_simps load_def)

lemma strchr_Some:
  "cstr m p s \<Longrightarrow> strchr m p (uch32 c) =
    Some (if c \<in> set (s @ [NUL]) then p + length (before c (s @ [NUL])) else null)"
  by (simp add: strchr_def strchr_loop_Some)

text \<open>The last position of \<open>c\<close> in \<open>s\<close>, counted from the front.\<close>

definition last_index :: "'a \<Rightarrow> 'a list \<Rightarrow> nat" where
  "last_index c s = length s - Suc (length (before c (rev s)))"

lemma last_index_Cons: "c \<in> set s \<Longrightarrow> last_index c (x # s) = Suc (last_index c s)"
proof -
  assume c: "c \<in> set s"
  then have "before c (rev s @ [x]) = before c (rev s)" by (subst takeWhile_append1) auto
  moreover have "length (before c (rev s)) < length s"
    using before_window(1) [of c "rev s"] c by simp
  ultimately show ?thesis by (simp add: last_index_def)
qed

lemma last_index_hd: "c \<notin> set s \<Longrightarrow> last_index c (c # s) = 0"
proof -
  assume "c \<notin> set s"
  then have "before c (rev s @ [c]) = rev s" by (subst takeWhile_append2) auto
  then show ?thesis by (simp add: last_index_def)
qed

lemma strrchr_loop_Some:
  "cstr m p s \<Longrightarrow> strrchr_loop m p c save =
    Some (if c \<in> set (s @ [NUL]) then p + last_index c (s @ [NUL]) else save)"
proof (induction s arbitrary: p save)
  case Nil
  then show ?case
    by (subst strrchr_loop.simps) (simp add: cstr_simps load_def Let_def last_index_hd)
next
  case (Cons x s)
  have "c = x \<Longrightarrow> c \<notin> set (s @ [NUL]) \<Longrightarrow> last_index c (x # s @ [NUL]) = 0"
    using last_index_hd [of c "s @ [NUL]"] by simp
  moreover have "c \<in> set (s @ [NUL]) \<Longrightarrow>
      last_index c (x # s @ [NUL]) = Suc (last_index c (s @ [NUL]))"
    by (rule last_index_Cons)
  ultimately show ?case using Cons
    by (subst strrchr_loop.simps) (auto simp: cstr_simps load_def Let_def)
qed

lemma strrchr_Some:
  "cstr m p s \<Longrightarrow> strrchr m p (uch32 c) =
    Some (if c \<in> set (s @ [NUL]) then p + last_index c (s @ [NUL]) else null)"
  by (simp add: strrchr_def strrchr_loop_Some)

lemma span_find_Some: "cstr m p d \<Longrightarrow> span_find m p c = Some (c \<in> set d)"
  by (induction d arbitrary: p; subst span_find.simps) (auto simp: cstr_simps load_def)

lemma cspan_find_Some: "cstr m p d \<Longrightarrow> cspan_find m p c = Some (c \<in> set (d @ [NUL]))"
  by (induction d arbitrary: p; subst cspan_find.simps) (auto simp: cstr_simps load_def)

lemma cstr_NUL_set: "cstr m p d \<Longrightarrow> NUL \<notin> set d"
  by (simp add: cstr_def)

lemma strspn_loop_Some:
  "cstr m p s \<Longrightarrow> cstr m q d \<Longrightarrow>
    strspn_loop m p q = Some (p + length (takeWhile (\<lambda>c. c \<in> set d) s))"
proof (induction s arbitrary: p)
  case Nil
  then show ?case
    by (subst strspn_loop.simps) (auto simp: cstr_simps load_def span_find_Some dest: cstr_NUL_set)
next
  case (Cons x s)
  then show ?case
    by (subst strspn_loop.simps) (auto simp: cstr_simps load_def span_find_Some)
qed

lemma strspn_Some:
  "cstr m p s \<Longrightarrow> cstr m q d \<Longrightarrow> strspn m p q = Some (length (takeWhile (\<lambda>c. c \<in> set d) s))"
  by (simp add: strspn_def strspn_loop_Some)

lemma strcspn_loop_Some:
  "cstr m p s \<Longrightarrow> cstr m q d \<Longrightarrow>
    strcspn_loop m p q = Some (p + length (takeWhile (\<lambda>c. c \<notin> set d) s))"
proof (induction s arbitrary: p)
  case Nil
  then show ?case by (subst strcspn_loop.simps) (simp add: cstr_simps load_def cspan_find_Some)
next
  case (Cons x s)
  then show ?case
    by (subst strcspn_loop.simps) (auto simp: cstr_simps load_def cspan_find_Some)
qed

lemma strcspn_Some:
  "cstr m p s \<Longrightarrow> cstr m q d \<Longrightarrow> strcspn m p q = Some (length (takeWhile (\<lambda>c. c \<notin> set d) s))"
  by (simp add: strcspn_def strcspn_loop_Some)

lemma strpbrk_Some:
  "cstr m p s \<Longrightarrow> cstr m q d \<Longrightarrow> strpbrk m p q =
    Some (if set s \<inter> set d = {} then null else p + length (takeWhile (\<lambda>c. c \<notin> set d) s))"
proof (induction s arbitrary: p)
  case Nil
  then show ?case by (subst strpbrk.simps) (simp add: cstr_simps load_def)
next
  case (Cons x s)
  then show ?case
    by (subst strpbrk.simps) (auto simp: cstr_simps load_def span_find_Some)
qed

subsection \<open>Comparison on strings\<close>

lemma strcmp_Some:
  "cstr m p s \<Longrightarrow> cstr m q t \<Longrightarrow> strcmp m p q = Some (cmp_blocks (s @ [NUL]) (t @ [NUL]))"
proof (induction s arbitrary: p q t)
  case Nil
  then show ?case by (subst strcmp.simps; cases t) (auto simp: cstr_simps load_def)
next
  case (Cons a s)
  then show ?case by (subst strcmp.simps; cases t) (auto simp: cstr_simps load_def)
qed

lemma strncmp_Some:
  "cstr m p s \<Longrightarrow> cstr m q t \<Longrightarrow>
    strncmp m p q n = Some (cmp_blocks (take n (s @ [NUL])) (take n (t @ [NUL])))"
proof (induction n arbitrary: p q s t)
  case (Suc n)
  then show ?case by (cases s; cases t) (auto simp: cstr_simps load_def)
qed simp

definition lower_char :: "char \<Rightarrow> char" where
  "lower_char c = char_of (lower c)"

lemma lower_value:
  "lower c = (if 65 \<le> uchar c \<and> uchar c \<le> 90 then uchar c + 32 else uchar c)"
proof -
  have up: "ctype_in_range (uch32 CHR ''A'') (uch32 c) (uch32 CHR ''Z'') \<longleftrightarrow>
      65 \<le> uchar c \<and> uchar c \<le> 90"
    using isupper_iff [of "uch32 c"] by (simp add: isupper_def word_le_def)
  show ?thesis
  proof (cases "65 \<le> uchar c \<and> uchar c \<le> 90")
    case True
    then have u: "isupper (uch32 c)" using up by (simp add: isupper_def)
    have "uch32 c < 128" using True by (simp add: word_less_def)
    then have "isupper (uch32 c) \<longrightarrow> tolower (uch32 c) = uch32 c + 32"
      by (rule ascii_induct [where P = "\<lambda>ch. isupper ch \<longrightarrow> tolower ch = ch + 32", rotated])
        code_simp
    with u have "lower c = uint (uch32 c + 32)" by (simp add: lower_def)
    also have "\<dots> = uchar c + 32" using True by (simp add: uint_plus_if')
    finally show ?thesis using True by simp
  next
    case False
    with up show ?thesis by (simp add: lower_def tolower_def)
  qed
qed

lemma lower_bounds: "0 \<le> lower c" "lower c < 256"
  using uchar_bounds [of c] by (simp_all add: lower_value)

lemma uchar_lower_char [simp]: "uchar (lower_char c) = lower c"
  using lower_bounds [of c] by (simp add: lower_char_def)

lemma lower_eq_iff [simp]: "lower a = lower b \<longleftrightarrow> lower_char a = lower_char b"
  by (metis uchar_lower_char lower_char_def)

lemma uchar_0_iff: "uchar c = 0 \<longleftrightarrow> c = NUL"
  using of_char_eq_iff [of c NUL, where 'a = int] by simp

lemma lower_eq_0 [simp]: "lower c = 0 \<longleftrightarrow> c = NUL"
  using uchar_bounds [of c] by (auto simp: lower_value uchar_0_iff split: if_splits)

lemma lower_char_NUL [simp]: "lower_char NUL = NUL"
  by (simp add: lower_char_def lower_value)

lemma lower_char_eq_NUL [simp]: "lower_char c = NUL \<longleftrightarrow> c = NUL" "NUL = lower_char c \<longleftrightarrow> c = NUL"
  using lower_eq_0 [of c] uchar_lower_char [of c] uchar_0_iff [of "lower_char c"] by auto

lemma strcasecmp_Some:
  "cstr m p s \<Longrightarrow> cstr m q t \<Longrightarrow> strcasecmp m p q =
    Some (cmp_blocks (map lower_char (s @ [NUL])) (map lower_char (t @ [NUL])))"
proof (induction s arbitrary: p q t)
  case Nil
  then show ?case by (subst strcasecmp.simps; cases t) (auto simp: cstr_simps load_def)
next
  case (Cons a s)
  then show ?case by (subst strcasecmp.simps; cases t) (auto simp: cstr_simps load_def)
qed

lemma strncasecmp_loop_Some:
  "cstr m (p + i) s \<Longrightarrow> cstr m (q + i) t \<Longrightarrow> strncasecmp_loop m p q i (i + n) =
    Some (cmp_blocks (map lower_char (take n (s @ [NUL]))) (map lower_char (take n (t @ [NUL]))))"
proof (induction n arbitrary: i s t)
  case 0
  then show ?case by (simp add: strncasecmp_loop.simps)
next
  case (Suc n)
  note IH = Suc.IH [of "Suc i"]
  show ?case using Suc.prems IH
    by (subst strncasecmp_loop.simps; cases s; cases t) (auto simp: cstr_simps load_def Let_def)
qed

lemma strncasecmp_Some:
  "cstr m p s \<Longrightarrow> cstr m q t \<Longrightarrow> strncasecmp m p q n =
    Some (cmp_blocks (map lower_char (take n (s @ [NUL]))) (map lower_char (take n (t @ [NUL]))))"
  using strncasecmp_loop_Some [of m p 0 s q t n] by (simp add: strncasecmp_def)

subsection \<open>The order that comparison defines\<close>

lemma cmp_blocks_refl [simp]: "cmp_blocks s s = 0"
  by (induction s) auto

lemma cmp_blocks_anti: "cmp_blocks s t = - cmp_blocks t s"
  by (induction s t rule: cmp_blocks.induct) (auto split: list.splits)

lemma cmp_blocks_trans:
  "length s = length t \<Longrightarrow> length t = length u \<Longrightarrow>
    cmp_blocks s t \<le> 0 \<Longrightarrow> cmp_blocks t u \<le> 0 \<Longrightarrow> cmp_blocks s u \<le> 0"
proof (induction s t u rule: list_induct3)
  case (Cons x xs y ys z zs)
  then show ?case by (auto split: if_splits)
qed simp

subsection \<open>Copying strings\<close>

lemma cstr_upd_other: "a < q \<or> q + length s < a \<Longrightarrow> cstr m q s \<Longrightarrow> cstr (m(a \<mapsto> c)) q s"
  using cstr_put_other [of q s a "[c]" m] by (auto simp: mem_put_single)

text \<open>
  The byte-by-byte copies are specified for strings apart from the destination, as ISO C requires.
\<close>

lemma stpcpy_Some:
  assumes "cstr m src s" and "mapped m dst (Suc (length s))"
    and "dst + length s < src \<or> src + length s < dst"
  shows "stpcpy m dst src = Some (mem_put m dst (s @ [NUL]), dst + length s)"
  using assms
proof (induction s arbitrary: m dst src)
  case Nil
  then show ?case
    by (subst stpcpy.simps) (simp add: cstr_simps load_def mapped_Suc mem_put_single del: not_None_eq)
next
  case (Cons c s)
  have "cstr (m(dst \<mapsto> c)) (Suc src) s"
    using Cons.prems by (intro cstr_upd_other) (auto simp: cstr_simps)
  moreover have "mapped (m(dst \<mapsto> c)) (Suc dst) (Suc (length s))"
    using Cons.prems(2) by (simp add: mapped_Suc)
  moreover have "Suc dst + length s < Suc src \<or> Suc src + length s < Suc dst"
    using Cons.prems(3) by auto
  ultimately have "stpcpy (m(dst \<mapsto> c)) (Suc dst) (Suc src) =
      Some (mem_put (m(dst \<mapsto> c)) (Suc dst) (s @ [NUL]), Suc dst + length s)"
    by (rule Cons.IH)
  then show ?case using Cons.prems
    by (subst stpcpy.simps)
      (simp add: cstr_simps load_def mapped_Suc mem_put_Cons [of m] del: not_None_eq)
qed

lemma strcpy_loop_stpcpy:
  assumes "cstr m src s" and "mapped m dst (Suc (length s))"
    and "dst + length s < src \<or> src + length s < dst"
  shows "strcpy_loop m dst src = map_option fst (stpcpy m dst src)"
  using assms
proof (induction s arbitrary: m dst src)
  case Nil
  then show ?case
    by (subst strcpy_loop.simps, subst stpcpy.simps)
      (simp add: cstr_simps load_def mapped_Suc del: not_None_eq)
next
  case (Cons c s)
  have "cstr (m(dst \<mapsto> c)) (Suc src) s"
    using Cons.prems by (intro cstr_upd_other) (auto simp: cstr_simps)
  moreover have "mapped (m(dst \<mapsto> c)) (Suc dst) (Suc (length s))"
    using Cons.prems(2) by (simp add: mapped_Suc)
  moreover have "Suc dst + length s < Suc src \<or> Suc src + length s < Suc dst"
    using Cons.prems(3) by auto
  ultimately have "strcpy_loop (m(dst \<mapsto> c)) (Suc dst) (Suc src) =
      map_option fst (stpcpy (m(dst \<mapsto> c)) (Suc dst) (Suc src))"
    by (rule Cons.IH)
  then show ?case using Cons.prems
    by (subst strcpy_loop.simps, subst stpcpy.simps)
      (simp add: cstr_simps load_def mapped_Suc del: not_None_eq)
qed

lemma strcpy_loop_Some:
  assumes "cstr m src s" and "mapped m dst (Suc (length s))"
    and "dst + length s < src \<or> src + length s < dst"
  shows "strcpy_loop m dst src = Some (mem_put m dst (s @ [NUL]))"
  using strcpy_loop_stpcpy [OF assms] stpcpy_Some [OF assms] by simp

lemma strcpy_Some:
  assumes "cstr m src s" and "mapped m dst (Suc (length s))"
    and "dst + length s < src \<or> src + length s < dst"
  shows "strcpy m dst src = Some (mem_put m dst (s @ [NUL]), dst)"
  using strcpy_loop_Some [OF assms] by (simp add: strcpy_def)

lemma strcat_Some:
  assumes "cstr m s d" and "cstr m a t" and "mapped m s (Suc (length d + length t))"
    and "s + length d + length t < a \<or> a + length t < s + length d"
  shows "strcat m s a = Some (mem_put m s (d @ t @ [NUL]), s)"
proof -
  have mp: "mapped m (s + length d) (Suc (length t))"
    using assms(3) mapped_add [of m s "length d" "Suc (length t)"] by simp
  have "mem_put m s (d @ t @ [NUL]) = mem_put m (s + length d) (t @ [NUL])"
    using cstr_bytes [OF assms(1)] by (simp add: mem_put_append [of m s d] mem_put_same)
  with strcpy_loop_Some [OF assms(2) mp assms(4)] show ?thesis
    by (simp add: strcat_def strlen_loop_Some [OF assms(1)])
qed

lemma strncat_loop_Some:
  assumes "cstr m src s" and "mapped m dst (length (take n s))"
    and "dst + length (take n s) \<le> src \<or> src + length s < dst"
  shows "strncat_loop m dst src n = Some (mem_put m dst (take n s), dst + length (take n s))"
  using assms
proof (induction n arbitrary: m dst src s)
  case (Suc n)
  show ?case
  proof (cases s)
    case Nil
    with Suc.prems show ?thesis by (simp add: cstr_simps load_def)
  next
    case (Cons c t)
    have "cstr (m(dst \<mapsto> c)) (Suc src) t"
      using Suc.prems Cons by (intro cstr_upd_other) (auto simp: cstr_simps)
    moreover have "mapped (m(dst \<mapsto> c)) (Suc dst) (length (take n t))"
      using Suc.prems(2) Cons by (simp add: mapped_Suc)
    moreover have "Suc dst + length (take n t) \<le> Suc src \<or> Suc src + length t < Suc dst"
      using Suc.prems(3) Cons by auto
    ultimately have "strncat_loop (m(dst \<mapsto> c)) (Suc dst) (Suc src) n =
        Some (mem_put (m(dst \<mapsto> c)) (Suc dst) (take n t), Suc dst + length (take n t))"
      by (rule Suc.IH)
    with Suc.prems Cons show ?thesis
      by (simp add: cstr_simps load_def mapped_Suc mem_put_Cons [of m] del: not_None_eq)
  qed
qed simp

lemma strncat_Some:
  assumes "cstr m dst d" and "cstr m src s" and "mapped m dst (Suc (length d + length (take n s)))"
    and "dst + length d + length (take n s) < src \<or> src + length s < dst + length d"
  shows "strncat m dst src n = Some (mem_put m dst (d @ take n s @ [NUL]), dst)"
proof -
  let ?t = "take n s" and ?e = "dst + length d"
  have mp: "mapped m ?e (length ?t)" "m (?e + length ?t) \<noteq> None"
    using assms(3) mapped_add [of m dst "length d" "Suc (length ?t)"]
      mapped_add [of m ?e "length ?t" 1] by (simp_all add: mapped_Suc)
  have "mem_put m dst (d @ ?t @ [NUL]) = (mem_put m ?e ?t)(?e + length ?t \<mapsto> NUL)"
    using cstr_bytes [OF assms(1)]
    by (simp add: mem_put_append [of m dst d] mem_put_same mem_put_snoc del: length_take)
  moreover have "strncat_loop m ?e src n = Some (mem_put m ?e ?t, ?e + length ?t)"
    by (rule strncat_loop_Some [OF assms(2) mp(1)]) (use assms(4) in auto)
  ultimately show ?thesis using mp(2)
    by (simp add: strncat_def strlen_loop_Some [OF assms(1)] del: not_None_eq length_take)
qed

lemma pad_loop_fill: "pad_loop m d (Suc n) = fill m d NUL n"
  by (induction n arbitrary: m d) simp_all

text \<open>\<open>strncpy\<close> writes exactly \<open>n\<close> bytes: the string cut to \<open>n\<close>, then NULs up to \<open>n\<close>.\<close>

definition padded :: "nat \<Rightarrow> string \<Rightarrow> string" where
  "padded n s = take n s @ replicate (n - length s) NUL"

lemma length_padded [simp]: "length (padded n s) = n"
  by (simp add: padded_def)

lemma padded_Suc [simp]:
  "padded (Suc n) [] = NUL # replicate n NUL" "padded (Suc n) (c # s) = c # padded n s"
  by (simp_all add: padded_def)

lemma strncpy_loop_Some:
  assumes "cstr m src s" and "mapped m d n" and "d + n \<le> src \<or> src + length s < d"
  shows "strncpy_loop m d src n = Some (mem_put m d (padded n s))"
  using assms
proof (induction n arbitrary: m d src s)
  case (Suc n)
  show ?case
  proof (cases s)
    case Nil
    with Suc.prems show ?thesis
      by (simp add: cstr_simps load_def mapped_Suc pad_loop_fill fill_Some mem_put_Cons [of m]
          del: not_None_eq)
  next
    case (Cons c t)
    have "cstr (m(d \<mapsto> c)) (Suc src) t"
      using Suc.prems Cons by (intro cstr_upd_other) (auto simp: cstr_simps)
    moreover have "mapped (m(d \<mapsto> c)) (Suc d) n"
      using Suc.prems(2) by (simp add: mapped_Suc)
    moreover have "Suc d + n \<le> Suc src \<or> Suc src + length t < Suc d"
      using Suc.prems(3) Cons by auto
    ultimately have "strncpy_loop (m(d \<mapsto> c)) (Suc d) (Suc src) n =
        Some (mem_put (m(d \<mapsto> c)) (Suc d) (padded n t))"
      by (rule Suc.IH)
    with Suc.prems Cons show ?thesis
      by (simp add: cstr_simps load_def mapped_Suc mem_put_Cons [of m] del: not_None_eq)
  qed
qed (simp add: padded_def)

lemma strncpy_Some:
  assumes "cstr m src s" and "mapped m d n" and "d + n \<le> src \<or> src + length s < d"
  shows "strncpy m d src n = Some (mem_put m d (padded n s), d)"
  using strncpy_loop_Some [OF assms] by (simp add: strncpy_def)

lemma stpncpy_copy_Some:
  assumes "cstr m (src + i) s" and "mapped m (dst + i) k"
    and "dst + i + k \<le> src + i \<or> src + i + length s < dst + i"
  shows "stpncpy_copy m dst src i (i + k) =
    Some (mem_put m (dst + i) (take k s), i + length (take k s))"
  using assms
proof (induction k arbitrary: m i s)
  case 0
  then show ?case by (simp add: stpncpy_copy.simps)
next
  case (Suc k)
  show ?case
  proof (cases s)
    case Nil
    with Suc.prems show ?thesis
      by (subst stpncpy_copy.simps) (simp add: cstr_simps load_def)
  next
    case (Cons c t)
    have "cstr (m(dst + i \<mapsto> c)) (src + Suc i) t"
      using Suc.prems Cons by (intro cstr_upd_other) (auto simp: cstr_simps)
    moreover have "mapped (m(dst + i \<mapsto> c)) (dst + Suc i) k"
      using Suc.prems(2) by (simp add: mapped_Suc)
    moreover have "dst + Suc i + k \<le> src + Suc i \<or> src + Suc i + length t < dst + Suc i"
      using Suc.prems(3) Cons by auto
    ultimately have "stpncpy_copy (m(dst + i \<mapsto> c)) dst src (Suc i) (Suc i + k) =
        Some (mem_put (m(dst + i \<mapsto> c)) (dst + Suc i) (take k t), Suc i + length (take k t))"
      by (rule Suc.IH)
    with Suc.prems Cons show ?thesis
      by (subst stpncpy_copy.simps)
        (simp add: cstr_simps load_def mapped_Suc mem_put_Cons [of m] del: not_None_eq)
  qed
qed

lemma stpncpy_pad_fill: "stpncpy_pad m dst i (Suc i + k) = fill m (dst + i + 1) NUL k"
proof (induction k arbitrary: m i)
  case 0
  show ?case by (subst stpncpy_pad.simps) simp
next
  case (Suc k)
  from Suc.IH [of _ "Suc i"] show ?case by (subst stpncpy_pad.simps) simp
qed

lemma stpncpy_Some:
  assumes "cstr m src s" and "mapped m dst n" and "dst + n \<le> src \<or> src + length s < dst"
  shows "stpncpy m dst src n = Some (mem_put m dst (padded n s), dst + min n (length s))"
proof -
  have copy: "stpncpy_copy m dst src 0 n = Some (mem_put m dst (take n s), length (take n s))"
    using stpncpy_copy_Some [of m src 0 s dst n] assms by simp
  show ?thesis
  proof (cases "n \<le> length s")
    case True
    with copy show ?thesis by (simp add: stpncpy_def padded_def min_def)
  next
    case False
    define l k where "l = length s" and "k = n - Suc l"
    have n: "n = Suc l + k" using False by (simp add: k_def l_def)
    have m1: "m (dst + l) \<noteq> None" "mapped m (dst + l + 1) k"
      using assms(2) mapped_add [of m dst l "Suc k"] by (simp_all add: n mapped_Suc)
    have put: "mem_put ((mem_put m dst s)(dst + l \<mapsto> NUL)) (dst + l + 1) (replicate k NUL) =
        mem_put m dst (padded n s)"
      by (simp add: padded_def n l_def mem_put_append [of m dst s] mem_put_Cons)
    have "cstr (mem_put m dst (padded n s)) dst s"
      unfolding cstr_def using bytes_at_mem_put [of m dst "padded n s"] cstr_NUL_set [OF assms(1)]
      by (simp add: padded_def n l_def)
    note len = strlen_Some [OF this]
    have "fill ((mem_put m dst s)(dst + l \<mapsto> NUL)) (dst + l + 1) NUL k =
        Some (mem_put m dst (padded n s))"
      using m1 put by (simp add: fill_Some)
    moreover have "mem_put m dst s (dst + l) \<noteq> None" using m1 by (simp add: l_def)
    ultimately show ?thesis using copy len False n stpncpy_pad_fill [of _ dst l k]
      by (simp add: stpncpy_def l_def [symmetric] del: not_None_eq)
  qed
qed

subsection \<open>Bounded copies\<close>

text \<open>These go through \<open>memcpy\<close>, so they inherit its contract, overlapping blocks included.\<close>

lemma strlcpy_Some:
  assumes "cstr m src s" and "0 < n" and "mapped m dst (min n (Suc (length s)))"
  shows "strlcpy m dst src n = Some (mem_put m dst (take (n - 1) s @ [NUL]), length s)"
proof -
  have copy: "do { (m, _) \<leftarrow> memcpy m dst src k; store m (dst + k) NUL } =
      Some (mem_put m dst (take k s @ [NUL]))" if "k \<le> length s" "k < n" for k
    using memcpy.copy_terminate [OF cstr_bytes [OF assms(1)] that(1)]
      mapped_mono [OF assms(3), of "Suc k"] that by simp
  show ?thesis
  proof (cases "n \<le> length s")
    case True
    with copy [of "n - 1"] assms(2) show ?thesis
      by (auto simp: strlcpy_def strlen_Some [OF assms(1)] Let_def)
  next
    case False
    with copy [of "length s"] assms(2) show ?thesis
      by (auto simp: strlcpy_def strlen_Some [OF assms(1)] Let_def)
  qed
qed

lemma strxfrm_strlcpy: "strxfrm = strlcpy"
  by (simp add: fun_eq_iff strxfrm_def strlcpy_def)

lemma strlcpy_0: "cstr m src s \<Longrightarrow> strlcpy m dst src 0 = Some (m, length s)"
  by (simp add: strlcpy_def strlen_Some)

lemma strlcat_Some:
  assumes "cstr m src s" and "bytes_at m dst b" and "length b = n" and "dst \<noteq> null"
    and "d = before NUL b" and "NUL \<in> set b"
  shows "strlcat m dst src n =
    Some (mem_put m (dst + length d) (take (n - length d - 1) s @ [NUL]), length d + length s)"
proof -
  have l: "length d < n" using before_window(1) [OF assms(6)] assms(3,5) by simp
  have nl: "strnlen m dst n = Some (length d)"
    using strnlen_Some [OF assms(2)] assms(3-5) by simp
  have mp: "mapped m (dst + length d) (n - length d)"
    using bytes_at_mapped [OF assms(2)] l assms(3) mapped_add [of m dst "length d" "n - length d"]
    by simp
  show ?thesis
  proof (cases "length s < n - length d")
    case True
    then have "mapped m (dst + length d) (Suc (length s))" by (intro mapped_mono [OF mp]) simp
    from memcpy.copy_cstr [OF assms(1) this] True l show ?thesis
      by (simp add: strlcat_def nl strlen_Some [OF assms(1)])
  next
    case False
    let ?k = "n - length d - 1"
    have "mapped m (dst + length d) (Suc ?k)" by (rule mapped_mono [OF mp]) (use l in simp)
    from memcpy.copy_terminate [OF cstr_bytes [OF assms(1)] _ this] False l
    have "do { (m, _) \<leftarrow> memcpy m (dst + length d) src ?k; store m (dst + length d + ?k) NUL } =
        Some (mem_put m (dst + length d) (take ?k s @ [NUL]))" by simp
    moreover have "dst + length d + ?k = dst + n - 1" using l by simp
    ultimately show ?thesis using False l
      by (auto simp: strlcat_def nl strlen_Some [OF assms(1)])
  qed
qed

subsection \<open>strstr\<close>

text \<open>The position of the first occurrence, by plain recursion on the text.\<close>

fun find_sub :: "string \<Rightarrow> string \<Rightarrow> nat option" where
  "find_sub pat [] = (if pat = [] then Some 0 else None)"
| "find_sub pat (x # s) =
     (if take (length pat) (x # s) = pat then Some 0 else map_option Suc (find_sub pat s))"

lemma find_sub_None: "find_sub pat s = None \<longleftrightarrow> (\<forall>i. \<not> occurs_at s pat i)"
proof (induction s)
  case Nil
  show ?case by (auto simp: occurs_at_def)
next
  case (Cons x s)
  have "(\<forall>i. \<not> occurs_at (x # s) pat i) \<longleftrightarrow>
      \<not> occurs_at (x # s) pat 0 \<and> (\<forall>i. \<not> occurs_at (x # s) pat (Suc i))"
    by (metis not0_implies_Suc)
  moreover have "occurs_at (x # s) pat (Suc i) = occurs_at s pat i" for i
    by (simp add: occurs_at_def)
  moreover have "occurs_at (x # s) pat 0 \<longleftrightarrow> take (length pat) (x # s) = pat"
    by (auto simp: occurs_at_def dest: arg_cong [where f = length])
  ultimately show ?case using Cons by auto
qed

lemma find_sub_Some:
  "find_sub pat s = Some i \<longleftrightarrow> occurs_at s pat i \<and> (\<forall>j<i. \<not> occurs_at s pat j)"
proof (induction s arbitrary: i)
  case Nil
  show ?case by (auto simp: occurs_at_def)
next
  case (Cons x s)
  have S: "occurs_at (x # s) pat (Suc i) = occurs_at s pat i" for i
    by (simp add: occurs_at_def)
  have Z: "occurs_at (x # s) pat 0 \<longleftrightarrow> take (length pat) (x # s) = pat"
    by (auto simp: occurs_at_def dest: arg_cong [where f = length])
  show ?case
  proof (cases i)
    case 0
    then show ?thesis using Z by auto
  next
    case (Suc k)
    then show ?thesis using Cons [of k] Z S
      by (auto simp: less_Suc_eq_0_disj simp del: find_sub.simps(1))
  qed
qed

lemma strncmp_prefix:
  "NUL \<notin> set f \<Longrightarrow> NUL \<notin> set t \<Longrightarrow>
    cmp_blocks (take (length f) (t @ [NUL])) f = 0 \<longleftrightarrow> take (length f) t = f"
proof (induction f arbitrary: t)
  case (Cons x f)
  then show ?case by (cases t) (auto simp: uchar_0_iff)
qed simp

lemma strstr_loop_Some:
  assumes "cstr m p s" and "cstr m q f" and "c \<noteq> NUL"
  shows "strstr_loop m p q c (length f) =
    Some (case find_sub (c # f) s of None \<Rightarrow> null | Some i \<Rightarrow> p + i)"
  using assms(1)
proof (induction s arbitrary: p)
  case Nil
  then show ?case by (subst strstr_loop.simps) (simp add: cstr_simps load_def)
next
  case (Cons x s)
  have t: "cstr m (Suc p) s" "m p = Some x" "x \<noteq> NUL"
    using Cons.prems by (simp_all add: cstr_simps)
  have "strncmp m (Suc p) q (length f) = Some (cmp_blocks (take (length f) (s @ [NUL])) f)"
    using strncmp_Some [OF t(1) assms(2), of "length f"] by simp
  then have "strncmp m (Suc p) q (length f) = Some d \<Longrightarrow> d = 0 \<longleftrightarrow> take (length f) s = f" for d
    using strncmp_prefix [OF cstr_NUL_set [OF assms(2)] cstr_NUL_set [OF t(1)]] by auto
  moreover obtain d where d: "strncmp m (Suc p) q (length f) = Some d"
    using strncmp_Some [OF t(1) assms(2), of "length f"] by blast
  ultimately have "d = 0 \<longleftrightarrow> take (length f) s = f" by blast
  with t d Cons.IH [OF t(1)] show ?case
    by (subst strstr_loop.simps) (auto simp: load_def split: option.splits)
qed

lemma strstr_Some:
  assumes "cstr m p s" and "cstr m q f"
  shows "strstr m p q = Some (case find_sub f s of None \<Rightarrow> null | Some i \<Rightarrow> p + i)"
proof (cases f)
  case Nil
  then have "find_sub f s = Some 0" by (cases s) auto
  with Nil assms(2) show ?thesis by (simp add: strstr_def cstr_simps load_def)
next
  case (Cons c g)
  with assms(2) have "cstr m (Suc q) g" "c \<noteq> NUL" "m q = Some c" by (simp_all add: cstr_simps)
  with strstr_loop_Some [OF assms(1), of "Suc q" g c] Cons show ?thesis
    by (simp add: strstr_def load_def strlen_Some)
qed

subsection \<open>Tokens\<close>

text \<open>
  One call: skip the delimiters, cut the token off at the next delimiter (which becomes its
  terminator) and leave the caller's pointer behind it; nothing left gives no token.
\<close>

lemma strtok_r_Some:
  assumes s: "cstr m p s" and d: "cstr m q d" and nz: "p \<noteq> null" "q \<noteq> null"
    and tok: "dropWhile (\<lambda>c. c \<in> set d) s = t @ r" and t: "set t \<inter> set d = {}"
    and r: "r = [] \<or> hd r \<in> set d"
    and k: "k = length (takeWhile (\<lambda>c. c \<in> set d) s)"
  shows "strtok_r m p q (Some saved) =
    (if t = [] then Some (m, null, Some (p + length s))
     else if r = [] then Some (m, p + k, Some (p + length s))
     else Some (m(p + k + length t \<mapsto> NUL), p + k, Some (p + k + length t + 1)))"
proof -
  have kl: "k \<le> length s" and dk: "drop k s = t @ r"
    using tok k by (simp_all add: length_takeWhile_le flip: dropWhile_eq_drop)
  have c: "cstr m (p + k) (t @ r)" using cstr_drop [OF s kl] by (simp add: dk)
  have sp: "strspn m p q = Some k" using strspn_Some [OF s d] k by simp
  have t0: "t = [] \<longleftrightarrow> t @ r = []"
  proof
    assume "t = []"
    show "t @ r = []"
    proof (rule ccontr)
      assume "t @ r \<noteq> []"
      with \<open>t = []\<close> have "r \<noteq> []" by simp
      with r have "hd r \<in> set d" by blast
      moreover have "hd (dropWhile (\<lambda>c. c \<in> set d) s) \<notin> set d"
        using hd_dropWhile [of "\<lambda>c. c \<in> set d" s] tok \<open>t @ r \<noteq> []\<close> by simp
      ultimately show False using tok \<open>t = []\<close> by simp
    qed
  qed simp
  show ?thesis
  proof (cases "t = []")
    case True
    with t0 have "t @ r = []" by blast
    moreover from this dk kl have "k = length s" by simp
    ultimately show ?thesis using c nz sp True
      by (simp add: strtok_r_def Let_def load_def cstr_simps)
  next
    case False
    then obtain x u where x: "t = x # u" by (cases t) auto
    have ld: "m (p + k) = Some x" "x \<noteq> NUL" using c by (simp_all add: x cstr_simps)
    have ls: "length s = k + length t + length r" using dk kl by (metis add.assoc length_append
          append_take_drop_id length_take min.absorb2)
    have br: "strpbrk m (p + k) q = Some (if r = [] then null else p + k + length t)"
    proof (cases "r = []")
      case True
      with t strpbrk_Some [OF c d] show ?thesis by simp
    next
      case False
      with r obtain y v where y: "r = y # v" "y \<in> set d" by (cases r) auto
      have "takeWhile (\<lambda>c. c \<notin> set d) (t @ r) = t"
        using t y by (subst takeWhile_append2) auto
      with strpbrk_Some [OF c d] y show ?thesis by auto
    qed
    show ?thesis
    proof (cases "r = []")
      case True
      then show ?thesis using False nz sp ld br strlen_Some [OF c] ls
        by (simp add: strtok_r_def Let_def load_def add.assoc)
    next
      case r: False
      have "m (p + k + length t) = Some (hd r)"
        using c r by (cases r) (auto simp: cstr_def)
      then show ?thesis using False nz sp ld br r
        by (simp add: strtok_r_def Let_def load_def)
    qed
  qed
qed

end
