(* ===== verification/CRT_Strtol.thy ===== *)
theory CRT_Strtol
  imports CRT_String
begin

text \<open>
  Number parsing: \<^verbatim>\<open>libc/src/strtol.c\<close>, \<open>strtoul.c\<close>, \<open>strtoll.c\<close>, \<open>strtoull.c\<close>, the
  \<open>ato*\<close> wrappers and the integer half of \<open>inttypes.c\<close>. \<open>long\<close> has 64 bits on Linux and macOS
  and 32 on Windows, \<open>long long\<close> always 64; the accumulator is therefore a word of any width
  \<open>'l\<close>, and the routines are used at 32 and 64. The signed result is the integer it denotes.
  \<open>errno\<close> is threaded; the last component is the pointer stored through \<open>endptr\<close> (a caller that
  passes a null \<open>endptr\<close> ignores it).
\<close>

subsection \<open>The routines\<close>

partial_function (option) skip_space :: "mem \<Rightarrow> addr \<Rightarrow> (char \<times> addr) option" where
  "skip_space m s = do {
     c \<leftarrow> load m s;
     if isspace (uch32 c) then skip_space m (s + 1) else Some (c, s + 1) }"

definition strto_sign :: "mem \<Rightarrow> char \<Rightarrow> addr \<Rightarrow> (bool \<times> char \<times> addr) option" where
  "strto_sign m c s =
     (if c = CHR ''-'' then do { c \<leftarrow> load m s; Some (True, c, s + 1) }
      else if c = CHR ''+'' then do { c \<leftarrow> load m s; Some (False, c, s + 1) }
      else Some (False, c, s))"

definition strto_base :: "mem \<Rightarrow> char \<Rightarrow> addr \<Rightarrow> int \<Rightarrow> (int \<times> char \<times> addr) option" where
  "strto_base m c s base = do {
     (base, c, s) \<leftarrow>
       (if (base = 0 \<or> base = 16) \<and> c = CHR ''0'' then do {
          x \<leftarrow> load m s;
          if x = CHR ''x'' \<or> x = CHR ''X''
          then do { c \<leftarrow> load m (s + 1); Some (16, c, s + 2) }
          else Some (base, c, s) }
        else Some (base, c, s));
     let base = (if base = 0 then (if c = CHR ''0'' then 8 else 10) else base);
     Some (base, c, s) }"

definition strto_digit :: "char \<Rightarrow> int option" where
  "strto_digit c =
     (if isdigit (uch32 c) then Some (uchar c - 48)
      else if isalpha (uch32 c)
      then Some (uchar c - (if isupper (uch32 c) then 65 - 10 else 97 - 10))
      else None)"

text \<open>What one digit does to \<open>acc\<close>, \<open>any\<close> and \<open>errno\<close>.\<close>

definition strto_step :: "int \<Rightarrow> 'l::len word \<Rightarrow> int \<Rightarrow> 'l word \<Rightarrow> 'l word \<times> int \<times> int \<Rightarrow> int \<Rightarrow>
    'l word \<times> int \<times> int" where
  "strto_step base cutoff cutlim sat = (\<lambda>(acc, any, err) c.
     if any < 0 then (acc, any, err)
     else if acc > cutoff \<or> (acc = cutoff \<and> c > cutlim) then (sat, -1, ERANGE)
     else (acc * of_int base + of_int c, 1, err))"

partial_function (option) strto_loop :: "mem \<Rightarrow> addr \<Rightarrow> char \<Rightarrow> int \<Rightarrow> 'l::len word \<Rightarrow> int \<Rightarrow>
    'l word \<Rightarrow> 'l word \<times> int \<times> int \<Rightarrow> (('l word \<times> int \<times> int) \<times> addr) option" where
  "strto_loop m s c base cutoff cutlim sat st =
     (case strto_digit c of
        None \<Rightarrow> Some (st, s)
      | Some d \<Rightarrow>
          if d \<ge> base then Some (st, s)
          else do {
            c \<leftarrow> load m s;
            strto_loop m (s + 1) c base cutoff cutlim sat (strto_step base cutoff cutlim sat st d) })"

definition LONG_MAX :: "'l::len itself \<Rightarrow> int" where "LONG_MAX _ = 2 ^ (LENGTH('l) - 1) - 1"
definition LONG_MIN :: "'l::len itself \<Rightarrow> int" where "LONG_MIN _ = - (2 ^ (LENGTH('l) - 1))"
definition ULONG_MAX :: "'l::len itself \<Rightarrow> int" where "ULONG_MAX _ = 2 ^ LENGTH('l) - 1"

definition strtol :: "'l::len itself \<Rightarrow> mem \<Rightarrow> addr \<Rightarrow> int \<Rightarrow> int \<Rightarrow> (int \<times> int \<times> addr) option" where
  "strtol L m nptr base err = do {
     (c, s) \<leftarrow> skip_space m nptr;
     (neg, c, s) \<leftarrow> strto_sign m c s;
     (base, c, s) \<leftarrow> strto_base m c s base;
     if base < 2 \<or> base > 36 then Some (0, EINVAL, nptr)
     else do {
       let cutoff = (if neg then of_int (LONG_MAX L) + 1 else of_int (LONG_MAX L) :: 'l word);
       let cutlim = uint (cutoff mod of_int base);
       ((acc, any, err), s) \<leftarrow> strto_loop m s c base (cutoff div of_int base) cutlim cutoff (0, 0, err);
       let endptr = (if any \<noteq> 0 then s - 1 else nptr);
       if any < 0 then Some (if neg then LONG_MIN L else LONG_MAX L, err, endptr)
       else if neg \<and> acc = of_int (LONG_MAX L) + 1 then Some (LONG_MIN L, err, endptr)
       else Some (if neg then - sint acc else sint acc, err, endptr) } }"

definition strtoul ::
  "'l::len itself \<Rightarrow> mem \<Rightarrow> addr \<Rightarrow> int \<Rightarrow> int \<Rightarrow> ('l word \<times> int \<times> addr) option" where
  "strtoul L m nptr base err = do {
     (c, s) \<leftarrow> skip_space m nptr;
     (neg, c, s) \<leftarrow> strto_sign m c s;
     (base, c, s) \<leftarrow> strto_base m c s base;
     if base < 2 \<or> base > 36 then Some (0, EINVAL, nptr)
     else do {
       let cutoff = (of_int (ULONG_MAX L) div of_int base :: 'l word);
       let cutlim = uint (of_int (ULONG_MAX L) mod of_int base :: 'l word);
       ((acc, any, err), s) \<leftarrow>
         strto_loop m s c base cutoff cutlim (of_int (ULONG_MAX L)) (0, 0, err);
       let acc = (if neg \<and> any > 0 then 0 - acc else acc);
       Some (acc, err, if any \<noteq> 0 then s - 1 else nptr) } }"

text \<open>\<open>strtoll.c\<close> and \<open>strtoull.c\<close> are the same text with \<open>long long\<close>, 64 bits everywhere.\<close>

definition strtoll :: "mem \<Rightarrow> addr \<Rightarrow> int \<Rightarrow> int \<Rightarrow> (int \<times> int \<times> addr) option" where
  "strtoll m nptr base err = strtol TYPE(64) m nptr base err"

definition strtoull :: "mem \<Rightarrow> addr \<Rightarrow> int \<Rightarrow> int \<Rightarrow> (u64 \<times> int \<times> addr) option" where
  "strtoull m nptr base err = strtoul TYPE(64) m nptr base err"

definition atoi :: "'l::len itself \<Rightarrow> mem \<Rightarrow> addr \<Rightarrow> int \<Rightarrow> (int \<times> int) option" where
  "atoi L m s err = do { (v, err, _) \<leftarrow> strtol L m s 10 err; Some (sint (of_int v :: i32), err) }"

definition atol :: "'l::len itself \<Rightarrow> mem \<Rightarrow> addr \<Rightarrow> int \<Rightarrow> (int \<times> int) option" where
  "atol L m s err = do { (v, err, _) \<leftarrow> strtol L m s 10 err; Some (v, err) }"

definition atoll :: "mem \<Rightarrow> addr \<Rightarrow> int \<Rightarrow> (int \<times> int) option" where
  "atoll m s err = do { (v, err, _) \<leftarrow> strtoll m s 10 err; Some (v, err) }"

definition strtoimax :: "mem \<Rightarrow> addr \<Rightarrow> int \<Rightarrow> int \<Rightarrow> (int \<times> int \<times> addr) option" where
  "strtoimax m nptr base err = strtoll m nptr base err"

definition strtoumax :: "mem \<Rightarrow> addr \<Rightarrow> int \<Rightarrow> int \<Rightarrow> (u64 \<times> int \<times> addr) option" where
  "strtoumax m nptr base err = strtoull m nptr base err"

subsection \<open>The text the routines accept\<close>

text \<open>
  The same scan on the string itself: white space, a sign, a base prefix, then the digits. \<open>skipped\<close>
  counts the characters before the digits.
\<close>

record scan =
  negative :: bool
  base_of :: int
  skipped :: nat
  digits :: "int list"

definition is_space_char :: "char \<Rightarrow> bool" where "is_space_char c = isspace (uch32 c)"

definition scan_sign :: "string \<Rightarrow> bool \<times> nat \<times> string" where
  "scan_sign s = (case s of
     c # r \<Rightarrow> if c = CHR ''-'' then (True, 1, r) else if c = CHR ''+'' then (False, 1, r)
       else (False, 0, s)
   | [] \<Rightarrow> (False, 0, s))"

definition scan_base :: "int \<Rightarrow> string \<Rightarrow> int \<times> nat \<times> string" where
  "scan_base base s =
     (if (base = 0 \<or> base = 16) \<and> (\<exists>x \<in> {CHR ''x'', CHR ''X''}. take 2 s = [CHR ''0'', x])
      then (16, 2, drop 2 s)
      else (if base = 0 then (if take 1 s = ''0'' then 8 else 10) else base, 0, s))"

fun scan_digits :: "int \<Rightarrow> string \<Rightarrow> int list" where
  "scan_digits base [] = []"
| "scan_digits base (c # s) = (case strto_digit c of
     None \<Rightarrow> [] | Some d \<Rightarrow> if d \<ge> base then [] else d # scan_digits base s)"

definition scan_number :: "int \<Rightarrow> string \<Rightarrow> scan" where
  "scan_number base s =
     (let sp = takeWhile is_space_char s;
          (neg, n, s1) = scan_sign (dropWhile is_space_char s);
          (b, k, s2) = scan_base base s1
      in \<lparr>negative = neg, base_of = b, skipped = length sp + n + k, digits = scan_digits b s2\<rparr>)"

definition numeral_value :: "int \<Rightarrow> int list \<Rightarrow> int" where
  "numeral_value base ds = foldl (\<lambda>a d. a * base + d) 0 ds"

subsection \<open>The scan in memory is the scan of the string\<close>

text \<open>\<open>c\<close> holds the character at the scan position and \<open>s\<close> points behind it.\<close>

abbreviation cur :: "string \<Rightarrow> char" where "cur s \<equiv> hd (s @ [NUL])"

lemma load_cur: "cstr m p s \<Longrightarrow> m p = Some (cur s)"
  by (cases s) (auto simp: cstr_simps)

lemma is_space_NUL [simp]: "\<not> isspace 0"
  by (simp add: isspace_iff word_le_def)

lemma skip_space_Some:
  assumes "cstr m p s" and "sp = takeWhile is_space_char s" and "s' = dropWhile is_space_char s"
  shows "skip_space m p = Some (cur s', p + length sp + 1) \<and> cstr m (p + length sp) s'"
  using assms
proof (induction s arbitrary: p sp s')
  case Nil
  then show ?case by (subst skip_space.simps) (simp add: cstr_simps load_def)
next
  case (Cons c s)
  with Cons.IH [of "Suc p"] show ?case
    by (subst skip_space.simps) (auto simp: cstr_simps load_def is_space_char_def)
qed

lemma strto_sign_Some:
  assumes "cstr m p s" and "scan_sign s = (neg, n, s')"
  shows "strto_sign m (cur s) (p + 1) = Some (neg, cur s', p + n + 1) \<and> cstr m (p + n) s'"
proof (cases s)
  case Nil
  with assms show ?thesis by (auto simp: scan_sign_def strto_sign_def)
next
  case (Cons c r)
  with assms have "cstr m (Suc p) r" by (simp add: cstr_simps)
  with assms Cons load_cur [OF this] show ?thesis
    by (auto simp: scan_sign_def strto_sign_def load_def split: if_splits)
qed

lemma strto_base_Some:
  assumes "cstr m p s" and "scan_base base s = (b, k, s')"
  shows "strto_base m (cur s) (p + 1) base = Some (b, cur s', p + k + 1) \<and> cstr m (p + k) s'"
proof (cases "(base = 0 \<or> base = 16) \<and> (\<exists>x \<in> {CHR ''x'', CHR ''X''}. take 2 s = [CHR ''0'', x])")
  case True
  then obtain x r where s: "s = CHR ''0'' # x # r" "x = CHR ''x'' \<or> x = CHR ''X''"
    by (cases s; cases "tl s") (auto simp: numeral_2_eq_2)
  with assms(1) have "m (Suc p) = Some x" "cstr m (Suc (Suc p)) r" by (simp_all add: cstr_simps)
  with assms(2) s True load_cur [OF this(2)] show ?thesis
    by (auto simp: scan_base_def strto_base_def load_def numeral_2_eq_2)
next
  case False
  then have b: "s' = s" "k = 0" "b = (if base = 0 then (if take 1 s = ''0'' then 8 else 10) else base)"
    using assms(2) by (auto simp: scan_base_def split: if_splits)
  have "cur s = CHR ''0'' \<longleftrightarrow> take 1 s = ''0''" by (cases s) auto
  moreover have "\<exists>x. m (Suc p) = Some x \<and> \<not> (x = CHR ''x'' \<or> x = CHR ''X'')"
    if "cur s = CHR ''0''" "base = 0 \<or> base = 16"
  proof -
    from that obtain r where s: "s = CHR ''0'' # r" by (cases s) auto
    with assms(1) have "cstr m (Suc p) r" by (simp add: cstr_simps)
    from load_cur [OF this] False that(2) s show ?thesis
      by (cases r) (auto simp: numeral_2_eq_2)
  qed
  ultimately show ?thesis using assms(1) b
    by (cases "cur s = CHR ''0'' \<and> (base = 0 \<or> base = 16)") (force simp: strto_base_def load_def Let_def)+
qed

lemma strto_digit_NUL [simp]: "strto_digit NUL = None"
  by (simp add: strto_digit_def isdigit_iff isalpha_iff isupper_iff islower_iff word_le_def)

lemma strto_loop_Some:
  "cstr m p s \<Longrightarrow> strto_loop m (p + 1) (cur s) base cutoff cutlim sat st =
    Some (foldl (strto_step base cutoff cutlim sat) st (scan_digits base s),
          p + length (scan_digits base s) + 1)"
proof (induction s arbitrary: p st)
  case Nil
  show ?case by (subst strto_loop.simps) simp
next
  case (Cons c s)
  then have c: "cstr m (Suc p) s" by (simp add: cstr_simps)
  show ?case
    using Cons.IH [OF c] load_cur [OF c]
    by (subst strto_loop.simps) (auto simp: load_def split: option.splits)
qed

lemma strto_digit_bounds: "strto_digit c = Some d \<Longrightarrow> 0 \<le> d"
  by (auto simp: strto_digit_def isdigit_iff isalpha_iff isupper_iff islower_iff word_le_def
      split: if_splits)

lemma scan_digits_bounds: "d \<in> set (scan_digits base s) \<Longrightarrow> 0 \<le> d \<and> d < base"
  by (induction s)
    (auto split: option.splits if_splits dest: strto_digit_bounds strto_digit_bounds [OF sym])

subsection \<open>Accumulation with a cutoff is exact\<close>

lemma cutoff_iff:
  fixes a b d L :: int
  assumes "0 \<le> d" "d < b"
  shows "a > L div b \<or> (a = L div b \<and> d > L mod b) \<longleftrightarrow> a * b + d > L"
proof -
  define q r where "q = L div b" and "r = L mod b"
  have L: "L = q * b + r" and r: "0 \<le> r" "r < b"
    using assms by (simp_all add: q_def r_def)
  consider "a < q" | "a = q" | "a > q" by linarith
  then have "a > q \<or> (a = q \<and> d > r) \<longleftrightarrow> a * b + d > L"
  proof cases
    case 1
    then have "(a + 1) * b \<le> q * b" using assms by (intro mult_right_mono) auto
    then show ?thesis using 1 L r assms by (simp add: algebra_simps)
  next
    case 2 then show ?thesis using L by simp
  next
    case 3
    then have "(q + 1) * b \<le> a * b" using assms by (intro mult_right_mono) auto
    then show ?thesis using 3 L r assms by (simp add: algebra_simps)
  qed
  then show ?thesis by (simp add: q_def r_def)
qed

lemma uint_of_int_small: "0 \<le> a \<Longrightarrow> a < 2 ^ LENGTH('l) \<Longrightarrow> uint (of_int a :: 'l::len word) = a"
  by (simp add: unsigned_of_int take_bit_eq_mod)

lemma strto_step_exact:
  fixes L base a d :: int
  assumes "0 \<le> L" "L < 2 ^ LENGTH('l::len)" "2 \<le> base" "base < 2 ^ LENGTH('l)"
    and "0 \<le> a" "a \<le> L" "0 \<le> d" "d < base" "0 \<le> any"
  shows "strto_step base (of_int L div of_int base :: 'l word) (uint (of_int L mod of_int base :: 'l word))
      (of_int L) (of_int a, any, err) d =
    (if a * base + d > L then (of_int L, -1, ERANGE) else (of_int (a * base + d), 1, err))"
proof -
  have "uint (of_int L div of_int base :: 'l word) = L div base"
    "uint (of_int L mod of_int base :: 'l word) = L mod base"
    using assms by (simp_all add: uint_div_distrib uint_mod_distrib uint_of_int_small)
  moreover have "uint (of_int a :: 'l word) = a" using assms by (simp add: uint_of_int_small)
  ultimately have "((of_int a :: 'l word) > of_int L div of_int base \<or>
        ((of_int a :: 'l word) = of_int L div of_int base \<and> d > uint (of_int L mod of_int base :: 'l word)))
      \<longleftrightarrow> a * base + d > L"
    using cutoff_iff [of d base L a] assms by (simp add: word_less_def word_uint_eq_iff)
  then show ?thesis using assms(9) by (simp add: strto_step_def)
qed

lemma numeral_mono:
  fixes a :: int
  assumes "2 \<le> base" "0 \<le> a" "\<And>d. d \<in> set ds \<Longrightarrow> 0 \<le> d"
  shows "a \<le> foldl (\<lambda>a d. a * base + d) a ds"
  using assms(2,3)
proof (induction ds arbitrary: a)
  case (Cons d ds)
  have "a * 1 \<le> a * base" using assms(1) Cons.prems(1) by (intro mult_left_mono) auto
  then have "a \<le> a * base + d" using Cons.prems(2) [of d] by simp
  also have "\<dots> \<le> foldl (\<lambda>a d. a * base + d) (a * base + d) ds"
    using Cons.prems Cons.IH [of "a * base + d"] calculation by simp
  finally show ?case by simp
qed simp

lemma strto_fold_stuck:
  "foldl (strto_step base cutoff cutlim sat) (w, -1, e) ds = (w, -1, e)"
  by (induction ds) (simp_all add: strto_step_def)

lemma strto_fold_exact:
  fixes L base a :: int
  assumes "0 \<le> L" "L < 2 ^ LENGTH('l::len)" "2 \<le> base" "base < 2 ^ LENGTH('l)"
    and "0 \<le> a" "a \<le> L" "\<And>d. d \<in> set ds \<Longrightarrow> 0 \<le> d \<and> d < base" "0 \<le> any"
  shows "foldl (strto_step base (of_int L div of_int base :: 'l word)
      (uint (of_int L mod of_int base :: 'l word)) (of_int L)) (of_int a, any, err) ds =
    (let v = foldl (\<lambda>a d. a * base + d) a ds in
     if v > L then (of_int L, -1, ERANGE)
     else (of_int v, if ds = [] then any else 1, err))"
  using assms(5-8)
proof (induction ds arbitrary: a any)
  case (Cons d ds)
  have d: "0 \<le> d" "d < base" and ds: "\<And>d. d \<in> set ds \<Longrightarrow> 0 \<le> d \<and> d < base"
    using Cons.prems(3) by auto
  note step = strto_step_exact [OF assms(1-4) Cons.prems(1,2) d Cons.prems(4), of err]
  have nn: "0 \<le> a * base + d" using Cons.prems(1) assms(3) d by simp
  show ?case
  proof (cases "a * base + d > L")
    case True
    have "a * base + d \<le> foldl (\<lambda>a d. a * base + d) (a * base + d) ds"
      using numeral_mono [OF assms(3) nn] ds by blast
    with True show ?thesis by (simp add: step strto_fold_stuck Let_def)
  next
    case False
    with Cons.IH [OF nn _ ds, of 1] show ?thesis by (simp add: step Let_def)
  qed
qed simp

subsection \<open>What the routines return\<close>

text \<open>Scanning up to the digits, as one step.\<close>

lemma strto_scan_Some:
  assumes "cstr m p s" and "sc = scan_number base s"
  shows "\<exists>c s1 n c' q.
    skip_space m p = Some (c, s1) \<and>
    strto_sign m c s1 = Some (negative sc, c', n) \<and>
    strto_base m c' n base = Some (base_of sc, cur q, p + skipped sc + 1) \<and>
    cstr m (p + skipped sc) q \<and> digits sc = scan_digits (base_of sc) q"
proof -
  define sp s1 where "sp = takeWhile is_space_char s" and "s1 = dropWhile is_space_char s"
  obtain neg n s2 where sg: "scan_sign s1 = (neg, n, s2)" by (metis prod_cases3)
  obtain b k s3 where bs: "scan_base base s2 = (b, k, s3)" by (metis prod_cases3)
  have sc: "sc = \<lparr>negative = neg, base_of = b, skipped = length sp + n + k, digits = scan_digits b s3\<rparr>"
    using assms(2) sg bs by (simp add: scan_number_def sp_def s1_def)
  from skip_space_Some [OF assms(1) sp_def s1_def]
  have 1: "skip_space m p = Some (cur s1, p + length sp + 1)" "cstr m (p + length sp) s1" by auto
  from strto_sign_Some [OF 1(2) sg]
  have 2: "strto_sign m (cur s1) (p + length sp + 1) = Some (neg, cur s2, p + length sp + n + 1)"
    "cstr m (p + length sp + n) s2" by auto
  from strto_base_Some [OF 2(2) bs]
  have 3: "strto_base m (cur s2) (p + length sp + n + 1) base = Some (b, cur s3, p + length sp + n + k + 1)"
    "cstr m (p + length sp + n + k) s3" by auto
  show ?thesis
    by (rule exI [of _ "cur s1"], rule exI [of _ "p + length sp + 1"],
        rule exI [of _ "p + length sp + n + 1"], rule exI [of _ "cur s2"],
        rule exI [of _ s3])
      (use 1 2 3 sc in \<open>simp add: add.assoc\<close>)
qed

lemma numeral_nonneg: "2 \<le> base \<Longrightarrow> 0 \<le> numeral_value base (scan_digits base s)"
  unfolding numeral_value_def by (rule numeral_mono) (auto dest: scan_digits_bounds)

lemma two_power_36: "6 \<le> n \<Longrightarrow> base \<le> 36 \<Longrightarrow> base < (2 :: int) ^ n"
  using power_increasing [of 6 n "2 :: int"] by simp

lemma strto_fold_numeral:
  assumes "6 \<le> LENGTH('l::len)" "0 \<le> L" "L < 2 ^ LENGTH('l)" "2 \<le> base" "base \<le> 36"
    and "v = numeral_value base (scan_digits base s)"
  shows "foldl (strto_step base (of_int L div of_int base :: 'l word)
      (uint (of_int L mod of_int base :: 'l word)) (of_int L)) (0, 0, err) (scan_digits base s) =
    (if v > L then (of_int L, -1, ERANGE)
     else (of_int v, if scan_digits base s = [] then 0 else 1, err))"
  using strto_fold_exact [OF assms(2,3,4) two_power_36 [OF assms(1,5)], of 0 "scan_digits base s" 0 err]
    scan_digits_bounds assms(2,6)
  by (simp add: numeral_value_def Let_def)

lemma strto_run:
  fixes L base :: int and err :: int
  assumes "cstr m p s" and "6 \<le> LENGTH('l::len)" "0 \<le> L" "L < 2 ^ LENGTH('l)" "2 \<le> base" "base \<le> 36"
    and v: "v = numeral_value base ds" and ds: "ds = scan_digits base s"
  shows "strto_loop m (p + 1) (cur s) base (of_int L div of_int base :: 'l word)
      (uint (of_int L mod of_int base :: 'l word)) (of_int L) (0, 0, err) =
    Some (if v > L then (of_int L, -1, ERANGE) else (of_int v, if ds = [] then 0 else 1, err),
      p + length ds + 1)"
  unfolding strto_loop_Some [OF assms(1)]
    strto_fold_numeral [OF assms(2-6) v [unfolded ds]] ds ..

definition scan_end :: "addr \<Rightarrow> scan \<Rightarrow> addr" where
  "scan_end p sc = (if digits sc = [] then p else p + skipped sc + length (digits sc))"

definition scan_value :: "scan \<Rightarrow> int" where
  "scan_value sc =
     (let v = numeral_value (base_of sc) (digits sc) in if negative sc then - v else v)"

lemma sint_of_int_small:
  "0 \<le> v \<Longrightarrow> v < 2 ^ (LENGTH('l) - 1) \<Longrightarrow> sint (of_int v :: 'l::len word) = v"
  by (simp add: signed_of_int signed_take_bit_int_eq_self)

lemma strtol_Some:
  assumes c: "cstr m p s" and len: "6 \<le> LENGTH('l::len)" and sc: "sc = scan_number base s"
  shows "strtol TYPE('l) m p base err = Some (
    if base_of sc < 2 \<or> base_of sc > 36 then (0, EINVAL, p)
    else if LONG_MIN TYPE('l) \<le> scan_value sc \<and> scan_value sc \<le> LONG_MAX TYPE('l)
    then (scan_value sc, err, scan_end p sc)
    else (if negative sc then LONG_MIN TYPE('l) else LONG_MAX TYPE('l), ERANGE, scan_end p sc))"
proof (cases "base_of sc < 2 \<or> base_of sc > 36")
  case True
  from strto_scan_Some [OF c sc] obtain x1 s1 n c' q where
    "skip_space m p = Some (x1, s1)" "strto_sign m x1 s1 = Some (negative sc, c', n)"
    "strto_base m c' n base = Some (base_of sc, cur q, p + skipped sc + 1)"
    by (elim exE conjE) (rule that)
  with True show ?thesis by (simp add: strtol_def del: bind_Some_iff)
next
  case False
  then have b: "2 \<le> base_of sc" "base_of sc \<le> 36" by auto
  from strto_scan_Some [OF c sc] obtain x1 s1 n c' q where
    pre: "skip_space m p = Some (x1, s1)" "strto_sign m x1 s1 = Some (negative sc, c', n)"
      "strto_base m c' n base = Some (base_of sc, cur q, p + skipped sc + 1)"
    and q: "cstr m (p + skipped sc) q" and ds: "digits sc = scan_digits (base_of sc) q"
    by (elim exE conjE) (rule that)
  define v where "v = numeral_value (base_of sc) (digits sc)"
  have v0: "0 \<le> v" using numeral_nonneg [OF b(1)] by (simp add: v_def ds)
  define L where "L = (if negative sc then LONG_MAX TYPE('l) + 1 else LONG_MAX TYPE('l))"
  obtain k where k: "LENGTH('l) = Suc k" using len by (cases "LENGTH('l)") auto
  have L: "0 \<le> L" "L < 2 ^ LENGTH('l)"
    by (auto simp: L_def LONG_MAX_def k intro: order.strict_trans2 [of _ 0])
  have cut: "(if negative sc then of_int (LONG_MAX TYPE('l)) + 1 else of_int (LONG_MAX TYPE('l)) :: 'l word) = of_int L"
    by (simp add: L_def)
  have lp: "strto_loop m (p + skipped sc + 1) (cur q) (base_of sc) (of_int L div of_int (base_of sc) :: 'l word)
        (uint (of_int L mod of_int (base_of sc) :: 'l word)) (of_int L) (0, 0, err) =
      Some (if v > L then (of_int L, -1, ERANGE)
        else (of_int v, if digits sc = [] then 0 else 1, err), p + skipped sc + length (digits sc) + 1)"
    by (rule strto_run [OF q len L b v_def ds])
  have big: "v > L \<Longrightarrow> digits sc \<noteq> []" using L by (auto simp: v_def numeral_value_def)
  have range: "LONG_MIN TYPE('l) \<le> scan_value sc \<and> scan_value sc \<le> LONG_MAX TYPE('l) \<longleftrightarrow> \<not> v > L"
  proof -
    have "- v < 2 ^ k" by (rule order.strict_trans1 [of "- v" 0]) (use v0 in simp_all)
    then show ?thesis using v0
      by (auto simp: scan_value_def v_def [symmetric] L_def LONG_MIN_def LONG_MAX_def k)
  qed
  have lim: "(of_int v :: 'l word) = of_int (LONG_MAX TYPE('l)) + 1 \<longleftrightarrow> v = 2 ^ k" if "v \<le> L"
  proof -
    have "v < 2 ^ LENGTH('l)" using that L by simp
    then have "uint (of_int v :: 'l word) = v" using v0 by (simp add: uint_of_int_small)
    moreover have "uint (of_int (2 ^ k) :: 'l word) = 2 ^ k" by (rule uint_of_int_small) (simp_all add: k)
    ultimately show ?thesis by (simp add: word_uint_eq_iff LONG_MAX_def k)
  qed
  have run: "strtol TYPE('l) m p base err = Some (
      if v > L then (if negative sc then LONG_MIN TYPE('l) else LONG_MAX TYPE('l), ERANGE, scan_end p sc)
      else if negative sc \<and> (of_int v :: 'l word) = of_int (LONG_MAX TYPE('l)) + 1
      then (LONG_MIN TYPE('l), err, scan_end p sc)
      else (if negative sc then - sint (of_int v :: 'l word) else sint (of_int v :: 'l word), err, scan_end p sc))"
    using False big by (simp add: strtol_def pre cut lp [unfolded One_nat_def add_Suc_right add_0_right] Let_def scan_end_def del: bind_Some_iff)
  show ?thesis
  proof (cases "v > L \<or> (negative sc \<and> v = 2 ^ k)")
    case True
    have "L = 2 ^ k" if "negative sc" using that by (simp add: L_def LONG_MAX_def k)
    with True False show ?thesis unfolding run range using lim v0
      by (auto simp: scan_value_def v_def [symmetric] LONG_MIN_def k)
  next
    case ok: False
    then have "v < 2 ^ k" by (auto simp: L_def LONG_MAX_def k split: if_splits)
    then have "sint (of_int v :: 'l word) = v" using v0 by (simp add: sint_of_int_small k)
    then show ?thesis unfolding run range using ok lim False
      by (auto simp: scan_value_def v_def [symmetric])
  qed
qed

lemma strtoul_Some:
  assumes c: "cstr m p s" and len: "6 \<le> LENGTH('l::len)" and sc: "sc = scan_number base s"
  shows "strtoul TYPE('l) m p base err = Some (
    if base_of sc < 2 \<or> base_of sc > 36 then (0, EINVAL, p)
    else if \<bar>scan_value sc\<bar> \<le> ULONG_MAX TYPE('l)
    then (of_int (scan_value sc), err, scan_end p sc)
    else (of_int (ULONG_MAX TYPE('l)), ERANGE, scan_end p sc))"
proof (cases "base_of sc < 2 \<or> base_of sc > 36")
  case True
  from strto_scan_Some [OF c sc] obtain x1 s1 n c' q where
    "skip_space m p = Some (x1, s1)" "strto_sign m x1 s1 = Some (negative sc, c', n)"
    "strto_base m c' n base = Some (base_of sc, cur q, p + skipped sc + 1)"
    by (elim exE conjE) (rule that)
  with True show ?thesis by (simp add: strtoul_def del: bind_Some_iff)
next
  case False
  then have b: "2 \<le> base_of sc" "base_of sc \<le> 36" by auto
  from strto_scan_Some [OF c sc] obtain x1 s1 n c' q where
    pre: "skip_space m p = Some (x1, s1)" "strto_sign m x1 s1 = Some (negative sc, c', n)"
      "strto_base m c' n base = Some (base_of sc, cur q, p + skipped sc + 1)"
    and q: "cstr m (p + skipped sc) q" and ds: "digits sc = scan_digits (base_of sc) q"
    by (elim exE conjE) (rule that)
  define v where "v = numeral_value (base_of sc) (digits sc)"
  have v0: "0 \<le> v" using numeral_nonneg [OF b(1)] by (simp add: v_def ds)
  define L where "L = ULONG_MAX TYPE('l)"
  have L: "0 \<le> L" "L < 2 ^ LENGTH('l)" by (simp_all add: L_def ULONG_MAX_def)
  have lp: "strto_loop m (p + skipped sc + 1) (cur q) (base_of sc) (of_int L div of_int (base_of sc) :: 'l word)
        (uint (of_int L mod of_int (base_of sc) :: 'l word)) (of_int L) (0, 0, err) =
      Some (if v > L then (of_int L, -1, ERANGE)
        else (of_int v, if digits sc = [] then 0 else 1, err), p + skipped sc + length (digits sc) + 1)"
    by (rule strto_run [OF q len L b v_def ds])
  have big: "v > L \<Longrightarrow> digits sc \<noteq> []" using L by (auto simp: v_def numeral_value_def)
  have none: "digits sc = [] \<Longrightarrow> v = 0" by (simp add: v_def numeral_value_def)
  have abs: "\<bar>scan_value sc\<bar> = v" using v0 by (simp add: scan_value_def v_def [symmetric] Let_def)
  show ?thesis
    using pre lp False big none abs
    by (auto simp: strtoul_def L_def [symmetric] Let_def scan_end_def scan_value_def v_def [symmetric])
qed

subsection \<open>The longest numeral\<close>

text \<open>
  The numerals of the C standard, with no reference to the code: an optional sign, for base 16 and
  for base 0 an optional prefix, and digits of the base. Base 0 stands for 16 behind a prefix, for 8
  when the digits start with 0, and for 10.
\<close>

definition digit_value :: "char \<Rightarrow> int option" where
  "digit_value c =
     (if 48 \<le> uchar c \<and> uchar c \<le> 57 then Some (uchar c - 48)
      else if 65 \<le> uchar c \<and> uchar c \<le> 90 then Some (uchar c - 55)
      else if 97 \<le> uchar c \<and> uchar c \<le> 122 then Some (uchar c - 87)
      else None)"

definition base_digit :: "int \<Rightarrow> char \<Rightarrow> bool" where
  "base_digit b c = (case digit_value c of None \<Rightarrow> False | Some d \<Rightarrow> d < b)"

definition signs :: "string set" where "signs = {[], ''-'', ''+''}"
definition hex_prefixes :: "string set" where "hex_prefixes = {''0x'', ''0X''}"

definition numeral_form :: "int \<Rightarrow> string \<Rightarrow> bool \<Rightarrow> int \<Rightarrow> string \<Rightarrow> bool" where
  "numeral_form base t neg b ds \<longleftrightarrow> ds \<noteq> [] \<and> list_all (base_digit b) ds \<and>
     (\<exists>sign \<in> signs. \<exists>pre \<in> insert [] hex_prefixes. t = sign @ pre @ ds \<and> (neg \<longleftrightarrow> sign = ''-'') \<and>
        (if pre = [] then b = (if base = 0 then if hd ds = CHR ''0'' then 8 else 10 else base)
         else b = 16 \<and> (base = 0 \<or> base = 16)))"

definition is_numeral :: "int \<Rightarrow> string \<Rightarrow> bool" where
  "is_numeral base t \<longleftrightarrow> (\<exists>neg b ds. numeral_form base t neg b ds)"

text \<open>The numeral \<open>t\<close> is the longest one that the text starts with.\<close>

definition longest_numeral :: "int \<Rightarrow> string \<Rightarrow> string \<Rightarrow> bool" where
  "longest_numeral base s t \<longleftrightarrow> t = take (length t) s \<and> is_numeral base t \<and>
     (\<forall>k. length t < k \<longrightarrow> k \<le> length s \<longrightarrow> \<not> is_numeral base (take k s))"

definition no_numeral :: "int \<Rightarrow> string \<Rightarrow> bool" where
  "no_numeral base s \<longleftrightarrow> (\<forall>k \<le> length s. \<not> is_numeral base (take k s))"

text \<open>A prefix without a hexadecimal digit behind it: here the code differs from the standard, which
  takes the 0 of the prefix as the numeral.\<close>

definition bare_prefix :: "int \<Rightarrow> string \<Rightarrow> bool" where
  "bare_prefix base s \<longleftrightarrow> (base = 0 \<or> base = 16) \<and>
     (\<exists>sign \<in> signs. \<exists>pre \<in> hex_prefixes. \<exists>r. s = sign @ pre @ r \<and> (r = [] \<or> \<not> base_digit 16 (hd r)))"

lemma strto_digit_value: "strto_digit c = digit_value c"
  by (simp add: strto_digit_def digit_value_def ctype_iffs isalpha_iff word_le_def)

lemma scan_digits_takeWhile: "scan_digits b s = map (the \<circ> digit_value) (takeWhile (base_digit b) s)"
  by (induction s) (simp_all add: strto_digit_value base_digit_def split: option.split)

lemma scan_sign_split:
  assumes "scan_sign s = (neg, n, s1)"
  obtains sign where "s = sign @ s1" "sign \<in> signs" "neg \<longleftrightarrow> sign = ''-''" "n = length sign"
    "\<forall>sign' \<in> signs. \<forall>r. s = sign' @ r \<longrightarrow> r \<noteq> [] \<longrightarrow> hd r \<notin> {CHR ''-'', CHR ''+''} \<longrightarrow> sign' = sign"
proof (cases s)
  case Nil
  with assms show ?thesis by (intro that [of "[]"]) (auto simp: scan_sign_def signs_def)
next
  case (Cons c r)
  with assms show ?thesis
    by (intro that [of "if c = CHR ''-'' then ''-'' else if c = CHR ''+'' then ''+'' else []"])
      (auto simp: scan_sign_def signs_def split: if_splits)
qed

lemma scan_base_split:
  assumes "scan_base base s = (b, k, s1)"
  obtains pre where "s = pre @ s1" "k = length pre" "pre \<in> insert [] hex_prefixes"
    "if pre = [] then b = (if base = 0 then if take 1 s = ''0'' then 8 else 10 else base) \<and>
        ((base = 0 \<or> base = 16) \<longrightarrow> (\<forall>pre' \<in> hex_prefixes. \<forall>r. s \<noteq> pre' @ r))
     else b = 16 \<and> (base = 0 \<or> base = 16)"
proof (cases "(base = 0 \<or> base = 16) \<and> (\<exists>x \<in> {CHR ''x'', CHR ''X''}. take 2 s = [CHR ''0'', x])")
  case True
  then obtain x where x: "x \<in> {CHR ''x'', CHR ''X''}" "take 2 s = [CHR ''0'', x]" by blast
  have "s = take 2 s @ drop 2 s" by simp
  then have "s = [CHR ''0'', x] @ drop 2 s" using x(2) by simp
  then show ?thesis using assms True x by (intro that [of "[CHR ''0'', x]"]) (auto simp: scan_base_def hex_prefixes_def)
next
  case False
  then show ?thesis using assms by (intro that [of "[]"]) (auto simp: scan_base_def hex_prefixes_def split: if_splits)
qed

lemma base_digit_no_sign: "base_digit b c \<Longrightarrow> c \<notin> {CHR ''-'', CHR ''+''}"
  by (auto simp: base_digit_def digit_value_def)

lemma base_digit_not_x: "b \<le> 16 \<Longrightarrow> base_digit b c \<Longrightarrow> c \<notin> {CHR ''x'', CHR ''X''}"
  by (auto simp: base_digit_def digit_value_def)

lemma prefix_takeWhile:
  assumes "list_all P ds" "ds @ r = s"
  shows "length ds \<le> length (takeWhile P s)"
  using assms(1) unfolding assms(2) [symmetric] by (simp add: list_all_iff takeWhile_append2)

text \<open>The scan finds the longest numeral, except behind a bare prefix.\<close>

lemma scan_number_longest:
  fixes s base
  defines "rest \<equiv> dropWhile is_space_char s"
  assumes sc: "sc = scan_number base s" and base: "base = 0 \<or> 2 \<le> base"
  shows "if bare_prefix base rest \<or> no_numeral base rest then digits sc = []
    else \<exists>t b ds. longest_numeral base rest t \<and> numeral_form base t (negative sc) b ds \<and> base_of sc = b \<and>
      digits sc = map (the \<circ> digit_value) ds \<and> skipped sc + length (digits sc) = length (takeWhile is_space_char s) + length t"
proof -
  obtain neg n s1 where sg: "scan_sign rest = (neg, n, s1)" by (metis prod_cases3)
  obtain b k s2 where bs: "scan_base base s1 = (b, k, s2)" by (metis prod_cases3)
  obtain sign where sign: "rest = sign @ s1" "sign \<in> signs" "neg \<longleftrightarrow> sign = ''-''" "n = length sign"
    "\<forall>sign' \<in> signs. \<forall>r. rest = sign' @ r \<longrightarrow> r \<noteq> [] \<longrightarrow> hd r \<notin> {CHR ''-'', CHR ''+''} \<longrightarrow> sign' = sign"
    by (rule scan_sign_split [OF sg])
  obtain pre where pre: "s1 = pre @ s2" "k = length pre" "pre \<in> insert [] hex_prefixes"
    "if pre = [] then b = (if base = 0 then if take 1 s1 = ''0'' then 8 else 10 else base) \<and>
        ((base = 0 \<or> base = 16) \<longrightarrow> (\<forall>pre' \<in> hex_prefixes. \<forall>r. s1 \<noteq> pre' @ r))
     else b = 16 \<and> (base = 0 \<or> base = 16)"
    by (rule scan_base_split [OF bs])
  define D where "D = takeWhile (base_digit b) s2"
  have sc': "negative sc = neg" "base_of sc = b" "skipped sc = length (takeWhile is_space_char s) + n + k"
    "digits sc = map (the \<circ> digit_value) D"
    using sg bs by (simp_all add: sc scan_number_def rest_def [symmetric] scan_digits_takeWhile D_def)
  let ?t = "sign @ pre @ D"
  have upper: "length t' \<le> length ?t \<and> (D = [] \<longrightarrow> bare_prefix base rest)" if num: "is_numeral base t'" and "t' @ r = rest" for t' r
  proof -
    obtain neg' b' ds sign' pre' where t': "ds \<noteq> []" "list_all (base_digit b') ds" "sign' \<in> signs"
      "pre' \<in> insert [] hex_prefixes" "t' = sign' @ pre' @ ds"
      and b': "if pre' = [] then b' = (if base = 0 then if hd ds = CHR ''0'' then 8 else 10 else base)
         else b' = 16 \<and> (base = 0 \<or> base = 16)"
      using num unfolding is_numeral_def numeral_form_def by blast
    have "base_digit b' (hd ds)" using t'(1,2) by (cases ds) auto
    then have "hd (pre' @ ds) \<notin> {CHR ''-'', CHR ''+''}"
      using t'(4) base_digit_no_sign by (auto simp: hex_prefixes_def)
    then have s': "sign' = sign"
      by (intro sign(5) [rule_format, OF t'(3), of "pre' @ ds @ r"]) (use that(2) t'(1,5) in \<open>auto simp: hd_append\<close>)
    then have s1: "pre' @ ds @ r = s1" using that(2) t'(5) sign(1) by simp
    show ?thesis
    proof (cases "pre = []")
      case True
      have "pre' = []"
      proof (rule ccontr)
        assume "pre' \<noteq> []"
        then have "base = 0 \<or> base = 16" "pre' \<in> hex_prefixes" using b' t'(4) by auto
        then have "s1 \<noteq> pre' @ (ds @ r)" using pre(4) True by auto
        then show False using s1 by simp
      qed
      then have ds: "ds @ r = s2" using s1 pre(1) True by simp
      have "take 1 s1 = ''0'' \<longleftrightarrow> hd ds = CHR ''0''" using ds t'(1) pre(1) True by (cases ds) auto
      then have "b' = b" using b' pre(4) True \<open>pre' = []\<close> by simp
      then have "length ds \<le> length D" using prefix_takeWhile [OF t'(2) ds] by (simp add: D_def)
      then show ?thesis using t'(1,5) s' \<open>pre' = []\<close> by auto
    next
      case False
      then have hex: "b = 16" "base = 0 \<or> base = 16" "pre \<in> hex_prefixes" using pre(3,4) by auto
      have bare: "D = [] \<longrightarrow> bare_prefix base rest"
      proof
        assume "D = []"
        then have "s2 = [] \<or> \<not> base_digit 16 (hd s2)" by (cases s2) (auto simp: D_def hex(1) split: if_splits)
        then show "bare_prefix base rest" using hex(2,3) sign(1,2) pre(1) unfolding bare_prefix_def by blast
      qed
      show ?thesis
      proof (cases "pre' = []")
        case True
        then have "b' \<le> 16" using b' hex(2) by (auto split: if_splits)
        have "length ds \<le> 1"
        proof (rule ccontr)
          assume "\<not> length ds \<le> 1"
          then have "ds ! 1 \<in> set ds" by simp
          then have "base_digit b' (ds ! 1)" using t'(2) by (auto simp: list_all_iff)
          moreover have "ds ! 1 = s1 ! 1" using s1 True \<open>\<not> length ds \<le> 1\<close> by (auto simp: nth_append)
          moreover have "s1 ! 1 \<in> {CHR ''x'', CHR ''X''}" using pre(1) hex(3) by (auto simp: hex_prefixes_def)
          ultimately show False using base_digit_not_x [OF \<open>b' \<le> 16\<close>] by metis
        qed
        moreover have "length pre = 2" using hex(3) by (auto simp: hex_prefixes_def)
        ultimately show ?thesis using t'(5) s' True bare by simp
      next
        case pre': False
        then have "pre' = pre" "b' = 16" using s1 pre(1) b' t'(4) hex(3) by (auto simp: hex_prefixes_def)
        then have "ds @ r = s2" using s1 pre(1) by simp
        then have "length ds \<le> length D" using prefix_takeWhile [OF t'(2), of r s2] \<open>b' = 16\<close> by (simp add: D_def hex(1))
        then show ?thesis using t'(5) s' \<open>pre' = pre\<close> bare by simp
      qed
    qed
  qed
  have t: "?t = take (length ?t) rest" "length ?t \<le> length rest"
    using takeWhile_eq_take [of "base_digit b" s2] length_takeWhile_le [of "base_digit b" s2]
    by (simp_all add: sign(1) pre(1) D_def)
  have form: "numeral_form base ?t neg b D" if "D \<noteq> []"
  proof -
    have "hd D = hd s2" "s2 \<noteq> []" using that by (cases s2; auto simp: D_def split: if_splits)+
    then have "take 1 s1 = ''0'' \<longleftrightarrow> hd D = CHR ''0''" if "pre = []" using that pre(1) by (cases s2) auto
    moreover have "list_all (base_digit b) D" by (auto simp: D_def list_all_iff dest: set_takeWhileD)
    ultimately show ?thesis
      unfolding numeral_form_def using that sign(2,3) pre(3,4) by (intro conjI bexI [of _ sign] bexI [of _ pre]) auto
  qed
  show ?thesis
  proof (cases "D = []")
    case True
    have "bare_prefix base rest \<or> no_numeral base rest"
    proof (rule ccontr)
      assume no: "\<not> (bare_prefix base rest \<or> no_numeral base rest)"
      then obtain j where "is_numeral base (take j rest)" by (auto simp: no_numeral_def)
      from upper [OF this, of "drop j rest"] True no show False by simp
    qed
    then show ?thesis using True sc'(4) by simp
  next
    case False
    have num: "is_numeral base ?t" using form [OF False] by (auto simp: is_numeral_def)
    then have some: "\<not> no_numeral base rest" using t by (metis no_numeral_def)
    have unbare: "\<not> bare_prefix base rest"
    proof
      assume "bare_prefix base rest"
      then obtain sign' pre' r where bare: "base = 0 \<or> base = 16" "sign' \<in> signs" "pre' \<in> hex_prefixes" "rest = sign' @ pre' @ r"
        "r = [] \<or> \<not> base_digit 16 (hd r)" unfolding bare_prefix_def by blast
      have "sign' = sign" by (rule sign(5) [rule_format, OF bare(2,4)]) (use bare(3) in \<open>auto simp: hex_prefixes_def\<close>)
      then have s1: "s1 = pre' @ r" using sign(1) bare(4) by simp
      have "pre \<noteq> []"
      proof
        assume "pre = []"
        then have "\<forall>pre' \<in> hex_prefixes. \<forall>r. s1 \<noteq> pre' @ r" using pre(4) bare(1) by simp
        then show False using bare(3) s1 by blast
      qed
      then have "s2 = r" "b = 16" using s1 pre(1,3,4) bare(3) by (auto simp: hex_prefixes_def)
      then show False using False bare(5) by (cases r) (auto simp: D_def)
    qed
    have "longest_numeral base rest ?t"
      unfolding longest_numeral_def
    proof (intro conjI allI impI)
      show "\<not> is_numeral base (take j rest)" if "length ?t < j" "j \<le> length rest" for j
        using upper [of "take j rest" "drop j rest"] that by auto
    qed (rule t(1), rule num)
    moreover have "numeral_form base ?t (negative sc) b D" using form [OF False] sc'(1) by simp
    moreover have "skipped sc + length (digits sc) = length (takeWhile is_space_char s) + length ?t"
      using sc'(3,4) sign(4) pre(2) by simp
    moreover have "\<not> (bare_prefix base rest \<or> no_numeral base rest)" using some unbare by simp
    ultimately show ?thesis using sc'(2,4) by (simp only: if_False) blast
  qed
qed

text \<open>The routines on a valid base, in terms of the longest numeral.\<close>

definition text_value :: "bool \<Rightarrow> int \<Rightarrow> string \<Rightarrow> int" where
  "text_value neg b ds = (let v = numeral_value b (map (the \<circ> digit_value) ds) in if neg then - v else v)"

lemma strtol_longest:
  fixes s base
  defines "rest \<equiv> dropWhile is_space_char s" and "k \<equiv> length (takeWhile is_space_char s)"
  assumes c: "cstr m p s" and len: "6 \<le> LENGTH('l::len)" and base: "base = 0 \<or> 2 \<le> base \<and> base \<le> 36"
  shows "if bare_prefix base rest \<or> no_numeral base rest then strtol TYPE('l) m p base err = Some (0, err, p)
    else \<exists>t neg b ds. longest_numeral base rest t \<and> numeral_form base t neg b ds \<and>
      strtol TYPE('l) m p base err = Some (
        if LONG_MIN TYPE('l) \<le> text_value neg b ds \<and> text_value neg b ds \<le> LONG_MAX TYPE('l)
        then (text_value neg b ds, err, p + k + length t)
        else (if neg then LONG_MIN TYPE('l) else LONG_MAX TYPE('l), ERANGE, p + k + length t))"
proof -
  define sc where "sc = scan_number base s"
  have valid: "\<not> (base_of sc < 2 \<or> base_of sc > 36)"
    using base by (auto simp: sc_def scan_number_def scan_base_def split: prod.splits if_splits)
  note run = strtol_Some [OF c len sc_def, of err, unfolded if_not_P [OF valid]]
  have base2: "base = 0 \<or> 2 \<le> base" using base by blast
  note longest = scan_number_longest [OF sc_def base2, folded rest_def k_def]
  show ?thesis
  proof (cases "bare_prefix base rest \<or> no_numeral base rest")
    case True
    then have "digits sc = []" using longest by simp
    then show ?thesis using True run
      by (simp add: scan_value_def scan_end_def numeral_value_def LONG_MIN_def LONG_MAX_def)
  next
    case False
    then obtain t b ds where t: "longest_numeral base rest t" "numeral_form base t (negative sc) b ds" "base_of sc = b"
      "digits sc = map (the \<circ> digit_value) ds" "skipped sc + length (digits sc) = k + length t"
      using longest by auto
    have "ds \<noteq> []" using t(2) by (simp add: numeral_form_def)
    then have "scan_end p sc = p + k + length t" using t(4,5) by (simp add: scan_end_def)
    moreover have "scan_value sc = text_value (negative sc) b ds" using t(3,4) by (simp add: scan_value_def text_value_def)
    ultimately have "strtol TYPE('l) m p base err = Some (
        if LONG_MIN TYPE('l) \<le> text_value (negative sc) b ds \<and> text_value (negative sc) b ds \<le> LONG_MAX TYPE('l)
        then (text_value (negative sc) b ds, err, p + k + length t)
        else (if negative sc then LONG_MIN TYPE('l) else LONG_MAX TYPE('l), ERANGE, p + k + length t))"
      using run by (simp only:)
    with t(1,2) show ?thesis unfolding if_not_P [OF False] by blast
  qed
qed

end
