(* ===== verification/CRT_Sort.thy ===== *)
theory CRT_Sort
  imports CRT_Strtol "HOL-Library.Multiset"
begin

text \<open>
  Sorting and searching: \<^verbatim>\<open>libc/src/qsort.c\<close>. The array is a block of memory that holds
  \<open>nmemb\<close> records of \<open>size\<close> bytes; the comparison function is a parameter that reads memory at the
  two addresses it is given. \<open>recs\<close> relates the block to the list of its records, and a comparison
  that is a total preorder on records is the locale \<open>comparator\<close>, with \<open>memcmp\<close> as its instance.
\<close>

type_synonym compar = "mem \<Rightarrow> addr \<Rightarrow> addr \<Rightarrow> int option"

subsection \<open>qsort.c\<close>

fun swap_bytes :: "mem \<Rightarrow> addr \<Rightarrow> addr \<Rightarrow> nat \<Rightarrow> mem option" where
  "swap_bytes m a b 0 = Some m"
| "swap_bytes m a b (Suc n) = do {
     tmp \<leftarrow> load m a;
     c \<leftarrow> load m b;
     m \<leftarrow> store m a c;
     m \<leftarrow> store m b tmp;
     swap_bytes m (a + 1) (b + 1) n }"

text \<open>The candidate that one round of \<open>sift_down\<close> picks among \<open>root\<close> and its children.\<close>

definition sift_candidate :: "compar \<Rightarrow> mem \<Rightarrow> addr \<Rightarrow> nat \<Rightarrow> nat \<Rightarrow> nat \<Rightarrow> nat option" where
  "sift_candidate compar m base root lim sz = do {
     let child = root * 2 + 1;
     r \<leftarrow> compar m (base + root * sz) (base + child * sz);
     let candidate = (if r < 0 then child else root);
     if child < lim then do {
       r \<leftarrow> compar m (base + candidate * sz) (base + (child + 1) * sz);
       Some (if r < 0 then child + 1 else candidate) }
     else Some candidate }"

lemma sift_candidate_greater:
  "sift_candidate compar m base root lim sz = Some c \<Longrightarrow>
    c = root \<or> c = root * 2 + 1 \<or> (c = root * 2 + 2 \<and> root * 2 + 1 < lim)"
  by (auto simp: sift_candidate_def Let_def split: if_splits)

function sift_down :: "compar \<Rightarrow> mem \<Rightarrow> addr \<Rightarrow> nat \<Rightarrow> nat \<Rightarrow> nat \<Rightarrow> mem option" where
  "sift_down compar m base root lim sz =
     (if root \<le> (lim - 1) div 2 then
        case sift_candidate compar m base root lim sz of
          None \<Rightarrow> None
        | Some candidate \<Rightarrow>
            if candidate = root then Some m
            else (case swap_bytes m (base + root * sz) (base + candidate * sz) sz of
                None \<Rightarrow> None
              | Some m \<Rightarrow> sift_down compar m base candidate lim sz)
      else Some m)"
  by pat_completeness auto
termination
proof (relation "measure (\<lambda>(_, _, _, root, lim, _). Suc lim - root)", goal_cases)
  case (2 compar m base root lim sz c m')
  then show ?case using sift_candidate_greater [OF 2(2)] by auto
qed simp

declare sift_down.simps [simp del]

text \<open>The two loops of \<open>qsort\<close>: build the heap from \<open>start\<close> down, then take the largest off.\<close>

fun build_heap :: "compar \<Rightarrow> mem \<Rightarrow> addr \<Rightarrow> nat \<Rightarrow> nat \<Rightarrow> nat \<Rightarrow> mem option" where
  "build_heap compar m base 0 nmemb sz = Some m"
| "build_heap compar m base (Suc start) nmemb sz = do {
     m \<leftarrow> sift_down compar m base start (nmemb - 1) sz;
     build_heap compar m base start nmemb sz }"

fun drain_heap :: "compar \<Rightarrow> mem \<Rightarrow> addr \<Rightarrow> nat \<Rightarrow> nat \<Rightarrow> mem option" where
  "drain_heap compar m base 0 sz = Some m"
| "drain_heap compar m base (Suc k) sz = do {
     m \<leftarrow> swap_bytes m base (base + Suc k * sz) sz;
     m \<leftarrow> (if k \<noteq> 0 then sift_down compar m base 0 k sz else Some m);
     drain_heap compar m base k sz }"

definition qsort :: "mem \<Rightarrow> addr \<Rightarrow> nat \<Rightarrow> nat \<Rightarrow> compar option \<Rightarrow> mem option" where
  "qsort m base nmemb sz compar =
     (case compar of None \<Rightarrow> Some m | Some compar \<Rightarrow>
      if base = null \<or> sz = 0 \<or> nmemb < 2 then Some m
      else do {
        m \<leftarrow> build_heap compar m base ((nmemb - 2) div 2 + 1) nmemb sz;
        drain_heap compar m base (nmemb - 1) sz })"

function bsearch_loop :: "compar \<Rightarrow> mem \<Rightarrow> addr \<Rightarrow> addr \<Rightarrow> nat \<Rightarrow> nat \<Rightarrow> addr option" where
  "bsearch_loop compar m key first nmemb sz =
     (if nmemb \<noteq> 0 then do {
        let half = nmemb div 2;
        let middle = first + half * sz;
        result \<leftarrow> compar m key middle;
        if result = 0 then Some middle
        else if result > 0 then bsearch_loop compar m key (middle + sz) (nmemb - (half + 1)) sz
        else bsearch_loop compar m key first half sz }
      else Some null)"
  by pat_completeness auto
termination by (relation "measure (\<lambda>(_, _, _, _, nmemb, _). nmemb)") auto

declare bsearch_loop.simps [simp del]

definition bsearch :: "mem \<Rightarrow> addr \<Rightarrow> addr \<Rightarrow> nat \<Rightarrow> nat \<Rightarrow> compar option \<Rightarrow> addr option" where
  "bsearch m key base nmemb sz compar =
     (case compar of None \<Rightarrow> Some null | Some compar \<Rightarrow>
      if key = null \<or> base = null \<or> sz = 0 then Some null
      else bsearch_loop compar m key base nmemb sz)"

subsection \<open>Records in memory\<close>

definition recs :: "mem \<Rightarrow> addr \<Rightarrow> nat \<Rightarrow> string list \<Rightarrow> bool" where
  "recs m base sz xs \<longleftrightarrow>
     list_all (\<lambda>i. length (xs ! i) = sz \<and> bytes_at m (base + i * sz) (xs ! i)) [0..<length xs]"

lemma recs_iff: "recs m base sz xs \<longleftrightarrow>
    (\<forall>i<length xs. length (xs ! i) = sz \<and> bytes_at m (base + i * sz) (xs ! i))"
  by (auto simp: recs_def list_all_iff)

text \<open>The same memory outside a block.\<close>

definition same_outside :: "addr \<Rightarrow> nat \<Rightarrow> mem \<Rightarrow> mem \<Rightarrow> bool" where
  "same_outside p n m m' \<longleftrightarrow> (\<forall>a. a < p \<or> p + n \<le> a \<longrightarrow> m' a = m a)"

lemma same_outside_refl [simp]: "same_outside p n m m"
  by (simp add: same_outside_def)

lemma same_outside_trans:
  "same_outside p n m1 m2 \<Longrightarrow> same_outside p n m2 m3 \<Longrightarrow> same_outside p n m1 m3"
  by (simp add: same_outside_def)

lemma swap_bytes_Some:
  "bytes_at m a s \<Longrightarrow> bytes_at m b t \<Longrightarrow> length s = n \<Longrightarrow> length t = n \<Longrightarrow> a + n \<le> b \<or> b + n \<le> a \<Longrightarrow>
    swap_bytes m a b n = Some (mem_put (mem_put m a t) b s)"
proof (induction n arbitrary: m a b s t)
  case 0
  then show ?case by simp
next
  case (Suc n)
  obtain x s' y t' where s: "s = x # s'" and t: "t = y # t'"
    using Suc.prems(3,4) by (cases s; cases t) auto
  define m2 where "m2 = m(a \<mapsto> y, b \<mapsto> x)"
  have "swap_bytes m2 (Suc a) (Suc b) n = Some (mem_put (mem_put m2 (Suc a) t') (Suc b) s')"
  proof (rule Suc.IH)
    show "bytes_at m2 (Suc a) s'" "bytes_at m2 (Suc b) t'"
      using Suc.prems by (auto simp: m2_def s t)
  qed (use Suc.prems s t in auto)
  moreover have "mem_put (mem_put m2 (Suc a) t') (Suc b) s' = mem_put (mem_put m a t) b s"
  proof -
    have "mem_put (mem_put m a t) b s = mem_put ((mem_put (m(a \<mapsto> y)) (Suc a) t')(b \<mapsto> x)) (Suc b) s'"
      by (simp add: s t mem_put_Cons)
    also have "(mem_put (m(a \<mapsto> y)) (Suc a) t')(b \<mapsto> x) = mem_put m2 (Suc a) t'"
      using mem_put_swap [of "Suc a" t' b "[x]" "m(a \<mapsto> y)"] Suc.prems t
      by (auto simp: mem_put_single m2_def)
    finally show ?thesis by simp
  qed
  moreover have "m b = Some y" "m a = Some x" "a \<noteq> b" using Suc.prems s t by auto
  ultimately show ?case by (simp add: load_def m2_def fun_upd_twist)
qed

lemma block_le: "i < j \<Longrightarrow> i * sz + sz \<le> j * (sz :: nat)"
  using mult_le_mono1 [of "Suc i" j sz] by simp

lemma block_disjoint:
  "i \<noteq> j \<Longrightarrow> b + i * sz + sz \<le> b + j * (sz :: nat) \<or> b + j * sz + sz \<le> b + i * sz"
  using block_le [of i j sz] block_le [of j i sz] by (cases i j rule: linorder_cases) auto

lemma swap_records:
  assumes r: "recs m base sz xs" and i: "i < length xs" and j: "j < length xs" and ij: "i \<noteq> j"
  obtains m' where "swap_bytes m (base + i * sz) (base + j * sz) sz = Some m'"
    and "recs m' base sz (xs[i := xs ! j, j := xs ! i])"
    and "same_outside base (length xs * sz) m m'"
proof -
  let ?a = "base + i * sz" and ?b = "base + j * sz"
  let ?m = "mem_put (mem_put m ?a (xs ! j)) ?b (xs ! i)"
  have len: "\<And>k. k < length xs \<Longrightarrow> length (xs ! k) = sz"
    and at: "\<And>k. k < length xs \<Longrightarrow> bytes_at m (base + k * sz) (xs ! k)"
    using r by (simp_all add: recs_iff)
  have "swap_bytes m ?a ?b sz = Some ?m"
    using swap_bytes_Some [OF at [OF i] at [OF j] len [OF i] len [OF j] block_disjoint [OF ij]] .
  moreover have "recs ?m base sz (xs[i := xs ! j, j := xs ! i])"
    unfolding recs_iff
  proof (intro allI impI)
    fix k assume "k < length (xs[i := xs ! j, j := xs ! i])"
    then have k: "k < length xs" by simp
    consider "k = j" | "k = i" | "k \<noteq> i" "k \<noteq> j" by blast
    then show "length (xs[i := xs ! j, j := xs ! i] ! k) = sz \<and>
        bytes_at ?m (base + k * sz) (xs[i := xs ! j, j := xs ! i] ! k)"
    proof cases
      case 1
      then show ?thesis using len i j by simp
    next
      case 2
      then show ?thesis using len i j ij block_disjoint [OF ij, of base sz]
        by (subst bytes_at_put_other) auto
    next
      case 3
      then show ?thesis
        using len i j k at block_disjoint [of k i base sz] block_disjoint [of k j base sz]
        by (simp add: nth_list_update bytes_at_put_other)
    qed
  qed
  moreover have "same_outside base (length xs * sz) m ?m"
    using block_le [OF i, of sz] block_le [OF j, of sz] len i j
    by (auto simp: same_outside_def)
  ultimately show thesis by (rule that)
qed

subsection \<open>Binary search\<close>

lemma bsearch_loop_Some:
  assumes "\<And>i. i < n \<Longrightarrow> compar m key (base + i * sz) = Some (f i)"
    and "\<And>i j. i < j \<Longrightarrow> j < n \<Longrightarrow> 0 < f j \<Longrightarrow> 0 < f i"
    and "\<And>i j. i < j \<Longrightarrow> j < n \<Longrightarrow> f i < 0 \<Longrightarrow> f j < 0"
  shows "\<exists>p. bsearch_loop compar m key base n sz = Some p \<and>
    ((\<exists>i<n. p = base + i * sz \<and> f i = 0) \<or> (p = null \<and> (\<forall>i<n. f i \<noteq> 0)))"
  using assms
proof (induction n arbitrary: base f rule: less_induct)
  case (less n)
  show ?case
  proof (cases "n = 0")
    case True
    then show ?thesis by (subst bsearch_loop.simps) simp
  next
    case False
    define h where "h = n div 2"
    have h: "h < n" using False by (simp add: h_def)
    consider "f h = 0" | "f h > 0" | "f h < 0" by linarith
    then show ?thesis
    proof cases
      case 1
      then show ?thesis using False h less.prems(1)
        by (subst bsearch_loop.simps) (auto simp: h_def [symmetric] Let_def)
    next
      case 2
      let ?n = "n - (h + 1)" and ?g = "\<lambda>i. f (h + 1 + i)" and ?b = "base + h * sz + sz"
      have "\<exists>p. bsearch_loop compar m key ?b ?n sz = Some p \<and>
          ((\<exists>i<?n. p = ?b + i * sz \<and> ?g i = 0) \<or> (p = null \<and> (\<forall>i<?n. ?g i \<noteq> 0)))"
      proof (rule less.IH)
        show "compar m key (?b + i * sz) = Some (?g i)" if "i < ?n" for i
          using less.prems(1) [of "h + 1 + i"] that by (simp add: algebra_simps)
        show "0 < ?g i" if "i < j" "j < ?n" "0 < ?g j" for i j
          using less.prems(2) [of "h + 1 + i" "h + 1 + j"] that by simp
        show "?g j < 0" if "i < j" "j < ?n" "?g i < 0" for i j
          using less.prems(3) [of "h + 1 + i" "h + 1 + j"] that by simp
      qed (use h in simp)
      then obtain p where p: "bsearch_loop compar m key ?b ?n sz = Some p"
        "(\<exists>i<?n. p = ?b + i * sz \<and> ?g i = 0) \<or> (p = null \<and> (\<forall>i<?n. ?g i \<noteq> 0))" by blast
      have low: "f i \<noteq> 0" if "i \<le> h" for i using less.prems(2) [of i h] 2 h that by (cases "i = h") auto
      have "(\<exists>i<n. p = base + i * sz \<and> f i = 0) \<or> (p = null \<and> (\<forall>i<n. f i \<noteq> 0))"
        using p(2)
      proof (elim disjE exE conjE)
        fix i assume "i < ?n" "p = ?b + i * sz" "?g i = 0"
        then have "h + 1 + i < n \<and> p = base + (h + 1 + i) * sz \<and> f (h + 1 + i) = 0"
          by (simp add: algebra_simps)
        then show ?thesis by blast
      next
        assume "p = null" and g: "\<forall>i<?n. ?g i \<noteq> 0"
        moreover have "f i \<noteq> 0" if "i < n" for i
          using low [of i] g [rule_format, of "i - (h + 1)"] that by (cases "i \<le> h") auto
        ultimately show ?thesis by blast
      qed
      with p(1) show ?thesis using False h 2 less.prems(1)
        by (subst bsearch_loop.simps) (auto simp: h_def [symmetric] Let_def)
    next
      case 3
      have "\<exists>p. bsearch_loop compar m key base h sz = Some p \<and>
          ((\<exists>i<h. p = base + i * sz \<and> f i = 0) \<or> (p = null \<and> (\<forall>i<h. f i \<noteq> 0)))"
        using h by (intro less.IH) (auto intro: less.prems)
      then obtain p where p: "bsearch_loop compar m key base h sz = Some p"
        "(\<exists>i<h. p = base + i * sz \<and> f i = 0) \<or> (p = null \<and> (\<forall>i<h. f i \<noteq> 0))" by blast
      have high: "f i \<noteq> 0" if "h \<le> i" "i < n" for i
        using less.prems(3) [of h i] 3 that by (cases "i = h") auto
      have "(\<exists>i<n. p = base + i * sz \<and> f i = 0) \<or> (p = null \<and> (\<forall>i<n. f i \<noteq> 0))"
        using p(2) high h by (metis linorder_not_le order.strict_trans)
      with p(1) show ?thesis using False h 3 less.prems(1)
        by (subst bsearch_loop.simps) (auto simp: h_def [symmetric] Let_def)
    qed
  qed
qed

subsection \<open>Comparison functions\<close>

text \<open>
  What the C standard asks of a comparison function: its result depends on the two records only, and
  it orders them totally (records may compare equal without being equal).
\<close>

locale comparator =
  fixes compar :: compar
    and sz :: nat
    and cmp :: "string \<Rightarrow> string \<Rightarrow> int"
  assumes compar_value: "bytes_at m p x \<Longrightarrow> bytes_at m q y \<Longrightarrow> length x = sz \<Longrightarrow> length y = sz \<Longrightarrow>
      compar m p q = Some (cmp x y)"
    and cmp_anti: "length x = sz \<Longrightarrow> length y = sz \<Longrightarrow> cmp x y < 0 \<longleftrightarrow> 0 < cmp y x"
    and cmp_trans: "length x = sz \<Longrightarrow> length y = sz \<Longrightarrow> length z = sz \<Longrightarrow>
      cmp x y \<le> 0 \<Longrightarrow> cmp y z \<le> 0 \<Longrightarrow> cmp x z \<le> 0"
begin

lemma cmp_total: "length x = sz \<Longrightarrow> length y = sz \<Longrightarrow> \<not> cmp x y < 0 \<longleftrightarrow> cmp y x \<le> 0"
  using cmp_anti [of x y] by linarith

lemma cmp_refl: "length x = sz \<Longrightarrow> cmp x x \<le> 0"
  using cmp_anti [of x x] by linarith

lemma compar_recs:
  "recs m base sz xs \<Longrightarrow> i < length xs \<Longrightarrow> j < length xs \<Longrightarrow>
    compar m (base + i * sz) (base + j * sz) = Some (cmp (xs ! i) (xs ! j))"
  by (rule compar_value) (simp_all add: recs_iff)

text \<open>
  Every record but the root is at most its parent, for the nodes whose parent lies in
  \<open>lo..lim\<close>; \<open>heap_except r\<close> leaves out the children of \<open>r\<close> but has them at most \<open>r\<close>'s own parent.
\<close>

definition heap :: "nat \<Rightarrow> nat \<Rightarrow> string list \<Rightarrow> bool" where
  "heap lo lim xs \<longleftrightarrow>
     (\<forall>c. 0 < c \<and> c \<le> lim \<and> lo \<le> (c - 1) div 2 \<longrightarrow> cmp (xs ! c) (xs ! ((c - 1) div 2)) \<le> 0)"

definition heap_except :: "nat \<Rightarrow> nat \<Rightarrow> nat \<Rightarrow> string list \<Rightarrow> bool" where
  "heap_except r lo lim xs \<longleftrightarrow>
     (\<forall>c. 0 < c \<and> c \<le> lim \<and> lo \<le> (c - 1) div 2 \<and> (c - 1) div 2 \<noteq> r \<longrightarrow>
        cmp (xs ! c) (xs ! ((c - 1) div 2)) \<le> 0) \<and>
     (\<forall>c. 0 < c \<and> c \<le> lim \<and> (c - 1) div 2 = r \<and> 0 < r \<and> lo \<le> (r - 1) div 2 \<longrightarrow>
        cmp (xs ! c) (xs ! ((r - 1) div 2)) \<le> 0)"

lemma child_cases: "0 < c \<Longrightarrow> (c - 1) div 2 = r \<Longrightarrow> c = r * 2 + 1 \<or> c = r * 2 + (2 :: nat)"
  by presburger

lemma heap_close:
  assumes "heap_except r lo lim xs"
    and "\<And>c. c \<le> lim \<Longrightarrow> c = r * 2 + 1 \<or> c = r * 2 + 2 \<Longrightarrow> cmp (xs ! c) (xs ! r) \<le> 0"
  shows "heap lo lim xs"
  unfolding heap_def
proof (intro allI impI, elim conjE)
  fix c assume c: "0 < c" "c \<le> lim" "lo \<le> (c - 1) div 2"
  show "cmp (xs ! c) (xs ! ((c - 1) div 2)) \<le> 0"
  proof (cases "(c - 1) div 2 = r")
    case True
    with assms(2) [OF c(2)] child_cases [OF c(1) True] show ?thesis by simp
  next
    case False
    with c assms(1) show ?thesis by (simp add: heap_except_def)
  qed
qed

lemma heap_opened: "heap (Suc r) lim xs \<Longrightarrow> heap_except r r lim xs"
  by (auto simp: heap_def heap_except_def)

lemma heap_swap:
  assumes h: "heap_except r lo lim xs" and len: "lim < length xs" "\<And>x. x \<in> set xs \<Longrightarrow> length x = sz"
    and j: "j = r * 2 + 1 \<or> j = r * 2 + 2" "j \<le> lim" and lo: "lo \<le> r"
    and up: "cmp (xs ! r) (xs ! j) < 0"
    and best: "\<And>c. c \<le> lim \<Longrightarrow> c = r * 2 + 1 \<or> c = r * 2 + 2 \<Longrightarrow> cmp (xs ! c) (xs ! j) \<le> 0"
  shows "heap_except j lo lim (xs[r := xs ! j, j := xs ! r])"
proof -
  let ?ys = "xs[r := xs ! j, j := xs ! r]"
  have rj: "r < j" and jr: "(j - 1) div 2 = r" using j by auto
  have at: "?ys ! k = (if k = j then xs ! r else if k = r then xs ! j else xs ! k)" if "k \<le> lim" for k
    using that rj j len by (auto simp: nth_list_update)
  have "cmp (?ys ! c) (?ys ! ((c - 1) div 2)) \<le> 0"
    if c: "0 < c" "c \<le> lim" "lo \<le> (c - 1) div 2" "(c - 1) div 2 \<noteq> j" for c
  proof -
    have p: "(c - 1) div 2 \<le> lim" using c by linarith
    consider "c = j" | "c \<noteq> j" "(c - 1) div 2 = r" | "c = r" | "c \<noteq> j" "c \<noteq> r" "(c - 1) div 2 \<noteq> r" by blast
    then show ?thesis
    proof cases
      case 1
      with up rj jr j(2) show ?thesis by (subst (1 2) at) auto
    next
      case 2
      then have "c \<noteq> r" using c(1) by (auto dest: child_cases)
      with 2 best [OF c(2)] child_cases [OF c(1) 2(2)] rj p c(2) show ?thesis
        by (subst (1 2) at) auto
    next
      case 3
      have "cmp (xs ! j) (xs ! ((r - 1) div 2)) \<le> 0"
        using h j rj jr c 3 by (simp add: heap_except_def)
      moreover have "(r - 1) div 2 \<noteq> r" using c(1) 3 by linarith
      ultimately show ?thesis using 3 rj p c by (subst (1 2) at) auto
    next
      case 4
      with h c p show ?thesis by (subst (1 2) at) (simp_all add: heap_except_def)
    qed
  qed
  moreover have "cmp (?ys ! c) (?ys ! ((j - 1) div 2)) \<le> 0"
    if c: "0 < c" "c \<le> lim" "(c - 1) div 2 = j" for c
  proof -
    have "c \<noteq> j" "c \<noteq> r" using c rj by auto
    moreover have "cmp (xs ! c) (xs ! ((c - 1) div 2)) \<le> 0"
      using h c lo rj unfolding heap_except_def by (elim conjE allE [of _ c]) auto
    ultimately show ?thesis using jr rj j(2) c by (subst (1 2) at) auto
  qed
  ultimately show ?thesis unfolding heap_except_def by blast
qed

lemma cmp_le_less_trans:
  assumes "length x = sz" "length y = sz" "length z = sz" "cmp x y \<le> 0" "cmp y z < 0"
  shows "cmp x z < 0"
proof (rule ccontr)
  assume "\<not> cmp x z < 0"
  then have "cmp z x \<le> 0" using cmp_total assms(1,3) by blast
  then have "cmp z y \<le> 0" by (rule cmp_trans [OF assms(3,1,2) _ assms(4)])
  then show False using cmp_anti [OF assms(2,3)] assms(5) by linarith
qed

lemma sift_candidate_Some:
  assumes r: "recs m base sz xs" and root: "root \<le> (lim - 1) div 2" "0 < lim" "lim < length xs"
  obtains j where "sift_candidate compar m base root lim sz = Some j"
    and "j = root \<or> j = root * 2 + 1 \<or> j = root * 2 + 2" and "j \<le> lim"
    and "j \<noteq> root \<Longrightarrow> cmp (xs ! root) (xs ! j) < 0"
    and "\<And>c. c \<le> lim \<Longrightarrow> c = root * 2 + 1 \<or> c = root * 2 + 2 \<Longrightarrow> cmp (xs ! c) (xs ! j) \<le> 0"
proof -
  have le: "root * 2 + 1 \<le> lim" using root by linarith
  have len: "\<And>k. k < length xs \<Longrightarrow> length (xs ! k) = sz" using r by (simp add: recs_iff)
  define c1 where "c1 = (if cmp (xs ! root) (xs ! (root * 2 + 1)) < 0 then root * 2 + 1 else root)"
  define j where "j = (if root * 2 + 1 < lim \<and> cmp (xs ! c1) (xs ! (root * 2 + 2)) < 0
    then root * 2 + 2 else c1)"
  have c1: "c1 < length xs" using le root by (simp add: c1_def)
  have l1: "length (xs ! root) = sz" "length (xs ! (root * 2 + 1)) = sz" "length (xs ! c1) = sz"
    using le root c1 by (simp_all add: len)
  have l2: "length (xs ! (root * 2 + 2)) = sz" if "root * 2 + 1 < lim" using that root by (simp add: len)
  have best: "cmp (xs ! root) (xs ! c1) \<le> 0" "cmp (xs ! (root * 2 + 1)) (xs ! c1) \<le> 0"
    using l1 cmp_total [of "xs ! root" "xs ! (root * 2 + 1)"] cmp_refl by (auto simp: c1_def)
  show thesis
  proof (rule that [of j])
    show "sift_candidate compar m base root lim sz = Some j"
    proof -
      have "compar m (base + root * sz) (base + (root * 2 + 1) * sz) =
          Some (cmp (xs ! root) (xs ! (root * 2 + 1)))"
        using le root by (intro compar_recs [OF r]) auto
      moreover have "compar m (base + c1 * sz) (base + (root * 2 + 1 + 1) * sz) =
          Some (cmp (xs ! c1) (xs ! (root * 2 + 1 + 1)))" if "root * 2 + 1 < lim"
        using that root c1 by (intro compar_recs [OF r]) auto
      ultimately show ?thesis
        unfolding sift_candidate_def Let_def j_def
        by (cases "root * 2 + 1 < lim") (simp_all add: c1_def [symmetric] del: One_nat_def add_Suc_right add_Suc)
    qed
    show "j = root \<or> j = root * 2 + 1 \<or> j = root * 2 + 2" "j \<le> lim"
      using le by (auto simp: j_def c1_def)
    show "cmp (xs ! root) (xs ! j) < 0" if "j \<noteq> root"
    proof (cases "root * 2 + 1 < lim \<and> cmp (xs ! c1) (xs ! (root * 2 + 2)) < 0")
      case True
      then have "cmp (xs ! root) (xs ! (root * 2 + 2)) < 0"
        using cmp_le_less_trans [OF l1(1) l1(3) l2 best(1)] by simp
      with True show ?thesis by (simp add: j_def)
    next
      case False
      with that show ?thesis by (auto simp: j_def c1_def split: if_splits)
    qed
    show "cmp (xs ! c) (xs ! j) \<le> 0" if "c \<le> lim" "c = root * 2 + 1 \<or> c = root * 2 + 2" for c
    proof (cases "root * 2 + 1 < lim \<and> cmp (xs ! c1) (xs ! (root * 2 + 2)) < 0")
      case True
      then have j: "j = root * 2 + 2" and lt: "cmp (xs ! c1) (xs ! j) < 0"
        and l: "length (xs ! j) = sz" using l2 by (auto simp: j_def)
      have "cmp (xs ! (root * 2 + 1)) (xs ! j) \<le> 0"
        using cmp_trans [OF l1(2,3) l best(2)] lt by linarith
      with that(2) j cmp_refl [OF l] show ?thesis by auto
    next
      case False
      then have j: "j = c1" unfolding j_def by (rule if_not_P)
      have "cmp (xs ! (root * 2 + 2)) (xs ! c1) \<le> 0" if "root * 2 + 2 \<le> lim"
        using False that l1 l2 cmp_total [of "xs ! c1" "xs ! (root * 2 + 2)"] by simp
      with that best(2) j show ?thesis by auto
    qed
  qed
qed

definition arranged :: "addr \<Rightarrow> mem \<Rightarrow> string list \<Rightarrow> mem \<Rightarrow> string list \<Rightarrow> bool" where
  "arranged base m xs m' ys \<longleftrightarrow>
     recs m' base sz ys \<and> mset ys = mset xs \<and> same_outside base (length xs * sz) m m'"

lemma arranged_refl: "recs m base sz xs \<Longrightarrow> arranged base m xs m xs"
  by (simp add: arranged_def)

lemma arranged_trans:
  "arranged base m xs m1 ys \<Longrightarrow> arranged base m1 ys m2 zs \<Longrightarrow> arranged base m xs m2 zs"
  using mset_eq_length [of ys xs] by (auto simp: arranged_def intro: same_outside_trans)

lemma arranged_length: "arranged base m xs m' ys \<Longrightarrow> length ys = length xs"
  by (auto simp: arranged_def dest: mset_eq_length)

lemma swap_arranged:
  assumes "recs m base sz xs" "i < length xs" "j < length xs" "i \<noteq> j"
  obtains m' where "swap_bytes m (base + i * sz) (base + j * sz) sz = Some m'"
    and "arranged base m xs m' (xs[i := xs ! j, j := xs ! i])"
  by (rule swap_records [OF assms]) (use assms in \<open>simp add: arranged_def mset_swap\<close>)

lemma recs_lengths: "recs m base sz xs \<Longrightarrow> x \<in> set xs \<Longrightarrow> length x = sz"
  by (auto simp: recs_iff in_set_conv_nth)

lemma sift_down_Some:
  assumes "recs m base sz xs" "0 < lim" "lim < length xs" "lo \<le> root" "root \<le> lim"
    and "heap_except root lo lim xs"
  shows "\<exists>m' ys. sift_down compar m base root lim sz = Some m' \<and> arranged base m xs m' ys \<and>
    heap lo lim ys \<and> drop (Suc lim) ys = drop (Suc lim) xs"
  using assms
proof (induction "Suc lim - root" arbitrary: m xs root rule: less_induct)
  case less
  show ?case
  proof (cases "root \<le> (lim - 1) div 2")
    case False
    then have "heap lo lim xs" using less.prems(2,6) by (intro heap_close [of root]) auto
    with False less.prems(1) show ?thesis
      by (subst sift_down.simps) (auto intro: arranged_refl)
  next
    case True
    then obtain j where j: "sift_candidate compar m base root lim sz = Some j"
      "j = root \<or> j = root * 2 + 1 \<or> j = root * 2 + 2" "j \<le> lim"
      and up: "j \<noteq> root \<Longrightarrow> cmp (xs ! root) (xs ! j) < 0"
      and best: "\<And>c. c \<le> lim \<Longrightarrow> c = root * 2 + 1 \<or> c = root * 2 + 2 \<Longrightarrow> cmp (xs ! c) (xs ! j) \<le> 0"
      using sift_candidate_Some [OF less.prems(1) True less.prems(2,3)] by blast
    show ?thesis
    proof (cases "j = root")
      case stop: True
      then have "heap lo lim xs" using best by (intro heap_close [OF less.prems(6)]) auto
      with True stop j less.prems(1) show ?thesis
        by (subst sift_down.simps) (auto intro: arranged_refl)
    next
      case False
      let ?ys = "xs[root := xs ! j, j := xs ! root]"
      from False obtain m1 where m1: "swap_bytes m (base + root * sz) (base + j * sz) sz = Some m1"
        "arranged base m xs m1 ?ys"
        using swap_arranged [OF less.prems(1), of root j] less.prems j by auto
      have h: "heap_except j lo lim ?ys"
        using heap_swap [OF less.prems(6,3) recs_lengths [OF less.prems(1)]] False j less.prems(4) up best
        by blast
      have "recs m1 base sz ?ys" using m1(2) by (simp add: arranged_def)
      then have "\<exists>m' ys. sift_down compar m1 base j lim sz = Some m' \<and> arranged base m1 ?ys m' ys \<and>
          heap lo lim ys \<and> drop (Suc lim) ys = drop (Suc lim) ?ys"
        using False j less.prems h by (intro less.hyps) auto
      then obtain m2 zs where "sift_down compar m1 base j lim sz = Some m2" "arranged base m1 ?ys m2 zs"
        "heap lo lim zs" "drop (Suc lim) zs = drop (Suc lim) ?ys" by blast
      moreover have "drop (Suc lim) ?ys = drop (Suc lim) xs" using j less.prems by simp
      ultimately show ?thesis using arranged_trans [OF m1(2)] True
        by (subst sift_down.simps) (auto simp: False j(1) m1(1))
    qed
  qed
qed

lemma build_heap_Some:
  "recs m base sz xs \<Longrightarrow> length xs = n \<Longrightarrow> 2 \<le> n \<Longrightarrow> start \<le> (n - 2) div 2 + 1 \<Longrightarrow> heap start (n - 1) xs \<Longrightarrow>
    \<exists>m' ys. build_heap compar m base start n sz = Some m' \<and> arranged base m xs m' ys \<and> heap 0 (n - 1) ys"
proof (induction start arbitrary: m xs)
  case 0
  then show ?case by (auto intro: arranged_refl)
next
  case (Suc start)
  have "start \<le> n - 1" using Suc.prems by linarith
  then obtain m1 ys where s: "sift_down compar m base start (n - 1) sz = Some m1"
    "arranged base m xs m1 ys" "heap start (n - 1) ys"
    using sift_down_Some [OF Suc.prems(1) _ _ _ _ heap_opened [OF Suc.prems(5)]] Suc.prems by auto
  have "recs m1 base sz ys" "length ys = n"
    using s(2) arranged_length [OF s(2)] Suc.prems(2) by (auto simp: arranged_def)
  with Suc.IH [of m1 ys] Suc.prems s show ?case
    by (auto simp del: One_nat_def intro: arranged_trans)
qed

lemma heap_all: "n = Suc (Suc k) \<Longrightarrow> heap ((n - 2) div 2 + 1) (n - 1) xs"
  unfolding heap_def by (intro allI impI, elim conjE) linarith

lemma heap_root_max:
  assumes "heap 0 lim xs" "lim < length xs" "\<And>x. x \<in> set xs \<Longrightarrow> length x = sz"
  shows "i \<le> lim \<Longrightarrow> cmp (xs ! i) (xs ! 0) \<le> 0"
proof (induction i rule: less_induct)
  case (less i)
  show ?case
  proof (cases "i = 0")
    case True
    with assms(2) have "length (xs ! i) = sz" by (intro assms(3) nth_mem) auto
    with True show ?thesis using cmp_refl by simp
  next
    case False
    let ?p = "(i - 1) div 2"
    have p: "?p < i" "?p \<le> lim" using False less.prems by linarith+
    have "cmp (xs ! i) (xs ! ?p) \<le> 0" using assms(1) False less.prems by (simp add: heap_def)
    moreover have "length (xs ! k) = sz" if "k \<le> lim" for k using that assms(2) by (intro assms(3)) simp
    ultimately show ?thesis
      using cmp_trans [of "xs ! i" "xs ! ?p" "xs ! 0"] less.IH [OF p] less.prems p(2) by blast
  qed
qed

abbreviation le_rec :: "string \<Rightarrow> string \<Rightarrow> bool" where "le_rec x y \<equiv> cmp x y \<le> 0"

definition drained :: "nat \<Rightarrow> string list \<Rightarrow> bool" where
  "drained k xs \<longleftrightarrow> k < length xs \<and> heap 0 k xs \<and> sorted_wrt le_rec (drop (Suc k) xs) \<and>
     (\<forall>x \<in> set (take (Suc k) xs). \<forall>y \<in> set (drop (Suc k) xs). le_rec x y)"

lemma nth_in_take: "i < n \<Longrightarrow> i < length xs \<Longrightarrow> xs ! i \<in> set (take n xs)"
  by (auto simp: in_set_conv_nth intro!: exI [of _ i])

lemma same_drop_same_take:
  "mset xs = mset ys \<Longrightarrow> drop n xs = drop n ys \<Longrightarrow> set (take n xs) = set (take n ys)"
proof -
  assume "mset xs = mset ys" "drop n xs = drop n ys"
  then have "mset (take n xs) + mset (drop n xs) = mset (take n ys) + mset (drop n xs)"
    by (metis append_take_drop_id mset_append)
  then show ?thesis by (intro mset_eq_setD) simp
qed

lemma drain_step:
  assumes r: "\<And>x. x \<in> set xs \<Longrightarrow> length x = sz" and d: "drained (Suc k) xs"
    and ys: "ys = xs[0 := xs ! Suc k, Suc k := xs ! 0]"
    and zs: "mset zs = mset ys" "drop (Suc k) zs = drop (Suc k) ys" "heap 0 k zs"
  shows "drained k zs"
proof -
  have lt: "Suc k < length xs" and h: "heap 0 (Suc k) xs" using d by (simp_all add: drained_def)
  have max: "le_rec x (xs ! 0)" if "x \<in> set (take (Suc (Suc k)) xs)" for x
    using heap_root_max [OF h lt r] that by (force simp: in_set_conv_nth)
  have root: "xs ! 0 \<in> set (take (Suc (Suc k)) xs)"
    using lt by (cases xs) auto
  have dr: "drop (Suc k) ys = xs ! 0 # drop (Suc (Suc k)) xs"
    using lt by (simp add: ys Cons_nth_drop_Suc [of "Suc k", symmetric] drop_update_swap)
  have sub: "set (take (Suc k) ys) \<subseteq> set (take (Suc (Suc k)) xs)"
  proof
    fix x assume "x \<in> set (take (Suc k) ys)"
    then obtain i where i: "i < Suc k" "x = ys ! i" using lt by (auto simp: in_set_conv_nth)
    then have "x = (if i = 0 then xs ! Suc k else xs ! i)" using lt by (cases i; cases xs) (auto simp: ys nth_list_update)
    moreover have "xs ! Suc k \<in> set (take (Suc (Suc k)) xs)" "xs ! i \<in> set (take (Suc (Suc k)) xs)"
      using lt i by (auto intro: nth_in_take)
    ultimately show "x \<in> set (take (Suc (Suc k)) xs)" by simp
  qed
  have "length zs = length xs" using zs(1) ys by (auto dest: mset_eq_length)
  moreover have "sorted_wrt le_rec (drop (Suc k) zs)"
    using d root by (simp add: zs(2) dr drained_def)
  moreover have "le_rec x y" if "x \<in> set (take (Suc k) zs)" "y \<in> set (drop (Suc k) zs)" for x y
  proof -
    have x: "x \<in> set (take (Suc (Suc k)) xs)"
      using that(1) same_drop_same_take [OF zs(1,2)] sub by blast
    from that(2) consider "y = xs ! 0" | "y \<in> set (drop (Suc (Suc k)) xs)"
      unfolding zs(2) dr by auto
    then show ?thesis using x max d by cases (auto simp: drained_def)
  qed
  ultimately show ?thesis using zs(3) lt by (auto simp: drained_def)
qed

lemma drain_heap_Some:
  "recs m base sz xs \<Longrightarrow> drained k xs \<Longrightarrow>
    \<exists>m' ys. drain_heap compar m base k sz = Some m' \<and> arranged base m xs m' ys \<and> sorted_wrt le_rec ys"
proof (induction k arbitrary: m xs)
  case 0
  then have "sorted_wrt le_rec xs" by (cases xs) (auto simp: drained_def)
  with 0 show ?case by (auto intro: arranged_refl)
next
  case (Suc k)
  let ?ys = "xs[0 := xs ! Suc k, Suc k := xs ! 0]"
  have lt: "Suc k < length xs" and h: "heap 0 (Suc k) xs"
    using Suc.prems(2) by (simp_all add: drained_def)
  have "0 < length xs" "0 \<noteq> Suc k" using lt by auto
  from swap_arranged [OF Suc.prems(1) this(1) lt this(2)]
  obtain m1 where "swap_bytes m (base + 0 * sz) (base + Suc k * sz) sz = Some m1"
    "arranged base m xs m1 ?ys" by blast
  then have m1: "swap_bytes m base (base + Suc k * sz) sz = Some m1" "arranged base m xs m1 ?ys"
    by simp_all
  have r1: "recs m1 base sz ?ys" using m1(2) by (simp add: arranged_def)
  have "heap_except 0 0 k ?ys"
    unfolding heap_except_def
  proof (intro conjI allI impI; elim conjE)
    fix c assume c: "0 < c" "c \<le> k" "(c - 1) div 2 \<noteq> 0"
    then have "cmp (xs ! c) (xs ! ((c - 1) div 2)) \<le> 0" using h by (simp add: heap_def)
    moreover have "(c - 1) div 2 < Suc k" using c by linarith
    ultimately show "cmp (?ys ! c) (?ys ! ((c - 1) div 2)) \<le> 0" using c lt by simp
  qed simp
  then have "\<exists>m2 zs. (if k \<noteq> 0 then sift_down compar m1 base 0 k sz else Some m1) = Some m2 \<and>
      arranged base m1 ?ys m2 zs \<and> heap 0 k zs \<and> drop (Suc k) zs = drop (Suc k) ?ys"
    using sift_down_Some [OF r1, of k 0 0] lt arranged_refl [OF r1]
    by (cases "k = 0") (auto simp: heap_def)
  then obtain m2 zs where m2: "(if k \<noteq> 0 then sift_down compar m1 base 0 k sz else Some m1) = Some m2"
      "arranged base m1 ?ys m2 zs" "heap 0 k zs" "drop (Suc k) zs = drop (Suc k) ?ys"
    by blast
  have "drained k zs"
    using drain_step [OF recs_lengths [OF Suc.prems(1)] Suc.prems(2) refl _ m2(4,3)] m2(2)
    by (simp add: arranged_def)
  moreover have "recs m2 base sz zs" using m2(2) by (simp add: arranged_def)
  ultimately obtain m3 us where "drain_heap compar m2 base k sz = Some m3"
    "arranged base m2 zs m3 us" "sorted_wrt le_rec us" using Suc.IH by blast
  then show ?case
    using m1 m2(1) arranged_trans [OF arranged_trans [OF m1(2) m2(2)]] by auto
qed

text \<open>\<open>qsort\<close> returns, leaves a sorted permutation of the records and touches nothing else.\<close>

lemma qsort_sorts:
  assumes r: "recs m base sz xs" and n: "n = length xs" and nz: "base \<noteq> null" "sz \<noteq> 0"
  shows "\<exists>m' ys. qsort m base n sz (Some compar) = Some m' \<and> recs m' base sz ys \<and>
    mset ys = mset xs \<and> sorted_wrt (\<lambda>x y. cmp x y \<le> 0) ys \<and> same_outside base (n * sz) m m'"
proof (cases "n < 2")
  case True
  then have "sorted_wrt le_rec xs" using n by (cases xs; cases "tl xs") auto
  with True r show ?thesis by (auto simp: qsort_def intro!: exI [of _ xs])
next
  case False
  then obtain k where k: "n = Suc (Suc k)" by (metis add_2_eq_Suc le_Suc_ex not_less)
  obtain m1 ys where m1: "build_heap compar m base ((n - 2) div 2 + 1) n sz = Some m1"
    "arranged base m xs m1 ys" "heap 0 (n - 1) ys"
    using build_heap_Some [OF r n [symmetric] _ _ heap_all [OF k]] False by auto
  have "drained (n - 1) ys"
    using m1(3) arranged_length [OF m1(2)] n False by (simp add: drained_def)
  moreover have "recs m1 base sz ys" using m1(2) by (simp add: arranged_def)
  ultimately obtain m2 zs where "drain_heap compar m1 base (n - 1) sz = Some m2"
    "arranged base m1 ys m2 zs" "sorted_wrt le_rec zs" using drain_heap_Some by blast
  with m1 arranged_trans [OF m1(2)] show ?thesis using False nz n
    by (auto simp: qsort_def arranged_def simp del: One_nat_def)
qed

text \<open>\<open>bsearch\<close> on a sorted array finds a record equal to the key exactly when there is one.\<close>

lemma bsearch_finds:
  assumes r: "recs m base sz xs" and n: "n = length xs" and sorted: "sorted_wrt (\<lambda>x y. cmp x y \<le> 0) xs"
    and k: "bytes_at m key k" "length k = sz" and nz: "key \<noteq> null" "base \<noteq> null" "sz \<noteq> 0"
  shows "\<exists>p. bsearch m key base n sz (Some compar) = Some p \<and>
    ((\<exists>i<n. p = base + i * sz \<and> cmp k (xs ! i) = 0) \<or> (p = null \<and> (\<forall>x \<in> set xs. cmp k x \<noteq> 0)))"
proof -
  have len: "\<And>i. i < n \<Longrightarrow> length (xs ! i) = sz" using r n by (simp add: recs_iff)
  have le: "cmp (xs ! i) (xs ! j) \<le> 0" if "i < j" "j < n" for i j
    using sorted that n by (simp add: sorted_wrt_iff_nth_less)
  have "\<exists>p. bsearch_loop compar m key base n sz = Some p \<and>
      ((\<exists>i<n. p = base + i * sz \<and> cmp k (xs ! i) = 0) \<or> (p = null \<and> (\<forall>i<n. cmp k (xs ! i) \<noteq> 0)))"
  proof (rule bsearch_loop_Some)
    show "compar m key (base + i * sz) = Some (cmp k (xs ! i))" if "i < n" for i
      using r that n k by (intro compar_value) (auto simp: recs_iff)
    show "0 < cmp k (xs ! i)" if "i < j" "j < n" "0 < cmp k (xs ! j)" for i j
    proof -
      have "length (xs ! i) = sz" "length (xs ! j) = sz" using that len by auto
      with that le [OF that(1,2)] k(2) show ?thesis
        using cmp_le_less_trans [of "xs ! i" "xs ! j" k] cmp_anti by blast
    qed
    show "cmp k (xs ! j) < 0" if "i < j" "j < n" "cmp k (xs ! i) < 0" for i j
    proof (rule ccontr)
      assume c: "\<not> cmp k (xs ! j) < 0"
      have l: "length (xs ! i) = sz" "length (xs ! j) = sz" using that len by auto
      then have "cmp (xs ! i) k \<le> 0"
        using cmp_trans [OF l k(2) le [OF that(1,2)]] cmp_total [OF k(2) l(2)] c by blast
      then show False using that(3) cmp_total [OF k(2) l(1)] by blast
    qed
  qed
  then show ?thesis using nz by (simp add: bsearch_def set_conv_nth n all_conj_distrib) blast
qed

end

text \<open>\<open>memcmp\<close> on records of any size, and its reverse, are comparison functions.\<close>

lemma cmp_blocks_sign: "cmp_blocks s t < 0 \<longleftrightarrow> 0 < cmp_blocks t s"
  using cmp_blocks_anti [of s t] by linarith

interpretation memcmp: comparator "\<lambda>m p q. memcmp m p q sz" sz cmp_blocks for sz :: nat
  by unfold_locales (auto simp: memcmp_Some cmp_blocks_sign intro: cmp_blocks_trans [rotated 2])

definition memcmp_down :: "nat \<Rightarrow> compar" where
  "memcmp_down sz = (\<lambda>m p q. memcmp m q p sz)"

interpretation memcmp_down: comparator "memcmp_down sz" sz "\<lambda>x y. cmp_blocks y x" for sz :: nat
  by unfold_locales
    (auto simp: memcmp_down_def memcmp_Some cmp_blocks_sign intro: cmp_blocks_trans [rotated 2])

end
