(* ===== verification/CRT_Queue.thy ===== *)
theory CRT_Queue
  imports CRT_Prelude
begin

text \<open>
  The transport queue of \<^verbatim>\<open>libcrtmedia/src/transport_queue.c\<close>: a ring buffer shared by a
  producer and a consumer thread. Every call runs under the queue's mutex between two waits, so a
  call is modelled as its locked sections: one from the entry to the first wait or the return, one
  from each wake-up to the next wait or the return. A section returns the new queue and the
  condition variables it signals; \<open>None\<close> is an access outside a buffer. The second half composes the
  sections into a step relation of the two threads, with spurious wake-ups and time-outs, and proves
  what holds in every reachable state.
\<close>

subsection \<open>State\<close>

datatype crtmedia_result = CRTMEDIA_OK | CRTMEDIA_ERROR_INVALID_ARGUMENT | CRTMEDIA_ERROR_UNSUPPORTED
  | CRTMEDIA_WOULD_BLOCK | CRTMEDIA_ERROR_IO | CRTMEDIA_ERROR_TIMEOUT | CRTMEDIA_ERROR_CANCELLED
  | CRTMEDIA_ERROR_PROTOCOL

record crtmedia_transport_queue =
  buffer :: string
  capacity :: nat
  high_watermark :: nat
  low_watermark :: nat
  head :: nat
  count :: nat
  eof_written :: bool
  cancelled :: bool
  has_error :: bool
  stored_error :: crtmedia_result
  active_waiters :: nat

type_synonym queue = crtmedia_transport_queue

datatype condvar = not_full | not_empty | drained
datatype event = Signal condvar | Broadcast condvar

text \<open>How a locked section ends: the call returns, or the thread waits.\<close>

datatype 'a section_end = Return 'a | Wait

text \<open>\<open>memcpy\<close> from and to a buffer.\<close>

definition get_bytes :: "string \<Rightarrow> nat \<Rightarrow> nat \<Rightarrow> string option" where
  "get_bytes buf off n = (if off + n \<le> length buf then Some (take n (drop off buf)) else None)"

definition put_bytes :: "string \<Rightarrow> nat \<Rightarrow> string \<Rightarrow> string option" where
  "put_bytes buf off cs =
     (if off + length cs \<le> length buf then Some (take off buf @ cs @ drop (off + length cs) buf) else None)"

subsection \<open>Operations\<close>

text \<open>\<open>queue_mem\<close> and \<open>buffer_mem\<close> are what \<open>calloc\<close> and \<open>malloc\<close> return, \<open>None\<close> for a failure.\<close>

definition crtmedia_transport_queue_create :: "nat \<Rightarrow> nat \<Rightarrow> nat \<Rightarrow> bool \<Rightarrow> unit option \<Rightarrow> string option \<Rightarrow>
    crtmedia_result \<times> queue option" where
  "crtmedia_transport_queue_create cap high low out_nonnull queue_mem buffer_mem =
     (if cap = 0 \<or> \<not> out_nonnull then (CRTMEDIA_ERROR_INVALID_ARGUMENT, None)
      else
        let high = (if high = 0 \<or> high > cap then cap else high);
            low = (if low = 0 \<or> low > high
              then (let low = high div 2 in if low = 0 then 1 else low) else low)
        in case queue_mem of None \<Rightarrow> (CRTMEDIA_ERROR_IO, None)
          | Some _ \<Rightarrow>
            (case buffer_mem of None \<Rightarrow> (CRTMEDIA_ERROR_IO, None)
             | Some buf \<Rightarrow> (CRTMEDIA_OK, Some
                 \<lparr>buffer = buf, capacity = cap, high_watermark = high, low_watermark = low,
                  head = 0, count = 0, eof_written = False, cancelled = False, has_error = False,
                  stored_error = CRTMEDIA_OK, active_waiters = 0\<rparr>)))"

text \<open>The deadline that \<open>bounded_wait\<close> computes from the current time, as seconds and nanoseconds.\<close>

definition wait_deadline :: "int \<times> int \<Rightarrow> int \<Rightarrow> int \<times> int" where
  "wait_deadline now timeout_ms =
     (let sec = fst now + timeout_ms div 1000;
          nsec = snd now + (timeout_ms mod 1000) * 1000000
      in if nsec \<ge> 1000000000 then (sec + 1, nsec - 1000000000) else (sec, nsec))"

definition bounded_wait_enter :: "queue \<Rightarrow> queue" where
  "bounded_wait_enter q = q\<lparr>active_waiters := active_waiters q + 1\<rparr>"

definition bounded_wait_leave :: "queue \<Rightarrow> queue \<times> event list" where
  "bounded_wait_leave q =
     (let q = q\<lparr>active_waiters := active_waiters q - 1\<rparr>
      in (q, if active_waiters q = 0 then [Signal drained] else []))"

definition write_copy :: "queue \<Rightarrow> string \<Rightarrow> nat \<Rightarrow> (queue \<times> nat) option" where
  "write_copy q data sz =
     (let space = capacity q - count q;
          to_copy = (if sz < space then sz else space);
          tail = (head q + count q) mod capacity q;
          first_chunk = capacity q - tail;
          first_chunk = (if first_chunk > to_copy then to_copy else first_chunk)
      in do {
        chunk \<leftarrow> get_bytes data 0 first_chunk;
        buf \<leftarrow> put_bytes (buffer q) tail chunk;
        buf \<leftarrow> (if to_copy > first_chunk then do {
                   chunk \<leftarrow> get_bytes data first_chunk (to_copy - first_chunk);
                   put_bytes buf 0 chunk }
                 else Some buf);
        Some (q\<lparr>buffer := buf, count := count q + to_copy\<rparr>, to_copy) })"

definition write_loop :: "queue \<Rightarrow> string \<Rightarrow> nat \<Rightarrow> int \<Rightarrow>
    (queue \<times> (crtmedia_result \<times> nat) section_end \<times> event list) option" where
  "write_loop q data sz timeout_ms =
     (if count q \<ge> high_watermark q then
        if timeout_ms = 0 then Some (q, Return (CRTMEDIA_WOULD_BLOCK, 0), [])
        else Some (bounded_wait_enter q, Wait, [])
      else do {
        (q, written) \<leftarrow> write_copy q data sz;
        Some (q, Return (CRTMEDIA_OK, written), [Signal not_empty]) })"

text \<open>
  A null pointer argument is \<open>None\<close>; \<open>out_nonnull\<close> tells whether the result pointers are not null.
\<close>

definition crtmedia_transport_queue_write :: "queue option \<Rightarrow> string option \<Rightarrow> nat \<Rightarrow> int \<Rightarrow> bool \<Rightarrow>
    (queue option \<times> (crtmedia_result \<times> nat) section_end \<times> event list) option" where
  "crtmedia_transport_queue_write qp data sz timeout_ms out_nonnull =
     (case qp of None \<Rightarrow> Some (None, Return (CRTMEDIA_ERROR_INVALID_ARGUMENT, 0), [])
      | Some q \<Rightarrow>
        if (data = None \<and> sz > 0) \<or> \<not> out_nonnull
        then Some (Some q, Return (CRTMEDIA_ERROR_INVALID_ARGUMENT, 0), [])
        else if cancelled q then Some (Some q, Return (CRTMEDIA_ERROR_CANCELLED, 0), [])
        else if eof_written q \<or> has_error q
        then Some (Some q, Return (CRTMEDIA_ERROR_INVALID_ARGUMENT, 0), [])
        else do {
          (q, r, evs) \<leftarrow> write_loop q (case data of None \<Rightarrow> [] | Some d \<Rightarrow> d) sz timeout_ms;
          Some (Some q, r, evs) })"

text \<open>The section after a wait; \<open>wait_result\<close> is what \<open>bounded_wait\<close> returned.\<close>

definition write_resume :: "queue \<Rightarrow> string option \<Rightarrow> nat \<Rightarrow> int \<Rightarrow> crtmedia_result \<Rightarrow>
    (queue \<times> (crtmedia_result \<times> nat) section_end \<times> event list) option" where
  "write_resume q data sz timeout_ms wait_result =
     (let (q, evs) = bounded_wait_leave q in
      if cancelled q then Some (q, Return (CRTMEDIA_ERROR_CANCELLED, 0), evs)
      else if wait_result \<noteq> CRTMEDIA_OK then Some (q, Return (wait_result, 0), evs)
      else do {
        (q, r, evs') \<leftarrow> write_loop q (case data of None \<Rightarrow> [] | Some d \<Rightarrow> d) sz timeout_ms;
        Some (q, r, evs @ evs') })"

definition crtmedia_transport_queue_write_eof :: "queue option \<Rightarrow> queue option \<times> crtmedia_result \<times> event list" where
  "crtmedia_transport_queue_write_eof qp =
     (case qp of None \<Rightarrow> (None, CRTMEDIA_ERROR_INVALID_ARGUMENT, [])
      | Some q \<Rightarrow>
        if cancelled q then (Some q, CRTMEDIA_ERROR_CANCELLED, [])
        else if has_error q then (Some q, CRTMEDIA_ERROR_INVALID_ARGUMENT, [])
        else (Some (q\<lparr>eof_written := True\<rparr>), CRTMEDIA_OK, [Broadcast not_empty]))"

definition crtmedia_transport_queue_write_error ::
    "queue option \<Rightarrow> crtmedia_result \<Rightarrow> queue option \<times> crtmedia_result \<times> event list" where
  "crtmedia_transport_queue_write_error qp error =
     (case qp of None \<Rightarrow> (None, CRTMEDIA_ERROR_INVALID_ARGUMENT, [])
      | Some q \<Rightarrow>
        if error = CRTMEDIA_OK \<or> error = CRTMEDIA_WOULD_BLOCK \<or> error = CRTMEDIA_ERROR_CANCELLED
        then (Some q, CRTMEDIA_ERROR_INVALID_ARGUMENT, [])
        else if cancelled q then (Some q, CRTMEDIA_ERROR_CANCELLED, [])
        else
          let q = (if \<not> has_error q \<and> \<not> eof_written q
            then q\<lparr>has_error := True, stored_error := error\<rparr> else q)
          in (Some q, CRTMEDIA_OK, [Broadcast not_empty]))"

text \<open>
  \<open>data\<close> is the block the caller's pointer points to, \<open>out_data\<close> that block when the call returns;
  \<open>out_read\<close> and \<open>out_eof\<close> are what the other two pointers receive. The call delivers the first
  \<open>out_read\<close> bytes of the block.
\<close>

record read_out =
  result :: crtmedia_result
  out_data :: string
  out_read :: nat
  out_eof :: bool

definition out_bytes :: "read_out \<Rightarrow> string" where
  "out_bytes out = take (out_read out) (out_data out)"

definition read_copy :: "queue \<Rightarrow> string \<Rightarrow> nat \<Rightarrow> (queue \<times> string \<times> nat) option" where
  "read_copy q data cap =
     (let to_copy = (if cap < count q then cap else count q);
          first_chunk = capacity q - head q;
          first_chunk = (if first_chunk > to_copy then to_copy else first_chunk)
      in do {
        chunk \<leftarrow> get_bytes (buffer q) (head q) first_chunk;
        data \<leftarrow> put_bytes data 0 chunk;
        data \<leftarrow> (if to_copy > first_chunk then do {
                    chunk \<leftarrow> get_bytes (buffer q) 0 (to_copy - first_chunk);
                    put_bytes data first_chunk chunk }
                  else Some data);
        Some (q\<lparr>head := (head q + to_copy) mod capacity q, count := count q - to_copy\<rparr>, data, to_copy) })"

definition failed :: "string \<Rightarrow> crtmedia_result \<Rightarrow> read_out section_end" where
  "failed data r = Return \<lparr>result = r, out_data = data, out_read = 0, out_eof = False\<rparr>"

definition read_loop :: "queue \<Rightarrow> string \<Rightarrow> nat \<Rightarrow> int \<Rightarrow> (queue \<times> read_out section_end \<times> event list) option" where
  "read_loop q data cap timeout_ms =
     (if count q = 0 \<and> \<not> eof_written q \<and> \<not> has_error q then
        if timeout_ms = 0 then Some (q, failed data CRTMEDIA_WOULD_BLOCK, [])
        else Some (bounded_wait_enter q, Wait, [])
      else if count q = 0 then
        if has_error q then Some (q, failed data (stored_error q), [])
        else Some (q, Return \<lparr>result = CRTMEDIA_OK, out_data = data, out_read = 0, out_eof = True\<rparr>, [])
      else do {
        (q, data, to_copy) \<leftarrow> read_copy q data cap;
        Some (q, Return \<lparr>result = CRTMEDIA_OK, out_data = data, out_read = to_copy, out_eof = False\<rparr>,
          if count q \<le> low_watermark q then [Broadcast not_full] else []) })"

definition crtmedia_transport_queue_read :: "queue option \<Rightarrow> string option \<Rightarrow> nat \<Rightarrow> int \<Rightarrow> bool \<Rightarrow>
    (queue option \<times> read_out section_end \<times> event list) option" where
  "crtmedia_transport_queue_read qp data cap timeout_ms out_nonnull =
     (let block = (case data of None \<Rightarrow> [] | Some d \<Rightarrow> d) in
      case qp of None \<Rightarrow> Some (None, failed block CRTMEDIA_ERROR_INVALID_ARGUMENT, [])
      | Some q \<Rightarrow>
        if (data = None \<and> cap > 0) \<or> \<not> out_nonnull
        then Some (Some q, failed block CRTMEDIA_ERROR_INVALID_ARGUMENT, [])
        else if cancelled q then Some (Some q, failed block CRTMEDIA_ERROR_CANCELLED, [])
        else do {
          (q, r, evs) \<leftarrow> read_loop q block cap timeout_ms;
          Some (Some q, r, evs) })"

definition read_resume :: "queue \<Rightarrow> string option \<Rightarrow> nat \<Rightarrow> int \<Rightarrow> crtmedia_result \<Rightarrow>
    (queue \<times> read_out section_end \<times> event list) option" where
  "read_resume q data cap timeout_ms wait_result =
     (let (q, evs) = bounded_wait_leave q;
          block = (case data of None \<Rightarrow> [] | Some d \<Rightarrow> d) in
      if cancelled q then Some (q, failed block CRTMEDIA_ERROR_CANCELLED, evs)
      else if wait_result \<noteq> CRTMEDIA_OK then Some (q, failed block wait_result, evs)
      else do {
        (q, r, evs') \<leftarrow> read_loop q block cap timeout_ms;
        Some (q, r, evs @ evs') })"

definition crtmedia_transport_queue_cancel :: "queue option \<Rightarrow> queue option \<times> crtmedia_result \<times> event list" where
  "crtmedia_transport_queue_cancel qp =
     (case qp of None \<Rightarrow> (None, CRTMEDIA_ERROR_INVALID_ARGUMENT, [])
      | Some q \<Rightarrow> (Some (q\<lparr>cancelled := True\<rparr>), CRTMEDIA_OK, [Broadcast not_full, Broadcast not_empty]))"

text \<open>
  \<open>release\<close> cancels, then waits on \<open>drained\<close> while there are waiters, then frees the queue.
\<close>

definition release_begin :: "queue \<Rightarrow> queue \<times> event list" where
  "release_begin q = (q\<lparr>cancelled := True\<rparr>, [Broadcast not_full, Broadcast not_empty])"

definition release_may_free :: "queue \<Rightarrow> bool" where
  "release_may_free q \<longleftrightarrow> \<not> active_waiters q > 0"

subsection \<open>The ring as a list\<close>

definition queue_wf :: "queue \<Rightarrow> bool" where
  "queue_wf q \<longleftrightarrow> 0 < capacity q \<and> length (buffer q) = capacity q \<and> head q < capacity q \<and>
     count q \<le> capacity q \<and> 0 < low_watermark q \<and> low_watermark q \<le> high_watermark q \<and>
     high_watermark q \<le> capacity q"

definition contents :: "queue \<Rightarrow> string" where
  "contents q = map (\<lambda>i. buffer q ! ((head q + i) mod capacity q)) [0..<count q]"

lemma length_contents [simp]: "length (contents q) = count q"
  by (simp add: contents_def)

lemma contents_nth: "i < count q \<Longrightarrow> contents q ! i = buffer q ! ((head q + i) mod capacity q)"
  by (simp add: contents_def)

lemma contents_Nil_iff: "contents q = [] \<longleftrightarrow> count q = 0"
  by (metis length_contents length_0_conv)

lemma contents_other [simp]:
  "contents (q\<lparr>eof_written := b\<rparr>) = contents q" "contents (q\<lparr>cancelled := b\<rparr>) = contents q"
  "contents (q\<lparr>has_error := b\<rparr>) = contents q" "contents (q\<lparr>stored_error := e\<rparr>) = contents q"
  "contents (q\<lparr>active_waiters := n\<rparr>) = contents q"
  by (simp_all add: contents_def)

lemma queue_wf_other [simp]:
  "queue_wf (q\<lparr>eof_written := b\<rparr>) = queue_wf q" "queue_wf (q\<lparr>cancelled := b\<rparr>) = queue_wf q"
  "queue_wf (q\<lparr>has_error := b\<rparr>) = queue_wf q" "queue_wf (q\<lparr>stored_error := e\<rparr>) = queue_wf q"
  "queue_wf (q\<lparr>active_waiters := n\<rparr>) = queue_wf q"
  by (simp_all add: queue_wf_def)

lemma mod_once: "x < 2 * n \<Longrightarrow> x mod n = (if x < n then x else x - (n :: nat))"
  by (simp add: mod_if)

text \<open>Writing \<open>cs\<close> at \<open>t\<close> with wrap-around: the byte at distance \<open>d\<close> behind \<open>t\<close> is \<open>cs ! d\<close>.\<close>

definition ring_put :: "string \<Rightarrow> nat \<Rightarrow> string \<Rightarrow> string" where
  "ring_put buf t cs = map (\<lambda>j.
     let d = (if t \<le> j then j - t else j + length buf - t) in if d < length cs then cs ! d else buf ! j)
     [0..<length buf]"

lemma put_bytes_wrap:
  assumes t: "t < length buf" and n: "length cs \<le> length buf" and f: "f = min (length buf - t) (length cs)"
  shows "do { buf \<leftarrow> put_bytes buf t (take f cs);
      if length cs > f then put_bytes buf 0 (drop f cs) else Some buf } = Some (ring_put buf t cs)"
proof (cases "length cs > f")
  case False
  then have f: "f = length cs" "t + length cs \<le> length buf" using f t by auto
  have "take t buf @ cs @ drop (t + length cs) buf = ring_put buf t cs"
    by (rule nth_equalityI) (use f in \<open>auto simp: ring_put_def nth_append min_def Let_def\<close>)
  with f show ?thesis by (simp add: put_bytes_def)
next
  case True
  then have f: "f = length buf - t" using f by auto
  have "drop f cs @ drop (length cs - f) (take t buf @ take f cs) = ring_put buf t cs"
  proof (rule nth_equalityI)
    fix i assume "i < length (drop f cs @ drop (length cs - f) (take t buf @ take f cs))"
    then have i: "i < length buf" using f t n by simp
    have "(if t \<le> i then i - t else i + length buf - t) = (if t \<le> i then i - t else f + i)"
      using f t by auto
    then have rhs: "ring_put buf t cs ! i = (if t \<le> i then cs ! (i - t) else
        if f + i < length cs then cs ! (f + i) else buf ! i)"
      using i f t n True by (auto simp: ring_put_def Let_def)
    have split: "length cs - f \<le> t" "t + f = length buf" "f \<le> length cs" using f t n True by auto
    show "(drop f cs @ drop (length cs - f) (take t buf @ take f cs)) ! i = ring_put buf t cs ! i"
    proof (cases "i < length cs - f")
      case True
      then show ?thesis unfolding rhs using split i by (auto simp: nth_append)
    next
      case False
      have "length (take t buf @ take f cs) = length buf" using split t n by simp
      then have "(drop f cs @ drop (length cs - f) (take t buf @ take f cs)) ! i =
          (take t buf @ take f cs) ! i"
        using False split(1,3) t by (subst nth_append) (simp del: drop_append add: nth_drop)
      also have "\<dots> = (if i < t then buf ! i else cs ! (i - t))"
        using split(2) i t by (auto simp: nth_append)
      finally show ?thesis unfolding rhs using False split by (auto simp: add.commute)
    qed
  qed (use f t n True in \<open>simp add: ring_put_def\<close>)
  with f t n True show ?thesis by (simp add: put_bytes_def)
qed

lemma write_copy_Some:
  assumes wf: "queue_wf q" and data: "sz \<le> length data" and n: "n = min sz (capacity q - count q)"
  obtains q' where "write_copy q data sz = Some (q', n)" "queue_wf q'"
    "contents q' = contents q @ take n data" "q' = q\<lparr>buffer := buffer q', count := count q + n\<rparr>"
proof -
  define h c cap t where "h = head q" and "c = count q" and "cap = capacity q" and "t = (h + c) mod cap"
  have b: "h < cap" "c \<le> cap" "length (buffer q) = cap" "0 < cap" "n \<le> cap - c"
    using wf n by (auto simp: h_def c_def cap_def queue_wf_def)
  have t: "t < cap" "t = (if h + c < cap then h + c else h + c - cap)"
  proof -
    show "t < cap" using b by (simp add: t_def)
    have "h + c < 2 * cap" using b by linarith
    then show "t = (if h + c < cap then h + c else h + c - cap)" by (simp add: t_def mod_once)
  qed
  define f where "f = min (cap - t) n"
  have cs: "length (take n data) = n" using data n by simp
  let ?q = "q\<lparr>buffer := ring_put (buffer q) t (take n data), count := c + n\<rparr>"
  have put: "do { buf \<leftarrow> put_bytes (buffer q) t (take f data);
      if n > f then put_bytes buf 0 (take (n - f) (drop f data)) else Some buf } =
    Some (ring_put (buffer q) t (take n data))"
  proof -
    have e: "take f (take n data) = take f data" "drop f (take n data) = take (n - f) (drop f data)"
      by (simp_all add: f_def min.absorb1 drop_take)
    have "t < length (buffer q)" "length (take n data) \<le> length (buffer q)"
      "f = min (length (buffer q) - t) (length (take n data))"
      unfolding cs using t(1) b by (simp_all add: f_def)
    from put_bytes_wrap [OF this] show ?thesis unfolding cs e .
  qed
  have "write_copy q data sz = Some (?q, n)"
  proof -
    have eqs: "(if sz < cap - c then sz else cap - c) = n" "(if cap - t > n then n else cap - t) = f"
      unfolding n f_def c_def cap_def by (auto simp: min_def)
    have "f \<le> n" by (simp add: f_def)
    moreover have "n \<le> length data" by (rule order_trans [OF _ data]) (simp add: n)
    ultimately have gets: "get_bytes data 0 f = Some (take f data)"
      "get_bytes data f (n - f) = Some (take (n - f) (drop f data))"
      by (simp_all add: get_bytes_def)
    have "write_copy q data sz = do {
        chunk \<leftarrow> get_bytes data 0 f;
        buf \<leftarrow> put_bytes (buffer q) t chunk;
        buf \<leftarrow> (if n > f then do {
                   chunk \<leftarrow> get_bytes data f (n - f);
                   put_bytes buf 0 chunk }
                 else Some buf);
        Some (q\<lparr>buffer := buf, count := c + n\<rparr>, n) }"
      by (simp only: write_copy_def Let_def h_def [symmetric] c_def [symmetric] cap_def [symmetric]
          t_def [symmetric] eqs)
    also have "\<dots> = Some (?q, n)"
      using put by (cases "put_bytes (buffer q) t (take f data)"; cases "n > f") (simp_all add: gets)
    finally show ?thesis .
  qed
  moreover have "queue_wf ?q"
    using wf b by (auto simp: queue_wf_def c_def cap_def ring_put_def)
  moreover have "contents ?q = contents q @ take n data"
  proof (rule nth_equalityI)
    fix i assume "i < length (contents ?q)"
    then have i: "i < c + n" by simp
    define j where "j = (if h + i < cap then h + i else h + i - cap)"
    have "h + i < 2 * cap" using i b by linarith
    then have j: "(h + i) mod cap = j" by (simp add: j_def mod_once)
    with mod_less_divisor [OF b(4), of "h + i"] have "j < cap" by simp
    note j = j this
    have "contents ?q ! i = ring_put (buffer q) t (take n data) ! j"
      using i j by (simp add: contents_nth h_def cap_def)
    also have "\<dots> = (let d = (if t \<le> j then j - t else j + cap - t)
        in if d < n then take n data ! d else buffer q ! j)"
      using j b cs by (simp add: ring_put_def Let_def)
    also have "\<dots> = (contents q @ take n data) ! i"
    proof (cases "i < c")
      case True
      then have "\<not> (if t \<le> j then j - t else j + cap - t) < n"
        using t b unfolding j_def by (auto split: if_splits)
      with True j show ?thesis
        by (simp add: Let_def nth_append contents_nth c_def [symmetric] h_def [symmetric] cap_def [symmetric])
    next
      case False
      then have "(if t \<le> j then j - t else j + cap - t) = i - c"
        using t b i unfolding j_def by (auto split: if_splits)
      moreover have "i - c < n" using False i by linarith
      ultimately show ?thesis using False i by (simp add: Let_def nth_append c_def [symmetric])
    qed
    finally show "contents ?q ! i = (contents q @ take n data) ! i" .
  qed (use cs in \<open>simp add: c_def\<close>)
  ultimately show thesis by (intro that [of ?q]) (simp_all add: c_def)
qed

lemma put_bytes_twice:
  assumes "length a + length b \<le> length data"
  shows "do { data \<leftarrow> put_bytes data 0 a; put_bytes data (length a) b } = Some (a @ b @ drop (length a + length b) data)"
  using assms by (simp add: put_bytes_def add.commute)

lemma read_copy_Some:
  assumes wf: "queue_wf q" and data: "cap \<le> length data" and n: "n = min cap (count q)"
  obtains q' where "read_copy q data cap = Some (q', take n (contents q) @ drop n data, n)" "queue_wf q'"
    "contents q' = drop n (contents q)"
    "q' = q\<lparr>head := (head q + n) mod capacity q, count := count q - n\<rparr>"
proof -
  let ?q = "q\<lparr>head := (head q + n) mod capacity q, count := count q - n\<rparr>"
  define f where "f = min (capacity q - head q) n"
  define a b where "a = take f (drop (head q) (buffer q))" and "b = take (n - f) (buffer q)"
  have bd: "head q < capacity q" "count q \<le> capacity q" "length (buffer q) = capacity q" "n \<le> count q" "f \<le> n"
    using wf n by (auto simp: queue_wf_def f_def)
  have bytes: "a @ b = take n (contents q)"
  proof (rule nth_equalityI)
    fix i assume "i < length (a @ b)"
    then have i: "i < n" using bd by (auto simp: f_def a_def b_def)
    have "head q + i < 2 * capacity q" using i bd by linarith
    then have "take n (contents q) ! i = buffer q !
        (if head q + i < capacity q then head q + i else head q + i - capacity q)"
      using i bd by (simp add: contents_nth mod_once)
    then show "(a @ b) ! i = take n (contents q) ! i"
      using i bd by (auto simp: nth_append f_def add.commute a_def b_def)
  qed (use bd in \<open>auto simp: f_def a_def b_def\<close>)
  have len: "length a = f" "length b = n - f" using bd by (auto simp: a_def b_def f_def)
  have "n \<le> length data" using data n by simp
  with put_bytes_twice [of a b data] len bd(5)
  have put: "do { data \<leftarrow> put_bytes data 0 a; put_bytes data f b } = Some (take n (contents q) @ drop n data)"
    by (simp flip: bytes)
  have "read_copy q data cap = do {
        data \<leftarrow> put_bytes data 0 a;
        data \<leftarrow> (if n > f then put_bytes data f b else Some data);
        Some (?q, data, n) }"
  proof -
    have "(if cap < count q then cap else count q) = n" using n by (simp add: min_def)
    moreover have "(if capacity q - head q > n then n else capacity q - head q) = f"
      by (simp add: f_def min_def)
    moreover have "get_bytes (buffer q) (head q) f = Some a" "get_bytes (buffer q) 0 (n - f) = Some b"
      using bd by (auto simp: get_bytes_def f_def a_def b_def)
    ultimately show ?thesis by (simp add: read_copy_def Let_def cong: if_cong)
  qed
  also have "\<dots> = Some (?q, take n (contents q) @ drop n data, n)"
  proof (cases "n > f")
    case True
    with put show ?thesis by (cases "put_bytes data 0 a") auto
  next
    case False
    then have "f = n" "b = []" using bd(5) by (auto simp: b_def)
    with put \<open>n \<le> length data\<close> len bytes show ?thesis by (simp add: put_bytes_def)
  qed
  finally have "read_copy q data cap = Some (?q, take n (contents q) @ drop n data, n)" .
  moreover have "queue_wf ?q" using wf by (auto simp: queue_wf_def)
  moreover have "contents ?q = drop n (contents q)"
    by (rule nth_equalityI) (use bd in \<open>auto simp: contents_nth mod_simps add.assoc\<close>)
  ultimately show thesis by (intro that [of ?q]) simp_all
qed

subsection \<open>A queue of bytes\<close>

text \<open>
  What a client relies on: putting appends a prefix of the data, getting removes a prefix of the
  contents. Then any schedule of puts and gets delivers the bytes in order.
\<close>

datatype fifo_op = Put string | Get nat

locale byte_fifo =
  fixes ok :: "'q \<Rightarrow> bool"
    and items :: "'q \<Rightarrow> string"
    and room :: "'q \<Rightarrow> nat"
    and put :: "'q \<Rightarrow> string \<Rightarrow> nat \<Rightarrow> ('q \<times> nat) option"
    and get :: "'q \<Rightarrow> nat \<Rightarrow> ('q \<times> string) option"
  assumes put_items: "ok q \<Longrightarrow> n \<le> length s \<Longrightarrow> \<exists>q'. put q s n = Some (q', min n (room q)) \<and> ok q' \<and>
      items q' = items q @ take (min n (room q)) s"
    and get_items: "ok q \<Longrightarrow> \<exists>q'. get q n = Some (q', take n (items q)) \<and> ok q' \<and>
      items q' = drop n (items q)"
begin

text \<open>Run a schedule; the result is the queue, the bytes accepted and the bytes delivered.\<close>

fun run :: "'q \<Rightarrow> fifo_op list \<Rightarrow> ('q \<times> string \<times> string) option" where
  "run q [] = Some (q, [], [])"
| "run q (Put s # ops) = do {
     (q, n) \<leftarrow> put q s (length s);
     (q, accepted, delivered) \<leftarrow> run q ops;
     Some (q, take n s @ accepted, delivered) }"
| "run q (Get n # ops) = do {
     (q, s) \<leftarrow> get q n;
     (q, accepted, delivered) \<leftarrow> run q ops;
     Some (q, accepted, s @ delivered) }"

lemma run_in_order:
  "ok q \<Longrightarrow> \<exists>q' accepted delivered. run q ops = Some (q', accepted, delivered) \<and> ok q' \<and>
    items q @ accepted = delivered @ items q'"
proof (induction ops arbitrary: q)
  case Nil
  then show ?case by simp
next
  case (Cons x ops)
  show ?case
  proof (cases x)
    case (Put s)
    obtain q1 where q1: "put q s (length s) = Some (q1, min (length s) (room q))" "ok q1"
      "items q1 = items q @ take (min (length s) (room q)) s"
      using put_items [OF Cons.prems order_refl] by blast
    obtain q2 a d where "run q1 ops = Some (q2, a, d)" "ok q2" "items q1 @ a = d @ items q2"
      using Cons.IH [OF q1(2)] by blast
    with q1 Put show ?thesis by simp
  next
    case (Get n)
    obtain q1 where q1: "get q n = Some (q1, take n (items q))" "ok q1" "items q1 = drop n (items q)"
      using get_items [OF Cons.prems] by blast
    obtain q2 a d where "run q1 ops = Some (q2, a, d)" "ok q2" "items q1 @ a = d @ items q2"
      using Cons.IH [OF q1(2)] by blast
    moreover from this(3) have "items q @ a = take n (items q) @ d @ items q2"
      unfolding q1(3) by (metis append.assoc append_take_drop_id)
    ultimately show ?thesis using q1 Get by simp
  qed
qed

end

text \<open>A reader with room for \<open>n\<close> bytes.\<close>

definition get_block :: "queue \<Rightarrow> nat \<Rightarrow> (queue \<times> string) option" where
  "get_block q n = map_option (\<lambda>(q, data, k). (q, take k data)) (read_copy q (replicate n NUL) n)"

interpretation ring: byte_fifo queue_wf contents "\<lambda>q. capacity q - count q" write_copy get_block
proof
  fix q :: queue and n :: nat and s :: string
  assume "queue_wf q" "n \<le> length s"
  then show "\<exists>q'. write_copy q s n = Some (q', min n (capacity q - count q)) \<and> queue_wf q' \<and>
      contents q' = contents q @ take (min n (capacity q - count q)) s"
    by (rule write_copy_Some [OF _ _ refl]) blast
next
  fix q :: queue and n :: nat
  assume wf: "queue_wf q"
  have "take (min n (count q)) (contents q) = take n (contents q)"
    "drop (min n (count q)) (contents q) = drop n (contents q)"
    by (simp_all add: min_def)
  then show "\<exists>q'. get_block q n = Some (q', take n (contents q)) \<and> queue_wf q' \<and>
      contents q' = drop n (contents q)"
    by (auto simp: get_block_def intro: read_copy_Some [OF wf _ refl, of n "replicate n NUL"])
qed

subsection \<open>The sections\<close>

lemma create_wf:
  assumes "buffer_mem = Some buf" "length buf = cap"
    and "crtmedia_transport_queue_create cap high low out queue_mem buffer_mem = (CRTMEDIA_OK, Some q)"
  shows "queue_wf q \<and> contents q = [] \<and> \<not> cancelled q \<and> \<not> eof_written q \<and> \<not> has_error q \<and>
    active_waiters q = 0"
  using assms
  by (auto simp: crtmedia_transport_queue_create_def queue_wf_def contents_def Let_def Suc_le_eq
      split: if_splits option.splits)

lemma write_loop_cases:
  assumes "queue_wf q" "sz \<le> length data" and "write_loop q data sz t = Some (q', e, evs)"
  obtains (wait) "e = Wait" "evs = []" "q' = bounded_wait_enter q" "high_watermark q \<le> count q" "t \<noteq> 0"
  | (full) "e = Return (CRTMEDIA_WOULD_BLOCK, 0)" "evs = []" "q' = q" "high_watermark q \<le> count q" "t = 0"
  | (copied) n where "e = Return (CRTMEDIA_OK, n)" "evs = [Signal not_empty]" "count q < high_watermark q"
      "n = min sz (capacity q - count q)" "queue_wf q'" "contents q' = contents q @ take n data"
      "q' = q\<lparr>buffer := buffer q', count := count q + n\<rparr>"
proof (cases "high_watermark q \<le> count q")
  case True
  with assms(3) wait full show thesis by (auto simp: write_loop_def split: if_splits)
next
  case False
  obtain q1 where q1: "write_copy q data sz = Some (q1, min sz (capacity q - count q))" "queue_wf q1"
    "contents q1 = contents q @ take (min sz (capacity q - count q)) data"
    "q1 = q\<lparr>buffer := buffer q1, count := count q + min sz (capacity q - count q)\<rparr>"
    using write_copy_Some [OF assms(1,2) refl] by blast
  have "e = Return (CRTMEDIA_OK, min sz (capacity q - count q))" "evs = [Signal not_empty]" "q' = q1"
    using assms(3) False q1(1) by (auto simp: write_loop_def)
  then show thesis using copied [OF _ _ _ refl] q1 False by auto
qed

lemma write_loop_total: "queue_wf q \<Longrightarrow> sz \<le> length data \<Longrightarrow> write_loop q data sz t \<noteq> None"
  by (erule (1) write_copy_Some [OF _ _ refl]) (simp add: write_loop_def)

lemma out_bytes_failed [simp]: "failed data r = Return out \<Longrightarrow> out_bytes out = []"
  by (auto simp: failed_def out_bytes_def)

lemma read_loop_cases:
  assumes "queue_wf q" "cap \<le> length data" and "read_loop q data cap t = Some (q', e, evs)"
  obtains (wait) "e = Wait" "evs = []" "q' = bounded_wait_enter q" "count q = 0" "\<not> eof_written q"
      "\<not> has_error q" "t \<noteq> 0"
  | (empty) "e = failed data CRTMEDIA_WOULD_BLOCK" "evs = []" "q' = q" "count q = 0" "\<not> eof_written q"
      "\<not> has_error q" "t = 0"
  | (error) "e = failed data (stored_error q)" "evs = []" "q' = q" "count q = 0" "has_error q"
  | (eof) "e = Return \<lparr>result = CRTMEDIA_OK, out_data = data, out_read = 0, out_eof = True\<rparr>" "evs = []" "q' = q"
      "count q = 0" "eof_written q" "\<not> has_error q"
  | (copied) n where "e = Return \<lparr>result = CRTMEDIA_OK, out_data = take n (contents q) @ drop n data, out_read = n, out_eof = False\<rparr>"
      "n = min cap (count q)" "count q \<noteq> 0" "queue_wf q'" "contents q' = drop n (contents q)"
      "q' = q\<lparr>head := head q', count := count q - n\<rparr>"
      "evs = (if count q' \<le> low_watermark q then [Broadcast not_full] else [])"
proof (cases "count q = 0")
  case True
  show thesis
  proof (cases "has_error q")
    case err: True
    with True assms(3) show thesis by (intro error) (auto simp: read_loop_def)
  next
    case ok: False
    show thesis
    proof (cases "eof_written q")
      case True
      with \<open>count q = 0\<close> ok assms(3) show thesis by (intro eof) (auto simp: read_loop_def)
    next
      case False
      with True ok assms(3) show thesis
        by (cases "t = 0") (auto simp: read_loop_def intro: wait empty)
    qed
  qed
next
  case False
  define n where "n = min cap (count q)"
  obtain q1 where q1: "read_copy q data cap = Some (q1, take n (contents q) @ drop n data, n)" "queue_wf q1"
    "contents q1 = drop n (contents q)" "q1 = q\<lparr>head := (head q + n) mod capacity q, count := count q - n\<rparr>"
    using read_copy_Some [OF assms(1,2) n_def] by blast
  have "e = Return \<lparr>result = CRTMEDIA_OK, out_data = take n (contents q) @ drop n data, out_read = n, out_eof = False\<rparr>" "q' = q1"
    "evs = (if count q1 \<le> low_watermark q1 then [Broadcast not_full] else [])"
    using assms(3) False q1(1) by (auto simp: read_loop_def)
  moreover have "low_watermark q1 = low_watermark q" "q1 = q\<lparr>head := head q1, count := count q - n\<rparr>"
    by (subst q1(4); simp)+
  ultimately show thesis using copied [OF _ n_def] q1(2,3) False by simp
qed

lemma read_loop_total: "queue_wf q \<Longrightarrow> cap \<le> length data \<Longrightarrow> read_loop q data cap t \<noteq> None"
  by (erule (1) read_copy_Some [OF _ _ refl]) (simp add: read_loop_def)

text \<open>The sections of a read write nothing behind the room of the caller.\<close>

lemma read_loop_room:
  assumes "queue_wf q" "cap \<le> length data" "read_loop q data cap t = Some (q', Return out, evs)"
  shows "out_read out \<le> cap \<and> length (out_data out) = length data \<and> drop cap (out_data out) = drop cap data"
  using assms(1-3) by (cases rule: read_loop_cases) (use assms(2) in \<open>auto simp: failed_def\<close>)

subsection \<open>A producer and a consumer thread\<close>

text \<open>
  A thread that waits is \<open>Asleep\<close> until its condition variable is signalled and \<open>Woken\<close> afterwards;
  with one producer and one consumer, signal and broadcast are the same. \<open>sent\<close> and \<open>received\<close>
  record the bytes that the calls of the two threads have accepted and delivered.
\<close>

datatype 'a thread = Ready | Asleep 'a | Woken 'a

type_synonym write_args = "string option \<times> nat \<times> int"
type_synonym read_args = "string option \<times> nat \<times> int"

record sys =
  shared :: queue
  producer :: "write_args thread"
  consumer :: "read_args thread"
  sent :: string
  received :: string
  freed :: bool

definition hits :: "condvar \<Rightarrow> event list \<Rightarrow> bool" where
  "hits c evs \<longleftrightarrow> Signal c \<in> set evs \<or> Broadcast c \<in> set evs"

fun rouse :: "bool \<Rightarrow> 'a thread \<Rightarrow> 'a thread" where
  "rouse b (Asleep a) = (if b then Woken a else Asleep a)"
| "rouse b th = th"

fun blocked_in :: "'a thread \<Rightarrow> 'a option" where
  "blocked_in Ready = None"
| "blocked_in (Asleep a) = Some a"
| "blocked_in (Woken a) = Some a"

definition notify :: "event list \<Rightarrow> sys \<Rightarrow> sys" where
  "notify evs s = s\<lparr>producer := rouse (hits not_full evs) (producer s),
     consumer := rouse (hits not_empty evs) (consumer s)\<rparr>"

definition source_bytes :: "write_args \<Rightarrow> string" where
  "source_bytes a = (case fst a of None \<Rightarrow> [] | Some d \<Rightarrow> d)"

fun end_write :: "write_args \<Rightarrow> queue \<Rightarrow> (crtmedia_result \<times> nat) section_end \<Rightarrow> sys \<Rightarrow> sys" where
  "end_write a q (Return (r, n)) s =
     s\<lparr>shared := q, producer := Ready, sent := sent s @ take n (source_bytes a)\<rparr>"
| "end_write a q Wait s = s\<lparr>shared := q, producer := Asleep a\<rparr>"

fun end_read :: "read_args \<Rightarrow> queue \<Rightarrow> read_out section_end \<Rightarrow> sys \<Rightarrow> sys" where
  "end_read a q (Return out) s =
     s\<lparr>shared := q, consumer := Ready, received := received s @ out_bytes out\<rparr>"
| "end_read a q Wait s = s\<lparr>shared := q, consumer := Asleep a\<rparr>"

text \<open>
  A waiting thread may resume at any time (POSIX allows spurious wake-ups), and with a time-out when
  its own was positive. The caller's buffer has at least the bytes, or the room, that the call names. \<open>cancel\<close> and \<open>release\<close> come
  from any thread; nothing runs on the queue after it is freed.
\<close>

definition valid_args :: "write_args \<Rightarrow> bool" where
  "valid_args a \<longleftrightarrow> fst (snd a) \<le> length (source_bytes a)"

definition wait_results :: "int \<Rightarrow> crtmedia_result set" where
  "wait_results timeout_ms = (if timeout_ms < 0 then {CRTMEDIA_OK} else {CRTMEDIA_OK, CRTMEDIA_ERROR_TIMEOUT})"

inductive step :: "sys \<Rightarrow> sys \<Rightarrow> bool" where
  write_call: "\<lbrakk>\<not> freed s; producer s = Ready; valid_args (data, sz, t);
      crtmedia_transport_queue_write (Some (shared s)) data sz t True = Some (Some q, e, evs)\<rbrakk>
    \<Longrightarrow> step s (end_write (data, sz, t) q e (notify evs s))"
| write_wake: "\<lbrakk>\<not> freed s; blocked_in (producer s) = Some (data, sz, t); r \<in> wait_results t;
      write_resume (shared s) data sz t r = Some (q, e, evs)\<rbrakk>
    \<Longrightarrow> step s (end_write (data, sz, t) q e (notify evs s))"
| write_eof: "\<lbrakk>\<not> freed s; producer s = Ready;
      crtmedia_transport_queue_write_eof (Some (shared s)) = (Some q, r, evs)\<rbrakk>
    \<Longrightarrow> step s (notify evs (s\<lparr>shared := q\<rparr>))"
| write_error: "\<lbrakk>\<not> freed s; producer s = Ready;
      crtmedia_transport_queue_write_error (Some (shared s)) err = (Some q, r, evs)\<rbrakk>
    \<Longrightarrow> step s (notify evs (s\<lparr>shared := q\<rparr>))"
| read_call: "\<lbrakk>\<not> freed s; consumer s = Ready;
      valid_args (data, cap, t); crtmedia_transport_queue_read (Some (shared s)) data cap t True = Some (Some q, e, evs)\<rbrakk>
    \<Longrightarrow> step s (end_read (data, cap, t) q e (notify evs s))"
| read_wake: "\<lbrakk>\<not> freed s; blocked_in (consumer s) = Some (data, cap, t); r \<in> wait_results t;
      read_resume (shared s) data cap t r = Some (q, e, evs)\<rbrakk>
    \<Longrightarrow> step s (end_read (data, cap, t) q e (notify evs s))"
| cancel: "\<lbrakk>\<not> freed s; crtmedia_transport_queue_cancel (Some (shared s)) = (Some q, r, evs)\<rbrakk>
    \<Longrightarrow> step s (notify evs (s\<lparr>shared := q\<rparr>))"
| release_begin: "\<lbrakk>\<not> freed s; release_begin (shared s) = (q, evs)\<rbrakk>
    \<Longrightarrow> step s (notify evs (s\<lparr>shared := q\<rparr>))"
| release_free: "\<lbrakk>\<not> freed s; cancelled (shared s); release_may_free (shared s)\<rbrakk>
    \<Longrightarrow> step s (s\<lparr>freed := True\<rparr>)"

definition initial :: "queue \<Rightarrow> sys" where
  "initial q = \<lparr>shared = q, producer = Ready, consumer = Ready, sent = [], received = [], freed = False\<rparr>"

inductive reachable :: "sys \<Rightarrow> bool" where
  start: "crtmedia_transport_queue_create cap high low True queue_mem (Some buf) = (CRTMEDIA_OK, Some q) \<Longrightarrow>
      length buf = cap \<Longrightarrow> reachable (initial q)"
| next_step: "reachable s \<Longrightarrow> step s s' \<Longrightarrow> reachable s'"

subsection \<open>What holds in every reachable state\<close>

definition waiters :: "sys \<Rightarrow> nat" where
  "waiters s = (if producer s = Ready then 0 else 1) + (if consumer s = Ready then 0 else 1)"

text \<open>
  A sleeping producer has something to wait for: the buffer is above the low watermark (or at the
  high one), so that the consumer will pass the watermark and wake it. A sleeping consumer has
  nothing to read. Neither sleeps on a cancelled queue.
\<close>

definition inv :: "sys \<Rightarrow> bool" where
  "inv s \<longleftrightarrow> queue_wf (shared s) \<and> sent s = received s @ contents (shared s) \<and>
     active_waiters (shared s) = waiters s \<and>
     (\<forall>a. blocked_in (producer s) = Some a \<longrightarrow> valid_args a) \<and>
     (\<forall>a. blocked_in (consumer s) = Some a \<longrightarrow> valid_args a) \<and>
     (\<forall>a. producer s = Asleep a \<longrightarrow> \<not> cancelled (shared s) \<and>
        (low_watermark (shared s) < count (shared s) \<or> high_watermark (shared s) \<le> count (shared s))) \<and>
     (\<forall>a. consumer s = Asleep a \<longrightarrow> \<not> cancelled (shared s) \<and> count (shared s) = 0 \<and>
        \<not> eof_written (shared s) \<and> \<not> has_error (shared s)) \<and>
     (freed s \<longrightarrow> waiters s = 0)"

lemma rouse_simps [simp]:
  "rouse b th = Ready \<longleftrightarrow> th = Ready" "rouse b th = Asleep a \<longleftrightarrow> th = Asleep a \<and> \<not> b"
  "blocked_in (rouse b th) = blocked_in th" "blocked_in th = None \<longleftrightarrow> th = Ready"
  by (cases th; auto)+

lemma notify_simps [simp]:
  "shared (notify evs s) = shared s" "sent (notify evs s) = sent s" "received (notify evs s) = received s"
  "freed (notify evs s) = freed s" "producer (notify evs s) = rouse (hits not_full evs) (producer s)"
  "consumer (notify evs s) = rouse (hits not_empty evs) (consumer s)"
  by (simp_all add: notify_def)

lemma hits_simps [simp]:
  "\<not> hits c []" "hits c (Signal d # evs) \<longleftrightarrow> c = d \<or> hits c evs"
  "hits c (Broadcast d # evs) \<longleftrightarrow> c = d \<or> hits c evs" "hits c (evs @ evs') \<longleftrightarrow> hits c evs \<or> hits c evs'"
  by (auto simp: hits_def)

text \<open>The two threads see each other through these conditions on the queue.\<close>

definition sleeper_full :: "sys \<Rightarrow> queue \<Rightarrow> bool" where
  "sleeper_full s q \<longleftrightarrow> (\<forall>a. producer s = Asleep a \<longrightarrow> \<not> cancelled q \<and>
     (low_watermark q < count q \<or> high_watermark q \<le> count q))"

definition sleeper_empty :: "sys \<Rightarrow> queue \<Rightarrow> bool" where
  "sleeper_empty s q \<longleftrightarrow> (\<forall>a. consumer s = Asleep a \<longrightarrow> \<not> cancelled q \<and> count q = 0 \<and>
     \<not> eof_written q \<and> \<not> has_error q)"

lemma inv_iff: "inv s \<longleftrightarrow> queue_wf (shared s) \<and> sent s = received s @ contents (shared s) \<and>
    active_waiters (shared s) = waiters s \<and> (\<forall>a. blocked_in (producer s) = Some a \<longrightarrow> valid_args a) \<and>
    (\<forall>a. blocked_in (consumer s) = Some a \<longrightarrow> valid_args a) \<and>
    sleeper_full s (shared s) \<and> sleeper_empty s (shared s) \<and> (freed s \<longrightarrow> waiters s = 0)"
  by (simp only: inv_def sleeper_full_def sleeper_empty_def)

definition quiet :: "event list \<Rightarrow> bool" where
  "quiet evs \<longleftrightarrow> \<not> hits not_full evs \<and> \<not> hits not_empty evs"

lemma quiet_leave: "quiet (snd (bounded_wait_leave q))"
  by (simp add: quiet_def bounded_wait_leave_def Let_def)

lemma leave_fst: "fst (bounded_wait_leave q) = q\<lparr>active_waiters := active_waiters q - 1\<rparr>"
  by (simp add: bounded_wait_leave_def Let_def)

lemma end_write_inv:
  assumes wf: "queue_wf q" and bytes: "sent s = received s @ contents q"
    and active: "active_waiters q = (if consumer s = Ready then 0 else 1)"
    and se: "sleeper_empty s q" and b: "\<forall>b. blocked_in (consumer s) = Some b \<longrightarrow> valid_args b"
    and a: "valid_args a" and nf: "\<not> freed s"
  shows "quiet evs \<Longrightarrow> inv (end_write a q (Return (r, 0)) (notify evs s))"
    and "quiet evs0 \<Longrightarrow> \<not> cancelled q \<Longrightarrow> write_loop q (source_bytes a) (fst (snd a)) t = Some (q', e, evs) \<Longrightarrow>
      inv (end_write a q' e (notify (evs0 @ evs) s))"
proof -
  show "quiet evs \<Longrightarrow> inv (end_write a q (Return (r, 0)) (notify evs s))"
    using assms by (auto simp: inv_iff waiters_def sleeper_full_def sleeper_empty_def quiet_def)
next
  assume q0: "quiet evs0" and nc: "\<not> cancelled q"
    and w: "write_loop q (source_bytes a) (fst (snd a)) t = Some (q', e, evs)"
  from a have len: "fst (snd a) \<le> length (source_bytes a)" by (simp add: valid_args_def)
  from wf len w show "inv (end_write a q' e (notify (evs0 @ evs) s))"
  proof (cases rule: write_loop_cases)
    case wait
    then show ?thesis using assms q0 nc
      by (auto simp: inv_iff waiters_def sleeper_full_def sleeper_empty_def quiet_def bounded_wait_enter_def)
  next
    case full
    then show ?thesis using assms q0 nc
      by (auto simp: inv_iff waiters_def sleeper_full_def sleeper_empty_def quiet_def)
  next
    case (copied n)
    have "active_waiters q' = active_waiters q" by (subst copied(7)) simp
    with copied(1,2,5,6) show ?thesis using bytes active a b nf
      by (auto simp: inv_iff waiters_def sleeper_full_def sleeper_empty_def)
  qed
qed

lemma end_read_inv:
  assumes wf: "queue_wf q" and bytes: "sent s = received s @ contents q"
    and active: "active_waiters q = (if producer s = Ready then 0 else 1)"
    and sf: "sleeper_full s q" and a: "\<forall>a. blocked_in (producer s) = Some a \<longrightarrow> valid_args a"
    and b: "valid_args b" and nf: "\<not> freed s"
  shows "quiet evs \<Longrightarrow> inv (end_read b q (failed data r) (notify evs s))"
    and "quiet evs0 \<Longrightarrow> \<not> cancelled q \<Longrightarrow> read_loop q (source_bytes b) (fst (snd b)) t = Some (q', e, evs) \<Longrightarrow>
      inv (end_read b q' e (notify (evs0 @ evs) s))"
proof -
  show "quiet evs \<Longrightarrow> inv (end_read b q (failed data r) (notify evs s))"
    using assms
    by (auto simp: inv_iff waiters_def sleeper_full_def sleeper_empty_def quiet_def failed_def out_bytes_def)
next
  assume q0: "quiet evs0" and nc: "\<not> cancelled q"
    and r: "read_loop q (source_bytes b) (fst (snd b)) t = Some (q', e, evs)"
  from b have len: "fst (snd b) \<le> length (source_bytes b)" by (simp add: valid_args_def)
  from wf len r show "inv (end_read b q' e (notify (evs0 @ evs) s))"
  proof (cases rule: read_loop_cases)
    case wait
    then show ?thesis using assms q0 nc
      by (auto simp: inv_iff waiters_def sleeper_full_def sleeper_empty_def quiet_def bounded_wait_enter_def)
  next
    case empty
    then show ?thesis using assms q0
      by (auto simp: inv_iff waiters_def sleeper_full_def sleeper_empty_def quiet_def failed_def out_bytes_def)
  next
    case error
    then show ?thesis using assms q0
      by (auto simp: inv_iff waiters_def sleeper_full_def sleeper_empty_def quiet_def failed_def out_bytes_def)
  next
    case eof
    then show ?thesis using assms q0
      by (auto simp: inv_iff waiters_def sleeper_full_def sleeper_empty_def quiet_def out_bytes_def)
  next
    case (copied n)
    have same: "active_waiters q' = active_waiters q" "low_watermark q' = low_watermark q"
      "high_watermark q' = high_watermark q" "cancelled q' = cancelled q"
      by (subst copied(6); simp)+
    have "sent s = (received s @ take n (contents q)) @ contents q'"
      using bytes copied(5) by simp
    moreover have "sleeper_full (notify (evs0 @ evs) s) q'"
      using q0 nc same by (auto simp: sleeper_full_def quiet_def copied(7))
    ultimately show ?thesis using copied(1,2,4) active a nf same
      by (auto simp: inv_iff waiters_def sleeper_full_def sleeper_empty_def out_bytes_def)
  qed
qed

lemma take_0_end_write: "end_write a q (Return (r, n)) s = end_write a q (Return (r', n)) s"
  by simp

lemma inv_write_call:
  assumes "inv s" "\<not> freed s" "producer s = Ready" "valid_args (data, sz, t)"
    and w: "crtmedia_transport_queue_write (Some (shared s)) data sz t True = Some (Some q, e, evs)"
  shows "inv (end_write (data, sz, t) q e (notify evs s))"
proof -
  let ?q = "shared s"
  have pre: "queue_wf ?q" "sent s = received s @ contents ?q"
    "active_waiters ?q = (if consumer s = Ready then 0 else 1)" "sleeper_empty s ?q"
    "\<forall>b. blocked_in (consumer s) = Some b \<longrightarrow> valid_args b"
    using assms(1,3) by (simp_all add: inv_iff waiters_def)
  note ends = end_write_inv [OF pre assms(4,2)]
  show ?thesis
  proof (cases "(data = None \<and> sz > 0) \<or> cancelled ?q \<or> eof_written ?q \<or> has_error ?q")
    case True
    with w obtain r where "q = ?q" "e = Return (r, 0)" "evs = []"
      by (auto simp: crtmedia_transport_queue_write_def split: if_splits)
    then show ?thesis using ends(1) [of "[]"] by (simp add: quiet_def)
  next
    case False
    with w have "write_loop ?q (source_bytes (data, sz, t)) (fst (snd (data, sz, t))) t = Some (q, e, evs)"
      by (auto simp: crtmedia_transport_queue_write_def source_bytes_def)
    from ends(2) [OF _ _ this, of "[]"] False show ?thesis by (simp add: quiet_def)
  qed
qed

lemma inv_write_wake:
  assumes "inv s" "\<not> freed s" "blocked_in (producer s) = Some (data, sz, t)"
    and w: "write_resume (shared s) data sz t r = Some (q, e, evs)"
  shows "inv (end_write (data, sz, t) q e (notify evs s))"
proof -
  let ?q = "shared s\<lparr>active_waiters := active_waiters (shared s) - 1\<rparr>"
  obtain evs0 where leave: "bounded_wait_leave (shared s) = (?q, evs0)" and q0: "quiet evs0"
    using leave_fst quiet_leave by (metis prod.collapse)
  have "producer s \<noteq> Ready" using assms(3) by auto
  then have pre: "queue_wf ?q" "sent s = received s @ contents ?q"
    "active_waiters ?q = (if consumer s = Ready then 0 else 1)" "sleeper_empty s ?q"
    "\<forall>b. blocked_in (consumer s) = Some b \<longrightarrow> valid_args b"
    using assms(1) by (auto simp: inv_iff waiters_def sleeper_empty_def)
  have a: "valid_args (data, sz, t)" using assms(1,3) by (simp add: inv_iff)
  note ends = end_write_inv [OF pre a assms(2)]
  show ?thesis
  proof (cases "cancelled ?q \<or> r \<noteq> CRTMEDIA_OK")
    case True
    with w obtain r' where "q = ?q" "e = Return (r', 0)" "evs = evs0"
      by (auto simp: write_resume_def leave split: if_splits)
    then show ?thesis using ends(1) [OF q0] by simp
  next
    case False
    with w obtain evs1 where "evs = evs0 @ evs1"
      "write_loop ?q (source_bytes (data, sz, t)) (fst (snd (data, sz, t))) t = Some (q, e, evs1)"
      by (auto simp: write_resume_def leave source_bytes_def)
    with ends(2) [OF q0 _ this(2)] False show ?thesis by simp
  qed
qed

lemma inv_read_call:
  assumes "inv s" "\<not> freed s" "consumer s = Ready" "valid_args (data, cap, t)"
    and w: "crtmedia_transport_queue_read (Some (shared s)) data cap t True = Some (Some q, e, evs)"
  shows "inv (end_read (data, cap, t) q e (notify evs s))"
proof -
  let ?q = "shared s"
  have pre: "queue_wf ?q" "sent s = received s @ contents ?q"
    "active_waiters ?q = (if producer s = Ready then 0 else 1)" "sleeper_full s ?q"
    "\<forall>a. blocked_in (producer s) = Some a \<longrightarrow> valid_args a"
    using assms(1,3) by (simp_all add: inv_iff waiters_def)
  note ends = end_read_inv [OF pre assms(4,2)]
  show ?thesis
  proof (cases "(data = None \<and> cap > 0) \<or> cancelled ?q")
    case True
    with w obtain r where "q = ?q" "e = failed (source_bytes (data, cap, t)) r" "evs = []"
      by (auto simp: crtmedia_transport_queue_read_def Let_def source_bytes_def split: if_splits)
    then show ?thesis using ends(1) [of "[]"] by (simp add: quiet_def)
  next
    case False
    with w have "read_loop ?q (source_bytes (data, cap, t)) (fst (snd (data, cap, t))) t = Some (q, e, evs)"
      by (auto simp: crtmedia_transport_queue_read_def Let_def source_bytes_def)
    from ends(2) [OF _ _ this, of "[]"] False show ?thesis by (simp add: quiet_def)
  qed
qed

lemma inv_read_wake:
  assumes "inv s" "\<not> freed s" "blocked_in (consumer s) = Some (data, cap, t)"
    and w: "read_resume (shared s) data cap t r = Some (q, e, evs)"
  shows "inv (end_read (data, cap, t) q e (notify evs s))"
proof -
  let ?q = "shared s\<lparr>active_waiters := active_waiters (shared s) - 1\<rparr>"
  obtain evs0 where leave: "bounded_wait_leave (shared s) = (?q, evs0)" and q0: "quiet evs0"
    using leave_fst quiet_leave by (metis prod.collapse)
  have "consumer s \<noteq> Ready" using assms(3) by auto
  then have pre: "queue_wf ?q" "sent s = received s @ contents ?q"
    "active_waiters ?q = (if producer s = Ready then 0 else 1)" "sleeper_full s ?q"
    "\<forall>a. blocked_in (producer s) = Some a \<longrightarrow> valid_args a"
    using assms(1) by (auto simp: inv_iff waiters_def sleeper_full_def)
  have b: "valid_args (data, cap, t)" using assms(1,3) by (simp add: inv_iff)
  note ends = end_read_inv [OF pre b assms(2)]
  show ?thesis
  proof (cases "cancelled ?q \<or> r \<noteq> CRTMEDIA_OK")
    case True
    with w obtain r' where "q = ?q" "e = failed (source_bytes (data, cap, t)) r'" "evs = evs0"
      by (auto simp: read_resume_def Let_def leave source_bytes_def split: if_splits)
    then show ?thesis using ends(1) [OF q0] by simp
  next
    case False
    with w obtain evs1 where "evs = evs0 @ evs1"
      "read_loop ?q (source_bytes (data, cap, t)) (fst (snd (data, cap, t))) t = Some (q, e, evs1)"
      by (auto simp: read_resume_def Let_def leave source_bytes_def)
    with ends(2) [OF q0 _ this(2)] False show ?thesis by simp
  qed
qed

lemma inv_flags:
  assumes "inv s" "\<not> freed s" and q: "q = shared s \<or> (\<exists>e. hits not_empty evs \<and>
      (q = shared s\<lparr>eof_written := True\<rparr> \<or> q = shared s\<lparr>has_error := True, stored_error := e\<rparr>)) \<or>
      (hits not_full evs \<and> hits not_empty evs \<and> q = shared s\<lparr>cancelled := True\<rparr>)"
  shows "inv (notify evs (s\<lparr>shared := q\<rparr>))"
  using assms by (auto simp: inv_iff waiters_def sleeper_full_def sleeper_empty_def)

lemma inv_step: "step s s' \<Longrightarrow> inv s \<Longrightarrow> inv s'"
proof (induction rule: step.induct)
  case (write_call s data sz t q e evs)
  then show ?case by (intro inv_write_call)
next
  case (write_wake s data sz t r q e evs)
  then show ?case by (intro inv_write_wake)
next
  case (write_eof s q r evs)
  then show ?case
    by (intro inv_flags) (auto simp: crtmedia_transport_queue_write_eof_def split: if_splits)
next
  case (write_error s err q r evs)
  then show ?case
    by (intro inv_flags) (auto simp: crtmedia_transport_queue_write_error_def Let_def split: if_splits)
next
  case (read_call s data cap t q e evs)
  then show ?case by (intro inv_read_call)
next
  case (read_wake s data cap t r q e evs)
  then show ?case by (intro inv_read_wake)
next
  case (cancel s q r evs)
  then show ?case by (intro inv_flags) (auto simp: crtmedia_transport_queue_cancel_def)
next
  case (release_begin s q evs)
  then show ?case by (intro inv_flags) (auto simp: release_begin_def)
next
  case (release_free s)
  then show ?case
    by (auto simp: inv_iff waiters_def sleeper_full_def sleeper_empty_def release_may_free_def split: if_splits)
qed

lemma reachable_inv: "reachable s \<Longrightarrow> inv s"
proof (induction rule: reachable.induct)
  case (start cap high low queue_mem buf q)
  from create_wf [OF refl start(2,1)] show ?case
    by (simp add: inv_iff initial_def waiters_def sleeper_full_def sleeper_empty_def)
next
  case (next_step s s')
  then show ?case by (blast intro: inv_step)
qed

text \<open>Every call of a reachable state returns or waits: no access leaves a buffer.\<close>

lemma sections_total:
  assumes "inv s" "valid_args (data, sz, t)"
  shows "crtmedia_transport_queue_write (Some (shared s)) data sz t out \<noteq> None"
    and "write_resume (shared s) data sz t r \<noteq> None"
    and "crtmedia_transport_queue_read (Some (shared s)) data sz t out \<noteq> None"
    and "read_resume (shared s) data sz t r \<noteq> None"
proof -
  let ?q = "shared s\<lparr>active_waiters := active_waiters (shared s) - 1\<rparr>"
  have wf: "queue_wf (shared s)" and wf': "queue_wf ?q" using assms by (simp_all add: inv_iff)
  obtain evs0 where leave: "bounded_wait_leave (shared s) = (?q, evs0)"
    using leave_fst by (metis prod.collapse)
  have len: "sz \<le> length (source_bytes (data, sz, t))" using assms(2) by (simp add: valid_args_def)
  note defs = source_bytes_def leave
  show "crtmedia_transport_queue_write (Some (shared s)) data sz t out \<noteq> None"
    using write_loop_total [OF wf len, of t] by (auto simp: crtmedia_transport_queue_write_def defs)
  show "write_resume (shared s) data sz t r \<noteq> None"
    using write_loop_total [OF wf' len, of t] by (auto simp: write_resume_def defs)
  show "crtmedia_transport_queue_read (Some (shared s)) data sz t out \<noteq> None"
    using read_loop_total [OF wf len, of t] by (auto simp: crtmedia_transport_queue_read_def Let_def defs)
  show "read_resume (shared s) data sz t r \<noteq> None"
    using read_loop_total [OF wf' len, of t] by (auto simp: read_resume_def Let_def defs)
qed

lemma read_room:
  assumes "inv s" "valid_args (data, cap, t)"
    and "(\<exists>q. crtmedia_transport_queue_read (Some (shared s)) data cap t ok = Some (q, Return out, evs)) \<or>
      (\<exists>q. read_resume (shared s) data cap t r = Some (q, Return out, evs))"
  shows "out_read out \<le> cap \<and> length (out_data out) = length (source_bytes (data, cap, t)) \<and>
    drop cap (out_data out) = drop cap (source_bytes (data, cap, t))"
proof -
  let ?q = "shared s\<lparr>active_waiters := active_waiters (shared s) - 1\<rparr>" and ?d = "source_bytes (data, cap, t)"
  have wf: "queue_wf (shared s)" "queue_wf ?q" using assms(1) by (simp_all add: inv_iff)
  have len: "cap \<le> length ?d" using assms(2) by (simp add: valid_args_def)
  have "(\<exists>r. failed ?d r = Return out) \<or> (\<exists>q q' evs. queue_wf q \<and> read_loop q ?d cap t = Some (q', Return out, evs))"
    using assms(3)
  proof
    assume "\<exists>q. crtmedia_transport_queue_read (Some (shared s)) data cap t ok = Some (q, Return out, evs)"
    then show ?thesis using wf(1)
      by (auto simp: crtmedia_transport_queue_read_def Let_def source_bytes_def bind_Some_iff split: if_splits)
  next
    assume "\<exists>q. read_resume (shared s) data cap t r = Some (q, Return out, evs)"
    then show ?thesis using wf(2)
      by (auto simp: read_resume_def Let_def bounded_wait_leave_def source_bytes_def bind_Some_iff split: if_splits)
  qed
  then show ?thesis using read_loop_room [OF _ len] by (auto simp: failed_def)
qed

lemma inv_no_deadlock: "inv s \<Longrightarrow> producer s = Asleep a \<Longrightarrow> consumer s \<noteq> Asleep b"
  by (cases a; cases b) (auto simp: inv_iff sleeper_full_def sleeper_empty_def queue_wf_def)

text \<open>A read that takes all there is wakes a producer that waits for room.\<close>

lemma inv_read_wakes:
  assumes i: "inv s" and p: "producer s = Asleep a" and cap: "count (shared s) \<le> cap" "valid_args (data, cap, t)"
  shows "\<exists>q out evs. crtmedia_transport_queue_read (Some (shared s)) data cap t True = Some (Some q, Return out, evs) \<and>
      result out = CRTMEDIA_OK \<and> out_bytes out = contents (shared s) \<and> contents (shared s) \<noteq> [] \<and> hits not_full evs"
proof -
  let ?q = "shared s" and ?d = "source_bytes (data, cap, t)"
  have wf: "queue_wf ?q" and c: "\<not> cancelled ?q" "count ?q \<noteq> 0"
    using i p by (cases a; auto simp: inv_iff sleeper_full_def queue_wf_def)+
  have len: "cap \<le> length ?d" using cap(2) by (simp add: valid_args_def)
  obtain q e evs where r: "read_loop ?q ?d cap t = Some (q, e, evs)"
    using read_loop_total [OF wf len, of t] by (metis not_None_eq prod_cases3)
  from wf len r have "\<exists>out. e = Return out \<and> result out = CRTMEDIA_OK \<and> out_bytes out = contents ?q \<and> hits not_full evs"
  proof (cases rule: read_loop_cases)
    case (copied n)
    then have "n = count ?q" "count q = 0" using cap by (metis min.absorb2, metis contents_Nil_iff drop_all length_contents min.absorb2 order_refl)
    with copied show ?thesis by (simp add: out_bytes_def)
  qed (use c in simp_all)
  moreover have "\<not> (data = None \<and> cap > 0)" using len by (cases data) (simp_all add: source_bytes_def)
  ultimately show ?thesis using r c by (auto simp: crtmedia_transport_queue_read_def Let_def contents_Nil_iff source_bytes_def)
qed

text \<open>What a thread that sleeps waits for has not happened.\<close>

lemma sleeping_consumer: "inv s \<Longrightarrow> consumer s = Asleep b \<Longrightarrow> contents (shared s) = [] \<and>
    \<not> eof_written (shared s) \<and> \<not> has_error (shared s) \<and> \<not> cancelled (shared s)"
  by (cases b) (simp add: inv_def contents_Nil_iff)

lemma sleeping_producer: "inv s \<Longrightarrow> producer s = Asleep a \<Longrightarrow> \<not> cancelled (shared s) \<and> contents (shared s) \<noteq> [] \<and>
    (low_watermark (shared s) < count (shared s) \<or> high_watermark (shared s) \<le> count (shared s))"
  by (cases a) (auto simp: inv_def queue_wf_def contents_Nil_iff)

text \<open>End of stream and a stored error are reported only after every byte was delivered.\<close>

lemma read_end_drained:
  assumes wf: "queue_wf q" and len: "cap \<le> length data" and r: "read_loop q data cap t = Some (q', Return out, evs)"
    and "out_eof out \<or> (result out \<noteq> CRTMEDIA_OK \<and> result out \<noteq> CRTMEDIA_WOULD_BLOCK)"
  shows "contents q = [] \<and> (if out_eof out then eof_written q \<and> \<not> has_error q
      else has_error q \<and> result out = stored_error q)"
  using wf len r
proof (cases rule: read_loop_cases)
  case error
  then show ?thesis using assms(4) by (simp add: failed_def contents_Nil_iff)
next
  case eof
  then show ?thesis using assms(4) by (simp add: contents_Nil_iff)
qed (use assms(4) in \<open>auto simp: failed_def\<close>)

lemma read_sections_end:
  assumes i: "inv s" and a: "valid_args (data, cap, t)"
    and r: "(\<exists>q. crtmedia_transport_queue_read (Some (shared s)) data cap t True = Some (q, Return out, evs)) \<or>
      (\<exists>q. r \<in> wait_results t \<and> read_resume (shared s) data cap t r = Some (q, Return out, evs))"
  shows "(out_eof out \<longrightarrow> received s = sent s \<and> eof_written (shared s) \<and> \<not> has_error (shared s)) \<and>
    (result out \<notin> {CRTMEDIA_OK, CRTMEDIA_WOULD_BLOCK, CRTMEDIA_ERROR_CANCELLED, CRTMEDIA_ERROR_TIMEOUT,
       CRTMEDIA_ERROR_INVALID_ARGUMENT} \<longrightarrow>
     received s = sent s \<and> has_error (shared s) \<and> result out = stored_error (shared s))"
proof -
  let ?q = "shared s\<lparr>active_waiters := active_waiters (shared s) - 1\<rparr>" and ?d = "source_bytes (data, cap, t)"
  have wf: "queue_wf (shared s)" "queue_wf ?q" and b: "sent s = received s @ contents (shared s)"
    using i by (simp_all add: inv_iff)
  have len: "cap \<le> length ?d" using a by (simp add: valid_args_def)
  have "(\<exists>r\<in>{CRTMEDIA_ERROR_CANCELLED, CRTMEDIA_ERROR_TIMEOUT, CRTMEDIA_ERROR_INVALID_ARGUMENT}. failed ?d r = Return out) \<or>
      (\<exists>q \<in> {shared s, ?q}. \<exists>q' evs. read_loop q ?d cap t = Some (q', Return out, evs))"
    using r
  proof
    assume "\<exists>q. crtmedia_transport_queue_read (Some (shared s)) data cap t True = Some (q, Return out, evs)"
    then show ?thesis
      by (auto simp: crtmedia_transport_queue_read_def Let_def source_bytes_def bind_Some_iff split: if_splits)
  next
    assume "\<exists>q. r \<in> wait_results t \<and> read_resume (shared s) data cap t r = Some (q, Return out, evs)"
    then show ?thesis
      by (auto simp: read_resume_def Let_def bounded_wait_leave_def source_bytes_def wait_results_def bind_Some_iff
          split: if_splits)
  qed
  then show ?thesis
  proof
    assume "\<exists>q \<in> {shared s, ?q}. \<exists>q' evs. read_loop q ?d cap t = Some (q', Return out, evs)"
    then obtain q q' evs where q: "q = shared s \<or> q = ?q" "read_loop q ?d cap t = Some (q', Return out, evs)" by blast
    then have "queue_wf q" using wf by auto
    note e = read_end_drained [OF this len q(2)]
    from q(1) have "contents q = contents (shared s)" "eof_written q = eof_written (shared s)"
      "has_error q = has_error (shared s)" "stored_error q = stored_error (shared s)" by auto
    moreover have "out_eof out \<Longrightarrow> result out = CRTMEDIA_OK"
      using \<open>queue_wf q\<close> len q(2) by (cases rule: read_loop_cases) (auto simp: failed_def)
    ultimately show ?thesis using e b by (auto split: if_splits)
  qed (auto simp: failed_def)
qed

lemma deadline_normal:
  assumes "0 \<le> nsec" "nsec < 1000000000" "0 \<le> timeout_ms" "wait_deadline (sec, nsec) timeout_ms = (s, n)"
  shows "0 \<le> n \<and> n < 1000000000 \<and>
    s * 1000000000 + n = sec * 1000000000 + nsec + timeout_ms * 1000000"
proof -
  obtain d k where dk: "timeout_ms div 1000 = d" "timeout_ms mod 1000 = k" "timeout_ms = d * 1000 + k"
    by (rule that [OF refl refl]) simp
  have "0 \<le> k" "k < 1000" using dk(2) by auto
  with assms(1,2,4) dk(1,2) have "0 \<le> n \<and> n < 1000000000 \<and>
      s * 1000000000 + n = sec * 1000000000 + nsec + (d * 1000 + k) * 1000000"
    by (auto simp: wait_deadline_def Let_def split: if_splits)
  then show ?thesis by (simp only: dk(3))
qed

end
