(* ===== verification/CRT_Env.thy ===== *)
theory CRT_Env
  imports CRT_String
begin

text \<open>
  The environment: \<^verbatim>\<open>libc/src/env.c\<close>, in its POSIX configuration. The state is the array
  \<open>env_entries\<close> with its capacity, a null slot being \<open>None\<close>; an entry is the string it points to,
  since the file always stores a private copy. \<open>malloc\<close> is a parameter \<open>mok\<close>: whether the n-th
  allocation succeeds. \<open>getcwd\<close> and \<open>chdir\<close> are the parameters of the rootfs bootstrap.
\<close>

subsection \<open>Operations\<close>

record env =
  env_entries :: "string option list"
  env_initialized :: bool
  initial_envp :: "string list option"
  env_errno :: int
  mallocs :: nat
  progname :: string

abbreviation env_capacity :: "env \<Rightarrow> nat" where "env_capacity e \<equiv> length (env_entries e)"

definition CRT_ENV_INITIAL_CAPACITY :: nat where "CRT_ENV_INITIAL_CAPACITY = 64"

text \<open>Comparison of two C strings on their first \<open>n\<close> bytes, as \<open>strncmp\<close> computes it.\<close>

definition strncmp_eq :: "string \<Rightarrow> string \<Rightarrow> nat \<Rightarrow> bool" where
  "strncmp_eq s t n \<longleftrightarrow> cmp_blocks (take n (s @ [NUL])) (take n (t @ [NUL])) = 0"

fun env_name_len :: "string \<Rightarrow> nat" where
  "env_name_len [] = 0"
| "env_name_len (c # s) = (if c \<noteq> CHR ''='' then Suc (env_name_len s) else 0)"

definition env_name_valid :: "string option \<Rightarrow> bool" where
  "env_name_valid name = (case name of None \<Rightarrow> False | Some n \<Rightarrow> n \<noteq> [] \<and> CHR ''='' \<notin> set n)"

fun env_scan :: "string option list \<Rightarrow> string \<Rightarrow> nat \<Rightarrow> nat \<Rightarrow> nat option" where
  "env_scan [] name n i = None"
| "env_scan (x # xs) name n i =
     (case x of
        None \<Rightarrow> env_scan xs name n (i + 1)
      | Some e \<Rightarrow> if strncmp_eq e name n \<and> (e @ [NUL]) ! n = CHR ''='' then Some i
          else env_scan xs name n (i + 1))"

definition env_find :: "env \<Rightarrow> string \<Rightarrow> nat \<Rightarrow> nat option" where
  "env_find e name n = env_scan (env_entries e) name n 0"

definition env_find_entry :: "env \<Rightarrow> string \<Rightarrow> nat \<Rightarrow> nat option" where
  "env_find_entry e entry n = env_scan (env_entries e) entry n 0"

text \<open>One call of \<open>malloc\<close>.\<close>

definition env_malloc :: "(nat \<Rightarrow> bool) \<Rightarrow> env \<Rightarrow> bool \<times> env" where
  "env_malloc mok e = (mok (mallocs e), e\<lparr>mallocs := mallocs e + 1\<rparr>)"

definition env_expand :: "(nat \<Rightarrow> bool) \<Rightarrow> env \<Rightarrow> bool \<times> env" where
  "env_expand mok e =
     (let old_capacity = env_capacity e;
          new_capacity = old_capacity * 2;
          (ok, e) = env_malloc mok e
      in if \<not> ok then (False, e\<lparr>env_errno := ENOMEM\<rparr>)
         else (True, e\<lparr>env_entries :=
           map (\<lambda>i. if i < old_capacity then env_entries e ! i else None) [0..<new_capacity]\<rparr>))"

fun first_free :: "string option list \<Rightarrow> nat \<Rightarrow> nat option" where
  "first_free (x # y # xs) i = (if x = None then Some i else first_free (y # xs) (i + 1))"
| "first_free _ i = None"

partial_function (option) env_find_free_slot :: "(nat \<Rightarrow> bool) \<Rightarrow> env \<Rightarrow> (nat option \<times> env) option" where
  "env_find_free_slot mok e =
     (case first_free (env_entries e) 0 of
        Some i \<Rightarrow> Some (Some i, e)
      | None \<Rightarrow>
          let (ok, e) = env_expand mok e
          in if ok then env_find_free_slot mok e else Some (None, e))"

definition env_store_entry :: "(nat \<Rightarrow> bool) \<Rightarrow> env \<Rightarrow> string option \<Rightarrow> bool \<Rightarrow> (int \<times> env) option" where
  "env_store_entry mok e entry overwrite =
     (case entry of None \<Rightarrow> Some (0, e)
      | Some entry \<Rightarrow>
        if take 1 entry = ''='' \<or> CHR ''='' \<notin> set entry then Some (0, e)
        else
          let n = env_name_len entry; found = env_find_entry e entry n in
          if found \<noteq> None \<and> \<not> overwrite then Some (0, e)
          else do {
            (index, e) \<leftarrow> (case found of Some i \<Rightarrow> Some (Some i, e) | None \<Rightarrow> env_find_free_slot mok e);
            case index of
              None \<Rightarrow> Some (-1, e\<lparr>env_errno := ENOMEM\<rparr>)
            | Some i \<Rightarrow>
                (case env_malloc mok e of
                   (False, e) \<Rightarrow> Some (-1, e\<lparr>env_errno := ENOMEM\<rparr>)
                 | (True, e) \<Rightarrow> Some (0, e\<lparr>env_entries := (env_entries e)[i := Some entry]\<rparr>)) })"

text \<open>The loop of \<open>__crt_env_init\<close> over the initial array, which stops at the first failure.\<close>

fun env_import :: "(nat \<Rightarrow> bool) \<Rightarrow> env \<Rightarrow> string list \<Rightarrow> env option" where
  "env_import mok e [] = Some e"
| "env_import mok e (x # xs) = do {
     (r, e) \<leftarrow> env_store_entry mok e (Some x) False;
     if r \<noteq> 0 then Some e else env_import mok e xs }"

definition crt_env_init :: "(nat \<Rightarrow> bool) \<Rightarrow> env \<Rightarrow> string list option \<Rightarrow> env option" where
  "crt_env_init mok e envp =
     (if env_initialized e then Some e
      else
        let e = e\<lparr>env_initialized := True\<rparr>;
            envp = (case envp of None \<Rightarrow> initial_envp e | Some xs \<Rightarrow> Some xs)
        in case envp of None \<Rightarrow> Some e | Some xs \<Rightarrow> env_import mok e xs)"

text \<open>\<open>getenv\<close> returns the string behind the \<open>=\<close> of the entry it finds.\<close>

definition getenv :: "(nat \<Rightarrow> bool) \<Rightarrow> env \<Rightarrow> string option \<Rightarrow> (string option \<times> env) option" where
  "getenv mok e name = do {
     e \<leftarrow> crt_env_init mok e None;
     if \<not> env_name_valid name then Some (None, e)
     else
       let name = the name; n = env_name_len name in
       case env_find e name n of
         None \<Rightarrow> Some (None, e)
       | Some i \<Rightarrow> (case env_entries e ! i of None \<Rightarrow> None | Some x \<Rightarrow> Some (Some (drop (n + 1) x), e)) }"

definition putenv :: "(nat \<Rightarrow> bool) \<Rightarrow> env \<Rightarrow> string option \<Rightarrow> (int \<times> env) option" where
  "putenv mok e entry = do {
     e \<leftarrow> crt_env_init mok e None;
     if (case entry of None \<Rightarrow> True | Some s \<Rightarrow> take 1 s = ''='' \<or> CHR ''='' \<notin> set s)
     then Some (-1, e\<lparr>env_errno := EINVAL\<rparr>)
     else env_store_entry mok e entry True }"

definition setenv :: "(nat \<Rightarrow> bool) \<Rightarrow> env \<Rightarrow> string option \<Rightarrow> string option \<Rightarrow> bool \<Rightarrow> (int \<times> env) option" where
  "setenv mok e name val overwrite = do {
     e \<leftarrow> crt_env_init mok e None;
     if \<not> env_name_valid name \<or> val = None then Some (-1, e\<lparr>env_errno := EINVAL\<rparr>)
     else
       let name = the name; val = the val; n = env_name_len name; found = env_find e name n in
       if found \<noteq> None \<and> \<not> overwrite then Some (0, e)
       else do {
         (index, e) \<leftarrow> (case found of Some i \<Rightarrow> Some (Some i, e) | None \<Rightarrow> env_find_free_slot mok e);
         case index of
           None \<Rightarrow> Some (-1, e\<lparr>env_errno := ENOMEM\<rparr>)
         | Some i \<Rightarrow>
             (case env_malloc mok e of
                (False, e) \<Rightarrow> Some (-1, e\<lparr>env_errno := ENOMEM\<rparr>)
              | (True, e) \<Rightarrow>
                  Some (0, e\<lparr>env_entries := (env_entries e)[i := Some (take n name @ ''='' @ val)]\<rparr>)) } }"

text \<open>The loop of \<open>unsetenv\<close> that moves the entries behind \<open>i\<close> down, up to the first null.\<close>

function env_shift :: "string option list \<Rightarrow> nat \<Rightarrow> string option list" where
  "env_shift xs i =
     (if i + 1 < length xs then
        (let ys = xs[i := xs ! (i + 1)] in
         if ys ! i = None then ys else env_shift ys (i + 1))
      else xs)"
  by pat_completeness auto
termination by (relation "measure (\<lambda>(xs, i). length xs - i)") auto

declare env_shift.simps [simp del]

definition unsetenv :: "(nat \<Rightarrow> bool) \<Rightarrow> env \<Rightarrow> string option \<Rightarrow> (int \<times> env) option" where
  "unsetenv mok e name = do {
     e \<leftarrow> crt_env_init mok e None;
     if \<not> env_name_valid name then Some (-1, e\<lparr>env_errno := EINVAL\<rparr>)
     else
       let name = the name; n = env_name_len name in
       case env_find e name n of
         None \<Rightarrow> Some (0, e)
       | Some i \<Rightarrow>
           let xs = env_shift (env_entries e) i in
           Some (0, e\<lparr>env_entries := xs[length xs - 1 := None]\<rparr>) }"

subsection \<open>The rootfs bootstrap\<close>

definition rootfs_path_is_absolute :: "string option \<Rightarrow> bool" where
  "rootfs_path_is_absolute path =
     (case path of None \<Rightarrow> False | Some [] \<Rightarrow> False | Some (c # _) \<Rightarrow> c = CHR ''/'')"

definition rootfs_join_argv0 :: "string option \<Rightarrow> nat \<Rightarrow> string option \<Rightarrow> string option" where
  "rootfs_join_argv0 getcwd output_size argv0 =
     (case argv0 of None \<Rightarrow> None
      | Some a \<Rightarrow>
        if a = [] \<or> output_size = 0 then None
        else if rootfs_path_is_absolute argv0 then
          (if length a + 1 > output_size then None else Some a)
        else if CHR ''/'' \<notin> set a \<and> CHR 0x5C \<notin> set a then None
        else (case getcwd of None \<Rightarrow> None
          | Some cwd \<Rightarrow>
            if length cwd + 1 + length a + 1 > output_size then None else Some (cwd @ ''/'' @ a)))"

fun rootfs_normalize_slashes :: "string \<Rightarrow> string" where
  "rootfs_normalize_slashes [] = []"
| "rootfs_normalize_slashes (c # s) =
     (if c = CHR 0x5C then CHR ''/'' else c) # rootfs_normalize_slashes s"

text \<open>The last marker that the repeated \<open>strstr\<close> finds; \<open>pos\<close> is the cursor.\<close>

function rootfs_marker_loop :: "string \<Rightarrow> nat \<Rightarrow> nat option \<Rightarrow> nat option" where
  "rootfs_marker_loop path pos marker =
     (case find_sub ''/rootfs/'' (drop pos path) of
        None \<Rightarrow> marker
      | Some i \<Rightarrow> rootfs_marker_loop path (pos + i + 8) (Some (pos + i)))"
  by pat_completeness auto
termination
  by (relation "measure (\<lambda>(path, pos, _). length path - pos)")
    (auto simp: find_sub_Some occurs_at_def)

declare rootfs_marker_loop.simps [simp del]

definition rootfs_find_marker :: "string \<Rightarrow> nat option" where
  "rootfs_find_marker path = rootfs_marker_loop path 0 None"

definition rootfs_has_runtime_suffix :: "string \<Rightarrow> bool" where
  "rootfs_has_runtime_suffix suffix \<longleftrightarrow>
     strncmp_eq suffix ''system/bin/'' 11 \<or> strncmp_eq suffix ''bin/'' 4 \<or> strncmp_eq suffix ''usr/bin/'' 8"

fun after_last_slash :: "string \<Rightarrow> string \<Rightarrow> string" where
  "after_last_slash [] name = name"
| "after_last_slash (c # s) name = after_last_slash s (if c = CHR ''/'' then s else name)"

definition setprogname :: "env \<Rightarrow> string option \<Rightarrow> env" where
  "setprogname e name =
     (case name of None \<Rightarrow> e | Some n \<Rightarrow> e\<lparr>progname := after_last_slash n n\<rparr>)"

definition getprogname :: "env \<Rightarrow> string" where
  "getprogname e = progname e"

definition PATH_MAX :: nat where "PATH_MAX = 4096"

definition CRT_ROOTFS_DEFAULT_PATH :: string where
  "CRT_ROOTFS_DEFAULT_PATH = ''/system/bin:/bin:/usr/bin''"

text \<open>The result tells whether \<open>chdir("/")\<close> is called at the end. \<open>argv\<close> is \<open>None\<close> for null.\<close>

definition crt_rootfs_bootstrap :: "(nat \<Rightarrow> bool) \<Rightarrow> string option \<Rightarrow> env \<Rightarrow> int \<Rightarrow> string option list option \<Rightarrow>
    (bool \<times> env) option" where
  "crt_rootfs_bootstrap mok getcwd e argc argv = do {
     let argv0 = (if argc > 0 then (case argv of Some (a # _) \<Rightarrow> a | _ \<Rightarrow> None) else None);
     let e = (if argv0 \<noteq> None then setprogname e argv0 else e);
     e \<leftarrow> crt_env_init mok e None;
     (root, e) \<leftarrow> getenv mok e (Some ''CRT_ROOTFS'');
     if root \<noteq> None \<or> argv0 = None then Some (False, e)
     else case rootfs_join_argv0 getcwd PATH_MAX argv0 of
       None \<Rightarrow> Some (False, e)
     | Some path \<Rightarrow>
         let path = rootfs_normalize_slashes path in
         (case rootfs_find_marker path of
            None \<Rightarrow> Some (False, e)
          | Some marker \<Rightarrow>
              if \<not> rootfs_has_runtime_suffix (drop (marker + 8) path) then Some (False, e)
              else do {
                (r, e) \<leftarrow> setenv mok e (Some ''CRT_ROOTFS'') (Some (take (marker + 7) path)) True;
                if r \<noteq> 0 then Some (False, e)
                else do {
                  (_, e) \<leftarrow> setenv mok e (Some ''PATH'') (Some CRT_ROOTFS_DEFAULT_PATH) True;
                  Some (True, e) } }) }"

subsection \<open>The table as a list of entries\<close>

definition entry_name :: "string \<Rightarrow> string" where
  "entry_name s = takeWhile (\<lambda>c. c \<noteq> CHR ''='') s"

definition entry_value :: "string \<Rightarrow> string" where
  "entry_value s = drop (length (entry_name s) + 1) s"

definition env_list :: "env \<Rightarrow> string list" where
  "env_list e = map the (takeWhile (\<lambda>x. x \<noteq> None) (env_entries e))"

text \<open>An entry of the table: a nonempty name, then \<open>=\<close>.\<close>

definition entry_ok :: "string \<Rightarrow> bool" where
  "entry_ok s \<longleftrightarrow> CHR ''='' \<in> set s \<and> entry_name s \<noteq> [] \<and> NUL \<notin> set s"

text \<open>
  The entries come first, no two with the same name, and at least the last slot is null: \<open>environ\<close>
  is always a null-terminated array.
\<close>

definition table :: "env \<Rightarrow> string list \<Rightarrow> bool" where
  "table e ps \<longleftrightarrow> length ps < env_capacity e \<and> 2 \<le> env_capacity e \<and>
     env_entries e = map Some ps @ replicate (env_capacity e - length ps) None \<and>
     list_all entry_ok ps \<and> distinct (map entry_name ps)"

definition env_ok :: "env \<Rightarrow> bool" where
  "env_ok e \<longleftrightarrow> env_initialized e \<and> table e (env_list e)"

definition pairs :: "string list \<Rightarrow> (string \<times> string) list" where
  "pairs ps = map (\<lambda>s. (entry_name s, entry_value s)) ps"

definition env_map :: "env \<Rightarrow> string \<Rightarrow> string option" where
  "env_map e = map_of (pairs (env_list e))"

lemma table_entries:
  "table e ps \<Longrightarrow> env_entries e = map Some ps @ replicate (env_capacity e - length ps) None"
  by (simp add: table_def)

lemma takeWhile_slots: "takeWhile (\<lambda>x. x \<noteq> None) (map Some ps @ replicate k None) = map Some ps"
  by (induction ps) (cases k; simp)+

lemma table_list: "table e ps \<Longrightarrow> env_list e = ps"
  unfolding table_def env_list_def
  by (elim conjE, drule arg_cong [where f = "takeWhile (\<lambda>x. x \<noteq> None)"])
    (simp only: takeWhile_slots, simp add: o_def)

lemma env_name_len_eq: "env_name_len s = length (entry_name s)"
  by (induction s) (auto simp: entry_name_def)

lemma entry_name_valid [simp]: "CHR ''='' \<notin> set n \<Longrightarrow> entry_name n = n"
  by (simp add: entry_name_def takeWhile_eq_all_conv) blast

lemma entry_name_no_eq: "CHR ''='' \<notin> set (entry_name s)"
  by (auto simp: entry_name_def dest: set_takeWhileD)

lemma before_eq: "CHR ''='' \<notin> set us \<Longrightarrow> takeWhile (\<lambda>c. c \<noteq> CHR ''='') (us @ CHR ''='' # vs) = us"
  by (induction us) auto

lemma entry_split: "CHR ''='' \<in> set s \<Longrightarrow> s = entry_name s @ ''='' @ entry_value s"
proof -
  assume "CHR ''='' \<in> set s"
  then obtain us vs where "s = us @ CHR ''='' # vs" "CHR ''='' \<notin> set us"
    by (metis split_list_first)
  then show ?thesis by (simp add: entry_name_def entry_value_def before_eq)
qed

lemma entry_join [simp]:
  "CHR ''='' \<notin> set n \<Longrightarrow> entry_name (n @ CHR ''='' # v) = n \<and> entry_value (n @ CHR ''='' # v) = v"
  by (simp add: entry_name_def entry_value_def before_eq)

lemma cmp_blocks_end: "length s < length u \<Longrightarrow> NUL \<notin> set u \<Longrightarrow> cmp_blocks (s @ [NUL]) u \<noteq> 0"
proof (induction s arbitrary: u)
  case Nil
  then show ?case by (cases u) (auto simp: uchar_0_iff)
next
  case (Cons a s)
  then show ?case by (cases u) auto
qed

lemma strncmp_eq_iff:
  assumes "NUL \<notin> set t" "n \<le> length t"
  shows "strncmp_eq s t n \<longleftrightarrow> take n s = take n t"
proof (cases "n \<le> length s")
  case True
  then show ?thesis using assms(2) by (simp add: strncmp_eq_def cmp_blocks_eq_0)
next
  case False
  then have "take n (s @ [NUL]) = s @ [NUL]" by simp
  moreover have "NUL \<notin> set (take n t)" using assms(1) by (auto dest: in_set_takeD)
  moreover have "take n s \<noteq> take n t" using False assms(2) by (auto dest: arg_cong [where f = length])
  ultimately show ?thesis
    using cmp_blocks_end [of s "take n t"] False assms(2) by (simp add: strncmp_eq_def)
qed

text \<open>The test of the two find routines: the entry has the name that is looked for.\<close>

lemma match_iff:
  assumes e: "entry_ok e" and nm: "NUL \<notin> set name"
  shows "strncmp_eq e name (length (entry_name name)) \<and>
    (e @ [NUL]) ! length (entry_name name) = CHR ''='' \<longleftrightarrow> entry_name e = entry_name name"
proof -
  let ?n = "entry_name name"
  have n: "length ?n \<le> length name" "take (length ?n) name = ?n"
    by (simp_all add: entry_name_def length_takeWhile_le takeWhile_eq_take [symmetric])
  obtain v where s: "e = entry_name e @ CHR ''='' # v"
    using e entry_split [of e] by (auto simp: entry_ok_def)
  have cmp: "strncmp_eq e name (length ?n) \<longleftrightarrow> take (length ?n) e = ?n"
    using strncmp_eq_iff [OF nm n(1)] n(2) by simp
  show ?thesis
  proof
    assume "entry_name e = ?n"
    with s show "strncmp_eq e name (length ?n) \<and> (e @ [NUL]) ! length ?n = CHR ''=''"
      unfolding cmp by (metis append_Cons append_assoc append_eq_conv_conj nth_append_length)
  next
    assume a: "strncmp_eq e name (length ?n) \<and> (e @ [NUL]) ! length ?n = CHR ''=''"
    then have t: "take (length ?n) e = ?n" by (simp add: cmp)
    then have l: "length ?n \<le> length e" by (metis length_take min.cobounded1 take_all_iff linorder_linear)
    with a have "length ?n < length e" "e ! length ?n = CHR ''=''"
      by (auto simp: nth_append split: if_splits)
    then have "e = ?n @ CHR ''='' # drop (Suc (length ?n)) e"
      using t by (metis append_take_drop_id Cons_nth_drop_Suc)
    then show "entry_name e = ?n" using entry_join [OF entry_name_no_eq] by metis
  qed
qed

text \<open>Where a name is in the list of entries.\<close>

fun name_index :: "string \<Rightarrow> string list \<Rightarrow> nat option" where
  "name_index n [] = None"
| "name_index n (p # ps) = (if entry_name p = n then Some 0 else map_option Suc (name_index n ps))"

lemma env_scan_table:
  "list_all entry_ok ps \<Longrightarrow> NUL \<notin> set name \<Longrightarrow>
    env_scan (map Some ps @ replicate k None) name (length (entry_name name)) i =
      map_option ((+) i) (name_index (entry_name name) ps)"
proof (induction ps arbitrary: i)
  case Nil
  show ?case by (induction k arbitrary: i) auto
next
  case (Cons p ps)
  have "map_option ((+) (Suc i)) x = map_option (\<lambda>k. Suc (i + k)) x" for x by (cases x) auto
  with Cons match_iff [of p name] show ?case by (simp add: option.map_comp o_def)
qed

lemma env_find_table:
  "table e ps \<Longrightarrow> NUL \<notin> set name \<Longrightarrow>
    env_find e name (env_name_len name) = name_index (entry_name name) ps"
  "table e ps \<Longrightarrow> NUL \<notin> set name \<Longrightarrow>
    env_find_entry e name (env_name_len name) = name_index (entry_name name) ps"
  using env_scan_table [of ps name "env_capacity e - length ps" 0]
  by (simp_all add: table_def env_find_def env_find_entry_def env_name_len_eq)
    (metis option.map_id0 id_apply plus_nat.add_0 map_option_cong option.map_ident)+

lemma name_index_Some:
  "name_index n ps = Some i \<longleftrightarrow> i < length ps \<and> entry_name (ps ! i) = n \<and> (\<forall>j<i. entry_name (ps ! j) \<noteq> n)"
proof (induction ps arbitrary: i)
  case (Cons p ps)
  show ?case
  proof (cases i)
    case 0
    then show ?thesis by (auto split: option.splits)
  next
    case (Suc k)
    then show ?thesis using Cons.IH [of k] by (auto simp: All_less_Suc2)
  qed
qed simp

lemma name_index_None: "name_index n ps = None \<longleftrightarrow> n \<notin> entry_name ` set ps"
  by (induction ps) auto

lemma name_index_map:
  "map_of (pairs ps) n = map_option (\<lambda>i. entry_value (ps ! i)) (name_index n ps)"
  by (induction ps) (auto simp: pairs_def option.map_comp o_def)

subsection \<open>Finding a free slot\<close>

lemma first_free_table:
  "0 < k \<Longrightarrow> first_free (map Some ps @ replicate k None) i =
    (if k = 1 then None else Some (i + length ps))"
proof (induction ps arbitrary: i)
  case Nil
  then obtain j where "k = Suc j" by (cases k) auto
  then show ?case by (cases j) auto
next
  case (Cons p ps)
  from Cons.prems have "map Some ps @ replicate k None \<noteq> []" by auto
  then obtain y ys where ys: "map Some ps @ replicate k None = y # ys" by (meson neq_Nil_conv)
  then show ?case using Cons.IH [OF Cons.prems, of "i + 1"] by simp
qed

lemma table_more [simp]:
  "table (e\<lparr>env_errno := x\<rparr>) ps = table e ps" "table (e\<lparr>mallocs := n\<rparr>) ps = table e ps"
  "table (e\<lparr>env_initialized := b\<rparr>) ps = table e ps" "table (e\<lparr>progname := w\<rparr>) ps = table e ps"
  by (simp_all add: table_def)

lemma expand_table:
  assumes "table e ps" "env_expand mok e = (b, e')"
  shows "table e' ps \<and> env_initialized e' = env_initialized e \<and>
    (if b then env_capacity e' = 2 * env_capacity e else env_errno e' = ENOMEM)"
proof (cases "mok (mallocs e)")
  case True
  let ?xs = "env_entries e" and ?n = "env_capacity e"
  have "map (\<lambda>i. if i < ?n then ?xs ! i else None) [0..<?n * 2] = ?xs @ replicate ?n None"
    by (rule nth_equalityI) (auto simp: nth_append)
  moreover have "?xs @ replicate ?n None = map Some ps @ replicate (?n * 2 - length ps) None"
  proof -
    have "replicate (?n - length ps) None @ replicate ?n None = replicate (?n * 2 - length ps) None"
      using assms(1) by (simp add: table_def replicate_add [symmetric])
    moreover have "?xs = map Some ps @ replicate (?n - length ps) None"
      using assms(1) by (simp add: table_def)
    ultimately show ?thesis by (metis append_assoc)
  qed
  ultimately have "e' = e\<lparr>mallocs := mallocs e + 1,
      env_entries := map Some ps @ replicate (?n * 2 - length ps) None\<rparr>" "b"
    using assms(2) True by (auto simp: env_expand_def env_malloc_def Let_def cong: if_cong)
  then show ?thesis using assms(1) by (auto simp: table_def)
next
  case False
  then have "b = False" "e' = e\<lparr>mallocs := mallocs e + 1, env_errno := ENOMEM\<rparr>"
    using assms(2) by (auto simp: env_expand_def env_malloc_def Let_def)
  then show ?thesis using assms(1) by simp
qed

text \<open>
  The search returns: at most one expansion is needed. It finds the slot behind the last entry, and
  the array keeps a null slot behind that one.
\<close>

lemma free_slot_Some:
  assumes "table e ps"
  shows "\<exists>r e'. env_find_free_slot mok e = Some (r, e') \<and> table e' ps \<and>
    env_initialized e' = env_initialized e \<and>
    (case r of None \<Rightarrow> env_errno e' = ENOMEM \<and> \<not> mok (mallocs e)
     | Some i \<Rightarrow> i = length ps \<and> Suc (length ps) < env_capacity e')"
proof (cases "env_capacity e - length ps = 1")
  case False
  then have "first_free (env_entries e) 0 = Some (length ps)"
    using assms first_free_table [of "env_capacity e - length ps" ps 0] by (simp add: table_def)
  moreover have "Suc (length ps) < env_capacity e" using False assms unfolding table_def by linarith
  ultimately show ?thesis using assms by (subst env_find_free_slot.simps) simp
next
  case True
  then have full: "first_free (env_entries e) 0 = None"
    using assms first_free_table [of "env_capacity e - length ps" ps 0] by (simp add: table_def)
  obtain b e1 where e1: "env_expand mok e = (b, e1)" by fastforce
  note t = expand_table [OF assms e1]
  have b: "b = mok (mallocs e)"
    using e1 by (auto simp: env_expand_def env_malloc_def Let_def split: if_splits)
  show ?thesis
  proof (cases b)
    case False
    with t full e1 b show ?thesis by (subst env_find_free_slot.simps) simp
  next
    case ok: True
    have l: "Suc (length ps) < env_capacity e1" using t ok True assms by (simp add: table_def)
    then have "first_free (env_entries e1) 0 = Some (length ps)"
      using t first_free_table [of "env_capacity e1 - length ps" ps 0] by (simp add: table_def)
    then have "env_find_free_slot mok e1 = Some (Some (length ps), e1)"
      by (subst env_find_free_slot.simps) simp
    with t full e1 ok l show ?thesis by (subst env_find_free_slot.simps) simp
  qed
qed

subsection \<open>Storing an entry\<close>

definition put_entry :: "string \<Rightarrow> string list \<Rightarrow> string list" where
  "put_entry s ps = (case name_index (entry_name s) ps of
     None \<Rightarrow> ps @ [s] | Some i \<Rightarrow> ps[i := s])"

lemma distinct_update_same: "distinct xs \<Longrightarrow> i < length xs \<Longrightarrow> xs[i := xs ! i] = xs"
  by simp

lemma put_entry_names:
  "distinct (map entry_name ps) \<Longrightarrow> distinct (map entry_name (put_entry s ps))"
proof (cases "name_index (entry_name s) ps")
  case None
  then show "distinct (map entry_name ps) \<Longrightarrow> ?thesis"
    using name_index_None [of "entry_name s" ps] by (auto simp: put_entry_def)
next
  case (Some i)
  then have "map entry_name (ps[i := s]) = map entry_name ps"
    using name_index_Some [of "entry_name s" ps i] by (metis list_update_id map_update nth_map)
  with Some show "distinct (map entry_name ps) \<Longrightarrow> ?thesis" by (simp add: put_entry_def)
qed

lemma put_entry_map:
  assumes "distinct (map entry_name ps)"
  shows "map_of (pairs (put_entry s ps)) = (map_of (pairs ps))(entry_name s \<mapsto> entry_value s)"
proof (cases "name_index (entry_name s) ps")
  case None
  then have "entry_name s \<notin> fst ` set (pairs ps)"
    using name_index_None by (force simp: pairs_def)
  then have "map_of (pairs ps) (entry_name s) = None" by (simp add: map_of_eq_None_iff)
  with None show ?thesis
    by (intro ext) (auto simp: put_entry_def pairs_def map_add_def map_of_append split: option.splits)
next
  case (Some i)
  then have i: "i < length ps" "entry_name (ps ! i) = entry_name s"
    using name_index_Some by auto
  then have sp: "ps = take i ps @ ps ! i # drop (Suc i) ps" by (simp add: id_take_nth_drop)
  have up: "ps[i := s] = take i ps @ s # drop (Suc i) ps" using i by (simp add: upd_conv_take_nth_drop)
  have "entry_name s \<notin> entry_name ` set (take i ps)"
    using Some i by (force simp: name_index_Some in_set_conv_nth)
  then have n: "map_of (pairs (take i ps)) (entry_name s) = None"
    by (force simp: map_of_eq_None_iff pairs_def)
  have "map_of (pairs ps) = map_of (pairs (take i ps @ ps ! i # drop (Suc i) ps))" using sp by simp
  with n i(2) Some show ?thesis
    by (intro ext) (auto simp: put_entry_def up pairs_def map_add_def split: option.splits)
qed

lemma put_entry_ok: "list_all entry_ok ps \<Longrightarrow> entry_ok s \<Longrightarrow> list_all entry_ok (put_entry s ps)"
  by (auto simp: put_entry_def list_all_iff split: option.splits dest!: subsetD [OF set_update_subset_insert])

text \<open>Storing at the index that the find or the free-slot search returned.\<close>

lemma store_table:
  assumes t: "table e ps" and s: "entry_ok s"
    and i: "case name_index (entry_name s) ps of None \<Rightarrow> i = length ps \<and> Suc (length ps) < env_capacity e
      | Some j \<Rightarrow> i = j"
  shows "table (e\<lparr>env_entries := (env_entries e)[i := Some s]\<rparr>) (put_entry s ps)"
proof (cases "name_index (entry_name s) ps")
  case None
  let ?k = "env_capacity e - length ps"
  have k: "?k = Suc (env_capacity e - Suc (length ps))" using None i by (simp, linarith)
  have "(env_entries e)[i := Some s] = map Some (ps @ [s]) @ replicate (env_capacity e - Suc (length ps)) None"
  proof -
    have "env_entries e = map Some ps @ None # replicate (env_capacity e - Suc (length ps)) None"
      using t unfolding table_def by (metis k replicate_Suc)
    then have "(env_entries e)[i := Some s] =
        (map Some ps @ None # replicate (env_capacity e - Suc (length ps)) None)[i := Some s]" by simp
    then show ?thesis using None i by (simp add: list_update_append)
  qed
  with t s None i show ?thesis
    using put_entry_names [of ps s] put_entry_ok [of ps s] by (auto simp: table_def put_entry_def)
next
  case (Some j)
  then have j: "j < length ps" by (simp add: name_index_Some)
  then have "(env_entries e)[i := Some s] = map Some (ps[j := s]) @ replicate (env_capacity e - length ps) None"
    using arg_cong [OF table_entries [OF t], where f = "\<lambda>xs. xs[j := Some s]"] Some i
    by (simp add: list_update_append1 map_update)
  with t s Some i show ?thesis
    using put_entry_names [of ps s] put_entry_ok [of ps s] by (auto simp: table_def put_entry_def)
qed

text \<open>
  What \<open>setenv\<close> and \<open>env_store_entry\<close> do after their guards: find the slot, allocate, store. \<open>stored\<close>
  says what comes out of it.
\<close>

definition store_at :: "(nat \<Rightarrow> bool) \<Rightarrow> env \<Rightarrow> nat option \<Rightarrow> string \<Rightarrow> (int \<times> env) option" where
  "store_at mok e found s = do {
     (index, e) \<leftarrow> (case found of Some i \<Rightarrow> Some (Some i, e) | None \<Rightarrow> env_find_free_slot mok e);
     case index of
       None \<Rightarrow> Some (-1, e\<lparr>env_errno := ENOMEM\<rparr>)
     | Some i \<Rightarrow>
         (case env_malloc mok e of
            (False, e) \<Rightarrow> Some (-1, e\<lparr>env_errno := ENOMEM\<rparr>)
          | (True, e) \<Rightarrow> Some (0, e\<lparr>env_entries := (env_entries e)[i := Some s]\<rparr>)) }"

definition stored :: "(nat \<Rightarrow> bool) \<Rightarrow> env \<Rightarrow> string list \<Rightarrow> string list \<Rightarrow> int \<times> env \<Rightarrow> bool" where
  "stored mok e ps qs res \<longleftrightarrow> (case res of (r, e') \<Rightarrow>
     env_initialized e' = env_initialized e \<and>
     (if r = 0 then table e' qs else r = -1 \<and> table e' ps \<and> env_errno e' = ENOMEM \<and> (\<exists>k. \<not> mok k)))"

lemma store_at_Some:
  assumes t: "table e ps" and s: "entry_ok s"
  shows "\<exists>res. store_at mok e (name_index (entry_name s) ps) s = Some res \<and>
    stored mok e ps (put_entry s ps) res"
proof -
  obtain index e1 where e1: "(case name_index (entry_name s) ps of Some i \<Rightarrow> Some (Some i, e)
      | None \<Rightarrow> env_find_free_slot mok e) = Some (index, e1)"
    "table e1 ps" "env_initialized e1 = env_initialized e"
    and idx: "case index of None \<Rightarrow> env_errno e1 = ENOMEM \<and> \<not> mok (mallocs e)
      | Some i \<Rightarrow> (case name_index (entry_name s) ps of None \<Rightarrow> i = length ps \<and> Suc (length ps) < env_capacity e1
        | Some j \<Rightarrow> i = j)"
  proof (cases "name_index (entry_name s) ps")
    case None
    obtain r e' where "env_find_free_slot mok e = Some (r, e')" "table e' ps"
      "env_initialized e' = env_initialized e"
      "case r of None \<Rightarrow> env_errno e' = ENOMEM \<and> \<not> mok (mallocs e)
        | Some i \<Rightarrow> i = length ps \<and> Suc (length ps) < env_capacity e'"
      using free_slot_Some [OF t, of mok] by blast
    with None show thesis by (intro that [of r e']) (auto split: option.splits)
  next
    case (Some i)
    with t show thesis by (intro that [of "Some i" e]) auto
  qed
  show ?thesis
  proof (cases index)
    case None
    with e1 idx have "store_at mok e (name_index (entry_name s) ps) s = Some (-1, e1\<lparr>env_errno := ENOMEM\<rparr>)"
      by (simp add: store_at_def)
    with e1 idx None show ?thesis by (auto simp: stored_def)
  next
    case (Some i)
    let ?e = "e1\<lparr>mallocs := mallocs e1 + 1\<rparr>"
    have "table (?e\<lparr>env_entries := (env_entries ?e)[i := Some s]\<rparr>) (put_entry s ps)"
      by (rule store_table [OF _ s]) (use e1(2) idx Some in \<open>auto split: option.splits\<close>)
    moreover have "store_at mok e (name_index (entry_name s) ps) s =
        Some (if mok (mallocs e1) then (0, ?e\<lparr>env_entries := (env_entries ?e)[i := Some s]\<rparr>)
          else (-1, ?e\<lparr>env_errno := ENOMEM\<rparr>))"
      using e1(1) Some by (simp add: store_at_def env_malloc_def)
    ultimately show ?thesis using e1(2,3) by (auto simp: stored_def)
  qed
qed

lemma stored_refl: "table e ps \<Longrightarrow> stored mok e ps ps (0, e)"
  by (simp add: stored_def)

lemma store_entry_Some:
  assumes t: "table e ps" and s: "entry_ok s"
  shows "\<exists>res. env_store_entry mok e (Some s) overwrite = Some res \<and>
    stored mok e ps (if entry_name s \<in> entry_name ` set ps \<and> \<not> overwrite then ps else put_entry s ps) res"
proof -
  have g: "\<not> (take 1 s = ''='' \<or> CHR ''='' \<notin> set s)" and nul: "NUL \<notin> set s"
    using s by (cases s; auto simp: entry_ok_def entry_name_def)+
  note found = env_find_table(2) [OF t nul]
  show ?thesis
  proof (cases "name_index (entry_name s) ps \<noteq> None \<and> \<not> overwrite")
    case True
    then have "env_store_entry mok e (Some s) overwrite = Some (0, e)"
      using g found by (simp add: env_store_entry_def Let_def)
    moreover have "entry_name s \<in> entry_name ` set ps" using True name_index_None by metis
    ultimately show ?thesis using True stored_refl [OF t] by auto
  next
    case False
    then have "env_store_entry mok e (Some s) overwrite = store_at mok e (name_index (entry_name s) ps) s"
      using g found unfolding env_store_entry_def store_at_def Let_def by auto
    moreover have "\<not> (entry_name s \<in> entry_name ` set ps \<and> \<not> overwrite)"
      using False name_index_None by metis
    ultimately show ?thesis using store_at_Some [OF t s] by auto
  qed
qed

subsection \<open>The operations on the map\<close>

lemma init_done [simp]: "env_initialized e \<Longrightarrow> crt_env_init mok e envp = Some e"
  by (simp add: crt_env_init_def)

lemma env_ok_table: "env_ok e \<Longrightarrow> table e (env_list e)"
  by (simp add: env_ok_def)

lemma table_env_ok: "env_initialized e \<Longrightarrow> table e ps \<Longrightarrow> env_ok e \<and> env_list e = ps"
  using table_list [of e ps] by (simp add: env_ok_def)

definition name_ok :: "string \<Rightarrow> bool" where
  "name_ok n \<longleftrightarrow> n \<noteq> [] \<and> CHR ''='' \<notin> set n \<and> NUL \<notin> set n"

lemma dom_env_map: "dom (env_map e) = entry_name ` set (env_list e)"
  by (simp add: env_map_def dom_map_of_conv_image_fst pairs_def image_image)

text \<open>What a call that stores \<open>n = v\<close> may do to the environment.\<close>

definition updated :: "(nat \<Rightarrow> bool) \<Rightarrow> env \<Rightarrow> (string \<Rightarrow> string option) \<Rightarrow> int \<times> env \<Rightarrow> bool" where
  "updated mok e f res \<longleftrightarrow> (case res of (r, e') \<Rightarrow> env_ok e' \<and>
     (if r = 0 then env_map e' = f
      else r = -1 \<and> env_map e' = env_map e \<and> env_errno e' = ENOMEM \<and> (\<exists>k. \<not> mok k)))"

lemma stored_updated:
  "env_ok e \<Longrightarrow> stored mok e (env_list e) qs res \<Longrightarrow> map_of (pairs qs) = f \<Longrightarrow> updated mok e f res"
  using table_env_ok [of "snd res" qs] table_env_ok [of "snd res" "env_list e"]
  by (cases res) (auto simp: stored_def updated_def env_map_def env_ok_def split: if_splits)

lemma put_entry_env_map:
  "env_ok e \<Longrightarrow> map_of (pairs (put_entry s (env_list e))) = (env_map e)(entry_name s \<mapsto> entry_value s)"
  by (simp add: env_map_def put_entry_map env_ok_def table_def)

lemma getenv_lookup:
  assumes e: "env_ok e" and n: "name_ok n"
  shows "getenv mok e (Some n) = Some (env_map e n, e)"
proof -
  note t = env_ok_table [OF e]
  from n have v: "env_name_valid (Some n)" "NUL \<notin> set n" "entry_name n = n"
    by (simp_all add: name_ok_def env_name_valid_def)
  have f: "env_find e n (env_name_len n) = name_index n (env_list e)"
    using env_find_table(1) [OF t v(2)] v(3) by simp
  show ?thesis
  proof (cases "name_index n (env_list e)")
    case None
    with v f e show ?thesis
      by (simp add: getenv_def env_ok_def Let_def env_map_def name_index_map)
  next
    case (Some i)
    then have i: "i < length (env_list e)" "entry_name (env_list e ! i) = n"
      by (auto simp: name_index_Some)
    then have "env_entries e ! i = Some (env_list e ! i)"
      by (subst table_entries [OF t]) (simp add: nth_append)
    with Some v f e i(2) show ?thesis
      by (simp add: getenv_def env_ok_def Let_def env_map_def name_index_map entry_value_def
          env_name_len_eq)
  qed
qed

lemma setenv_updates:
  assumes e: "env_ok e" and n: "name_ok n" and v: "NUL \<notin> set v"
  shows "\<exists>res. setenv mok e (Some n) (Some v) overwrite = Some res \<and>
    updated mok e (if n \<in> dom (env_map e) \<and> \<not> overwrite then env_map e else (env_map e)(n \<mapsto> v)) res"
proof -
  note t = env_ok_table [OF e]
  let ?s = "n @ ''='' @ v"
  from n have v': "env_name_valid (Some n)" "NUL \<notin> set n" "entry_name n = n"
    by (simp_all add: name_ok_def env_name_valid_def)
  have s: "entry_ok ?s" "entry_name ?s = n" "entry_value ?s = v"
    using n v by (simp_all add: entry_ok_def name_ok_def)
  have f: "env_find e n (env_name_len n) = name_index n (env_list e)"
    using env_find_table(1) [OF t v'(2)] v'(3) by simp
  have i: "env_initialized e" using e by (simp add: env_ok_def)
  have tk: "take (env_name_len n) n = n" using v'(3) by (simp add: env_name_len_eq)
  show ?thesis
  proof (cases "name_index n (env_list e) \<noteq> None \<and> \<not> overwrite")
    case True
    then have "setenv mok e (Some n) (Some v) overwrite = Some (0, e)"
      using v' f i by (simp add: setenv_def Let_def)
    moreover have "n \<in> dom (env_map e)" using True name_index_None [of n] by (simp add: dom_env_map)
    ultimately show ?thesis using True e by (simp add: updated_def)
  next
    case False
    then have "setenv mok e (Some n) (Some v) overwrite = store_at mok e (name_index (entry_name ?s) (env_list e)) ?s"
      using v' f i s(2) unfolding setenv_def store_at_def Let_def option.sel tk by auto
    moreover have "\<not> (n \<in> dom (env_map e) \<and> \<not> overwrite)"
      using False name_index_None [of n] by (simp add: dom_env_map)
    ultimately show ?thesis
      using store_at_Some [OF t s(1), of mok] stored_updated [OF e, of mok] put_entry_env_map [OF e, of ?s] s(2,3)
      by fastforce
  qed
qed

lemma putenv_updates:
  assumes e: "env_ok e" and s: "entry_ok s"
  shows "\<exists>res. putenv mok e (Some s) = Some res \<and>
    updated mok e ((env_map e)(entry_name s \<mapsto> entry_value s)) res"
proof -
  have "\<not> (take 1 s = ''='' \<or> CHR ''='' \<notin> set s)"
    using s by (cases s) (auto simp: entry_ok_def entry_name_def)
  then have "putenv mok e (Some s) = env_store_entry mok e (Some s) True"
    using e by (simp add: putenv_def env_ok_def)
  with store_entry_Some [OF env_ok_table [OF e] s, of mok True] stored_updated [OF e, of mok]
    put_entry_env_map [OF e, of s]
  show ?thesis by auto
qed

text \<open>Removing an entry.\<close>

lemma env_shift_table:
  "i < length ps \<Longrightarrow> 0 < k \<Longrightarrow> env_shift (map Some ps @ replicate k None) i =
    map Some (take i ps @ drop (Suc i) ps) @ replicate (Suc k) None"
proof (induction "length ps - i" arbitrary: i ps)
  case (Suc d)
  let ?xs = "map Some ps @ replicate k None"
  have len: "i + 1 < length ?xs" using Suc.prems by simp
  show ?case
  proof (cases "Suc i = length ps")
    case True
    then have nxt: "?xs ! (i + 1) = None" using Suc.prems by (simp add: nth_append)
    have ps: "ps = take i ps @ [ps ! i]" using True by (metis take_Suc_conv_app_nth lessI order_refl take_all)
    have "?xs[i := None] = map Some (take i ps) @ None # replicate k None"
      by (subst (1) ps) (use Suc.prems in \<open>simp add: list_update_append\<close>)
    moreover have "(map Some (take i ps) @ None # replicate k None) ! i = None"
      using True by (simp add: nth_append)
    ultimately show ?thesis
      using len nxt True by (subst env_shift.simps) (simp add: Let_def)
  next
    case False
    then have lt: "Suc i < length ps" using Suc.prems by simp
    let ?qs = "ps[i := ps ! Suc i]"
    have "?xs[i := ?xs ! (i + 1)] = map Some ?qs @ replicate k None"
      using lt by (simp add: nth_append list_update_append1 map_update)
    moreover have "env_shift (map Some ?qs @ replicate k None) (Suc i) =
        map Some (take (Suc i) ?qs @ drop (Suc (Suc i)) ?qs) @ replicate (Suc k) None"
      using Suc.hyps(2) lt Suc.prems(2) by (intro Suc.hyps(1)) auto
    moreover have "take (Suc i) ?qs @ drop (Suc (Suc i)) ?qs = take i ps @ drop (Suc i) ps"
      using lt by (simp add: take_Suc_conv_app_nth Cons_nth_drop_Suc [of "Suc i" ps, symmetric])
    moreover from this have "map Some (take (Suc i) ?qs) @ map Some (drop (Suc (Suc i)) ?qs) =
        map Some (take i ps) @ map Some (drop (Suc i) ps)" by (metis map_append)
    ultimately show ?thesis using len lt
      by (subst env_shift.simps) (simp add: Let_def nth_append)
  qed
qed simp

lemma map_of_remove:
  assumes "distinct (map entry_name ps)" "name_index n ps = Some i"
  shows "map_of (pairs (take i ps @ drop (Suc i) ps)) = (map_of (pairs ps))(n := None)"
proof -
  have i: "i < length ps" "entry_name (ps ! i) = n" using assms(2) by (auto simp: name_index_Some)
  then have sp: "ps = take i ps @ ps ! i # drop (Suc i) ps" by (simp add: id_take_nth_drop)
  have d: "distinct (map entry_name (take i ps @ ps ! i # drop (Suc i) ps))" using assms(1) sp by simp
  then have "map_of (pairs (take i ps)) n = None" "map_of (pairs (drop (Suc i) ps)) n = None"
    using i(2) by (force simp: map_of_eq_None_iff pairs_def)+
  moreover have "map_of (pairs ps) = map_of (pairs (take i ps @ ps ! i # drop (Suc i) ps))" using sp by simp
  ultimately show ?thesis using i(2)
    by (intro ext) (auto simp: pairs_def map_add_def split: option.splits)
qed

lemma last_null: "ys = zs @ [None] \<Longrightarrow> ys[length ys - 1 := None] = ys"
  by simp

lemma unsetenv_removes:
  assumes e: "env_ok e" and n: "name_ok n"
  shows "\<exists>e'. unsetenv mok e (Some n) = Some (0, e') \<and> env_ok e' \<and> env_map e' = (env_map e)(n := None)"
proof -
  note t = env_ok_table [OF e]
  let ?ps = "env_list e"
  from n have v: "env_name_valid (Some n)" "NUL \<notin> set n" "entry_name n = n"
    by (simp_all add: name_ok_def env_name_valid_def)
  have f: "env_find e n (env_name_len n) = name_index n ?ps"
    using env_find_table(1) [OF t v(2)] v(3) by simp
  have init: "env_initialized e" using e by (simp add: env_ok_def)
  show ?thesis
  proof (cases "name_index n ?ps")
    case None
    then have "(env_map e)(n := None) = env_map e"
      by (simp add: env_map_def name_index_map fun_upd_idem)
    with None v f init e show ?thesis by (simp add: unsetenv_def Let_def)
  next
    case (Some i)
    let ?qs = "take i ?ps @ drop (Suc i) ?ps" and ?k = "env_capacity e - length ?ps"
    have i: "i < length ?ps" using Some by (simp add: name_index_Some)
    have k: "0 < ?k" using t by (simp add: table_def)
    have sh: "env_shift (env_entries e) i = map Some ?qs @ replicate (Suc ?k) None" (is "?sh = ?r")
      using env_shift_table [OF i k] table_entries [OF t] by metis
    have last: "?r[length ?r - 1 := None] = ?r"
      by (rule last_null [of _ "map Some ?qs @ replicate ?k None"]) (simp add: replicate_append_same)
    let ?e = "e\<lparr>env_entries := ?r\<rparr>"
    have "unsetenv mok e (Some n) = Some (0, ?e)"
      using v f init Some sh last by (simp add: unsetenv_def Let_def)
    moreover have "table ?e ?qs"
    proof -
      have sp: "?ps = take i ?ps @ ?ps ! i # drop (Suc i) ?ps" using i by (simp add: id_take_nth_drop)
      have "list_all entry_ok (take i ?ps @ ?ps ! i # drop (Suc i) ?ps)"
        "distinct (map entry_name (take i ?ps @ ?ps ! i # drop (Suc i) ?ps))"
        using t unfolding table_def using sp by simp_all
      moreover have "env_capacity ?e = length ?qs + Suc ?k" by simp
      moreover have "length ?qs + Suc ?k = env_capacity e" using i t unfolding table_def by (simp, linarith)
      moreover have "2 \<le> env_capacity e" using t by (simp add: table_def)
      moreover from calculation(4) have "env_capacity e - length ?qs = Suc ?k" by linarith
      ultimately show ?thesis unfolding table_def by (simp del: length_append)
    qed
    ultimately have un: "unsetenv mok e (Some n) = Some (0, ?e)" and te: "table ?e ?qs" by blast+
    have "env_ok ?e" "env_list ?e = ?qs" using table_env_ok [OF _ te] init by simp_all
    moreover have "map_of (pairs ?qs) = (env_map e)(n := None)"
      using map_of_remove [of ?ps n i] Some t by (simp add: env_map_def table_def)
    ultimately show ?thesis using un unfolding env_map_def by metis
  qed
qed

subsection \<open>The initial environment\<close>

text \<open>A string without \<open>=\<close>, or with an empty name, is skipped.\<close>

lemma entry_ok_iff: "NUL \<notin> set s \<Longrightarrow> entry_ok s \<longleftrightarrow> \<not> (take 1 s = ''='' \<or> CHR ''='' \<notin> set s)"
  by (cases s) (auto simp: entry_ok_def entry_name_def)

lemma store_entry_skip:
  "NUL \<notin> set s \<Longrightarrow> \<not> entry_ok s \<Longrightarrow> env_store_entry mok e (Some s) overwrite = Some (0, e)"
  by (simp add: entry_ok_iff env_store_entry_def)

lemma map_of_pairs_skip:
  "entry_name s \<in> entry_name ` set ps \<Longrightarrow> map_of (pairs (ps @ s # qs)) = map_of (pairs (ps @ qs))"
proof -
  assume "entry_name s \<in> entry_name ` set ps"
  then have "map_of (pairs ps) (entry_name s) \<noteq> None"
    by (auto simp: map_of_eq_None_iff pairs_def image_image)
  then show ?thesis by (intro ext) (auto simp: pairs_def map_add_def split: option.splits)
qed

lemma env_import_Some:
  assumes "\<forall>k. mok k" and "table e ps" and "list_all (\<lambda>s. NUL \<notin> set s) xs"
  shows "\<exists>e' qs. env_import mok e xs = Some e' \<and> table e' qs \<and>
    env_initialized e' = env_initialized e \<and>
    map_of (pairs qs) = map_of (pairs (ps @ filter entry_ok xs))"
  using assms(2,3)
proof (induction xs arbitrary: e ps)
  case Nil
  then show ?case by auto
next
  case (Cons x xs)
  show ?case
  proof (cases "entry_ok x")
    case False
    with Cons store_entry_skip [of x mok e False] show ?thesis by auto
  next
    case True
    let ?qs = "if entry_name x \<in> entry_name ` set ps then ps else put_entry x ps"
    obtain r e1 where r: "env_store_entry mok e (Some x) False = Some (r, e1)" "stored mok e ps ?qs (r, e1)"
      using store_entry_Some [OF Cons.prems(1) True, of mok False] by auto
    then have r0: "r = 0" and t: "table e1 ?qs" and i: "env_initialized e1 = env_initialized e"
      using assms(1) by (auto simp: stored_def split: if_splits)
    have qs: "?qs = (if entry_name x \<in> entry_name ` set ps then ps else ps @ [x])"
      using name_index_None [of "entry_name x" ps] by (auto simp: put_entry_def)
    have "map_of (pairs (?qs @ filter entry_ok xs)) = map_of (pairs (ps @ filter entry_ok (x # xs)))"
      unfolding qs using True map_of_pairs_skip by simp
    with Cons.IH [OF t] Cons.prems(2) r(1) r0 i show ?thesis by auto
  qed
qed

definition env_start :: "string list \<Rightarrow> env" where
  "env_start envp = \<lparr>env_entries = replicate CRT_ENV_INITIAL_CAPACITY None, env_initialized = False,
     initial_envp = Some envp, env_errno = 0, mallocs = 0, progname = ''<unknown>''\<rparr>"

text \<open>The first of several entries with the same name wins.\<close>

lemma env_init_imports:
  assumes "\<forall>k. mok k" and "list_all (\<lambda>s. NUL \<notin> set s) envp"
  shows "\<exists>e'. crt_env_init mok (env_start envp) None = Some e' \<and> env_ok e' \<and>
    env_map e' = map_of (pairs (filter entry_ok envp))"
proof -
  let ?e = "(env_start envp)\<lparr>env_initialized := True\<rparr>"
  have "table ?e []" by (simp add: table_def env_start_def CRT_ENV_INITIAL_CAPACITY_def)
  from env_import_Some [OF assms(1) this assms(2)]
  obtain e' qs where "env_import mok ?e envp = Some e'" "table e' qs" "env_initialized e' = env_initialized ?e"
    "map_of (pairs qs) = map_of (pairs ([] @ filter entry_ok envp))" by blast
  with table_env_ok [of e' qs] show ?thesis
    by (auto simp: crt_env_init_def env_start_def env_map_def)
qed

subsection \<open>The environment as a map\<close>

locale environment =
  fixes ok :: "'e \<Rightarrow> bool"
    and lookup :: "'e \<Rightarrow> string \<Rightarrow> string option"
    and set_var :: "'e \<Rightarrow> string \<Rightarrow> string \<Rightarrow> 'e"
    and unset_var :: "'e \<Rightarrow> string \<Rightarrow> 'e"
  assumes set_var: "ok e \<Longrightarrow> name_ok n \<Longrightarrow> NUL \<notin> set v \<Longrightarrow>
      ok (set_var e n v) \<and> lookup (set_var e n v) = (lookup e)(n \<mapsto> v)"
    and unset_var: "ok e \<Longrightarrow> name_ok n \<Longrightarrow> ok (unset_var e n) \<and> lookup (unset_var e n) = (lookup e)(n := None)"
begin

lemma set_unset: "ok e \<Longrightarrow> name_ok n \<Longrightarrow> NUL \<notin> set v \<Longrightarrow> lookup e n = None \<Longrightarrow>
    lookup (unset_var (set_var e n v) n) = lookup e"
  using set_var [of e n v] unset_var [of "set_var e n v" n] by (auto simp: fun_upd_idem)

lemma set_all:
  "ok e \<Longrightarrow> \<forall>(n, v) \<in> set nvs. name_ok n \<and> NUL \<notin> set v \<Longrightarrow>
    ok (foldl (\<lambda>e (n, v). set_var e n v) e nvs) \<and>
    lookup (foldl (\<lambda>e (n, v). set_var e n v) e nvs) = lookup e ++ map_of (rev nvs)"
proof (induction nvs arbitrary: e)
  case (Cons x nvs)
  obtain n v where x: "x = (n, v)" by (cases x)
  with Cons.prems have "ok (set_var e n v)" "lookup (set_var e n v) = (lookup e)(n \<mapsto> v)"
    using set_var [of e n v] by auto
  with Cons.IH [of "set_var e n v"] Cons.prems(2) x show ?case
    by (simp add: map_add_def fun_eq_iff split: option.splits)
qed simp

end

text \<open>The library's own calls, with allocations that succeed.\<close>

definition set_env :: "env \<Rightarrow> string \<Rightarrow> string \<Rightarrow> env" where
  "set_env e n v = snd (the (setenv (\<lambda>_. True) e (Some n) (Some v) True))"

definition unset_env :: "env \<Rightarrow> string \<Rightarrow> env" where
  "unset_env e n = snd (the (unsetenv (\<lambda>_. True) e (Some n)))"

lemma setenv_True:
  assumes "env_ok e" "name_ok n" "NUL \<notin> set v" "\<forall>k. mok k"
  shows "\<exists>e'. setenv mok e (Some n) (Some v) True = Some (0, e') \<and> env_ok e' \<and> env_map e' = (env_map e)(n \<mapsto> v)"
  using setenv_updates [OF assms(1-3), of mok True] assms(4) by (auto simp: updated_def split: if_splits)

interpretation environ: environment env_ok env_map set_env unset_env
proof
  fix e n v assume "env_ok e" "name_ok n" "NUL \<notin> set v"
  with setenv_True [of e n v "\<lambda>_. True"]
  show "env_ok (set_env e n v) \<and> env_map (set_env e n v) = (env_map e)(n \<mapsto> v)"
    by (auto simp: set_env_def)
next
  fix e n assume "env_ok e" "name_ok n"
  with unsetenv_removes [of e n "\<lambda>_. True"]
  show "env_ok (unset_env e n) \<and> env_map (unset_env e n) = (env_map e)(n := None)"
    by (auto simp: unset_env_def)
qed

subsection \<open>The rootfs bootstrap\<close>

lemma marker_loop_Some:
  "rootfs_marker_loop path pos mk = r \<Longrightarrow>
    (r = mk \<and> (\<forall>j\<ge>pos. \<not> occurs_at path ''/rootfs/'' j)) \<or>
    (\<exists>i\<ge>pos. r = Some i \<and> occurs_at path ''/rootfs/'' i \<and> (\<forall>j\<ge>i + 8. \<not> occurs_at path ''/rootfs/'' j))"
proof (induction path pos mk rule: rootfs_marker_loop.induct)
  case (1 path pos mk)
  have occ: "occurs_at (drop pos path) ''/rootfs/'' i = occurs_at path ''/rootfs/'' (pos + i)" for i
    unfolding occurs_at_def drop_drop length_drop by (auto simp: add.commute [of i pos])
  show ?case
  proof (cases "find_sub ''/rootfs/'' (drop pos path)")
    case None
    then have "\<forall>j\<ge>pos. \<not> occurs_at path ''/rootfs/'' j"
      unfolding find_sub_None occ by (metis le_add_diff_inverse)
    moreover have "r = mk" using 1(2) None by (subst (asm) rootfs_marker_loop.simps) simp
    ultimately show ?thesis by blast
  next
    case (Some i)
    then have i: "occurs_at path ''/rootfs/'' (pos + i)" unfolding find_sub_Some occ by blast
    have "rootfs_marker_loop path (pos + i + 8) (Some (pos + i)) = r"
      using 1(2) Some by (subst (asm) rootfs_marker_loop.simps) simp
    from 1(1) [OF Some this] show ?thesis
    proof (elim disjE exE conjE)
      assume "r = Some (pos + i)" "\<forall>j\<ge>pos + i + 8. \<not> occurs_at path ''/rootfs/'' j"
      with i show ?thesis by (intro disjI2 exI [of _ "pos + i"]) simp
    next
      fix k assume "k \<ge> pos + i + 8" "r = Some k" "occurs_at path ''/rootfs/'' k"
        "\<forall>j\<ge>k + 8. \<not> occurs_at path ''/rootfs/'' j"
      then show ?thesis by (intro disjI2 exI [of _ k]) simp
    qed
  qed
qed

lemma find_marker:
  "rootfs_find_marker path = None \<longleftrightarrow> (\<forall>j. \<not> occurs_at path ''/rootfs/'' j)"
  "rootfs_find_marker path = Some i \<Longrightarrow> occurs_at path ''/rootfs/'' i \<and>
    (\<forall>j\<ge>i + 8. \<not> occurs_at path ''/rootfs/'' j)"
  using marker_loop_Some [of path 0 None] by (auto simp: rootfs_find_marker_def)

lemma normalize_no_backslash: "CHR 0x5C \<notin> set (rootfs_normalize_slashes s)"
  by (induction s) auto

lemma normalize_id: "CHR 0x5C \<notin> set s \<Longrightarrow> rootfs_normalize_slashes s = s"
  by (induction s) auto

lemma length_normalize [simp]: "length (rootfs_normalize_slashes s) = length s"
  by (induction s) auto

lemma progname_basename:
  "CHR ''/'' \<notin> set b \<Longrightarrow> after_last_slash (d @ CHR ''/'' # b) t = b"
proof (induction d arbitrary: t)
  case Nil
  have "CHR ''/'' \<notin> set u \<Longrightarrow> after_last_slash u t = t" for u t by (induction u) auto
  with Nil show ?case by simp
qed simp

end
