(* ===== verification/CRT_Utf8.thy ===== *)
theory CRT_Utf8
  imports CRT_String
begin

text \<open>
  Multibyte characters: the UTF-8 conversions of \<^verbatim>\<open>libc/src/wchar.c\<close> and the UTF-16 and UTF-32
  conversions of \<^verbatim>\<open>libc/src/uchar.c\<close>. \<open>wchar_t\<close> is a 32-bit code point on every host. The state
  object that a call uses (\<open>*ps\<close>, or the routine's internal one when \<open>ps\<close> is null) is passed and
  returned; the \<open>size_t\<close> results \<open>-1\<close> (with \<open>errno = EILSEQ\<close>), \<open>-2\<close> and \<open>-3\<close> are the constructors
  \<open>Illegal\<close>, \<open>Partial\<close> and \<open>Pending\<close>. What the routine stores through \<open>pwc\<close> is an optional value; a
  caller with a null \<open>pwc\<close> ignores it. The outer \<^term>\<open>None\<close> is a fault of the memory.
\<close>

type_synonym u8 = "8 word"
type_synonym u16 = "16 word"
type_synonym u32 = "32 word"
type_synonym wchar = "32 word"

record mbstate =
  codepoint :: u32
  expected :: u8
  seen :: u8

datatype conv = Bytes nat | Illegal | Partial | Pending

definition reset_state :: "mbstate \<Rightarrow> mbstate" where
  "reset_state ps = ps\<lparr>codepoint := 0, expected := 0, seen := 0\<rparr>"

definition valid_codepoint :: "u32 \<Rightarrow> bool" where
  "valid_codepoint wc \<longleftrightarrow> wc \<le> 0x10ffff \<and> \<not> (wc \<ge> 0xd800 \<and> wc \<le> 0xdfff)"

definition wchar_can_hold :: "u32 \<Rightarrow> bool" where
  "wchar_can_hold wc \<longleftrightarrow> (ucast (ucast wc :: wchar) :: u32) = wc"

definition WEOF :: u32 where "WEOF = - 1"
definition EOF :: int where "EOF = - 1"

definition btowc :: "int \<Rightarrow> u32" where
  "btowc c = (if c = EOF \<or> (of_int c :: u32) > 0x7f then WEOF else ucast (of_int c :: u8))"

definition wctob :: "u32 \<Rightarrow> int" where
  "wctob c = (if c = WEOF \<or> c > 0x7f then EOF else sint c)"

definition mbsinit :: "mbstate option \<Rightarrow> bool" where
  "mbsinit ps \<longleftrightarrow> (case ps of None \<Rightarrow> True | Some st \<Rightarrow> expected st = 0 \<and> seen st = 0)"

text \<open>The first byte of a longer sequence: the length of the sequence and the bits it holds.\<close>

definition lead_byte :: "u32 \<Rightarrow> (u8 \<times> u32) option" where
  "lead_byte b =
     (if b \<ge> 0xc2 \<and> b \<le> 0xdf then Some (2, b AND 0x1f)
      else if b \<ge> 0xe0 \<and> b \<le> 0xef then Some (3, b AND 0x0f)
      else if b \<ge> 0xf0 \<and> b \<le> 0xf4 then Some (4, b AND 0x07)
      else None)"

definition bad_sequence :: "u8 \<Rightarrow> u32 \<Rightarrow> bool" where
  "bad_sequence len cp \<longleftrightarrow>
     (len = 2 \<and> cp < 0x80) \<or> (len = 3 \<and> cp < 0x800) \<or> (len = 4 \<and> cp < 0x10000) \<or>
     \<not> valid_codepoint cp \<or> \<not> wchar_can_hold cp"

text \<open>The loop over the continuation bytes; an inner \<^term>\<open>None\<close> is a byte that is not one.\<close>

function mbrtowc_loop :: "mem \<Rightarrow> addr \<Rightarrow> nat \<Rightarrow> nat \<Rightarrow> u32 \<Rightarrow> mbstate \<Rightarrow>
    (nat \<times> u32 \<times> mbstate) option option" where
  "mbrtowc_loop m s n i cp st =
     (if i < n \<and> seen st < expected st then do {
        ch \<leftarrow> load m (s + i);
        if uch32 ch AND 0xc0 \<noteq> 0x80 then Some None
        else mbrtowc_loop m s n (i + 1) (push_bit 6 cp OR (uch32 ch AND 0x3f)) (st\<lparr>seen := seen st + 1\<rparr>) }
      else Some (Some (i, cp, st)))"
  by pat_completeness auto
termination by (relation "measure (\<lambda>(m, s, n, i, cp, st). n - i)") auto

declare mbrtowc_loop.simps [simp del]

definition mbrtowc_tail :: "mem \<Rightarrow> addr \<Rightarrow> nat \<Rightarrow> nat \<Rightarrow> u32 \<Rightarrow> mbstate \<Rightarrow>
    (conv \<times> wchar option \<times> mbstate) option" where
  "mbrtowc_tail m s n i cp st = do {
     r \<leftarrow> mbrtowc_loop m s n i cp st;
     (case r of
        None \<Rightarrow> Some (Illegal, None, reset_state st)
      | Some (i, cp, st) \<Rightarrow>
          if seen st < expected st then Some (Partial, None, st\<lparr>codepoint := cp\<rparr>)
          else if bad_sequence (expected st) cp then Some (Illegal, None, reset_state st)
          else Some (Bytes i, Some (ucast cp), reset_state st)) }"

definition mbrtowc :: "mem \<Rightarrow> addr \<Rightarrow> nat \<Rightarrow> mbstate \<Rightarrow> (conv \<times> wchar option \<times> mbstate) option" where
  "mbrtowc m s n st =
     (if s = null then Some (Bytes 0, None, reset_state st)
      else if n = 0 then Some (Partial, None, st)
      else if expected st = 0 then do {
        ch \<leftarrow> load m s;
        let first = uch32 ch;
        if first = 0 then Some (Bytes 0, Some 0, reset_state st)
        else if first < 0x80 then Some (Bytes 1, Some first, reset_state st)
        else (case lead_byte first of
            None \<Rightarrow> Some (Illegal, None, reset_state st)
          | Some (len, cp) \<Rightarrow> mbrtowc_tail m s n 1 cp (st\<lparr>expected := len, seen := 1\<rparr>)) }
      else mbrtowc_tail m s n 0 (codepoint st) st)"

definition mbrlen :: "mem \<Rightarrow> addr \<Rightarrow> nat \<Rightarrow> mbstate \<Rightarrow> (conv \<times> mbstate) option" where
  "mbrlen m s n ps = map_option (\<lambda>(r, _, st). (r, st)) (mbrtowc m s n ps)"

text \<open>\<open>wcrtomb\<close> ignores its state. \<open>byte\<close> is the conversion of a word to \<open>char\<close>.\<close>

definition byte :: "u32 \<Rightarrow> char" where "byte w = char_of (unat w)"

definition wcrtomb :: "mem \<Rightarrow> addr \<Rightarrow> wchar \<Rightarrow> (conv \<times> mem) option" where
  "wcrtomb m s wc =
     (let cp = (ucast wc :: u32) in
      if s = null then Some (Bytes 1, m)
      else if \<not> valid_codepoint cp then Some (Illegal, m)
      else if cp < 0x80 then do { m \<leftarrow> store m s (byte cp); Some (Bytes 1, m) }
      else if cp < 0x800 then do {
        m \<leftarrow> store m s (byte (0xc0 OR drop_bit 6 cp));
        m \<leftarrow> store m (s + 1) (byte (0x80 OR (cp AND 0x3f)));
        Some (Bytes 2, m) }
      else if cp < 0x10000 then do {
        m \<leftarrow> store m s (byte (0xe0 OR drop_bit 12 cp));
        m \<leftarrow> store m (s + 1) (byte (0x80 OR (drop_bit 6 cp AND 0x3f)));
        m \<leftarrow> store m (s + 2) (byte (0x80 OR (cp AND 0x3f)));
        Some (Bytes 3, m) }
      else do {
        m \<leftarrow> store m s (byte (0xf0 OR drop_bit 18 cp));
        m \<leftarrow> store m (s + 1) (byte (0x80 OR (drop_bit 12 cp AND 0x3f)));
        m \<leftarrow> store m (s + 2) (byte (0x80 OR (drop_bit 6 cp AND 0x3f)));
        m \<leftarrow> store m (s + 3) (byte (0x80 OR (cp AND 0x3f)));
        Some (Bytes 4, m) })"

text \<open>
  \<open>mblen\<close>, \<open>mbtowc\<close> and \<open>wctomb\<close> work on the internal state objects: \<open>st\<close> is the one that
  \<open>mbrtowc\<close> also uses when its \<open>ps\<close> is null.
\<close>

definition mbtowc :: "mem \<Rightarrow> addr \<Rightarrow> nat \<Rightarrow> mbstate \<Rightarrow> (int \<times> wchar option \<times> mbstate) option" where
  "mbtowc m s n st =
     (if s = null then Some (0, None, reset_state st)
      else do {
        (r, wc, st) \<leftarrow> mbrtowc m s n st;
        (case r of Bytes k \<Rightarrow> Some (int k, wc, st) | _ \<Rightarrow> Some (- 1, wc, st)) })"

definition mblen :: "mem \<Rightarrow> addr \<Rightarrow> nat \<Rightarrow> mbstate \<Rightarrow> (int \<times> mbstate) option" where
  "mblen m s n st = map_option (\<lambda>(r, _, st). (r, st)) (mbtowc m s n st)"

definition wctomb :: "mem \<Rightarrow> addr \<Rightarrow> wchar \<Rightarrow> (int \<times> mem) option" where
  "wctomb m s wc =
     (if s = null then Some (0, m)
      else do {
        (r, m) \<leftarrow> wcrtomb m s wc;
        (case r of Bytes k \<Rightarrow> Some (int k, m) | _ \<Rightarrow> Some (- 1, m)) })"

subsection \<open>Strings of multibyte and wide characters\<close>

text \<open>
  \<open>m\<close> is the byte memory, \<open>w\<close> the memory of wide characters. \<open>src\<close> is \<^term>\<open>None\<close> for a null
  pointer, otherwise the pointer \<open>*src\<close>; the results are the count (\<^term>\<open>None\<close> is \<open>(size_t)-1\<close>),
  the memory written, the new \<open>*src\<close> and the state. \<open>endp\<close> is null when the source has no bound.
\<close>

primrec consumed :: "conv \<Rightarrow> nat option" where
  "consumed (Bytes k) = Some k"
| "consumed Illegal = None"
| "consumed Partial = None"
| "consumed Pending = None"

definition more_bytes :: "mem \<Rightarrow> addr \<Rightarrow> addr \<Rightarrow> bool option" where
  "more_bytes m inp endp =
     (if endp = null \<or> inp < endp then map_option (\<lambda>c. c \<noteq> NUL) (load m inp) else Some False)"

definition mbs_finish :: "mem \<Rightarrow> wchar cells \<Rightarrow> addr \<Rightarrow> addr \<Rightarrow> addr \<Rightarrow> addr \<Rightarrow> nat \<Rightarrow> nat \<Rightarrow> mbstate \<Rightarrow>
    (nat option \<times> wchar cells \<times> addr \<times> mbstate) option" where
  "mbs_finish m w dst src0 inp endp count dst_len st =
     (if dst = null then Some (Some count, w, src0, st)
      else do {
        at_nul \<leftarrow> (if endp = null \<or> inp < endp then map_option (\<lambda>c. c = NUL) (load m inp) else Some False);
        if at_nul \<and> count < dst_len
        then do { w \<leftarrow> store w (dst + count) 0; Some (Some count, w, null, st) }
        else Some (Some count, w, inp, st) })"

partial_function (option) mbs_loop :: "mem \<Rightarrow> wchar cells \<Rightarrow> addr \<Rightarrow> addr \<Rightarrow> addr \<Rightarrow> addr \<Rightarrow> nat \<Rightarrow> nat \<Rightarrow>
    mbstate \<Rightarrow> (nat option \<times> wchar cells \<times> addr \<times> mbstate) option" where
  "mbs_loop m w dst src0 inp endp count dst_len st = do {
     more \<leftarrow> more_bytes m inp endp;
     if \<not> more then mbs_finish m w dst src0 inp endp count dst_len st
     else do {
       available \<leftarrow> (if endp = null then strlen m inp else Some (endp - inp));
       (r, wc, st) \<leftarrow> mbrtowc m inp available st;
       if consumed r = None then Some (None, w, src0, st)
       else if dst \<noteq> null \<and> count = dst_len then Some (Some count, w, inp, st)
       else do {
         w \<leftarrow> (if dst \<noteq> null then do { c \<leftarrow> wc; store w (dst + count) c } else Some w);
         mbs_loop m w dst src0 (inp + the (consumed r)) endp (count + 1) dst_len st } } }"

declare mbs_loop.simps [simp del]

definition mbsnrtowcs :: "mem \<Rightarrow> wchar cells \<Rightarrow> addr \<Rightarrow> addr option \<Rightarrow> nat \<Rightarrow> nat \<Rightarrow> mbstate option \<Rightarrow>
    (nat option \<times> wchar cells \<times> addr \<times> mbstate) option" where
  "mbsnrtowcs m w dst src src_len dst_len ps =
     (let local_state = \<lparr>codepoint = 0, expected = 0, seen = 0\<rparr>;
          st = (case ps of None \<Rightarrow> local_state | Some st \<Rightarrow> st) in
      case src of None \<Rightarrow> Some (None, w, null, st)
      | Some inp \<Rightarrow>
          if inp = null then Some (None, w, null, st)
          else mbs_loop m w dst inp inp (if src_len = SIZE_MAX then null else inp + src_len) 0 dst_len st)"

definition mbsrtowcs :: "mem \<Rightarrow> wchar cells \<Rightarrow> addr \<Rightarrow> addr option \<Rightarrow> nat \<Rightarrow> mbstate option \<Rightarrow>
    (nat option \<times> wchar cells \<times> addr \<times> mbstate) option" where
  "mbsrtowcs m w dst src len ps = mbsnrtowcs m w dst src SIZE_MAX len ps"

definition mbstowcs :: "mem \<Rightarrow> wchar cells \<Rightarrow> addr \<Rightarrow> addr \<Rightarrow> nat \<Rightarrow> (nat option \<times> wchar cells) option" where
  "mbstowcs m w dst src len = map_option (\<lambda>(r, w, _, _). (r, w)) (mbsrtowcs m w dst (Some src) len None)"

text \<open>One wide character goes through a buffer of four bytes.\<close>

definition wcs_finish :: "mem \<Rightarrow> wchar cells \<Rightarrow> addr \<Rightarrow> addr \<Rightarrow> addr \<Rightarrow> nat \<Rightarrow> nat \<Rightarrow> nat \<Rightarrow> nat \<Rightarrow>
    (nat option \<times> mem \<times> addr) option" where
  "wcs_finish m w dst src0 inp converted src_len count dst_len =
     (if dst = null then Some (Some count, m, src0)
      else do {
        at_nul \<leftarrow> (if converted < src_len then map_option (\<lambda>c. c = 0) (load w inp) else Some False);
        if at_nul \<and> count < dst_len
        then do { m \<leftarrow> store m (dst + count) NUL; Some (Some count, m, null) }
        else Some (Some count, m, inp) })"

function wcs_loop :: "mem \<Rightarrow> wchar cells \<Rightarrow> addr \<Rightarrow> addr \<Rightarrow> addr \<Rightarrow> nat \<Rightarrow> nat \<Rightarrow> nat \<Rightarrow> nat \<Rightarrow>
    (nat option \<times> mem \<times> addr) option" where
  "wcs_loop m w dst src0 inp converted src_len count dst_len =
     (if converted < src_len then do {
        wc \<leftarrow> load w inp;
        if wc = 0 then wcs_finish m w dst src0 inp converted src_len count dst_len
        else do {
          (r, buffer) \<leftarrow> wcrtomb (mem_of 1 (replicate 4 NUL)) 1 wc;
          (case consumed r of
             None \<Rightarrow> Some (None, m, src0)
           | Some produced \<Rightarrow>
               if dst \<noteq> null \<and> count + produced > dst_len then Some (Some count, m, inp)
               else do {
                 m \<leftarrow> (if dst \<noteq> null then do { bs \<leftarrow> load_n buffer 1 produced; store_n m (dst + count) bs } else Some m);
                 wcs_loop m w dst src0 (inp + 1) (converted + 1) src_len (count + produced) dst_len }) } }
      else wcs_finish m w dst src0 inp converted src_len count dst_len)"
  by pat_completeness auto
termination
  by (relation "measure (\<lambda>(m, w, dst, src0, inp, converted, src_len, count, dst_len). src_len - converted)") auto

declare wcs_loop.simps [simp del]

definition wcsnrtombs :: "mem \<Rightarrow> wchar cells \<Rightarrow> addr \<Rightarrow> addr option \<Rightarrow> nat \<Rightarrow> nat \<Rightarrow>
    (nat option \<times> mem \<times> addr) option" where
  "wcsnrtombs m w dst src src_len dst_len =
     (case src of None \<Rightarrow> Some (None, m, null)
      | Some inp \<Rightarrow>
          if inp = null then Some (None, m, null) else wcs_loop m w dst inp inp 0 src_len 0 dst_len)"

definition wcsrtombs :: "mem \<Rightarrow> wchar cells \<Rightarrow> addr \<Rightarrow> addr option \<Rightarrow> nat \<Rightarrow> (nat option \<times> mem \<times> addr) option" where
  "wcsrtombs m w dst src len = wcsnrtombs m w dst src SIZE_MAX len"

definition wcstombs :: "mem \<Rightarrow> wchar cells \<Rightarrow> addr \<Rightarrow> addr \<Rightarrow> nat \<Rightarrow> (nat option \<times> mem) option" where
  "wcstombs m w dst src len = map_option (\<lambda>(r, m, _). (r, m)) (wcsrtombs m w dst (Some src) len)"

subsection \<open>UTF-16 and UTF-32\<close>

definition PENDING_LOW_SURROGATE :: u8 where "PENDING_LOW_SURROGATE = 0xfe"
definition PENDING_HIGH_SURROGATE :: u8 where "PENDING_HIGH_SURROGATE = 0xff"

definition mbrtoc16 :: "mem \<Rightarrow> addr \<Rightarrow> nat \<Rightarrow> mbstate \<Rightarrow> (conv \<times> u16 option \<times> mbstate) option" where
  "mbrtoc16 m s n st =
     (if s = null then Some (Bytes 0, None, st\<lparr>codepoint := 0, expected := 0, seen := 0\<rparr>)
      else if expected st = PENDING_LOW_SURROGATE
      then Some (Pending, Some (ucast (codepoint st)), st\<lparr>codepoint := 0, expected := 0, seen := 0\<rparr>)
      else do {
        (result, wc, st) \<leftarrow> mbrtowc m s n st;
        if result = Illegal \<or> result = Partial then Some (result, None, st)
        else do {
          cp \<leftarrow> wc;
          if cp \<le> 0xffff then Some (result, Some (ucast cp), st)
          else do {
            let cp = cp - 0x10000;
            Some (result, Some (ucast (0xd800 + drop_bit 10 cp)),
              st\<lparr>codepoint := 0xdc00 + (cp AND 0x3ff), expected := PENDING_LOW_SURROGATE, seen := 0\<rparr>) } } })"

definition c16rtomb :: "mem \<Rightarrow> addr \<Rightarrow> u16 \<Rightarrow> mbstate \<Rightarrow> (conv \<times> mem \<times> mbstate) option" where
  "c16rtomb m s c16 st =
     (if s = null then Some (Bytes 1, m, st\<lparr>codepoint := 0, expected := 0, seen := 0\<rparr>)
      else if expected st = PENDING_HIGH_SURROGATE then do {
        let high = codepoint st;
        let st = st\<lparr>codepoint := 0, expected := 0, seen := 0\<rparr>;
        if c16 < 0xdc00 \<or> c16 > 0xdfff then Some (Illegal, m, st)
        else do {
          (r, m) \<leftarrow> wcrtomb m s (0x10000 + push_bit 10 (high - 0xd800) + (ucast c16 - 0xdc00));
          Some (r, m, st) } }
      else if c16 \<ge> 0xd800 \<and> c16 \<le> 0xdbff
      then Some (Bytes 0, m, st\<lparr>codepoint := ucast c16, expected := PENDING_HIGH_SURROGATE, seen := 0\<rparr>)
      else if c16 \<ge> 0xdc00 \<and> c16 \<le> 0xdfff then Some (Illegal, m, st)
      else do { (r, m) \<leftarrow> wcrtomb m s (ucast c16); Some (r, m, st) })"

definition mbrtoc32 :: "mem \<Rightarrow> addr \<Rightarrow> nat \<Rightarrow> mbstate \<Rightarrow> (conv \<times> u32 option \<times> mbstate) option" where
  "mbrtoc32 m s n st = do {
     (result, wc, st) \<leftarrow> mbrtowc m s n st;
     Some (result, if result \<noteq> Illegal \<and> result \<noteq> Partial then wc else None, st) }"

definition c32rtomb :: "mem \<Rightarrow> addr \<Rightarrow> u32 \<Rightarrow> (conv \<times> mem) option" where
  "c32rtomb m s c32 = wcrtomb m s (ucast c32)"

subsection \<open>Bits and arithmetic\<close>

lemma nat_or_low: "b < 2 ^ k \<Longrightarrow> (a * 2 ^ k) OR b = a * 2 ^ k + b" for a b :: nat
proof -
  assume b: "b < 2 ^ k"
  have "(a * 2 ^ k) AND b = 0"
  proof (rule bit_eqI)
    fix n show "bit ((a * 2 ^ k) AND b) n = bit (0::nat) n"
    proof (cases "n < k")
      case True then show ?thesis by (simp add: bit_and_iff flip: push_bit_eq_mult) (simp add: bit_push_bit_iff)
    next
      case False
      then have "b < 2 ^ n" using b by (meson less_le_trans not_less power_increasing one_le_numeral)
      then have "\<not> bit b n" by (simp add: bit_iff_odd)
      then show ?thesis by (simp add: bit_and_iff)
    qed
  qed
  then show ?thesis by (simp add: disjunctive_add_eq_or)
qed

lemma unat_or_low:
  fixes a b :: "'a :: len word"
  assumes "unat b < 2 ^ k" "unat a * 2 ^ k < 2 ^ LENGTH('a)"
  shows "unat (push_bit k a OR b) = unat a * 2 ^ k + unat b"
proof -
  have "unat (push_bit k a) = unat a * 2 ^ k"
    using unsigned_push_bit_eq [where 'a = nat, of k a] take_bit_nat_eq_self [OF assms(2)]
    by (simp only: push_bit_eq_mult [where 'a = nat])
  then show ?thesis by (simp only: unsigned_or_eq nat_or_low [OF assms(1)])
qed

lemma unat_and_low: "unat (b AND mask k) = unat b mod 2 ^ k" for b :: "'a :: len word"
  by (simp only: flip: take_bit_eq_mask) (simp only: unsigned_take_bit_eq take_bit_eq_mod [where 'a = nat])

lemma unat_drop: "unat (drop_bit k b) = unat b div 2 ^ k" for b :: "'a :: len word"
proof -
  have "take_bit LENGTH('a) (unat b) = unat b" by (rule take_bit_nat_eq_self) (rule unsigned_less)
  then show ?thesis by (simp only: unsigned_drop_bit_eq) (simp only: drop_bit_eq_div)
qed

lemma and_3f: "unat (b AND 0x3f) = unat b mod 64" for b :: u32
  using unat_and_low [of b 6] by (simp add: mask_eq_exp_minus_1)

lemma and_c0: "b AND 0xc0 = push_bit 6 (drop_bit 6 b AND mask 2)" for b :: u32
proof -
  have e: "(0xc0 :: u32) = push_bit 6 (mask 2)" by (simp add: mask_eq_exp_minus_1)
  show ?thesis unfolding e by (rule bit_word_eqI) (auto simp: bit_simps)
qed

lemma continuation_iff:
  fixes b :: u32
  assumes "unat b < 256" shows "b AND 0xc0 = 0x80 \<longleftrightarrow> unat b div 64 = 2"
proof -
  let ?x = "drop_bit 6 b AND mask 2 :: u32"
  have x: "unat ?x = unat b div 64" using assms by (simp only: unat_and_low unat_drop) simp
  have "unat (push_bit 6 ?x OR 0) = unat ?x * 2 ^ 6 + unat (0 :: u32)"
    by (rule unat_or_low) (use x assms in simp_all)
  then have "unat (b AND 0xc0) = unat b div 64 * 64" using x and_c0 by simp
  then show ?thesis by (simp add: word_unat_eq_iff)
qed

lemma byte_cont: "byte (0x80 OR (w AND 0x3f)) = char_of (0x80 + unat w mod 64)"
  using unat_or_low [of "w AND 0x3f" 6 2] by (simp add: byte_def and_3f)

lemma byte_lead:
  "unat w < 0x800 \<Longrightarrow> byte (0xc0 OR drop_bit 6 w) = char_of (0xc0 + unat w div 64)"
  "unat w < 0x10000 \<Longrightarrow> byte (0xe0 OR drop_bit 12 w) = char_of (0xe0 + unat w div 4096)"
  "unat w < 0x200000 \<Longrightarrow> byte (0xf0 OR drop_bit 18 w) = char_of (0xf0 + unat w div 262144)"
  using unat_or_low [of "drop_bit 6 w" 6 3] unat_or_low [of "drop_bit 12 w" 4 14]
    unat_or_low [of "drop_bit 18 w" 3 30]
  by (simp_all add: byte_def unat_drop less_mult_imp_div_less)

subsection \<open>The encoding in arithmetic\<close>

definition utf8 :: "u32 \<Rightarrow> string" where
  "utf8 w = (let n = unat w in
     if n < 0x80 then [char_of n]
     else if n < 0x800 then [char_of (0xc0 + n div 64), char_of (0x80 + n mod 64)]
     else if n < 0x10000 then
       [char_of (0xe0 + n div 4096), char_of (0x80 + n div 64 mod 64), char_of (0x80 + n mod 64)]
     else [char_of (0xf0 + n div 262144), char_of (0x80 + n div 4096 mod 64),
       char_of (0x80 + n div 64 mod 64), char_of (0x80 + n mod 64)])"

lemma valid_codepoint_iff:
  "valid_codepoint w \<longleftrightarrow> unat w \<le> 0x10ffff \<and> \<not> (0xd800 \<le> unat w \<and> unat w \<le> 0xdfff)"
  by (simp add: valid_codepoint_def word_le_nat_alt)

lemma length_utf8: "1 \<le> length (utf8 w)" "length (utf8 w) \<le> 4"
  by (simp_all add: utf8_def Let_def)

text \<open>\<open>wcrtomb\<close> writes the encoding and nothing else.\<close>

lemma wcrtomb_Some:
  assumes v: "valid_codepoint w" and s: "s \<noteq> null" and mp: "mapped m s (length (utf8 w))"
  shows "wcrtomb m s w = Some (Bytes (length (utf8 w)), mem_put m s (utf8 w))"
proof -
  let ?n = "unat w"
  have n: "?n < 0x200000" using v by (simp add: valid_codepoint_iff)
  have d: "unat (drop_bit 6 w) = ?n div 64" "unat (drop_bit 12 w) = ?n div 4096" by (simp_all add: unat_drop)
  have mm: "i < length (utf8 w) \<Longrightarrow> m (s + i) \<noteq> None" for i using mp by (simp add: mapped_iff)
  have s3: "s + 3 = Suc (Suc (Suc s))" by simp
  note facts = wcrtomb_def word_less_nat_alt byte_lead byte_cont d mem_put_Cons
  consider "?n < 0x80" | "0x80 \<le> ?n" "?n < 0x800" | "0x800 \<le> ?n" "?n < 0x10000" | "0x10000 \<le> ?n" by linarith
  then show ?thesis
  proof cases
    case 1
    then have u: "utf8 w = [char_of ?n]" by (simp add: utf8_def)
    show ?thesis using 1 v s mm [of 0] unfolding u by (simp add: facts byte_def)
  next
    case 2
    then have u: "utf8 w = [char_of (0xc0 + ?n div 64), char_of (0x80 + ?n mod 64)]" by (simp add: utf8_def Let_def)
    show ?thesis using 2 v s mm [of 0] mm [of 1] unfolding u by (simp add: facts)
  next
    case 3
    then have u: "utf8 w = [char_of (0xe0 + ?n div 4096), char_of (0x80 + ?n div 64 mod 64), char_of (0x80 + ?n mod 64)]"
      by (simp add: utf8_def Let_def)
    show ?thesis using 3 v s mm [of 0] mm [of 1] mm [of 2] unfolding u by (simp add: facts)
  next
    case 4
    then have u: "utf8 w = [char_of (0xf0 + ?n div 262144), char_of (0x80 + ?n div 4096 mod 64),
        char_of (0x80 + ?n div 64 mod 64), char_of (0x80 + ?n mod 64)]" by (simp add: utf8_def Let_def)
    show ?thesis using 4 n v s mm [of 0] mm [of 1] mm [of 2] mm [of 3] unfolding u by (simp add: facts s3)
  qed
qed

subsection \<open>The decoder as a machine that reads one byte at a time\<close>

definition fresh :: mbstate where "fresh = \<lparr>codepoint = 0, expected = 0, seen = 0\<rparr>"

lemma reset_state_fresh [simp]: "reset_state st = fresh" "st\<lparr>codepoint := 0, expected := 0, seen := 0\<rparr> = fresh"
  by (simp_all add: reset_state_def fresh_def)

lemma fresh_simps [simp]: "codepoint fresh = 0" "expected fresh = 0" "seen fresh = 0"
  by (simp_all add: fresh_def)

datatype progress = More mbstate | Ended conv "wchar option"

definition utf8_step :: "mbstate \<Rightarrow> char \<Rightarrow> progress" where
  "utf8_step st c =
     (let b = uch32 c in
      if expected st = 0 then
        if b = 0 then Ended (Bytes 0) (Some 0)
        else if b < 0x80 then Ended (Bytes 1) (Some b)
        else (case lead_byte b of
            None \<Rightarrow> Ended Illegal None
          | Some (len, cp) \<Rightarrow> More \<lparr>codepoint = cp, expected = len, seen = 1\<rparr>)
      else if b AND 0xc0 \<noteq> 0x80 then Ended Illegal None
      else let cp = push_bit 6 (codepoint st) OR (b AND 0x3f) in
        if seen st + 1 < expected st then More \<lparr>codepoint = cp, expected = expected st, seen = seen st + 1\<rparr>
        else if bad_sequence (expected st) cp then Ended Illegal None
        else Ended (Bytes 1) (Some cp))"

primrec later :: "nat \<Rightarrow> conv \<Rightarrow> conv" where
  "later k (Bytes i) = Bytes (i + k)"
| "later k Illegal = Illegal"
| "later k Partial = Partial"
| "later k Pending = Pending"

primrec feed :: "mbstate \<Rightarrow> string \<Rightarrow> conv \<times> wchar option \<times> mbstate" where
  "feed st [] = (Partial, None, st)"
| "feed st (c # cs) =
     (case utf8_step st c of
        Ended r wc \<Rightarrow> (r, wc, fresh)
      | More st' \<Rightarrow> (case feed st' cs of (r, wc, st'') \<Rightarrow> (later 1 r, wc, st'')))"

definition mb_ok :: "mbstate \<Rightarrow> bool" where
  "mb_ok st \<longleftrightarrow> expected st = 0 \<or> seen st < expected st"

lemma later_later [simp]: "later a (later b r) = later (b + a) r" and later_0 [simp]: "later 0 r = r"
  by (cases r; simp)+

lemma mbrtowc_tail_feed:
  assumes "bytes_at m s bs" "length bs = n"
  shows "i \<le> n \<Longrightarrow> seen st < expected st \<Longrightarrow> mbrtowc_tail m s n i cp st =
    Some (case feed (st\<lparr>codepoint := cp\<rparr>) (drop i bs) of (r, wc, st') \<Rightarrow> (later i r, wc, st'))"
proof (induction "n - i" arbitrary: i cp st)
  case 0
  then show ?case using assms by (simp add: mbrtowc_tail_def mbrtowc_loop.simps)
next
  case (Suc k)
  then have i: "i < n" by simp
  then have c: "load m (s + i) = Some (bs ! i)" and d: "drop i bs = bs ! i # drop (i + 1) bs"
    using assms by (simp_all add: load_def bytes_at_nth Cons_nth_drop_Suc)
  have e: "expected st \<noteq> 0" using Suc.prems by auto
  let ?b = "uch32 (bs ! i)" and ?st = "st\<lparr>seen := seen st + 1\<rparr>"
  let ?cp = "push_bit 6 cp OR (?b AND 0x3f)"
  show ?case
  proof (cases "?b AND 0xc0 = 0x80")
    case False
    then show ?thesis using i c d e Suc.prems
      by (simp add: mbrtowc_tail_def mbrtowc_loop.simps [of m s n i] utf8_step_def)
  next
    case cont: True
    have t: "mbrtowc_tail m s n i cp st = mbrtowc_tail m s n (i + 1) ?cp ?st"
      using i c cont Suc.prems by (simp add: mbrtowc_tail_def mbrtowc_loop.simps [of m s n i])
    show ?thesis
    proof (cases "seen st + 1 < expected st")
      case True
      have "mbrtowc_tail m s n (i + 1) ?cp ?st = Some (case feed (?st\<lparr>codepoint := ?cp\<rparr>) (drop (i + 1) bs) of
          (r, wc, st') \<Rightarrow> (later (i + 1) r, wc, st'))"
        by (rule Suc.hyps(1)) (use Suc True in auto)
      moreover have "?st\<lparr>codepoint := ?cp\<rparr> = \<lparr>codepoint = ?cp, expected = expected st, seen = seen st + 1\<rparr>"
        by (cases st) simp
      ultimately show ?thesis unfolding t d using True cont e
        by (simp add: utf8_step_def Let_def split: prod.splits)
    next
      case False
      then show ?thesis unfolding t d using cont e
        by (simp add: utf8_step_def Let_def mbrtowc_tail_def mbrtowc_loop.simps [of m s n "Suc i"])
    qed
  qed
qed

lemma mbrtowc_feed:
  assumes b: "bytes_at m s bs" and s: "s \<noteq> null" and st: "mb_ok st"
  shows "mbrtowc m s (length bs) st = Some (feed st bs)"
proof (cases bs)
  case (Cons c cs)
  then have l: "load m s = Some c" using b by (simp add: load_def)
  note tail = mbrtowc_tail_feed [OF b refl, of 1] mbrtowc_tail_feed [OF b refl, of 0 st]
  show ?thesis
  proof (cases "expected st = 0")
    case True
    have e: "len \<noteq> 0" "1 < len" if "lead_byte b = Some (len, cp)" for b len cp
      using that by (auto simp: lead_byte_def split: if_splits)
    have "mbrtowc_tail m s (length bs) 1 cp (st\<lparr>expected := len, seen := 1\<rparr>) =
        Some (case feed \<lparr>codepoint = cp, expected = len, seen = 1\<rparr> cs of (r, wc, st') \<Rightarrow> (later 1 r, wc, st'))"
      if "lead_byte b = Some (len, cp)" for b len cp
      using tail(1) [of "st\<lparr>expected := len, seen := 1\<rparr>" cp] e [OF that] Cons by (cases st) simp
    then show ?thesis using True s l Cons
      by (auto simp: mbrtowc_def utf8_step_def Let_def split: option.splits)
  next
    case False
    then have "mbrtowc m s (length bs) st = mbrtowc_tail m s (length bs) 0 (codepoint st) st"
      using Cons s by (simp add: mbrtowc_def)
    then show ?thesis using False st tail(2) by (simp add: mb_ok_def split: prod.splits)
  qed
qed (simp add: mbrtowc_def s)

subsection \<open>Decoding inverts encoding\<close>

lemma uch32_nat: "uch32 c = of_nat (of_char c)"
  by (simp only: of_nat_of_char)

lemma lead_and:
  "unat ((of_nat n :: u32) AND 0x1f) = n mod 32" "unat ((of_nat n :: u32) AND 0x0f) = n mod 16"
  "unat ((of_nat n :: u32) AND 0x07) = n mod 8" if "n < 256" for n
proof -
  have "unat (of_nat n :: u32) = n" using that by (simp add: unat_of_nat)
  then show "unat ((of_nat n :: u32) AND 0x1f) = n mod 32" "unat ((of_nat n :: u32) AND 0x0f) = n mod 16"
    "unat ((of_nat n :: u32) AND 0x07) = n mod 8"
    using unat_and_low [of "of_nat n :: u32" 5] unat_and_low [of "of_nat n :: u32" 4]
      unat_and_low [of "of_nat n :: u32" 3] by (simp_all add: mask_eq_exp_minus_1)
qed

lemma unat_eqI: "unat w = n \<Longrightarrow> w = of_nat n" by auto

lemma utf8_step_first:
  assumes "expected st = 0" and n: "of_char c = n"
  shows "utf8_step st c =
    (if n = 0 then Ended (Bytes 0) (Some 0)
     else if n < 0x80 then Ended (Bytes 1) (Some (of_nat n))
     else if n < 0xc2 then Ended Illegal None
     else if n < 0xe0 then More \<lparr>codepoint = of_nat (n - 0xc0), expected = 2, seen = 1\<rparr>
     else if n < 0xf0 then More \<lparr>codepoint = of_nat (n - 0xe0), expected = 3, seen = 1\<rparr>
     else if n < 0xf5 then More \<lparr>codepoint = of_nat (n - 0xf0), expected = 4, seen = 1\<rparr>
     else Ended Illegal None)"
proof -
  have b: "n < 256" using nat_of_char_less_256 [of c] n by simp
  have u: "uch32 c = of_nat n" "unat (of_nat n :: u32) = n" using n b by (simp_all add: uch32_nat unat_of_nat)
  have m: "0xc2 \<le> n \<Longrightarrow> n < 0xe0 \<Longrightarrow> (of_nat n :: u32) AND 0x1f = of_nat (n - 0xc0)"
    "0xe0 \<le> n \<Longrightarrow> n < 0xf0 \<Longrightarrow> (of_nat n :: u32) AND 0x0f = of_nat (n - 0xe0)"
    "0xf0 \<le> n \<Longrightarrow> n < 0xf5 \<Longrightarrow> (of_nat n :: u32) AND 0x07 = of_nat (n - 0xf0)"
  proof -
    have "0xc2 \<le> n \<Longrightarrow> n < 0xe0 \<Longrightarrow> n mod 32 = n - 0xc0" "0xe0 \<le> n \<Longrightarrow> n < 0xf0 \<Longrightarrow> n mod 16 = n - 0xe0"
      "0xf0 \<le> n \<Longrightarrow> n < 0xf5 \<Longrightarrow> n mod 8 = n - 0xf0"
      by (simp_all add: le_mod_geq)
    then show "0xc2 \<le> n \<Longrightarrow> n < 0xe0 \<Longrightarrow> (of_nat n :: u32) AND 0x1f = of_nat (n - 0xc0)"
      "0xe0 \<le> n \<Longrightarrow> n < 0xf0 \<Longrightarrow> (of_nat n :: u32) AND 0x0f = of_nat (n - 0xe0)"
      "0xf0 \<le> n \<Longrightarrow> n < 0xf5 \<Longrightarrow> (of_nat n :: u32) AND 0x07 = of_nat (n - 0xf0)"
      using lead_and [OF b] by (metis unat_eqI)+
  qed
  show ?thesis using assms(1) m u b
    by (simp add: utf8_step_def lead_byte_def word_le_nat_alt word_less_nat_alt unat_eq_0 [symmetric] Let_def)
qed

lemma utf8_step_next:
  assumes e: "expected st \<noteq> 0" and n: "of_char c = n" and cp: "codepoint st = of_nat k" "k < 2 ^ 26"
  shows "utf8_step st c =
    (if n div 64 \<noteq> 2 then Ended Illegal None
     else if seen st + 1 < expected st
     then More \<lparr>codepoint = of_nat (k * 64 + n mod 64), expected = expected st, seen = seen st + 1\<rparr>
     else if bad_sequence (expected st) (of_nat (k * 64 + n mod 64)) then Ended Illegal None
     else Ended (Bytes 1) (Some (of_nat (k * 64 + n mod 64))))"
proof -
  have b: "n < 256" using nat_of_char_less_256 [of c] n by simp
  have u: "uch32 c = of_nat n" "unat (of_nat n :: u32) = n" using n b by (simp_all add: uch32_nat unat_of_nat)
  have k: "unat (of_nat k :: u32) = k" using cp(2) by (simp add: unat_of_nat)
  have "push_bit 6 (of_nat k) OR (of_nat n AND 0x3f) = (of_nat (k * 64 + n mod 64) :: u32)"
    using unat_or_low [of "of_nat n AND 0x3f" 6 "of_nat k :: u32"] cp(2) u k
    by (intro unat_eqI) (simp add: and_3f)
  then show ?thesis using e u b continuation_iff [of "of_nat n"] cp(1)
    by (simp add: utf8_step_def Let_def)
qed

lemma utf8_step_more:
  assumes "e \<noteq> 0" "k < 2 ^ 26"
  shows "utf8_step \<lparr>codepoint = of_nat k, expected = e, seen = q\<rparr> c =
    (let n = of_char c in
     if n div 64 \<noteq> 2 then Ended Illegal None
     else if q + 1 < e then More \<lparr>codepoint = of_nat (k * 64 + n mod 64), expected = e, seen = q + 1\<rparr>
     else if bad_sequence e (of_nat (k * 64 + n mod 64)) then Ended Illegal None
     else Ended (Bytes 1) (Some (of_nat (k * 64 + n mod 64))))"
  using utf8_step_next [of "\<lparr>codepoint = of_nat k, expected = e, seen = q\<rparr>" c _ k] assms
  by (simp del: of_nat_add of_nat_mult)

lemma bad_sequence_nat:
  assumes "k < 2 ^ 32"
  shows "bad_sequence len (of_nat k) \<longleftrightarrow>
    (len = 2 \<and> k < 0x80) \<or> (len = 3 \<and> k < 0x800) \<or> (len = 4 \<and> k < 0x10000) \<or>
    k > 0x10ffff \<or> (0xd800 \<le> k \<and> k \<le> 0xdfff)"
proof -
  have "unat (of_nat k :: u32) = k" using assms by (simp add: unat_of_nat)
  then show ?thesis
    by (auto simp: bad_sequence_def wchar_can_hold_def valid_codepoint_iff word_less_nat_alt)
qed

lemma utf8_nat:
  assumes "n < 2 ^ 32"
  shows "utf8 (of_nat n) = (if n < 0x80 then [char_of n]
     else if n < 0x800 then [char_of (0xc0 + n div 64), char_of (0x80 + n mod 64)]
     else if n < 0x10000 then
       [char_of (0xe0 + n div 4096), char_of (0x80 + n div 64 mod 64), char_of (0x80 + n mod 64)]
     else [char_of (0xf0 + n div 262144), char_of (0x80 + n div 4096 mod 64),
       char_of (0x80 + n div 64 mod 64), char_of (0x80 + n mod 64)])"
proof -
  have "unat (of_nat n :: u32) = n" using assms by (simp add: unat_of_nat)
  then show ?thesis by (simp add: utf8_def Let_def)
qed

lemma code_char [simp]: "k < 256 \<Longrightarrow> of_char (char_of k :: char) = k" for k :: nat
  by (simp add: of_char_of)

lemma trail_byte: "(128 + x mod 64) div 64 = 2" "(128 + x mod 64) mod 64 = x mod 64" for x :: nat
proof -
  have "(64 * 2 + x mod 64) div 64 = 2" "(64 * 2 + x mod 64) mod 64 = x mod 64"
    by (simp_all only: div_mult_self4 mod_mult_self4) simp_all
  then show "(128 + x mod 64) div 64 = 2" "(128 + x mod 64) mod 64 = x mod 64" by simp_all
qed

lemma digits64:
  "n div 64 * 64 + n mod 64 = n" "n div 4096 * 64 + n div 64 mod 64 = n div 64"
  "n div 262144 * 64 + n div 4096 mod 64 = n div 4096" for n :: nat
  using div_mult2_eq [of n 64 64] div_mult2_eq [of n 4096 64] by (simp_all add: div_mult_mod_eq)

lemma feed_utf8:
  assumes v: "valid_codepoint w"
  shows "feed fresh (utf8 w @ rest) = (Bytes (if w = 0 then 0 else length (utf8 w)), Some w, fresh)"
proof -
  define n where "n = unat w"
  have w: "w = of_nat n" and n: "n \<le> 0x10ffff" "\<not> (0xd800 \<le> n \<and> n \<le> 0xdfff)"
    using v by (simp_all add: n_def valid_codepoint_iff)
  have b: "n < 2 ^ 32" and w0: "w = 0 \<longleftrightarrow> n = 0" using n by (simp_all add: n_def unat_eq_0)
  consider "n < 0x80" | "0x80 \<le> n" "n < 0x800" | "0x800 \<le> n" "n < 0x10000" | "0x10000 \<le> n" by linarith
  then show ?thesis
  proof cases
    case 1
    then show ?thesis unfolding w0 unfolding w utf8_nat [OF b]
      by (simp add: utf8_step_first [OF _ refl])
  next
    case 2
    then have d: "n div 64 < 32" "2 \<le> n div 64" by (simp_all add: less_mult_imp_div_less)
    show ?thesis unfolding w0 unfolding w utf8_nat [OF b] using 2 n d
      by (simp add: utf8_step_first [OF _ refl] utf8_step_more bad_sequence_nat Let_def trail_byte
          del: of_nat_add of_nat_mult of_nat_diff)
  next
    case 3
    then have d: "n div 4096 < 16" by (simp add: less_mult_imp_div_less)
    show ?thesis unfolding w0 unfolding w utf8_nat [OF b] using 3 n d
      by (simp add: utf8_step_first [OF _ refl] utf8_step_more bad_sequence_nat Let_def trail_byte digits64
          del: of_nat_add of_nat_mult of_nat_diff)
  next
    case 4
    then have d: "n div 262144 \<le> 4" "n div 4096 < 2 ^ 26" "n div 64 < 2 ^ 26" using n by simp_all
    show ?thesis unfolding w0 unfolding w utf8_nat [OF b] using 4 n d
      by (simp add: utf8_step_first [OF _ refl] utf8_step_more bad_sequence_nat Let_def trail_byte digits64
          del: of_nat_add of_nat_mult of_nat_diff)
  qed
qed

text \<open>Only encodings are decoded: what a completed sequence looks like.\<close>

lemma div64_cont: "n div 64 = 2 \<Longrightarrow> \<exists>d. n = 128 + d \<and> d < 64 \<and> n mod 64 = d" for n :: nat
  using div_mult_mod_eq [of n 64] by (intro exI [of _ "n mod 64"]) simp

lemma later_Bytes: "later i r = Bytes j \<Longrightarrow> \<exists>j'. r = Bytes j' \<and> j = j' + i"
  by (cases r) auto

lemma feed_last:
  assumes "feed \<lparr>codepoint = of_nat k, expected = e, seen = q\<rparr> cs = (Bytes j, Some w, st)"
    "e \<noteq> 0" "k < 2 ^ 26" "\<not> q + 1 < e"
  obtains c rest d where "cs = c # rest" "of_char c = 128 + d" "d < 64" "j = 1" "w = of_nat (k * 64 + d)"
    "\<not> bad_sequence e w" "st = fresh"
  using assms div64_cont
  by (cases cs) (fastforce simp: utf8_step_more Let_def simp del: of_nat_add of_nat_mult split: if_splits)+

lemma feed_more:
  assumes "feed \<lparr>codepoint = of_nat k, expected = e, seen = q\<rparr> cs = (Bytes j, Some w, st)"
    "e \<noteq> 0" "k < 2 ^ 26" "q + 1 < e"
  obtains c rest d j' where "cs = c # rest" "of_char c = 128 + d" "d < 64" "j = j' + 1"
    "feed \<lparr>codepoint = of_nat (k * 64 + d), expected = e, seen = q + 1\<rparr> rest = (Bytes j', Some w, st)"
  using assms div64_cont later_Bytes
  by (cases cs) (fastforce simp: utf8_step_more Let_def simp del: of_nat_add of_nat_mult split: if_splits prod.splits)+

lemma char_eqI: "of_char c = n \<Longrightarrow> c = char_of (n :: nat)"
  by auto

lemma split64: "(d :: nat) < 64 \<Longrightarrow> (k * 64 + d) div 64 = k" "(d :: nat) < 64 \<Longrightarrow> (k * 64 + d) mod 64 = d"
  by simp_all

lemma utf8_join2:
  assumes "d < 64" "0x80 \<le> v" "v < 0x800" "v = p * 64 + d"
  shows "utf8 (of_nat v) = [char_of (0xc0 + p), char_of (0x80 + d)]"
proof -
  have "v div 64 = p" "v mod 64 = d" unfolding assms(4) by (simp_all only: split64 [OF assms(1)])
  then show ?thesis using assms(2,3) utf8_nat [of v] by simp
qed

lemma utf8_join3:
  assumes "d1 < 64" "d2 < 64" "0x800 \<le> v" "v < 0x10000" "v = (p * 64 + d1) * 64 + d2"
  shows "utf8 (of_nat v) = [char_of (0xe0 + p), char_of (0x80 + d1), char_of (0x80 + d2)]"
proof -
  have a: "v div 64 = p * 64 + d1" "v mod 64 = d2" unfolding assms(5) by (simp_all only: split64 [OF assms(2)])
  have b: "v div 64 mod 64 = d1" "v div 64 div 64 = p" unfolding a(1) by (simp_all only: split64 [OF assms(1)])
  then have "v div 4096 = p" using div_mult2_eq [of v 64 64] by simp
  then show ?thesis using a(2) b(1) assms(3,4) utf8_nat [of v] by simp
qed

lemma utf8_join4:
  assumes "d1 < 64" "d2 < 64" "d3 < 64" "0x10000 \<le> v" "v < 2 ^ 32" "v = ((p * 64 + d1) * 64 + d2) * 64 + d3"
  shows "utf8 (of_nat v) = [char_of (0xf0 + p), char_of (0x80 + d1), char_of (0x80 + d2), char_of (0x80 + d3)]"
proof -
  have a: "v div 64 = (p * 64 + d1) * 64 + d2" "v mod 64 = d3"
    unfolding assms(6) by (simp_all only: split64 [OF assms(3)])
  have b: "v div 64 mod 64 = d2" "v div 64 div 64 = p * 64 + d1" unfolding a(1) by (simp_all only: split64 [OF assms(2)])
  have c: "v div 64 div 64 mod 64 = d1" "v div 64 div 64 div 64 = p" unfolding b(2) by (simp_all only: split64 [OF assms(1)])
  have e: "v div 64 div 64 = v div 4096" using div_mult2_eq [of v 64 64] by simp
  have "v div 64 div 64 div 64 = v div 262144" using div_mult2_eq [of v 4096 64] e by simp
  then show ?thesis using a(2) b(1) c [unfolded e] assms(4,5) utf8_nat [of v] e by simp
qed

lemma feed_sound:
  assumes f: "feed fresh bs = (Bytes k, Some w, st)"
  shows "\<exists>rest. bs = utf8 w @ rest \<and> k = (if w = 0 then 0 else length (utf8 w)) \<and> valid_codepoint w \<and> st = fresh"
proof (cases bs)
  case Nil
  with f show ?thesis by simp
next
  case (Cons c cs)
  define n where "n = (of_char c :: nat)"
  have c: "c = char_of n" and b: "n < 256" using nat_of_char_less_256 [of c] by (simp_all add: n_def)
  note step = utf8_step_first [of fresh c, OF _ n_def [symmetric]]
  have L: "w = of_nat v \<Longrightarrow> v < 2 ^ 32 \<Longrightarrow> \<not> bad_sequence e w \<Longrightarrow> valid_codepoint w" for v e
    by (auto simp: bad_sequence_nat valid_codepoint_iff unat_of_nat simp del: of_nat_add of_nat_mult)
  consider "n < 0x80" | "0xc2 \<le> n" "n < 0xe0" | "0xe0 \<le> n" "n < 0xf0" | "0xf0 \<le> n" "n < 0xf5"
    | "0x80 \<le> n" "n < 0xc2 \<or> n \<ge> 0xf5" by linarith
  then show ?thesis
  proof cases
    case 1
    then have "w = of_nat n" "k = (if w = 0 then 0 else 1)" "st = fresh"
      using f Cons step by (auto simp: word_unat_eq_iff unat_of_nat split: if_splits)
    then show ?thesis using 1 Cons c
      by (auto simp: utf8_nat valid_codepoint_iff unat_of_nat)
  next
    case 2
    then obtain p where p: "n = 0xc0 + p" "p < 32" "2 \<le> p" by (intro that [of "n - 0xc0"]) auto
    obtain j where j: "feed \<lparr>codepoint = of_nat p, expected = 2, seen = 1\<rparr> cs = (Bytes j, Some w, st)" "k = j + 1"
      using f 2 Cons step p(1) later_Bytes by (fastforce split: prod.splits simp del: of_nat_diff)
    have k2: "(2 :: u8) \<noteq> 0" "p < 2 ^ 26" "\<not> 1 + 1 < (2 :: u8)" using p by simp_all
    obtain c' rest d where 1: "cs = c' # rest" "of_char c' = 128 + d" "d < 64" "j = 1"
        "w = of_nat (p * 64 + d)" "\<not> bad_sequence 2 w" "st = fresh"
      by (rule feed_last [OF j(1) k2])
    define v where "v = p * 64 + d"
    have v: "v < 0x800" "0x80 \<le> v" using p 1(3) by (simp_all add: v_def)
    have w: "w = of_nat v" unfolding 1(5) v_def ..
    have "w \<noteq> 0" using v unfolding w by (simp add: unat_eq_0 [symmetric] unat_of_nat)
    then show ?thesis using L [OF w _ 1(6)] v utf8_join2 [OF 1(3) v(2,1) v_def]
      unfolding Cons 1(1,4,7) j(2) c p(1) char_eqI [OF 1(2)] w by simp
  next
    case 3
    then obtain p where p: "n = 0xe0 + p" "p < 16" by (intro that [of "n - 0xe0"]) auto
    obtain j where j: "feed \<lparr>codepoint = of_nat p, expected = 3, seen = 1\<rparr> cs = (Bytes j, Some w, st)" "k = j + 1"
      using f 3 Cons step p(1) later_Bytes by (fastforce split: prod.splits simp del: of_nat_diff)
    have k3: "(3 :: u8) \<noteq> 0" "p < 2 ^ 26" "1 + 1 < (3 :: u8)" using p by simp_all
    obtain c1 cs1 d1 j1 where 1: "cs = c1 # cs1" "of_char c1 = 128 + d1" "d1 < 64" "j = j1 + 1"
        "feed \<lparr>codepoint = of_nat (p * 64 + d1), expected = 3, seen = 1 + 1\<rparr> cs1 = (Bytes j1, Some w, st)"
      by (rule feed_more [OF j(1) k3])
    have k4: "(3 :: u8) \<noteq> 0" "p * 64 + d1 < 2 ^ 26" "\<not> (1 + 1) + 1 < (3 :: u8)" using p 1(3) by simp_all
    obtain c2 rest d2 where 2: "cs1 = c2 # rest" "of_char c2 = 128 + d2" "d2 < 64" "j1 = 1"
        "w = of_nat ((p * 64 + d1) * 64 + d2)" "\<not> bad_sequence 3 w" "st = fresh"
      by (rule feed_last [OF 1(5) k4])
    define v where "v = (p * 64 + d1) * 64 + d2"
    have v: "v < 0x10000" using p 1(3) 2(3) by (simp add: v_def)
    have w: "w = of_nat v" unfolding 2(5) v_def ..
    have v2: "0x800 \<le> v" using 2(6) bad_sequence_nat [of v 3] v unfolding w by simp
    have "w \<noteq> 0" using v v2 unfolding w by (simp add: unat_eq_0 [symmetric] unat_of_nat)
    then show ?thesis using L [OF w _ 2(6)] v utf8_join3 [OF 1(3) 2(3) v2 v v_def]
      unfolding Cons 1(1,4) 2(1,4,7) j(2) c p(1) char_eqI [OF 1(2)] char_eqI [OF 2(2)] w by simp
  next
    case 4
    then obtain p where p: "n = 0xf0 + p" "p < 5" by (intro that [of "n - 0xf0"]) auto
    obtain j where j: "feed \<lparr>codepoint = of_nat p, expected = 4, seen = 1\<rparr> cs = (Bytes j, Some w, st)" "k = j + 1"
      using f 4 Cons step p(1) later_Bytes by (fastforce split: prod.splits simp del: of_nat_diff)
    have k3: "(4 :: u8) \<noteq> 0" "p < 2 ^ 26" "1 + 1 < (4 :: u8)" using p by simp_all
    obtain c1 cs1 d1 j1 where 1: "cs = c1 # cs1" "of_char c1 = 128 + d1" "d1 < 64" "j = j1 + 1"
        "feed \<lparr>codepoint = of_nat (p * 64 + d1), expected = 4, seen = 1 + 1\<rparr> cs1 = (Bytes j1, Some w, st)"
      by (rule feed_more [OF j(1) k3])
    have k4: "(4 :: u8) \<noteq> 0" "p * 64 + d1 < 2 ^ 26" "(1 + 1) + 1 < (4 :: u8)" using p 1(3) by simp_all
    obtain c2 cs2 d2 j2 where 2: "cs1 = c2 # cs2" "of_char c2 = 128 + d2" "d2 < 64" "j1 = j2 + 1"
        "feed \<lparr>codepoint = of_nat ((p * 64 + d1) * 64 + d2), expected = 4, seen = (1 + 1) + 1\<rparr> cs2 = (Bytes j2, Some w, st)"
      by (rule feed_more [OF 1(5) k4])
    have k5: "(4 :: u8) \<noteq> 0" "(p * 64 + d1) * 64 + d2 < 2 ^ 26" "\<not> ((1 + 1) + 1) + 1 < (4 :: u8)"
      using p 1(3) 2(3) by simp_all
    obtain c3 rest d3 where 3: "cs2 = c3 # rest" "of_char c3 = 128 + d3" "d3 < 64" "j2 = 1"
        "w = of_nat (((p * 64 + d1) * 64 + d2) * 64 + d3)" "\<not> bad_sequence 4 w" "st = fresh"
      by (rule feed_last [OF 2(5) k5])
    define v where "v = ((p * 64 + d1) * 64 + d2) * 64 + d3"
    have v: "v < 2 ^ 32" using p 1(3) 2(3) 3(3) by (simp add: v_def)
    have w: "w = of_nat v" unfolding 3(5) v_def ..
    have v2: "0x10000 \<le> v" using 3(6) bad_sequence_nat [of v 4] v unfolding w by simp
    have "w \<noteq> 0" using v v2 unfolding w by (simp add: unat_eq_0 [symmetric] unat_of_nat)
    then show ?thesis using L [OF w v 3(6)] utf8_join4 [OF 1(3) 2(3) 3(3) v2 v v_def]
      unfolding Cons 1(1,4) 2(1,4) 3(1,4,7) j(2) c p(1) char_eqI [OF 1(2)] char_eqI [OF 2(2)] char_eqI [OF 3(2)] w
      by simp
  next
    case 5
    then show ?thesis using f Cons step by auto
  qed
qed

subsection \<open>Feeding in pieces\<close>

lemma utf8_step_not_Partial: "utf8_step st c \<noteq> Ended Partial wc" "utf8_step st c \<noteq> Ended Pending wc"
  by (auto simp: utf8_step_def Let_def split: option.splits)

lemma later_Partial: "later k r = Partial \<longleftrightarrow> r = Partial"
  by (cases r) auto

lemma feed_append:
  "feed st a = (Partial, wc, st') \<Longrightarrow> wc = None \<and>
    feed st (a @ b) = (case feed st' b of (r, w, s) \<Rightarrow> (later (length a) r, w, s))"
proof (induction a arbitrary: st)
  case (Cons c a)
  then obtain st1 where s: "utf8_step st c = More st1"
    using utf8_step_not_Partial by (cases "utf8_step st c") auto
  then have "feed st1 a = (Partial, wc, st')" using Cons.prems by (auto simp: later_Partial split: prod.splits)
  then show ?case using Cons.IH s by (simp split: prod.splits)
qed simp

lemma feed_complete: "feed st a = (r, wc, st') \<Longrightarrow> r \<noteq> Partial \<Longrightarrow> feed st (a @ b) = (r, wc, st')"
proof (induction a arbitrary: st r)
  case (Cons c a)
  then show ?case
  proof (cases "utf8_step st c")
    case (More st1)
    obtain r1 where "feed st1 a = (r1, wc, st')" "r = later 1 r1" using Cons.prems More by (auto split: prod.splits)
    then show ?thesis using Cons More by (auto simp: later_Partial)
  qed simp
qed simp

lemma utf8_step_mb_ok: "utf8_step st c = More st' \<Longrightarrow> mb_ok st'"
  by (auto simp: utf8_step_def mb_ok_def Let_def lead_byte_def split: if_splits option.splits)

lemma feed_mb_ok: "feed st a = (r, wc, st') \<Longrightarrow> mb_ok st \<Longrightarrow> mb_ok st'"
proof (induction a arbitrary: st r)
  case (Cons c a)
  then show ?case
    by (cases "utf8_step st c") (auto simp: utf8_step_mb_ok mb_ok_def [of fresh] split: prod.splits)
qed simp

lemma mb_ok_fresh [simp]: "mb_ok fresh"
  by (simp add: mb_ok_def)

text \<open>
  A character that arrives in two pieces, split anywhere, is decoded by the second call to what one
  call would have given; the second call reports the bytes it used itself.
\<close>

lemma mbrtowc_split:
  assumes "valid_codepoint w" "utf8 w = a @ b" "a \<noteq> []" "b \<noteq> []" "bytes_at m p a" "bytes_at m q b"
    "p \<noteq> null" "q \<noteq> null"
  shows "\<exists>st. mbrtowc m p (length a) fresh = Some (Partial, None, st) \<and>
    mbrtowc m q (length b) st = Some (Bytes (length b), Some w, fresh)"
proof -
  obtain r wc st where f: "feed fresh a = (r, wc, st)" by (cases "feed fresh a") auto
  have whole: "feed fresh (a @ b) = (Bytes (length a + length b), Some w, fresh)"
  proof -
    have "w \<noteq> 0" using assms(2-4) by (auto simp: utf8_def Cons_eq_append_conv)
    then show ?thesis using feed_utf8 [OF assms(1), of "[]"] assms(2) by simp
  qed
  have r: "r = Partial"
  proof (rule ccontr)
    assume n: "r \<noteq> Partial"
    then have "r = Bytes (length a + length b)" "wc = Some w" using feed_complete [OF f n, of b] whole by auto
    with f feed_sound [of a "length a + length b" w st] assms(2,4) have "length (utf8 w) \<le> length a" by auto
    then show False using assms(2,4) by simp
  qed
  with f have p: "feed fresh a = (Partial, wc, st)" by simp
  obtain r2 w2 st2 where f2: "feed st b = (r2, w2, st2)" by (cases "feed st b") auto
  have "wc = None" "later (length a) r2 = Bytes (length a + length b)" "w2 = Some w" "st2 = fresh"
    using feed_append [OF p, of b] whole f2 by auto
  then have "r2 = Bytes (length b)" by (cases r2) auto
  with p f2 show ?thesis
    using mbrtowc_feed [OF assms(5,7)] mbrtowc_feed [OF assms(6,8) feed_mb_ok [OF f]]
      \<open>wc = None\<close> \<open>w2 = Some w\<close> \<open>st2 = fresh\<close> by simp
qed

subsection \<open>Strings\<close>

lemma utf8_no_NUL: "w \<noteq> 0 \<Longrightarrow> valid_codepoint w \<Longrightarrow> NUL \<notin> set (utf8 w)"
proof -
  assume w: "w \<noteq> 0" and v: "valid_codepoint w"
  have nz: "k < 256 \<Longrightarrow> NUL = char_of k \<longleftrightarrow> k = 0" for k :: nat
    by (metis code_char char_of_0(1) zero_less_numeral)
  have b: "0 < unat w" "unat w div 64 mod 64 < 64" "unat w div 4096 mod 64 < 64" "unat w mod 64 < 64"
    using w by (simp_all add: unat_gt_0)
  have c: "unat w < 0x800 \<Longrightarrow> unat w div 64 < 32" "unat w < 0x10000 \<Longrightarrow> unat w div 4096 < 16" "unat w div 262144 < 5"
    using v by (simp_all add: less_mult_imp_div_less valid_codepoint_iff)
  show ?thesis using b c by (auto simp: utf8_def Let_def nz)
qed

definition mbs :: "wchar list \<Rightarrow> string" where "mbs ws = concat (map utf8 ws)"

lemma mbs_simps [simp]: "mbs [] = []" "mbs (w # ws) = utf8 w @ mbs ws" "mbs (xs @ ys) = mbs xs @ mbs ys"
  by (simp_all add: mbs_def)

definition wide_ok :: "wchar list \<Rightarrow> bool" where "wide_ok ws \<longleftrightarrow> (\<forall>w \<in> set ws. w \<noteq> 0 \<and> valid_codepoint w)"

lemma wide_ok_simps [simp]: "wide_ok []" "wide_ok (w # ws) \<longleftrightarrow> w \<noteq> 0 \<and> valid_codepoint w \<and> wide_ok ws"
  by (auto simp: wide_ok_def)

text \<open>The characters whose encodings fit in \<open>n\<close> bytes.\<close>

fun fitting :: "wchar list \<Rightarrow> nat \<Rightarrow> wchar list" where
  "fitting [] n = []"
| "fitting (w # ws) n = (if length (utf8 w) \<le> n then w # fitting ws (n - length (utf8 w)) else [])"

lemma length_fitting: "length (mbs (fitting ws n)) \<le> n"
  by (induction ws n rule: fitting.induct) auto

lemma buffer_utf8:
  assumes "valid_codepoint w"
  shows "\<exists>b. wcrtomb (mem_of 1 (replicate 4 NUL)) 1 w = Some (Bytes (length (utf8 w)), b) \<and> bytes_at b 1 (utf8 w)"
proof -
  have "mapped (mem_of 1 (replicate 4 NUL)) 1 4"
    using bytes_at_mapped [of "mem_of 1 (replicate 4 NUL)" 1 "replicate 4 NUL"]
    by (simp only: mem_of_def bytes_at_mem_put) simp
  then have "mapped (mem_of 1 (replicate 4 NUL)) 1 (length (utf8 w))"
    using length_utf8 [of w] mapped_mono by blast
  with wcrtomb_Some [OF assms] show ?thesis by simp
qed

lemma wcs_loop_Some:
  assumes "dst \<noteq> null"
  shows "wide_ok ws \<Longrightarrow> bytes_at w inp (ws @ [0]) \<Longrightarrow> converted + length ws < src_len \<Longrightarrow>
    mapped m (dst + count) (dst_len - count) \<Longrightarrow> count \<le> dst_len \<Longrightarrow>
    (let out = fitting ws (dst_len - count); bs = mbs out in
     wcs_loop m w dst src0 inp converted src_len count dst_len =
       (if out = ws \<and> count + length bs < dst_len
        then Some (Some (count + length bs), mem_put m (dst + count) (bs @ [NUL]), null)
        else Some (Some (count + length bs), mem_put m (dst + count) bs, inp + length out)))"
proof (induction ws arbitrary: m inp converted count)
  case Nil
  then have "load w inp = Some 0" by (simp add: load_def)
  moreover have "m (dst + count) \<noteq> None" if "count < dst_len"
    using Nil.prems(4) [unfolded mapped_iff, rule_format, of 0] that by simp
  ultimately show ?case using Nil assms
    by (simp add: wcs_loop.simps [of m] wcs_finish_def mem_put_single Let_def)
next
  case (Cons x ws)
  let ?k = "length (utf8 x)"
  have l: "load w inp = Some x" and x: "x \<noteq> 0" "valid_codepoint x" and c: "converted < src_len"
    using Cons.prems by (simp_all add: load_def)
  obtain b where b: "wcrtomb (mem_of 1 (replicate 4 NUL)) 1 x = Some (Bytes ?k, b)" "bytes_at b 1 (utf8 x)"
    using buffer_utf8 [OF x(2)] by blast
  show ?case
  proof (cases "?k \<le> dst_len - count")
    case False
    then have "dst_len < count + ?k" using Cons.prems(5) by linarith
    with False show ?thesis using l x c assms b by (simp add: wcs_loop.simps [of m] Let_def)
  next
    case True
    have mp: "mapped m (dst + count) ?k" using mapped_mono [OF Cons.prems(4) True] .
    have s: "store_n m (dst + count) (utf8 x) = Some (mem_put m (dst + count) (utf8 x))"
      by (rule store_n_Some [OF mp])
    have fit: "count + ?k \<le> dst_len" using True Cons.prems(5) by linarith
    have step: "wcs_loop m w dst src0 inp converted src_len count dst_len =
        wcs_loop (mem_put m (dst + count) (utf8 x)) w dst src0 (inp + 1) (converted + 1) src_len (count + ?k) dst_len"
      using l x c assms b load_n_Some [OF b(2) refl] s fit by (simp add: wcs_loop.simps [of m])
    have room: "dst_len - (count + ?k) = dst_len - count - ?k" by simp
    have "dst_len - count = ?k + (dst_len - (count + ?k))" using True by linarith
    then have "mapped m (dst + (count + ?k)) (dst_len - (count + ?k))"
      using Cons.prems(4) mapped_add [of m "dst + count" ?k "dst_len - (count + ?k)"] by (simp add: add.assoc)
    then have mp2: "mapped (mem_put m (dst + count) (utf8 x)) (dst + (count + ?k)) (dst_len - (count + ?k))"
      by simp
    define m' where "m' = mem_put m (dst + count) (utf8 x)"
    define out where "out = fitting ws (dst_len - (count + ?k))"
    have IH: "wcs_loop m' w dst src0 (inp + 1) (converted + 1) src_len (count + ?k) dst_len =
       (if out = ws \<and> count + ?k + length (mbs out) < dst_len
        then Some (Some (count + ?k + length (mbs out)), mem_put m' (dst + (count + ?k)) (mbs out @ [NUL]), null)
        else Some (Some (count + ?k + length (mbs out)), mem_put m' (dst + (count + ?k)) (mbs out), inp + 1 + length out))"
      using Cons.IH [of "inp + 1" "converted + 1" m' "count + ?k"] mp2 Cons.prems(1-3) fit
      unfolding Let_def m'_def [symmetric] out_def [symmetric] by simp
    have f: "fitting (x # ws) (dst_len - count) = x # out" using True by (simp add: out_def)
    have p: "mem_put m (dst + count) (utf8 x @ bs) = mem_put m' (dst + (count + ?k)) bs" for bs
      by (simp add: m'_def mem_put_append add.assoc)
    show ?thesis unfolding step m'_def [symmetric] IH f Let_def mbs_simps append_assoc p
      by (auto simp: add.assoc)
  qed
qed

text \<open>The byte string is bounded by its NUL only (\<open>endp\<close> null).\<close>

lemma mbs_no_NUL: "wide_ok ws \<Longrightarrow> NUL \<notin> set (mbs ws)"
  by (induction ws) (auto simp: utf8_no_NUL)

lemma mbs_loop_Some:
  assumes "dst \<noteq> null"
  shows "wide_ok ws \<Longrightarrow> cstr m inp (mbs ws) \<Longrightarrow> inp \<noteq> null \<Longrightarrow>
    mapped w (dst + count) (dst_len - count) \<Longrightarrow> count \<le> dst_len \<Longrightarrow>
    mbs_loop m w dst src0 inp null count dst_len fresh =
      (let out = take (dst_len - count) ws in
       if count + length ws < dst_len
       then Some (Some (count + length ws), mem_put w (dst + count) (ws @ [0]), null, fresh)
       else Some (Some (count + length out), mem_put w (dst + count) out, inp + length (mbs out), fresh))"
proof (induction ws arbitrary: w inp count)
  case Nil
  then have "load m inp = Some NUL" by (simp add: load_def cstr_Nil)
  moreover have "w (dst + count) \<noteq> None" if "count < dst_len"
    using Nil.prems(4) [unfolded mapped_iff, rule_format, of 0] that by simp
  ultimately show ?case using Nil assms
    by (simp add: mbs_loop.simps [of m] mbs_finish_def more_bytes_def mem_put_single Let_def)
next
  case (Cons x ws)
  let ?bs = "mbs (x # ws)" and ?k = "length (utf8 x)"
  have x: "x \<noteq> 0" "valid_codepoint x" "wide_ok ws" using Cons.prems(1) by simp_all
  obtain c cs where u: "utf8 x = c # cs" using length_utf8(1) [of x] by (cases "utf8 x") auto
  have c: "load m inp = Some c" "c \<noteq> NUL"
    using Cons.prems(2) u by (auto simp: load_def cstr_Cons)
  have b: "bytes_at m inp ?bs" using cstr_bytes [OF Cons.prems(2)] .
  have conv: "mbrtowc m inp (length ?bs) fresh = Some (Bytes ?k, Some x, fresh)"
    using mbrtowc_feed [OF b _ mb_ok_fresh] Cons.prems(3) feed_utf8 [OF x(2), of "mbs ws"] x(1) by simp
  have open_loop: "mbs_loop m w dst src0 inp null count dst_len fresh =
      (if count = dst_len then Some (Some count, w, inp, fresh)
       else do {
         w \<leftarrow> store w (dst + count) x;
         mbs_loop m w dst src0 (inp + ?k) null (count + 1) dst_len fresh })"
    unfolding mbs_loop.simps [of m w dst src0 inp null count dst_len fresh]
    using assms c strlen_Some [OF Cons.prems(2)] conv by (simp add: more_bytes_def)
  show ?case
  proof (cases "count = dst_len")
    case True
    then show ?thesis unfolding open_loop by simp
  next
    case False
    then have w: "w (dst + count) \<noteq> None" and room: "dst_len - count = Suc (dst_len - (count + 1))"
      using Cons.prems(4) [unfolded mapped_iff, rule_format, of 0] Cons.prems(5) by simp_all
    define w' where "w' = w(dst + count \<mapsto> x)"
    have step: "mbs_loop m w dst src0 inp null count dst_len fresh =
        mbs_loop m w' dst src0 (inp + ?k) null (count + 1) dst_len fresh"
      unfolding open_loop w'_def using False w by simp
    have "cstr m (inp + ?k) (mbs ws)" using cstr_drop [OF Cons.prems(2), of ?k] by simp
    moreover have "mapped w' (dst + (count + 1)) (dst_len - (count + 1))"
      using Cons.prems(4) unfolding room w'_def by (simp add: mapped_Suc)
    moreover have "mem_put w (dst + count) (x # ys) = mem_put w' (dst + (count + 1)) ys" for ys
      by (simp add: w'_def mem_put_Cons)
    ultimately show ?thesis unfolding step
      using Cons.IH [of "inp + ?k" w' "count + 1"] x(3) Cons.prems(3,5) False
      by (simp add: room Let_def)
  qed
qed

subsection \<open>Surrogate pairs\<close>

definition utf16 :: "u32 \<Rightarrow> u16 list" where
  "utf16 w = (if w \<le> 0xffff then [ucast w]
     else [of_nat (0xd800 + (unat w - 0x10000) div 0x400), of_nat (0xdc00 + (unat w - 0x10000) mod 0x400)])"

lemma split_pair:
  fixes n :: nat
  assumes "0x10000 \<le> n" "n \<le> 0x10ffff"
  shows "\<exists>h l. h < 0x400 \<and> l < 0x400 \<and> n = 0x10000 + h * 0x400 + l \<and>
    (n - 0x10000) div 0x400 = h \<and> (n - 0x10000) mod 0x400 = l"
proof -
  have "n = 0x10000 + (n - 0x10000) div 0x400 * 0x400 + (n - 0x10000) mod 0x400"
    using assms(1) div_mult_mod_eq [of "n - 0x10000" "0x400"] by linarith
  moreover have "(n - 0x10000) div 0x400 < 0x400" "(n - 0x10000) mod 0x400 < 0x400"
    using assms(2) by (simp_all add: less_mult_imp_div_less)
  ultimately show ?thesis by blast
qed

lemma astral_words:
  fixes w :: u32
  assumes w: "w = of_nat (0x10000 + h * 0x400 + l)" and h: "h < 0x400" and l: "l < 0x400"
  shows "drop_bit 10 (w - 0x10000) = of_nat h" "(w - 0x10000) AND 0x3ff = of_nat l"
proof -
  have d: "w - 0x10000 = of_nat (h * 0x400 + l)" unfolding w by simp
  have u: "unat (of_nat (h * 0x400 + l) :: u32) = h * 0x400 + l"
    using h l by (simp add: unat_of_nat del: of_nat_add of_nat_mult)
  have "(h * 0x400 + l) div 0x400 = h" "(h * 0x400 + l) mod 0x400 = l" using l by simp_all
  then show "drop_bit 10 (w - 0x10000) = of_nat h" "(w - 0x10000) AND 0x3ff = of_nat l"
    unfolding d using unat_drop [of 10 "of_nat (h * 0x400 + l) :: u32"]
      unat_and_low [of "of_nat (h * 0x400 + l) :: u32" 10] u
    by (intro unat_eqI; simp add: mask_eq_exp_minus_1 del: of_nat_add of_nat_mult)+
qed

lemma ucast_small: "n < 2 ^ 16 \<Longrightarrow> (ucast (of_nat n :: u32) :: u16) = of_nat n"
  "n < 2 ^ 16 \<Longrightarrow> (ucast (of_nat n :: u16) :: u32) = of_nat n"
  by (simp_all add: word_unat_eq_iff unat_of_nat unsigned_ucast_eq take_bit_nat_eq_self)

text \<open>A character through \<open>mbrtoc16\<close>: one unit, or the high surrogate and then the pending low one.\<close>

lemma mbrtoc16_units:
  assumes v: "valid_codepoint w" "w \<noteq> 0" and b: "bytes_at m s (utf8 w @ rest)" and s: "s \<noteq> null"
  shows "w \<le> 0xffff \<Longrightarrow> mbrtoc16 m s (length (utf8 w @ rest)) fresh =
      Some (Bytes (length (utf8 w)), Some (hd (utf16 w)), fresh)"
    "\<not> w \<le> 0xffff \<Longrightarrow> \<exists>st. mbrtoc16 m s (length (utf8 w @ rest)) fresh =
      Some (Bytes (length (utf8 w)), Some (hd (utf16 w)), st) \<and>
      (\<forall>m p n. p \<noteq> null \<longrightarrow> mbrtoc16 m p n st = Some (Pending, Some (utf16 w ! 1), fresh))"
proof -
  have f: "mbrtowc m s (length (utf8 w @ rest)) fresh = Some (Bytes (length (utf8 w)), Some w, fresh)"
    using mbrtowc_feed [OF b s mb_ok_fresh] feed_utf8 [OF v(1), of rest] v(2) by simp
  have p: "0 \<noteq> PENDING_LOW_SURROGATE" by (simp add: PENDING_LOW_SURROGATE_def)
  { assume "w \<le> 0xffff"
    then show "mbrtoc16 m s (length (utf8 w @ rest)) fresh = Some (Bytes (length (utf8 w)), Some (hd (utf16 w)), fresh)"
      unfolding mbrtoc16_def f using s p by (simp add: utf16_def)
  next
    assume a: "\<not> w \<le> 0xffff"
    then have n: "0x10000 \<le> unat w" "unat w \<le> 0x10ffff"
      using v(1) by (simp_all add: valid_codepoint_iff word_le_nat_alt)
    obtain h l where 1: "h < 0x400" "l < 0x400" "unat w = 0x10000 + h * 0x400 + l"
      "(unat w - 0x10000) div 0x400 = h" "(unat w - 0x10000) mod 0x400 = l"
      using split_pair [OF n] by (elim exE conjE) (rule that)
    have w: "w = of_nat (0x10000 + h * 0x400 + l)" by (rule unat_eqI) (rule 1(3))
    have c: "(ucast (0xd800 + of_nat h :: u32) :: u16) = of_nat (0xd800 + h)"
      "(ucast (0xdc00 + of_nat l :: u32) :: u16) = of_nat (0xdc00 + l)"
      using ucast_small(1) [of "0xd800 + h"] ucast_small(1) [of "0xdc00 + l"] 1(1,2) by simp_all
    let ?st = "\<lparr>codepoint = 0xdc00 + of_nat l, expected = PENDING_LOW_SURROGATE, seen = 0\<rparr>"
    have "mbrtoc16 m s (length (utf8 w @ rest)) fresh = Some (Bytes (length (utf8 w)), Some (hd (utf16 w)), ?st)"
      unfolding mbrtoc16_def f using s p a astral_words [OF w 1(1,2)] c(1) 1(4)
      by (simp add: utf16_def fresh_def Let_def)
    moreover have "\<forall>m p n. p \<noteq> null \<longrightarrow> mbrtoc16 m p n ?st = Some (Pending, Some (utf16 w ! 1), fresh)"
      using a c(2) 1(5) by (simp add: mbrtoc16_def utf16_def)
    ultimately show "\<exists>st. mbrtoc16 m s (length (utf8 w @ rest)) fresh =
      Some (Bytes (length (utf8 w)), Some (hd (utf16 w)), st) \<and>
      (\<forall>m p n. p \<noteq> null \<longrightarrow> mbrtoc16 m p n st = Some (Pending, Some (utf16 w ! 1), fresh))" by blast }
qed

lemma utf16_ranges:
  assumes "valid_codepoint w"
  shows "w \<le> 0xffff \<Longrightarrow> utf16 w = [ucast w] \<and> (ucast (ucast w :: u16) :: u32) = w \<and>
      \<not> (0xd800 \<le> (ucast w :: u16) \<and> (ucast w :: u16) \<le> 0xdfff)"
    "\<not> w \<le> 0xffff \<Longrightarrow> \<exists>h l. h < 0x400 \<and> l < 0x400 \<and> w = of_nat (0x10000 + h * 0x400 + l) \<and>
      utf16 w = [of_nat (0xd800 + h), of_nat (0xdc00 + l)]"
proof -
  { assume a: "w \<le> 0xffff"
    then have n: "unat w < 2 ^ 16" by (simp add: word_le_nat_alt)
    obtain k where k: "unat w = k" "w = of_nat k" by (rule that [of "unat w"]) simp_all
    have e: "(ucast w :: u16) = of_nat k" unfolding k(2) using ucast_small(1) [of k] n k(1) by simp
    have u: "unat (ucast w :: u16) = unat w" unfolding e k(1) using n k(1) by (simp add: unat_of_nat)
    have "(ucast (ucast w :: u16) :: u32) = w" unfolding e using ucast_small(2) [of k] n k by simp
    then show "utf16 w = [ucast w] \<and> (ucast (ucast w :: u16) :: u32) = w \<and>
      \<not> (0xd800 \<le> (ucast w :: u16) \<and> (ucast w :: u16) \<le> 0xdfff)"
      using a u assms by (simp add: utf16_def word_le_nat_alt valid_codepoint_iff)
  next
    assume a: "\<not> w \<le> 0xffff"
    then have n: "0x10000 \<le> unat w" "unat w \<le> 0x10ffff"
      using assms by (simp_all add: valid_codepoint_iff word_le_nat_alt)
    obtain h l where 1: "h < 0x400" "l < 0x400" "unat w = 0x10000 + h * 0x400 + l"
      "(unat w - 0x10000) div 0x400 = h" "(unat w - 0x10000) mod 0x400 = l"
      using split_pair [OF n] by (elim exE conjE) (rule that)
    have "w = of_nat (0x10000 + h * 0x400 + l)" by (rule unat_eqI) (rule 1(3))
    then show "\<exists>h l. h < 0x400 \<and> l < 0x400 \<and> w = of_nat (0x10000 + h * 0x400 + l) \<and>
        utf16 w = [of_nat (0xd800 + h), of_nat (0xdc00 + l)]"
      using a 1 by (intro exI [of _ h] exI [of _ l]) (simp add: utf16_def) }
qed

lemma c16rtomb_units:
  assumes v: "valid_codepoint w" and s: "s \<noteq> null" and mp: "mapped m s (length (utf8 w))"
  shows "w \<le> 0xffff \<Longrightarrow> c16rtomb m s (hd (utf16 w)) fresh =
      Some (Bytes (length (utf8 w)), mem_put m s (utf8 w), fresh)"
    "\<not> w \<le> 0xffff \<Longrightarrow> \<exists>st. c16rtomb m s (hd (utf16 w)) fresh = Some (Bytes 0, m, st) \<and>
      c16rtomb m s (utf16 w ! 1) st = Some (Bytes (length (utf8 w)), mem_put m s (utf8 w), fresh)"
proof -
  have p: "0 \<noteq> PENDING_HIGH_SURROGATE" by (simp add: PENDING_HIGH_SURROGATE_def)
  note enc = wcrtomb_Some [OF v s mp]
  { assume "w \<le> 0xffff"
    then have u: "hd (utf16 w) = ucast w" "(ucast (ucast w :: u16) :: u32) = w"
      "\<not> (0xd800 \<le> (ucast w :: u16) \<and> (ucast w :: u16) \<le> 0xdfff)" using utf16_ranges(1) [OF v] by auto
    from u(3) have "\<not> ((ucast w :: u16) \<ge> 0xd800 \<and> (ucast w :: u16) \<le> 0xdbff)"
      "\<not> ((ucast w :: u16) \<ge> 0xdc00 \<and> (ucast w :: u16) \<le> 0xdfff)" by (auto simp: word_le_nat_alt)
    then show "c16rtomb m s (hd (utf16 w)) fresh = Some (Bytes (length (utf8 w)), mem_put m s (utf8 w), fresh)"
      unfolding u(1) c16rtomb_def using s p enc u(2) by auto
  next
    assume "\<not> w \<le> 0xffff"
    then obtain h l where 1: "h < 0x400" "l < 0x400" "w = of_nat (0x10000 + h * 0x400 + l)"
      "utf16 w = [of_nat (0xd800 + h), of_nat (0xdc00 + l)]" using utf16_ranges(2) [OF v] by blast
    have n: "unat (of_nat (0xd800 + h) :: u16) = 0xd800 + h" "unat (of_nat (0xdc00 + l) :: u16) = 0xdc00 + l"
      using 1(1,2) by (simp_all add: unat_of_nat del: of_nat_add)
    have c: "(ucast (of_nat (0xd800 + h) :: u16) :: u32) = 0xd800 + of_nat h"
      "(ucast (of_nat (0xdc00 + l) :: u16) :: u32) = 0xdc00 + of_nat l"
      using ucast_small(2) [of "0xd800 + h"] ucast_small(2) [of "0xdc00 + l"] 1(1,2) by simp_all
    let ?st = "\<lparr>codepoint = 0xd800 + of_nat h, expected = PENDING_HIGH_SURROGATE, seen = 0\<rparr>"
    have "c16rtomb m s (of_nat (0xd800 + h)) fresh = Some (Bytes 0, m, ?st)"
      unfolding c16rtomb_def using s p n(1) 1(1) c(1) by (simp add: word_le_nat_alt fresh_def del: of_nat_add)
    moreover have "0x10000 + push_bit 10 (0xd800 + of_nat h - 0xd800) + (0xdc00 + of_nat l - 0xdc00) = w"
      unfolding 1(3) by (simp add: push_bit_eq_mult)
    then have "c16rtomb m s (of_nat (0xdc00 + l)) ?st = Some (Bytes (length (utf8 w)), mem_put m s (utf8 w), fresh)"
      unfolding c16rtomb_def using s n(2) 1(2) c(2) enc by (simp add: word_less_nat_alt del: of_nat_add)
    ultimately show "\<exists>st. c16rtomb m s (hd (utf16 w)) fresh = Some (Bytes 0, m, st) \<and>
        c16rtomb m s (utf16 w ! 1) st = Some (Bytes (length (utf8 w)), mem_put m s (utf8 w), fresh)"
      unfolding 1(4) by auto }
qed

text \<open>A surrogate without its partner is an error.\<close>

lemma c16rtomb_lone:
  assumes "s \<noteq> null"
  shows "0xdc00 \<le> c \<Longrightarrow> c \<le> 0xdfff \<Longrightarrow> c16rtomb m s c fresh = Some (Illegal, m, fresh)"
    "expected st = PENDING_HIGH_SURROGATE \<Longrightarrow> c < 0xdc00 \<or> c > 0xdfff \<Longrightarrow>
      c16rtomb m s c st = Some (Illegal, m, fresh)"
  using assms by (auto simp: c16rtomb_def PENDING_HIGH_SURROGATE_def word_le_nat_alt)
end
