(* ===== verification/CRT_Wcs.thy ===== *)
theory CRT_Wcs
  imports CRT_Utf8
begin

text \<open>
  The wide-character strings and arrays of \<^verbatim>\<open>libc/src/wchar.c\<close>, on a memory whose cells are
  wide characters. \<open>wchar_t\<close> is a signed 32-bit integer (comparisons read the cells with \<open>sint\<close>).
  A scan for a terminator is a \<open>partial_function\<close>, as in \<open>CRT_String\<close>; a loop with a counter is a
  total function of it.
\<close>

type_synonym wmem = "wchar cells"

subsection \<open>Length and search\<close>

partial_function (option) wcslen_loop :: "wmem \<Rightarrow> addr \<Rightarrow> addr option" where
  "wcslen_loop m p = do { c \<leftarrow> load m p; if c \<noteq> 0 then wcslen_loop m (p + 1) else Some p }"

definition wcslen :: "wmem \<Rightarrow> addr \<Rightarrow> nat option" where
  "wcslen m s = do { p \<leftarrow> wcslen_loop m s; Some (p - s) }"

function wcsnlen_loop :: "wmem \<Rightarrow> addr \<Rightarrow> nat \<Rightarrow> nat \<Rightarrow> nat option" where
  "wcsnlen_loop m s i maxlen =
     (if i < maxlen then do {
        c \<leftarrow> load m (s + i);
        if c \<noteq> 0 then wcsnlen_loop m s (i + 1) maxlen else Some i }
      else Some i)"
  by pat_completeness auto
termination by (relation "measure (\<lambda>(m, s, i, maxlen). maxlen - i)") auto

definition wcsnlen :: "wmem \<Rightarrow> addr \<Rightarrow> nat \<Rightarrow> nat option" where
  "wcsnlen m s maxlen = wcsnlen_loop m s 0 maxlen"

partial_function (option) wcschr :: "wmem \<Rightarrow> addr \<Rightarrow> wchar \<Rightarrow> addr option" where
  "wcschr m s c = do {
     x \<leftarrow> load m s;
     if x \<noteq> 0 then if x = c then Some s else wcschr m (s + 1) c
     else Some (if c = 0 then s else null) }"

partial_function (option) wcspbrk :: "wmem \<Rightarrow> addr \<Rightarrow> addr \<Rightarrow> addr option" where
  "wcspbrk m s accept = do {
     x \<leftarrow> load m s;
     if x \<noteq> 0 then do {
       p \<leftarrow> wcschr m accept x;
       if p \<noteq> null then Some s else wcspbrk m (s + 1) accept }
     else Some null }"

partial_function (option) wcsrchr_loop :: "wmem \<Rightarrow> addr \<Rightarrow> wchar \<Rightarrow> addr \<Rightarrow> addr option" where
  "wcsrchr_loop m s c lst = do {
     x \<leftarrow> load m s;
     let lst = (if x = c then s else lst);
     if x \<noteq> 0 then wcsrchr_loop m (s + 1) c lst else Some lst }"

definition wcsrchr :: "wmem \<Rightarrow> addr \<Rightarrow> wchar \<Rightarrow> addr option" where
  "wcsrchr m s c = wcsrchr_loop m s c null"

partial_function (option) wcscspn_loop :: "wmem \<Rightarrow> addr \<Rightarrow> addr \<Rightarrow> nat \<Rightarrow> nat option" where
  "wcscspn_loop m s reject n = do {
     x \<leftarrow> load m (s + n);
     if x \<noteq> 0 then do {
       p \<leftarrow> wcschr m reject x;
       if p = null then wcscspn_loop m s reject (n + 1) else Some n }
     else Some n }"

definition wcscspn :: "wmem \<Rightarrow> addr \<Rightarrow> addr \<Rightarrow> nat option" where
  "wcscspn m s reject = wcscspn_loop m s reject 0"

partial_function (option) wcsspn_loop :: "wmem \<Rightarrow> addr \<Rightarrow> addr \<Rightarrow> nat \<Rightarrow> nat option" where
  "wcsspn_loop m s accept n = do {
     x \<leftarrow> load m (s + n);
     if x \<noteq> 0 then do {
       p \<leftarrow> wcschr m accept x;
       if p \<noteq> null then wcsspn_loop m s accept (n + 1) else Some n }
     else Some n }"

definition wcsspn :: "wmem \<Rightarrow> addr \<Rightarrow> addr \<Rightarrow> nat option" where
  "wcsspn m s accept = wcsspn_loop m s accept 0"

subsection \<open>Comparison\<close>

definition wide_ascii_tolower :: "wchar \<Rightarrow> int" where
  "wide_ascii_tolower wc = (if sint wc \<ge> 65 \<and> sint wc \<le> 90 then sint (wc - 65 + 97) else sint wc)"

definition three_way :: "int \<Rightarrow> int \<Rightarrow> int" where
  "three_way a b = (if a < b then - 1 else if a > b then 1 else 0)"

partial_function (option) wcscmp :: "wmem \<Rightarrow> addr \<Rightarrow> addr \<Rightarrow> int option" where
  "wcscmp m s1 s2 = do {
     a \<leftarrow> load m s1;
     b \<leftarrow> load m s2;
     if a \<noteq> 0 \<and> a = b then wcscmp m (s1 + 1) (s2 + 1) else Some (three_way (sint a) (sint b)) }"

function wcsncmp_loop :: "wmem \<Rightarrow> addr \<Rightarrow> addr \<Rightarrow> nat \<Rightarrow> nat \<Rightarrow> int option" where
  "wcsncmp_loop m s1 s2 i n =
     (if i < n then do {
        a \<leftarrow> load m (s1 + i);
        b \<leftarrow> load m (s2 + i);
        if a \<noteq> b \<or> a = 0 then Some (three_way (sint a) (sint b)) else wcsncmp_loop m s1 s2 (i + 1) n }
      else Some 0)"
  by pat_completeness auto
termination by (relation "measure (\<lambda>(m, s1, s2, i, n). n - i)") auto

definition wcsncmp :: "wmem \<Rightarrow> addr \<Rightarrow> addr \<Rightarrow> nat \<Rightarrow> int option" where
  "wcsncmp m s1 s2 n = wcsncmp_loop m s1 s2 0 n"

partial_function (option) wcscasecmp :: "wmem \<Rightarrow> addr \<Rightarrow> addr \<Rightarrow> int option" where
  "wcscasecmp m s1 s2 = do {
     a \<leftarrow> load m s1;
     b \<leftarrow> load m s2;
     if a \<noteq> 0 \<and> wide_ascii_tolower a = wide_ascii_tolower b then wcscasecmp m (s1 + 1) (s2 + 1)
     else Some (three_way (wide_ascii_tolower a) (wide_ascii_tolower b)) }"

function wcsncasecmp_loop :: "wmem \<Rightarrow> addr \<Rightarrow> addr \<Rightarrow> nat \<Rightarrow> nat \<Rightarrow> int option" where
  "wcsncasecmp_loop m s1 s2 i n =
     (if i < n then do {
        a \<leftarrow> load m (s1 + i);
        b \<leftarrow> load m (s2 + i);
        let c1 = wide_ascii_tolower a;
        let c2 = wide_ascii_tolower b;
        if c1 \<noteq> c2 \<or> a = 0 then Some (three_way c1 c2) else wcsncasecmp_loop m s1 s2 (i + 1) n }
      else Some 0)"
  by pat_completeness auto
termination by (relation "measure (\<lambda>(m, s1, s2, i, n). n - i)") auto

definition wcsncasecmp :: "wmem \<Rightarrow> addr \<Rightarrow> addr \<Rightarrow> nat \<Rightarrow> int option" where
  "wcsncasecmp m s1 s2 n = wcsncasecmp_loop m s1 s2 0 n"

definition wcscoll :: "wmem \<Rightarrow> addr \<Rightarrow> addr \<Rightarrow> int option" where
  "wcscoll m s1 s2 = wcscmp m s1 s2"

subsection \<open>Arrays\<close>

function wmemchr_loop :: "wmem \<Rightarrow> addr \<Rightarrow> wchar \<Rightarrow> nat \<Rightarrow> nat \<Rightarrow> addr option" where
  "wmemchr_loop m s c i n =
     (if i < n then do {
        x \<leftarrow> load m (s + i);
        if x = c then Some (s + i) else wmemchr_loop m s c (i + 1) n }
      else Some null)"
  by pat_completeness auto
termination by (relation "measure (\<lambda>(m, s, c, i, n). n - i)") auto

definition wmemchr :: "wmem \<Rightarrow> addr \<Rightarrow> wchar \<Rightarrow> nat \<Rightarrow> addr option" where
  "wmemchr m s c n = wmemchr_loop m s c 0 n"

function wmemcmp_loop :: "wmem \<Rightarrow> addr \<Rightarrow> addr \<Rightarrow> nat \<Rightarrow> nat \<Rightarrow> int option" where
  "wmemcmp_loop m s1 s2 i n =
     (if i < n then do {
        a \<leftarrow> load m (s1 + i);
        b \<leftarrow> load m (s2 + i);
        if a \<noteq> b then Some (if sint a < sint b then - 1 else 1) else wmemcmp_loop m s1 s2 (i + 1) n }
      else Some 0)"
  by pat_completeness auto
termination by (relation "measure (\<lambda>(m, s1, s2, i, n). n - i)") auto

definition wmemcmp :: "wmem \<Rightarrow> addr \<Rightarrow> addr \<Rightarrow> nat \<Rightarrow> int option" where
  "wmemcmp m s1 s2 n = wmemcmp_loop m s1 s2 0 n"

text \<open>\<open>for (i = 0; i < n; ++i) dst[i] = src[i];\<close>\<close>

function wcopy_up :: "wmem \<Rightarrow> addr \<Rightarrow> addr \<Rightarrow> nat \<Rightarrow> nat \<Rightarrow> wmem option" where
  "wcopy_up m dst src i n =
     (if i < n then do {
        c \<leftarrow> load m (src + i);
        m \<leftarrow> store m (dst + i) c;
        wcopy_up m dst src (i + 1) n }
      else Some m)"
  by pat_completeness auto
termination by (relation "measure (\<lambda>(m, dst, src, i, n). n - i)") auto

definition wmemcpy :: "wmem \<Rightarrow> addr \<Rightarrow> addr \<Rightarrow> nat \<Rightarrow> (wmem \<times> addr) option" where
  "wmemcpy m dst src n = do { m \<leftarrow> wcopy_up m dst src 0 n; Some (m, dst) }"

definition wmempcpy :: "wmem \<Rightarrow> addr \<Rightarrow> addr \<Rightarrow> nat \<Rightarrow> (wmem \<times> addr) option" where
  "wmempcpy m dst src n = do { (m, d) \<leftarrow> wmemcpy m dst src n; Some (m, d + n) }"

primrec wcopy_down :: "wmem \<Rightarrow> addr \<Rightarrow> addr \<Rightarrow> nat \<Rightarrow> wmem option" where
  "wcopy_down m dst src 0 = Some m"
| "wcopy_down m dst src (Suc i) = do {
     c \<leftarrow> load m (src + i);
     m \<leftarrow> store m (dst + i) c;
     wcopy_down m dst src i }"

definition wmemmove :: "wmem \<Rightarrow> addr \<Rightarrow> addr \<Rightarrow> nat \<Rightarrow> (wmem \<times> addr) option" where
  "wmemmove m dst src n = do {
     m \<leftarrow> (if dst < src then wcopy_up m dst src 0 n
           else if dst > src then wcopy_down m dst src n
           else Some m);
     Some (m, dst) }"

function wmemset_loop :: "wmem \<Rightarrow> addr \<Rightarrow> wchar \<Rightarrow> nat \<Rightarrow> nat \<Rightarrow> wmem option" where
  "wmemset_loop m dst c i n =
     (if i < n then do { m \<leftarrow> store m (dst + i) c; wmemset_loop m dst c (i + 1) n } else Some m)"
  by pat_completeness auto
termination by (relation "measure (\<lambda>(m, dst, c, i, n). n - i)") auto

definition wmemset :: "wmem \<Rightarrow> addr \<Rightarrow> wchar \<Rightarrow> nat \<Rightarrow> (wmem \<times> addr) option" where
  "wmemset m dst c n = do { m \<leftarrow> wmemset_loop m dst c 0 n; Some (m, dst) }"

subsection \<open>Copying strings\<close>

partial_function (option) wcscpy_loop :: "wmem \<Rightarrow> addr \<Rightarrow> addr \<Rightarrow> wmem option" where
  "wcscpy_loop m dst src = do {
     c \<leftarrow> load m src;
     m \<leftarrow> store m dst c;
     if c \<noteq> 0 then wcscpy_loop m (dst + 1) (src + 1) else Some m }"

definition wcscpy :: "wmem \<Rightarrow> addr \<Rightarrow> addr \<Rightarrow> (wmem \<times> addr) option" where
  "wcscpy m dst src = do { m \<leftarrow> wcscpy_loop m dst src; Some (m, dst) }"

partial_function (option) wcpcpy :: "wmem \<Rightarrow> addr \<Rightarrow> addr \<Rightarrow> (wmem \<times> addr) option" where
  "wcpcpy m dst src = do {
     c \<leftarrow> load m src;
     m \<leftarrow> store m dst c;
     if c \<noteq> 0 then wcpcpy m (dst + 1) (src + 1) else Some (m, dst) }"

text \<open>\<open>for (i = 0; i < n && src[i] != 0; ++i) dst[i] = src[i];\<close> and the zero padding after it.\<close>

function wcs_copy :: "wmem \<Rightarrow> addr \<Rightarrow> addr \<Rightarrow> nat \<Rightarrow> nat \<Rightarrow> (wmem \<times> nat) option" where
  "wcs_copy m dst src i n =
     (if i < n then do {
        c \<leftarrow> load m (src + i);
        if c \<noteq> 0 then do { m \<leftarrow> store m (dst + i) c; wcs_copy m dst src (i + 1) n }
        else Some (m, i) }
      else Some (m, i))"
  by pat_completeness auto
termination by (relation "measure (\<lambda>(m, dst, src, i, n). n - i)") auto

definition wcsncpy :: "wmem \<Rightarrow> addr \<Rightarrow> addr \<Rightarrow> nat \<Rightarrow> (wmem \<times> addr) option" where
  "wcsncpy m dst src n = do {
     (m, i) \<leftarrow> wcs_copy m dst src 0 n;
     m \<leftarrow> wmemset_loop m dst 0 i n;
     Some (m, dst) }"

definition wcpncpy :: "wmem \<Rightarrow> addr \<Rightarrow> addr \<Rightarrow> nat \<Rightarrow> (wmem \<times> addr) option" where
  "wcpncpy m dst src n = do {
     (m, i) \<leftarrow> wcs_copy m dst src 0 n;
     if i = n then Some (m, dst + n)
     else do {
       let e = dst + i;
       m \<leftarrow> store m (dst + i) 0;
       m \<leftarrow> wmemset_loop m dst 0 (i + 1) n;
       Some (m, e) } }"

definition wcscat :: "wmem \<Rightarrow> addr \<Rightarrow> addr \<Rightarrow> (wmem \<times> addr) option" where
  "wcscat m dst src = do {
     l \<leftarrow> wcslen m dst;
     (m, _) \<leftarrow> wcscpy m (dst + l) src;
     Some (m, dst) }"

definition wcsncat :: "wmem \<Rightarrow> addr \<Rightarrow> addr \<Rightarrow> nat \<Rightarrow> (wmem \<times> addr) option" where
  "wcsncat m dst src n = do {
     l \<leftarrow> wcslen m dst;
     let d = dst + l;
     (m, i) \<leftarrow> wcs_copy m d src 0 n;
     m \<leftarrow> store m (d + i) 0;
     Some (m, dst) }"

definition wcslcpy :: "wmem \<Rightarrow> addr \<Rightarrow> addr \<Rightarrow> nat \<Rightarrow> (wmem \<times> nat) option" where
  "wcslcpy m dst src n = do {
     len \<leftarrow> wcslen m src;
     if n \<noteq> 0 then do {
       let copy = (if len \<ge> n then n - 1 else len);
       (m, _) \<leftarrow> wmemcpy m dst src copy;
       m \<leftarrow> store m (dst + copy) 0;
       Some (m, len) }
     else Some (m, len) }"

definition wcslcat :: "wmem \<Rightarrow> addr \<Rightarrow> addr \<Rightarrow> nat \<Rightarrow> (wmem \<times> nat) option" where
  "wcslcat m dst src n = do {
     dst_len \<leftarrow> wcsnlen m dst n;
     src_len \<leftarrow> wcslen m src;
     if dst_len = n then Some (m, n + src_len)
     else if n > dst_len + 1 then do {
       let copy = (if src_len \<ge> n - dst_len then n - dst_len - 1 else src_len);
       (m, _) \<leftarrow> wmemcpy m (dst + dst_len) src copy;
       m \<leftarrow> store m (dst + dst_len + copy) 0;
       Some (m, dst_len + src_len) }
     else Some (m, dst_len + src_len) }"

definition wcsxfrm :: "wmem \<Rightarrow> addr \<Rightarrow> addr \<Rightarrow> nat \<Rightarrow> (wmem \<times> nat) option" where
  "wcsxfrm m dst src n = do {
     len \<leftarrow> wcslen m src;
     if dst \<noteq> null \<and> n \<noteq> 0 then do {
       let copy = (if len \<ge> n then n - 1 else len);
       m \<leftarrow> wcopy_up m dst src 0 copy;
       m \<leftarrow> store m (dst + copy) 0;
       Some (m, len) }
     else Some (m, len) }"

subsection \<open>Substrings and tokens\<close>

partial_function (option) wcsstr_loop :: "wmem \<Rightarrow> addr \<Rightarrow> addr \<Rightarrow> nat \<Rightarrow> addr option" where
  "wcsstr_loop m s needle find_len = do {
     x \<leftarrow> load m s;
     if x \<noteq> 0 then do {
       f \<leftarrow> load m needle;
       d \<leftarrow> (if x = f then wcsncmp m s needle find_len else Some 1);
       if d = 0 then Some s else wcsstr_loop m (s + 1) needle find_len }
     else Some null }"

definition wcsstr :: "wmem \<Rightarrow> addr \<Rightarrow> addr \<Rightarrow> addr option" where
  "wcsstr m s needle = do {
     find_len \<leftarrow> wcslen m needle;
     if find_len = 0 then Some s else wcsstr_loop m s needle find_len }"

text \<open>
  \<open>wcstok\<close>: \<open>ptr\<close> is the caller's pointer variable (\<^term>\<open>None\<close> when the caller passes a null
  \<open>wchar_t**\<close>); the result is the memory, the token and the new value of that variable.
\<close>

definition wcstok :: "wmem \<Rightarrow> addr \<Rightarrow> addr \<Rightarrow> addr option \<Rightarrow> (wmem \<times> addr \<times> addr option) option" where
  "wcstok m s delimiter ptr = (case ptr of
     None \<Rightarrow> Some (m, null, None)
   | Some saved \<Rightarrow>
     let s = (if s = null then saved else s) in
     if s = null then Some (m, null, ptr)
     else do {
       n \<leftarrow> wcsspn m s delimiter;
       let s = s + n;
       c \<leftarrow> load m s;
       if c = 0 then Some (m, null, Some null)
       else do {
         let token = s;
         n \<leftarrow> wcscspn m s delimiter;
         let s = s + n;
         c \<leftarrow> load m s;
         if c \<noteq> 0 then do { m \<leftarrow> store m s 0; Some (m, token, Some (s + 1)) }
         else Some (m, token, Some null) } })"

declare wcsnlen_loop.simps [simp del] wcsncmp_loop.simps [simp del] wcsncasecmp_loop.simps [simp del]
  wmemchr_loop.simps [simp del] wmemcmp_loop.simps [simp del] wcopy_up.simps [simp del]
  wmemset_loop.simps [simp del] wcs_copy.simps [simp del]

subsection \<open>Wide strings in memory\<close>

named_theorems wstr_simps \<open>facts about wide strings in memory\<close>

definition wstr :: "wmem \<Rightarrow> addr \<Rightarrow> wchar list \<Rightarrow> bool" where
  "wstr m p s \<longleftrightarrow> 0 \<notin> set s \<and> bytes_at m p (s @ [0])"

lemma wstr_Nil [wstr_simps]: "wstr m p [] \<longleftrightarrow> m p = Some 0"
  by (simp add: wstr_def)

lemma wstr_Cons [wstr_simps]: "wstr m p (c # s) \<longleftrightarrow> c \<noteq> 0 \<and> m p = Some c \<and> wstr m (Suc p) s"
  by (auto simp: wstr_def)

lemma wstr_bytes: "wstr m p s \<Longrightarrow> bytes_at m p s"
  by (simp add: wstr_def)

lemma wstr_nonzero: "wstr m p s \<Longrightarrow> 0 \<notin> set s"
  by (simp add: wstr_def)

lemma wstr_end: "wstr m p s \<Longrightarrow> m (p + length s) = Some 0"
  by (simp add: wstr_def)

lemma wstr_drop: "wstr m p s \<Longrightarrow> n \<le> length s \<Longrightarrow> wstr m (p + n) (drop n s)"
  using bytes_at_drop [of m p "s @ [0]" n] by (auto simp: wstr_def dest: in_set_dropD)

lemma wstr_upd_other: "a < q \<or> q + length s < a \<Longrightarrow> wstr m q s \<Longrightarrow> wstr (m(a \<mapsto> c)) q s"
  unfolding wstr_def by (auto intro!: bytes_at_upd_other)

lemma wcslen_loop_Some [wstr_simps]: "wstr m p s \<Longrightarrow> wcslen_loop m p = Some (p + length s)"
  by (induction s arbitrary: p; subst wcslen_loop.simps) (simp_all add: wstr_simps load_def)

lemma wcslen_Some [wstr_simps]: "wstr m p s \<Longrightarrow> wcslen m p = Some (length s)"
  by (simp add: wcslen_def wcslen_loop_Some)

lemma wcsnlen_loop_Some:
  "wstr m (p + i) s \<Longrightarrow> wcsnlen_loop m p i (i + n) = Some (i + min n (length s))"
proof (induction n arbitrary: i s)
  case 0
  then show ?case by (simp add: wcsnlen_loop.simps)
next
  case (Suc n)
  note IH = Suc.IH [of "Suc i"]
  show ?case using Suc.prems IH
    by (subst wcsnlen_loop.simps; cases s) (auto simp: wstr_simps load_def)
qed

lemma wcsnlen_Some: "wstr m p s \<Longrightarrow> wcsnlen m p n = Some (min n (length s))"
  using wcsnlen_loop_Some [of m p 0 s n] by (simp add: wcsnlen_def)

lemma wcschr_Some:
  "wstr m p s \<Longrightarrow> wcschr m p c =
    Some (if c \<in> set (s @ [0]) then p + length (takeWhile (\<lambda>x. x \<noteq> c) (s @ [0])) else null)"
  by (induction s arbitrary: p; subst wcschr.simps) (auto simp: wstr_simps load_def)

text \<open>Membership in a set of characters, as the span functions ask for it.\<close>

lemma wcschr_found:
  "wstr m q d \<Longrightarrow> q \<noteq> null \<Longrightarrow> x \<noteq> 0 \<Longrightarrow> \<exists>p. wcschr m q x = Some p \<and> (p = null \<longleftrightarrow> x \<notin> set d)"
  by (auto simp: wcschr_Some)

lemma wcspbrk_Some:
  assumes q: "wstr m q d" "q \<noteq> null"
  shows "wstr m p s \<Longrightarrow> wcspbrk m p q =
    Some (if set s \<inter> set d = {} then null else p + length (takeWhile (\<lambda>c. c \<notin> set d) s))"
proof (induction s arbitrary: p)
  case Nil
  then show ?case by (subst wcspbrk.simps) (simp add: wstr_simps load_def)
next
  case (Cons x s)
  then have x: "x \<noteq> 0" "m p = Some x" "wstr m (Suc p) s" by (simp_all add: wstr_simps)
  obtain r where r: "wcschr m q x = Some r" "r = null \<longleftrightarrow> x \<notin> set d" using wcschr_found [OF q x(1)] by blast
  show ?case using Cons.IH [OF x(3)] x r by (subst wcspbrk.simps) (auto simp: load_def)
qed

lemma wcsspn_loop_Some:
  assumes q: "wstr m q d" "q \<noteq> null"
  shows "wstr m (p + n) s \<Longrightarrow> wcsspn_loop m p q n = Some (n + length (takeWhile (\<lambda>c. c \<in> set d) s))"
proof (induction s arbitrary: n)
  case Nil
  then show ?case by (subst wcsspn_loop.simps) (simp add: wstr_simps load_def)
next
  case (Cons x s)
  then have x: "x \<noteq> 0" "m (p + n) = Some x" "wstr m (p + Suc n) s" by (simp_all add: wstr_simps)
  obtain r where r: "wcschr m q x = Some r" "r = null \<longleftrightarrow> x \<notin> set d" using wcschr_found [OF q x(1)] by blast
  show ?case using Cons.IH [OF x(3)] x r by (subst wcsspn_loop.simps) (auto simp: load_def)
qed

lemma wcsspn_Some:
  "wstr m q d \<Longrightarrow> q \<noteq> null \<Longrightarrow> wstr m p s \<Longrightarrow> wcsspn m p q = Some (length (takeWhile (\<lambda>c. c \<in> set d) s))"
  using wcsspn_loop_Some [of m q d p 0 s] by (simp add: wcsspn_def)

lemma wcscspn_loop_Some:
  assumes q: "wstr m q d" "q \<noteq> null"
  shows "wstr m (p + n) s \<Longrightarrow> wcscspn_loop m p q n = Some (n + length (takeWhile (\<lambda>c. c \<notin> set d) s))"
proof (induction s arbitrary: n)
  case Nil
  then show ?case by (subst wcscspn_loop.simps) (simp add: wstr_simps load_def)
next
  case (Cons x s)
  then have x: "x \<noteq> 0" "m (p + n) = Some x" "wstr m (p + Suc n) s" by (simp_all add: wstr_simps)
  obtain r where r: "wcschr m q x = Some r" "r = null \<longleftrightarrow> x \<notin> set d" using wcschr_found [OF q x(1)] by blast
  show ?case using Cons.IH [OF x(3)] x r by (subst wcscspn_loop.simps) (auto simp: load_def)
qed

lemma wcscspn_Some:
  "wstr m q d \<Longrightarrow> q \<noteq> null \<Longrightarrow> wstr m p s \<Longrightarrow> wcscspn m p q = Some (length (takeWhile (\<lambda>c. c \<notin> set d) s))"
  using wcscspn_loop_Some [of m q d p 0 s] by (simp add: wcscspn_def)

lemma wcsrchr_loop_Some:
  "wstr m p s \<Longrightarrow> wcsrchr_loop m p c lst =
    Some (if c \<in> set (s @ [0]) then p + last_index c (s @ [0]) else lst)"
proof (induction s arbitrary: p lst)
  case Nil
  then show ?case
    by (subst wcsrchr_loop.simps) (simp add: wstr_simps load_def Let_def last_index_hd)
next
  case (Cons x s)
  have "c = x \<Longrightarrow> c \<notin> set (s @ [0]) \<Longrightarrow> last_index c (x # s @ [0]) = 0"
    using last_index_hd [of c "s @ [0]"] by simp
  moreover have "c \<in> set (s @ [0]) \<Longrightarrow> last_index c (x # s @ [0]) = Suc (last_index c (s @ [0]))"
    by (rule last_index_Cons)
  ultimately show ?case using Cons
    by (subst wcsrchr_loop.simps) (auto simp: wstr_simps load_def Let_def)
qed

lemma wcsrchr_Some:
  "wstr m p s \<Longrightarrow> wcsrchr m p c = Some (if c \<in> set (s @ [0]) then p + last_index c (s @ [0]) else null)"
  by (simp add: wcsrchr_def wcsrchr_loop_Some)

subsection \<open>Comparing wide strings\<close>

text \<open>The comparison of two blocks by a key: the sign of the first difference.\<close>

fun wcmp :: "(wchar \<Rightarrow> int) \<Rightarrow> wchar list \<Rightarrow> wchar list \<Rightarrow> int" where
  "wcmp f (a # s) (b # t) = (if f a = f b then wcmp f s t else three_way (f a) (f b))"
| "wcmp f _ _ = 0"

lemma three_way_simps [simp]: "three_way a a = 0" "three_way a b = 0 \<longleftrightarrow> a = b"
  by (auto simp: three_way_def)

lemma sint_inject [simp]: "sint a = sint b \<longleftrightarrow> a = b"
  by (auto intro: signed_word_eqI)

lemma wide_lower_value:
  "wide_ascii_tolower a = (if 65 \<le> sint a \<and> sint a \<le> 90 then sint a + 32 else sint a)"
proof -
  have "sint (a - 65 + 97) = sint a + 32" if "65 \<le> sint a" "sint a \<le> 90"
  proof -
    have "a - 65 + 97 = of_int (sint a + 32)" by simp
    moreover have "sint (of_int (sint a + 32) :: wchar) = sint a + 32"
      unfolding sint_sbintrunc' using that by (intro signed_take_bit_int_eq_self) simp_all
    ultimately show ?thesis by (simp only:)
  qed
  then show ?thesis by (simp add: wide_ascii_tolower_def)
qed

lemma wide_lower_0 [simp]: "wide_ascii_tolower a = 0 \<longleftrightarrow> a = 0" "0 = wide_ascii_tolower a \<longleftrightarrow> a = 0"
proof -
  have "sint a = 0 \<longleftrightarrow> a = 0" using sint_inject [of a 0] by simp
  then show "wide_ascii_tolower a = 0 \<longleftrightarrow> a = 0" "0 = wide_ascii_tolower a \<longleftrightarrow> a = 0"
    by (auto simp: wide_lower_value split: if_splits)
qed

lemma wide_lower_zero [simp]: "wide_ascii_tolower 0 = 0"
  by simp

lemma wcscmp_Some:
  "wstr m p s \<Longrightarrow> wstr m q t \<Longrightarrow> wcscmp m p q = Some (wcmp sint (s @ [0]) (t @ [0]))"
proof (induction s arbitrary: p q t)
  case Nil
  then show ?case by (subst wcscmp.simps; cases t) (auto simp: wstr_simps load_def)
next
  case (Cons a s)
  then show ?case by (subst wcscmp.simps; cases t) (auto simp: wstr_simps load_def)
qed

lemma wcscasecmp_Some:
  "wstr m p s \<Longrightarrow> wstr m q t \<Longrightarrow> wcscasecmp m p q = Some (wcmp wide_ascii_tolower (s @ [0]) (t @ [0]))"
proof (induction s arbitrary: p q t)
  case Nil
  then show ?case by (subst wcscasecmp.simps; cases t) (auto simp: wstr_simps load_def)
next
  case (Cons a s)
  then show ?case by (subst wcscasecmp.simps; cases t) (auto simp: wstr_simps load_def)
qed

lemma wcsncmp_loop_Some:
  "wstr m (p + i) s \<Longrightarrow> wstr m (q + i) t \<Longrightarrow>
    wcsncmp_loop m p q i (i + n) = Some (wcmp sint (take n (s @ [0])) (take n (t @ [0])))"
proof (induction n arbitrary: i s t)
  case 0
  then show ?case by (simp add: wcsncmp_loop.simps)
next
  case (Suc n)
  note IH = Suc.IH [of "Suc i"]
  show ?case using Suc.prems IH
    by (subst wcsncmp_loop.simps; cases s; cases t) (auto simp: wstr_simps load_def)
qed

lemma wcsncmp_Some:
  "wstr m p s \<Longrightarrow> wstr m q t \<Longrightarrow> wcsncmp m p q n = Some (wcmp sint (take n (s @ [0])) (take n (t @ [0])))"
  using wcsncmp_loop_Some [of m p 0 s q t n] by (simp add: wcsncmp_def)

lemma wcsncasecmp_loop_Some:
  "wstr m (p + i) s \<Longrightarrow> wstr m (q + i) t \<Longrightarrow> wcsncasecmp_loop m p q i (i + n) =
    Some (wcmp wide_ascii_tolower (take n (s @ [0])) (take n (t @ [0])))"
proof (induction n arbitrary: i s t)
  case 0
  then show ?case by (simp add: wcsncasecmp_loop.simps)
next
  case (Suc n)
  note IH = Suc.IH [of "Suc i"]
  show ?case using Suc.prems IH
    by (subst wcsncasecmp_loop.simps; cases s; cases t) (auto simp: wstr_simps load_def Let_def)
qed

lemma wcsncasecmp_Some:
  "wstr m p s \<Longrightarrow> wstr m q t \<Longrightarrow> wcsncasecmp m p q n =
    Some (wcmp wide_ascii_tolower (take n (s @ [0])) (take n (t @ [0])))"
  using wcsncasecmp_loop_Some [of m p 0 s q t n] by (simp add: wcsncasecmp_def)

subsection \<open>Copying blocks\<close>

lemma wcopy_up_Some:
  "bytes_at m (src + i) s \<Longrightarrow> mapped m (dst + i) (length s) \<Longrightarrow> dst \<le> src \<or> src + i + length s \<le> dst + i \<Longrightarrow>
    wcopy_up m dst src i (i + length s) = Some (mem_put m (dst + i) s)"
proof (induction s arbitrary: m i)
  case Nil
  then show ?case by (simp add: wcopy_up.simps)
next
  case (Cons c s)
  have "bytes_at (m(dst + i \<mapsto> c)) (src + Suc i) s"
    using Cons.prems by (subst bytes_at_upd_other) auto
  moreover have "mapped (m(dst + i \<mapsto> c)) (dst + Suc i) (length s)"
    using Cons.prems(2) by (simp add: mapped_Suc)
  moreover have "dst \<le> src \<or> src + Suc i + length s \<le> dst + Suc i" using Cons.prems(3) by auto
  ultimately have "wcopy_up (m(dst + i \<mapsto> c)) dst src (Suc i) (Suc i + length s) =
      Some (mem_put (m(dst + i \<mapsto> c)) (dst + Suc i) s)" by (rule Cons.IH)
  then show ?case using Cons.prems
    by (subst wcopy_up.simps) (simp add: load_def mapped_Suc mem_put_Cons [of m] del: not_None_eq)
qed

lemma wmemcpy_Some:
  "bytes_at m src s \<Longrightarrow> mapped m dst (length s) \<Longrightarrow> dst \<le> src \<or> src + length s \<le> dst \<Longrightarrow>
    wmemcpy m dst src (length s) = Some (mem_put m dst s, dst)"
  using wcopy_up_Some [of m src 0 s dst] by (simp add: wmemcpy_def)

lemma wmempcpy_Some:
  "bytes_at m src s \<Longrightarrow> mapped m dst (length s) \<Longrightarrow> dst \<le> src \<or> src + length s \<le> dst \<Longrightarrow>
    wmempcpy m dst src (length s) = Some (mem_put m dst s, dst + length s)"
  using wmemcpy_Some by (simp add: wmempcpy_def)

lemma wcopy_down_Some:
  "bytes_at m src s \<Longrightarrow> mapped m dst (length s) \<Longrightarrow> src \<le> dst \<Longrightarrow>
    wcopy_down m dst src (length s) = Some (mem_put m dst s)"
proof (induction s arbitrary: m rule: rev_induct)
  case (snoc c s)
  have m: "mapped m dst (length s)" "m (dst + length s) \<noteq> None"
    using snoc.prems(2) mapped_add [of m dst "length s" 1] by (simp_all add: mapped_Suc)
  have "bytes_at (m(dst + length s \<mapsto> c)) src s"
    using snoc.prems by (subst bytes_at_upd_other) auto
  moreover have "mapped (m(dst + length s \<mapsto> c)) dst (length s)" using m(1) by simp
  ultimately have "wcopy_down (m(dst + length s \<mapsto> c)) dst src (length s) =
      Some (mem_put (m(dst + length s \<mapsto> c)) dst s)" by (rule snoc.IH) (rule snoc.prems(3))
  moreover have "mem_put (m(dst + length s \<mapsto> c)) dst s = mem_put m dst (s @ [c])"
    by (auto simp: mem_put_def fun_eq_iff nth_append)
  ultimately show ?case using snoc.prems(1) m by (simp add: load_def del: not_None_eq)
qed simp

text \<open>\<open>wmemmove\<close> meets the contract of \<open>memmove\<close>: any overlap is allowed.\<close>

interpretation wmemmove: block_copy wmemmove
proof
  fix m :: wmem and src dst n s
  assume s: "bytes_at m src s" "n = length s" "mapped m dst n"
  consider "dst < src" | "src < dst" | "dst = src" by linarith
  then show "wmemmove m dst src n = Some (mem_put m dst s, dst)"
  proof cases
    case 1
    then show ?thesis using s wcopy_up_Some [of m src 0 s dst] by (simp add: wmemmove_def)
  next
    case 2
    then show ?thesis using s wcopy_down_Some [of m src s dst] by (simp add: wmemmove_def)
  next
    case 3
    then show ?thesis using s by (simp add: wmemmove_def mem_put_same)
  qed
qed

lemma wmemset_loop_Some:
  "mapped m (dst + i) k \<Longrightarrow> wmemset_loop m dst c i (i + k) = Some (mem_put m (dst + i) (replicate k c))"
proof (induction k arbitrary: m i)
  case 0
  then show ?case by (simp add: wmemset_loop.simps)
next
  case (Suc k)
  have "mapped (m(dst + i \<mapsto> c)) (dst + Suc i) k" using Suc.prems by (simp add: mapped_Suc)
  then have "wmemset_loop (m(dst + i \<mapsto> c)) dst c (Suc i) (Suc i + k) =
      Some (mem_put (m(dst + i \<mapsto> c)) (dst + Suc i) (replicate k c))" by (rule Suc.IH)
  with Suc.prems show ?case
    by (subst wmemset_loop.simps) (simp add: mapped_Suc mem_put_Cons [of m] del: not_None_eq)
qed

lemma wmemset_Some: "mapped m dst n \<Longrightarrow> wmemset m dst c n = Some (mem_put m dst (replicate n c), dst)"
  using wmemset_loop_Some [of m dst 0 n c] by (simp add: wmemset_def)

lemma wmemchr_loop_Some:
  "bytes_at m (p + i) s \<Longrightarrow> wmemchr_loop m p c i (i + length s) =
    Some (if c \<in> set s then p + i + length (before c s) else null)"
proof (induction s arbitrary: i)
  case Nil
  then show ?case by (simp add: wmemchr_loop.simps)
next
  case (Cons x s)
  note IH = Cons.IH [of "Suc i"]
  show ?case using Cons.prems IH by (subst wmemchr_loop.simps) (auto simp: load_def)
qed

lemma wmemchr_Some:
  "bytes_at m p s \<Longrightarrow> wmemchr m p c (length s) = Some (if c \<in> set s then p + length (before c s) else null)"
  using wmemchr_loop_Some [of m p 0 s c] by (simp add: wmemchr_def)

lemma wmemcmp_loop_Some:
  "bytes_at m (p + i) s \<Longrightarrow> bytes_at m (q + i) t \<Longrightarrow> length s = length t \<Longrightarrow>
    wmemcmp_loop m p q i (i + length s) = Some (wcmp sint s t)"
proof (induction s t arbitrary: i rule: list_induct2')
  case (4 x s y t)
  note IH = 4(1) [of "Suc i"]
  show ?case using 4(2-) IH by (subst wmemcmp_loop.simps) (auto simp: load_def three_way_def dest: sint_inject [THEN iffD1])
qed (simp_all add: wmemcmp_loop.simps)

lemma wmemcmp_Some:
  "bytes_at m p s \<Longrightarrow> bytes_at m q t \<Longrightarrow> length s = length t \<Longrightarrow> wmemcmp m p q (length s) = Some (wcmp sint s t)"
  using wmemcmp_loop_Some [of m p 0 s q t] by (simp add: wmemcmp_def)

subsection \<open>Copying wide strings\<close>

lemma wcpcpy_Some:
  assumes "wstr m src s" and "mapped m dst (Suc (length s))"
    and "dst + length s < src \<or> src + length s < dst"
  shows "wcpcpy m dst src = Some (mem_put m dst (s @ [0]), dst + length s) \<and>
    wcscpy_loop m dst src = Some (mem_put m dst (s @ [0]))"
  using assms
proof (induction s arbitrary: m dst src)
  case Nil
  then show ?case
    by (subst wcpcpy.simps, subst wcscpy_loop.simps)
      (simp add: wstr_simps load_def mapped_Suc mem_put_single del: not_None_eq)
next
  case (Cons c s)
  have "wstr (m(dst \<mapsto> c)) (Suc src) s"
    using Cons.prems by (intro wstr_upd_other) (auto simp: wstr_simps)
  moreover have "mapped (m(dst \<mapsto> c)) (Suc dst) (Suc (length s))"
    using Cons.prems(2) by (simp add: mapped_Suc)
  moreover have "Suc dst + length s < Suc src \<or> Suc src + length s < Suc dst"
    using Cons.prems(3) by auto
  ultimately have "wcpcpy (m(dst \<mapsto> c)) (Suc dst) (Suc src) =
      Some (mem_put (m(dst \<mapsto> c)) (Suc dst) (s @ [0]), Suc dst + length s) \<and>
      wcscpy_loop (m(dst \<mapsto> c)) (Suc dst) (Suc src) = Some (mem_put (m(dst \<mapsto> c)) (Suc dst) (s @ [0]))"
    by (rule Cons.IH)
  then show ?case using Cons.prems
    by (subst wcpcpy.simps, subst wcscpy_loop.simps)
      (simp add: wstr_simps load_def mapped_Suc mem_put_Cons [of m] del: not_None_eq)
qed

lemma wcscpy_Some:
  assumes "wstr m src s" and "mapped m dst (Suc (length s))"
    and "dst + length s < src \<or> src + length s < dst"
  shows "wcscpy m dst src = Some (mem_put m dst (s @ [0]), dst)"
  using wcpcpy_Some [OF assms] by (simp add: wcscpy_def)

lemma wcscat_Some:
  assumes "wstr m s d" and "wstr m a t" and "mapped m s (Suc (length d + length t))"
    and "s + length d + length t < a \<or> a + length t < s + length d"
  shows "wcscat m s a = Some (mem_put m s (d @ t @ [0]), s)"
proof -
  have mp: "mapped m (s + length d) (Suc (length t))"
    using assms(3) mapped_add [of m s "length d" "Suc (length t)"] by simp
  have "mem_put m s (d @ t @ [0]) = mem_put m (s + length d) (t @ [0])"
    using wstr_bytes [OF assms(1)] by (simp add: mem_put_append [of m s d] mem_put_same)
  with wcscpy_Some [OF assms(2) mp assms(4)] show ?thesis
    by (simp add: wcscat_def wcslen_Some [OF assms(1)])
qed

lemma wcs_copy_Some:
  assumes "wstr m (src + i) s" and "mapped m (dst + i) (length (take k s))"
    and "dst + i + length (take k s) \<le> src + i \<or> src + i + length s < dst + i"
  shows "wcs_copy m dst src i (i + k) = Some (mem_put m (dst + i) (take k s), i + length (take k s))"
  using assms
proof (induction k arbitrary: m i s)
  case 0
  then show ?case by (simp add: wcs_copy.simps)
next
  case (Suc k)
  show ?case
  proof (cases s)
    case Nil
    with Suc.prems show ?thesis
      by (subst wcs_copy.simps) (simp add: wstr_simps load_def)
  next
    case (Cons c t)
    have "wstr (m(dst + i \<mapsto> c)) (src + Suc i) t"
      using Suc.prems Cons by (intro wstr_upd_other) (auto simp: wstr_simps)
    moreover have "mapped (m(dst + i \<mapsto> c)) (dst + Suc i) (length (take k t))"
      using Suc.prems(2) Cons by (simp add: mapped_Suc)
    moreover have "dst + Suc i + length (take k t) \<le> src + Suc i \<or> src + Suc i + length t < dst + Suc i"
      using Suc.prems(3) Cons by auto
    ultimately have "wcs_copy (m(dst + i \<mapsto> c)) dst src (Suc i) (Suc i + k) =
        Some (mem_put (m(dst + i \<mapsto> c)) (dst + Suc i) (take k t), Suc i + length (take k t))"
      by (rule Suc.IH)
    with Suc.prems Cons show ?thesis
      by (subst wcs_copy.simps)
        (simp add: wstr_simps load_def mapped_Suc mem_put_Cons [of m] del: not_None_eq)
  qed
qed

text \<open>The string cut to \<open>n\<close> and padded with zeros to \<open>n\<close>.\<close>

definition wpadded :: "nat \<Rightarrow> wchar list \<Rightarrow> wchar list" where
  "wpadded n s = take n s @ replicate (n - length s) 0"

lemma wcsncpy_Some:
  assumes "wstr m src s" and "mapped m dst n" and "dst + n \<le> src \<or> src + length s < dst"
  shows "wcsncpy m dst src n = Some (mem_put m dst (wpadded n s), dst)"
proof -
  let ?k = "length (take n s)"
  have c: "wcs_copy m dst src 0 n = Some (mem_put m dst (take n s), ?k)"
    using wcs_copy_Some [of m src 0 s dst n] assms mapped_mono [OF assms(2), of ?k] by auto
  have k: "?k + (n - length s) = n" by auto
  have "mapped (mem_put m dst (take n s)) (dst + ?k) (n - length s)"
    using assms(2) mapped_add [of m dst ?k "n - length s"] k by simp
  from wmemset_loop_Some [OF this, of 0] k c show ?thesis
    by (simp add: wcsncpy_def wpadded_def mem_put_append)
qed

lemma wcpncpy_Some:
  assumes "wstr m src s" and "mapped m dst n" and "dst + n \<le> src \<or> src + length s < dst"
  shows "wcpncpy m dst src n = Some (mem_put m dst (wpadded n s), dst + min n (length s))"
proof -
  let ?k = "length (take n s)"
  have c: "wcs_copy m dst src 0 n = Some (mem_put m dst (take n s), ?k)"
    using wcs_copy_Some [of m src 0 s dst n] assms mapped_mono [OF assms(2), of ?k] by auto
  show ?thesis
  proof (cases "n \<le> length s")
    case True
    with c show ?thesis by (simp add: wcpncpy_def wpadded_def)
  next
    case False
    define j where "j = n - Suc (length s)"
    have n: "n = length s + Suc j" using False by (simp add: j_def)
    have m: "m (dst + length s) \<noteq> None" "mapped m (dst + length s + 1) j"
      using assms(2) mapped_add [of m dst "length s" "Suc j"] by (simp_all add: n mapped_Suc)
    let ?m = "(mem_put m dst s)(dst + length s \<mapsto> 0)"
    have "wmemset_loop ?m dst 0 (Suc (length s)) n = Some (mem_put ?m (dst + Suc (length s)) (replicate j 0))"
      using wmemset_loop_Some [of ?m dst "Suc (length s)" j 0] m(2) by (simp add: n)
    moreover have "mem_put ?m (dst + Suc (length s)) (replicate j 0) = mem_put m dst (wpadded n s)"
      by (simp add: wpadded_def n mem_put_append [of m dst s] mem_put_Cons)
    ultimately show ?thesis using c m(1) False by (simp add: wcpncpy_def n del: not_None_eq)
  qed
qed

lemma wcsncat_Some:
  assumes "wstr m dst d" and "wstr m src s" and "mapped m dst (Suc (length d + length (take n s)))"
    and "dst + length d + length (take n s) < src \<or> src + length s < dst + length d"
  shows "wcsncat m dst src n = Some (mem_put m dst (d @ take n s @ [0]), dst)"
proof -
  let ?t = "take n s" and ?e = "dst + length d"
  have mp: "mapped m ?e (length ?t)" "m (?e + length ?t) \<noteq> None"
    using assms(3) mapped_add [of m dst "length d" "Suc (length ?t)"]
      mapped_add [of m ?e "length ?t" 1] by (simp_all add: mapped_Suc)
  have "wcs_copy m ?e src 0 n = Some (mem_put m ?e ?t, length ?t)"
    using wcs_copy_Some [of m src 0 s ?e n] assms(2,4) mp(1) by auto
  moreover have "mem_put m dst (d @ ?t @ [0]) = (mem_put m ?e ?t)(?e + length ?t \<mapsto> 0)"
    using wstr_bytes [OF assms(1)] by (simp add: mem_put_append [of m dst d] mem_put_same mem_put_snoc)
  ultimately show ?thesis using mp(2) wcslen_Some [OF assms(1)]
    by (simp add: wcsncat_def Let_def del: not_None_eq)
qed

subsection \<open>Bounded copies\<close>

lemma wcopy_terminate:
  assumes "bytes_at m src s" "k \<le> length s" "mapped m dst (Suc k)" "dst \<le> src \<or> src + k \<le> dst"
  shows "wcopy_up m dst src 0 k = Some (mem_put m dst (take k s))"
    "mem_put m dst (take k s) (dst + k) \<noteq> None"
    "(mem_put m dst (take k s))(dst + k \<mapsto> z) = mem_put m dst (take k s @ [z])"
proof -
  have t: "length (take k s) = k" using assms(2) by simp
  have mp: "mapped m dst k" "m (dst + k) \<noteq> None"
    using assms(3) mapped_add [of m dst k 1] by (simp_all add: mapped_Suc)
  show "wcopy_up m dst src 0 k = Some (mem_put m dst (take k s))"
    using wcopy_up_Some [of m src 0 "take k s" dst] bytes_at_take [OF assms(1)] mp(1) assms(4) t by simp
  show "mem_put m dst (take k s) (dst + k) \<noteq> None" using mp(2) t by simp
  show "(mem_put m dst (take k s))(dst + k \<mapsto> z) = mem_put m dst (take k s @ [z])"
    using t by (simp add: mem_put_snoc)
qed

lemma wcslcpy_Some:
  assumes "wstr m src s" and "0 < n" and "mapped m dst (min n (Suc (length s)))"
    and "dst \<le> src \<or> src + min (n - 1) (length s) \<le> dst"
  shows "wcslcpy m dst src n = Some (mem_put m dst (take (n - 1) s @ [0]), length s)"
proof -
  define k where "k = min (n - 1) (length s)"
  have "mapped m dst (Suc k)" using mapped_mono [OF assms(3), of "Suc k"] assms(2) by (simp add: k_def)
  from wcopy_terminate [OF wstr_bytes [OF assms(1)] _ this] assms(4)
  have c: "wmemcpy m dst src k = Some (mem_put m dst (take k s), dst)"
    "mem_put m dst (take k s) (dst + k) \<noteq> None"
    "(mem_put m dst (take k s))(dst + k \<mapsto> 0) = mem_put m dst (take k s @ [0])"
    by (simp_all add: k_def wmemcpy_def)
  have "(if length s \<ge> n then n - 1 else length s) = k" "take k s = take (n - 1) s"
    using assms(2) by (auto simp: k_def min_def)
  then show ?thesis using c assms(2)
    by (simp add: wcslcpy_def wcslen_Some [OF assms(1)] del: not_None_eq)
qed

lemma wcsxfrm_Some:
  assumes "wstr m src s" and "0 < n" and "mapped m dst (min n (Suc (length s)))" and "dst \<noteq> null"
    and "dst \<le> src \<or> src + min (n - 1) (length s) \<le> dst"
  shows "wcsxfrm m dst src n = wcslcpy m dst src n"
  using assms(2,4) wcslen_Some [OF assms(1)] by (simp add: wcsxfrm_def wcslcpy_def wmemcpy_def Let_def)

text \<open>\<open>d\<close> is the string that \<open>dst\<close> holds; when there is no room for it the result says so.\<close>

lemma wcslcat_Some:
  assumes "wstr m src s" and "wstr m dst d" and "length d < n" and "mapped m dst n"
    and "dst + length d \<le> src \<or> src + length s \<le> dst + length d"
  shows "wcslcat m dst src n =
    Some (mem_put m (dst + length d) (take (n - length d - 1) s @ [0]), length d + length s)"
proof -
  define k where "k = min (n - length d - 1) (length s)"
  let ?e = "dst + length d"
  have mp: "mapped m ?e (n - length d)"
    using assms(3,4) mapped_add [of m dst "length d" "n - length d"] by simp
  then have "mapped m ?e (Suc k)" by (rule mapped_mono) (use assms(3) in \<open>simp add: k_def\<close>)
  moreover have "?e \<le> src \<or> src + k \<le> ?e" "k \<le> length s" using assms(5) by (auto simp: k_def)
  ultimately have c: "wmemcpy m ?e src k = Some (mem_put m ?e (take k s), ?e)"
    "mem_put m ?e (take k s) (?e + k) \<noteq> None"
    "(mem_put m ?e (take k s))(?e + k \<mapsto> 0) = mem_put m ?e (take k s @ [0])"
    using wcopy_terminate [OF wstr_bytes [OF assms(1)], of k ?e] by (simp_all add: wmemcpy_def)
  have k: "(if length s \<ge> n - length d then n - length d - 1 else length s) = k" "take k s = take (n - length d - 1) s"
    using assms(3) by (auto simp: k_def min_def)
  have l: "wcsnlen m dst n = Some (length d)" using wcsnlen_Some [OF assms(2), of n] assms(3) by simp
  show ?thesis
  proof (cases "n > length d + 1")
    case True
    then show ?thesis using c k assms(3) l
      by (simp add: wcslcat_def wcslen_Some [OF assms(1)] del: not_None_eq)
  next
    case False
    then have n: "n = Suc (length d)" using assms(3) by simp
    have "m(?e \<mapsto> 0) = m" using wstr_end [OF assms(2)] by (simp add: fun_upd_idem)
    then show ?thesis using False l
      by (simp add: wcslcat_def wcslen_Some [OF assms(1)] n mem_put_single)
  qed
qed

subsection \<open>Substrings and tokens\<close>

fun wfind_sub :: "wchar list \<Rightarrow> wchar list \<Rightarrow> nat option" where
  "wfind_sub pat [] = (if pat = [] then Some 0 else None)"
| "wfind_sub pat (x # s) =
     (if take (length pat) (x # s) = pat then Some 0 else map_option Suc (wfind_sub pat s))"

lemma wcmp_0_prefix:
  "0 \<notin> set f \<Longrightarrow> 0 \<notin> set t \<Longrightarrow> wcmp sint (take (length f) (t @ [0])) f = 0 \<longleftrightarrow> take (length f) t = f"
proof (induction f arbitrary: t)
  case (Cons x f)
  have "sint x = 0 \<longleftrightarrow> x = 0" using sint_inject [of x 0] by simp
  with Cons show ?case by (cases t) auto
qed simp

lemma wcsstr_loop_Some:
  assumes q: "wstr m q (f # fs)"
  shows "wstr m p s \<Longrightarrow> wcsstr_loop m p q (length (f # fs)) =
    Some (case wfind_sub (f # fs) s of None \<Rightarrow> null | Some i \<Rightarrow> p + i)"
proof (induction s arbitrary: p)
  case Nil
  then show ?case by (subst wcsstr_loop.simps) (simp add: wstr_simps load_def)
next
  case (Cons x s)
  have t: "wstr m (Suc p) s" "m p = Some x" "x \<noteq> 0" "m q = Some f"
    using Cons.prems q by (simp_all add: wstr_simps)
  define d where "d = wcmp sint (take (length (f # fs)) ((x # s) @ [0])) (f # fs)"
  have d: "wcsncmp m p q (length (f # fs)) = Some d"
    using wcsncmp_Some [OF Cons.prems q, of "length (f # fs)"] by (simp add: d_def)
  have z: "d = 0 \<longleftrightarrow> take (length (f # fs)) (x # s) = f # fs"
    unfolding d_def by (rule wcmp_0_prefix [OF wstr_nonzero [OF q] wstr_nonzero [OF Cons.prems]])
  show ?case
  proof (cases "take (length (f # fs)) (x # s) = f # fs")
    case True
    then have "x = f" by simp
    with True z d t show ?thesis by (subst wcsstr_loop.simps) (simp add: load_def)
  next
    case False
    then have "(if x = f then wcsncmp m p q (length (f # fs)) else Some 1) \<noteq> Some 0"
      using z d by simp
    then obtain e where "(if x = f then wcsncmp m p q (length (f # fs)) else Some 1) = Some e" "e \<noteq> 0"
      using d by (cases "x = f") auto
    with False t Cons.IH [OF t(1)] show ?thesis
      by (subst wcsstr_loop.simps) (auto simp: load_def split: option.splits)
  qed
qed

lemma wcsstr_Some:
  assumes "wstr m p s" and "wstr m q f"
  shows "wcsstr m p q = Some (case wfind_sub f s of None \<Rightarrow> null | Some i \<Rightarrow> p + i)"
proof (cases f)
  case Nil
  then have "wfind_sub f s = Some 0" by (cases s) auto
  with Nil assms(2) show ?thesis by (simp add: wcsstr_def wcslen_Some)
next
  case (Cons c g)
  with wcsstr_loop_Some [of m q c g p s] assms show ?thesis
    by (simp add: wcsstr_def wcslen_Some [OF assms(2)])
qed

lemma wcstok_Some:
  assumes s: "wstr m p s" and d: "wstr m q d" and nz: "p \<noteq> null" "q \<noteq> null"
    and tok: "dropWhile (\<lambda>c. c \<in> set d) s = t @ r" and t: "set t \<inter> set d = {}"
    and r: "r = [] \<or> hd r \<in> set d" and k: "k = length (takeWhile (\<lambda>c. c \<in> set d) s)"
  shows "wcstok m p q (Some saved) =
    (if t @ r = [] then Some (m, null, Some null)
     else if r = [] then Some (m, p + k, Some null)
     else Some (m(p + k + length t \<mapsto> 0), p + k, Some (p + k + length t + 1)))"
proof -
  have kl: "k \<le> length s" and dk: "drop k s = t @ r"
    using tok k by (simp_all add: length_takeWhile_le flip: dropWhile_eq_drop)
  have c: "wstr m (p + k) (t @ r)" using wstr_drop [OF s kl] by (simp add: dk)
  have sp: "wcsspn m p q = Some k" using wcsspn_Some [OF d nz(2) s] k by simp
  have "takeWhile (\<lambda>c. c \<notin> set d) (t @ r) = t"
    using t r by (cases r) (auto simp: takeWhile_append)
  then have cs: "wcscspn m (p + k) q = Some (length t)" using wcscspn_Some [OF d nz(2) c] by simp
  show ?thesis
  proof (cases "t @ r")
    case Nil
    then show ?thesis using c sp nz by (simp add: wcstok_def load_def wstr_simps)
  next
    case (Cons x u)
    then have x: "m (p + k) = Some x" "x \<noteq> 0" using c by (simp_all add: wstr_simps)
    have e: "m (p + k + length t) = Some (if r = [] then 0 else hd r)"
      using c by (cases r) (auto simp: wstr_def)
    have "r \<noteq> [] \<Longrightarrow> hd r \<noteq> 0" using wstr_nonzero [OF c] by (cases r) auto
    then show ?thesis using Cons x e sp cs nz by (auto simp: wcstok_def load_def Let_def)
  qed
qed
end
