(* ===== verification/CRT_Dll.thy ===== *)
theory CRT_Dll
  imports CRT_Prelude
begin

text \<open>
  Doubly linked lists in a store: \<open>dll nx pv p xs q\<close> says that the cells \<open>xs\<close> are linked in this
  order by the two pointer functions, with \<open>p\<close> in front of the first and \<open>q\<close> behind the last. The
  allocator's list of blocks and its bins of free blocks are both of this form.
\<close>

definition head_of :: "addr list \<Rightarrow> addr \<Rightarrow> addr" where
  "head_of xs q = (case xs of [] \<Rightarrow> q | x # _ \<Rightarrow> x)"

definition last_of :: "addr \<Rightarrow> addr list \<Rightarrow> addr" where
  "last_of p xs = (if xs = [] then p else last xs)"

lemma head_of_simps [simp]: "head_of [] q = q" "head_of (x # xs) q = x" "head_of (xs @ ys) q = head_of xs (head_of ys q)"
  by (simp_all add: head_of_def split: list.splits)

lemma last_of_simps [simp]: "last_of p [] = p" "last_of p (x # xs) = last_of x xs" "last_of p (xs @ [x]) = x"
  "last_of p (xs @ ys) = last_of (last_of p xs) ys"
  by (auto simp: last_of_def)

primrec dll :: "(addr \<Rightarrow> addr) \<Rightarrow> (addr \<Rightarrow> addr) \<Rightarrow> addr \<Rightarrow> addr list \<Rightarrow> addr \<Rightarrow> bool" where
  "dll nx pv p [] q \<longleftrightarrow> True"
| "dll nx pv p (x # xs) q \<longleftrightarrow> pv x = p \<and> nx x = head_of xs q \<and> dll nx pv x xs q"

lemma dll_append [simp]:
  "dll nx pv p (xs @ ys) q \<longleftrightarrow> dll nx pv p xs (head_of ys q) \<and> dll nx pv (last_of p xs) ys q"
  by (induction xs arbitrary: p) auto

lemma dll_cong:
  "(\<And>x. x \<in> set xs \<Longrightarrow> nx x = nx' x \<and> pv x = pv' x) \<Longrightarrow> dll nx pv p xs q = dll nx' pv' p xs q"
  by (induction xs arbitrary: p) auto

text \<open>A segment with new neighbours: only the links of its two ends change.\<close>

lemma dll_retarget:
  "dll nx pv p xs q \<Longrightarrow> distinct xs \<Longrightarrow>
    (\<And>x. x \<in> set xs \<Longrightarrow> nx' x = (if x = last xs then q' else nx x)) \<Longrightarrow>
    (\<And>x. x \<in> set xs \<Longrightarrow> pv' x = (if x = hd xs then p' else pv x)) \<Longrightarrow> dll nx' pv' p' xs q'"
proof (induction xs arbitrary: p p')
  case (Cons x xs)
  show ?case
  proof (cases xs)
    case Nil
    with Cons.prems show ?thesis by simp
  next
    case (Cons y ys)
    have "dll nx' pv' x xs q'"
    proof (rule Cons.IH)
      show "dll nx pv x xs q" "distinct xs" using Cons.prems by simp_all
      fix a assume a: "a \<in> set xs"
      then show "nx' a = (if a = last xs then q' else nx a)" using Cons.prems(3) [of a] Cons by auto
      show "pv' a = (if a = hd xs then x else pv a)"
        using Cons.prems(4) [of a] Cons.prems(1,2) a Cons by auto
    qed
    moreover have "x \<noteq> last xs" using Cons.prems(2) Cons by (metis distinct.simps(2) last_in_set list.distinct(1))
    ultimately show ?thesis using Cons.prems(1) Cons.prems(3) [of x] Cons.prems(4) [of x] Cons by simp
  qed
qed simp

lemma dll_relink:
  assumes "dll nx pv p xs q" "distinct xs"
    and "\<And>x. x \<in> set xs \<Longrightarrow> x \<noteq> last xs \<Longrightarrow> nx' x = nx x" "xs \<noteq> [] \<Longrightarrow> nx' (last xs) = q'"
    and "\<And>x. x \<in> set xs \<Longrightarrow> x \<noteq> hd xs \<Longrightarrow> pv' x = pv x" "xs \<noteq> [] \<Longrightarrow> pv' (hd xs) = p'"
  shows "dll nx' pv' p' xs q'"
proof (rule dll_retarget [OF assms(1,2)])
  fix x assume "x \<in> set xs"
  then show "nx' x = (if x = last xs then q' else nx x)" "pv' x = (if x = hd xs then p' else pv x)"
    using assms(3-6) by force+
qed

lemma dll_ends: "dll nx pv p xs q \<Longrightarrow> xs \<noteq> [] \<Longrightarrow> nx (last xs) = q \<and> pv (hd xs) = p"
  by (induction xs arbitrary: p) (auto simp: head_of_def split: list.splits)

lemma dll_next: "dll nx pv p (xs @ x # ys) q \<Longrightarrow> nx x = head_of ys q"
  and dll_prev: "dll nx pv p (xs @ x # ys) q \<Longrightarrow> pv x = last_of p xs"
  by simp_all

end
