(* ===== verification/CRT_Malloc.thy ===== *)
theory CRT_Malloc
  imports CRT_Copy CRT_Dll
begin

text \<open>
  The memory allocator: \<^verbatim>\<open>libc/src/malloc.c\<close> and \<^verbatim>\<open>libc/src/reallocarray.c\<close>, in the
  configuration without \<^verbatim>\<open>CRT_DEBUG_MALLOC\<close>. The store is split by type: the block headers by
  their address, the links of a released block (in its payload) by the address of its header, the
  headers of over-aligned allocations by the address handed out, and the bytes. A load from an address
  that holds no such object is a fault, \<^term>\<open>None\<close>, except for the magic word: a place that holds no
  block header does not hold its magic. The heap lock makes each public call one step. The system's
  \<open>mmap\<close> is a parameter: for a length, an error number or the address of a fresh mapping.
\<close>

definition HDR :: nat where "HDR = 48"
definition ALIGNED_HDR :: nat where "ALIGNED_HDR = 32"
definition CRT_HEAP_CHUNK_SIZE :: "32 word" where "CRT_HEAP_CHUNK_SIZE = 64 * 1024"
definition CRT_BLOCK_MAGIC :: nat where "CRT_BLOCK_MAGIC = 0x435254424c4f434b"
definition CRT_ALIGNED_MAGIC :: nat where "CRT_ALIGNED_MAGIC = 0x435254414c49474e"
definition CRT_MALLOC_ALIGNMENT :: nat where "CRT_MALLOC_ALIGNMENT = 16"
definition CRT_MALLOC_MAX_OS_REGIONS :: nat where "CRT_MALLOC_MAX_OS_REGIONS = 65536"

record block =
  bsize :: nat
  bfree :: bool
  bnext :: addr
  bprevious :: addr
  bmagic :: nat

record free_links =
  lprevious :: addr
  lnext :: addr

record aligned_header =
  amagic :: nat
  allocation :: addr
  alignment :: nat
  requested_size :: nat

record heap =
  blocks :: "addr \<rightharpoonup> block"
  links :: "addr \<rightharpoonup> free_links"
  aligned :: "addr \<rightharpoonup> aligned_header"
  bytes :: mem
  heap_head :: addr
  heap_tail :: addr
  free_bins :: "nat \<rightharpoonup> addr"
  os_regions :: "(addr \<times> nat) list"
  errno :: int

text \<open>The heap before the first call.\<close>

definition heap_start :: heap where
  "heap_start = \<lparr>blocks = (\<lambda>_. None), links = (\<lambda>_. None), aligned = (\<lambda>_. None), bytes = (\<lambda>_. None),
     heap_head = null, heap_tail = null, free_bins = (\<lambda>bin. if bin < 64 then Some null else None),
     os_regions = [], errno = 0\<rparr>"

definition put_block :: "addr \<Rightarrow> block \<Rightarrow> heap \<Rightarrow> heap" where
  "put_block h b hp = hp\<lparr>blocks := (blocks hp)(h \<mapsto> b)\<rparr>"

text \<open>\<open>h->block.previous = p\<close>, a store through a pointer to a header.\<close>

definition set_previous :: "addr \<Rightarrow> addr \<Rightarrow> heap \<Rightarrow> heap option" where
  "set_previous h p hp = do { b \<leftarrow> blocks hp h; Some (put_block h (b\<lparr>bprevious := p\<rparr>) hp) }"

definition set_free :: "addr \<Rightarrow> bool \<Rightarrow> heap \<Rightarrow> heap option" where
  "set_free h f hp = do { b \<leftarrow> blocks hp h; Some (put_block h (b\<lparr>bfree := f\<rparr>) hp) }"

subsection \<open>The bins of free blocks\<close>

function free_bin_loop :: "nat \<Rightarrow> nat \<Rightarrow> nat" where
  "free_bin_loop sz bin = (let sz = sz div 2 in if sz \<noteq> 0 then free_bin_loop sz (bin + 1) else bin)"
  by pat_completeness auto
termination by (relation "measure fst") auto

declare free_bin_loop.simps [simp del]

definition free_bin :: "nat \<Rightarrow> nat" where "free_bin sz = free_bin_loop sz 0"

definition index_free_block :: "addr \<Rightarrow> heap \<Rightarrow> heap option" where
  "index_free_block h hp = do {
     b \<leftarrow> blocks hp h;
     let bin = free_bin (bsize b);
     next \<leftarrow> free_bins hp bin;
     let L = (links hp)(h \<mapsto> \<lparr>lprevious = null, lnext = next\<rparr>);
     L \<leftarrow> (if next \<noteq> null then do { l \<leftarrow> L next; Some (L(next \<mapsto> l\<lparr>lprevious := h\<rparr>)) } else Some L);
     Some (hp\<lparr>links := L, free_bins := (free_bins hp)(bin \<mapsto> h)\<rparr>) }"

definition unindex_free_block :: "addr \<Rightarrow> heap \<Rightarrow> heap option" where
  "unindex_free_block h hp = do {
     l \<leftarrow> links hp h;
     let previous = lprevious l;
     let next = lnext l;
     hp \<leftarrow> (if previous \<noteq> null
       then do { p \<leftarrow> links hp previous; Some (hp\<lparr>links := (links hp)(previous \<mapsto> p\<lparr>lnext := next\<rparr>)\<rparr>) }
       else do {
         b \<leftarrow> blocks hp h;
         _ \<leftarrow> free_bins hp (free_bin (bsize b));
         Some (hp\<lparr>free_bins := (free_bins hp)(free_bin (bsize b) \<mapsto> next)\<rparr>) });
     if next \<noteq> null
     then do { n \<leftarrow> links hp next; Some (hp\<lparr>links := (links hp)(next \<mapsto> n\<lparr>lprevious := previous\<rparr>)\<rparr>) }
     else Some hp }"

subsection \<open>Chunks and blocks\<close>

text \<open>
  Both sums are in \<open>size_t\<close>; the mask of the chunk size is a 32-bit \<open>unsigned int\<close> that is converted
  to \<open>size_t\<close> after its complement has been taken.
\<close>

definition align_size :: "nat \<Rightarrow> nat" where
  "align_size sz = unat ((of_nat sz + of_nat CRT_MALLOC_ALIGNMENT - 1 :: u64) AND NOT (of_nat CRT_MALLOC_ALIGNMENT - 1))"

definition align_chunk_size :: "nat \<Rightarrow> nat" where
  "align_chunk_size sz =
     unat ((of_nat sz + ucast CRT_HEAP_CHUNK_SIZE - 1 :: u64) AND ucast (NOT (CRT_HEAP_CHUNK_SIZE - 1)))"

definition append_chunk :: "(nat \<Rightarrow> int + addr) \<Rightarrow> nat \<Rightarrow> heap \<Rightarrow> (heap \<times> addr) option" where
  "append_chunk mmap sz hp =
     (if sz > SIZE_MAX - HDR - (unat CRT_HEAP_CHUNK_SIZE - 1) then Some (hp\<lparr>errno := ENOMEM\<rparr>, null)
      else let needed = sz + HDR; chunk_size = align_chunk_size needed in
      if length (os_regions hp) \<ge> CRT_MALLOC_MAX_OS_REGIONS then Some (hp\<lparr>errno := ENOMEM\<rparr>, null)
      else case mmap chunk_size of
        Inl e \<Rightarrow> Some (hp\<lparr>errno := e\<rparr>, null)
      | Inr mapping \<Rightarrow> do {
          let hp = hp\<lparr>os_regions := os_regions hp @ [(mapping, chunk_size)],
            bytes := (\<lambda>a. if mapping \<le> a \<and> a < mapping + chunk_size then Some NUL else bytes hp a)\<rparr>;
          let hp = put_block mapping \<lparr>bsize = (chunk_size + 2 ^ 64 - HDR) mod 2 ^ 64, bfree = True, bnext = null,
            bprevious = heap_tail hp, bmagic = CRT_BLOCK_MAGIC\<rparr> hp;
          if heap_head hp = null then Some (hp\<lparr>heap_head := mapping, heap_tail := mapping\<rparr>, mapping)
          else do {
            t \<leftarrow> blocks hp (heap_tail hp);
            Some ((put_block (heap_tail hp) (t\<lparr>bnext := mapping\<rparr>) hp)\<lparr>heap_tail := mapping\<rparr>, mapping) } })"

text \<open>\<open>current\<close> is not indexed; every following free block is.\<close>

partial_function (option) coalesce_free_blocks :: "addr \<Rightarrow> heap \<Rightarrow> heap option" where
  "coalesce_free_blocks current hp = do {
     c \<leftarrow> blocks hp current;
     if bnext c = null then Some hp
     else do {
       n \<leftarrow> blocks hp (bnext c);
       if \<not> bfree n \<or> current + HDR + bsize c \<noteq> bnext c then Some hp
       else do {
         hp \<leftarrow> unindex_free_block (bnext c) hp;
         let hp = put_block current (c\<lparr>bsize := bsize c + (HDR + bsize n), bnext := bnext n\<rparr>) hp;
         hp \<leftarrow> (if bnext n \<noteq> null then set_previous (bnext n) current hp else Some (hp\<lparr>heap_tail := current\<rparr>));
         coalesce_free_blocks current hp } } }"

declare coalesce_free_blocks.simps [simp del]

definition split_block :: "addr \<Rightarrow> nat \<Rightarrow> heap \<Rightarrow> heap option" where
  "split_block h sz hp = do {
     b \<leftarrow> blocks hp h;
     if bsize b < sz + HDR + HDR then Some hp
     else do {
       let next = h + HDR + sz;
       let hp = put_block next \<lparr>bsize = bsize b - sz - HDR, bfree = True, bnext = bnext b, bprevious = h,
         bmagic = CRT_BLOCK_MAGIC\<rparr> hp;
       hp \<leftarrow> (if bnext b \<noteq> null then set_previous (bnext b) next hp else Some (hp\<lparr>heap_tail := next\<rparr>));
       let hp = put_block h (b\<lparr>bsize := sz, bnext := next\<rparr>) hp;
       hp \<leftarrow> coalesce_free_blocks next hp;
       index_free_block next hp } }"

subsection \<open>Allocation and release\<close>

text \<open>The first block of a bin that is large enough; null when the bin has none.\<close>

partial_function (option) find_fit :: "heap \<Rightarrow> addr \<Rightarrow> nat \<Rightarrow> addr option" where
  "find_fit hp current sz =
     (if current = null then Some null
      else do {
        b \<leftarrow> blocks hp current;
        if bsize b \<ge> sz then Some current
        else do { l \<leftarrow> links hp current; find_fit hp (lnext l) sz } })"

declare find_fit.simps [simp del]

function search_bins :: "heap \<Rightarrow> nat \<Rightarrow> nat \<Rightarrow> addr option" where
  "search_bins hp bin sz =
     (if bin < 64 then do {
        current \<leftarrow> free_bins hp bin;
        found \<leftarrow> find_fit hp current sz;
        if found \<noteq> null then Some found else search_bins hp (bin + 1) sz }
      else Some null)"
  by pat_completeness auto
termination by (relation "measure (\<lambda>(hp, bin, sz). 64 - bin)") auto

declare search_bins.simps [simp del]

definition malloc_unlocked :: "(nat \<Rightarrow> int + addr) \<Rightarrow> nat \<Rightarrow> heap \<Rightarrow> (heap \<times> addr) option" where
  "malloc_unlocked mmap sz hp =
     (let sz = (if sz = 0 then 1 else sz) in
      if sz > SIZE_MAX - (CRT_MALLOC_ALIGNMENT - 1) then Some (hp\<lparr>errno := ENOMEM\<rparr>, null)
      else let sz = align_size sz in do {
        found \<leftarrow> search_bins hp (free_bin sz) sz;
        (hp, current) \<leftarrow> (if found \<noteq> null then do { hp \<leftarrow> unindex_free_block found hp; Some (hp, found) }
          else append_chunk mmap sz hp);
        if current = null then Some (hp, null)
        else do {
          hp \<leftarrow> split_block current sz hp;
          hp \<leftarrow> set_free current False hp;
          Some (hp, current + HDR) } })"

text \<open>The magic word in front of a pointer, and what a pointer that was handed out belongs to.\<close>

definition block_magic :: "heap \<Rightarrow> addr \<Rightarrow> nat" where
  "block_magic hp h = (case blocks hp h of None \<Rightarrow> 0 | Some b \<Rightarrow> bmagic b)"

definition aligned_magic :: "heap \<Rightarrow> addr \<Rightarrow> nat" where
  "aligned_magic hp p = (case aligned hp p of None \<Rightarrow> 0 | Some a \<Rightarrow> amagic a)"

definition release_block :: "addr \<Rightarrow> heap \<Rightarrow> heap option" where
  "release_block header hp = do {
     hp \<leftarrow> set_free header True hp;
     hp \<leftarrow> coalesce_free_blocks header hp;
     hp \<leftarrow> index_free_block header hp;
     b \<leftarrow> blocks hp header;
     if bprevious b = null then Some hp
     else do {
       let previous = bprevious b;
       p \<leftarrow> blocks hp previous;
       if bfree p \<and> previous + HDR + bsize p = header then do {
         hp \<leftarrow> unindex_free_block previous hp;
         hp \<leftarrow> coalesce_free_blocks previous hp;
         index_free_block previous hp }
       else Some hp } }"

definition free_unlocked :: "addr \<Rightarrow> heap \<Rightarrow> heap option" where
  "free_unlocked ptr hp =
     (if ptr = null then Some hp
      else if block_magic hp (ptr - HDR) \<noteq> CRT_BLOCK_MAGIC then
        if aligned_magic hp ptr \<noteq> CRT_ALIGNED_MAGIC then Some hp
        else do { a \<leftarrow> aligned hp ptr; release_block (allocation a - HDR) hp }
      else release_block (ptr - HDR) hp)"

definition malloc :: "(nat \<Rightarrow> int + addr) \<Rightarrow> nat \<Rightarrow> heap \<Rightarrow> (heap \<times> addr) option" where
  "malloc mmap sz hp = malloc_unlocked mmap sz hp"

definition free :: "addr \<Rightarrow> heap \<Rightarrow> heap option" where
  "free ptr hp = free_unlocked ptr hp"

definition malloc_usable_size :: "addr \<Rightarrow> heap \<Rightarrow> nat" where
  "malloc_usable_size ptr hp =
     (if ptr = null then 0
      else if block_magic hp (ptr - HDR) = CRT_BLOCK_MAGIC
      then (case blocks hp (ptr - HDR) of None \<Rightarrow> 0 | Some b \<Rightarrow> if bfree b then 0 else bsize b)
      else if aligned_magic hp ptr = CRT_ALIGNED_MAGIC
      then (case aligned hp ptr of None \<Rightarrow> 0 | Some a \<Rightarrow> requested_size a) else 0)"

definition calloc :: "(nat \<Rightarrow> int + addr) \<Rightarrow> nat \<Rightarrow> nat \<Rightarrow> heap \<Rightarrow> (heap \<times> addr) option" where
  "calloc mmap nmemb sz hp =
     (if sz \<noteq> 0 \<and> nmemb > SIZE_MAX div sz then Some (hp\<lparr>errno := ENOMEM\<rparr>, null)
      else let sz = sz * nmemb in do {
        (hp, ptr) \<leftarrow> malloc mmap sz hp;
        if ptr = null then Some (hp, null)
        else do {
          (m, _) \<leftarrow> memset (bytes hp) ptr 0 sz;
          Some (hp\<lparr>bytes := m\<rparr>, ptr) } })"

text \<open>
  The address in an allocation that an over-aligned request is given, and the header stored in front
  of it; its \<open>alignment\<close> field lies where the magic of a block header would be looked for.
\<close>

definition aligned_address :: "addr \<Rightarrow> nat \<Rightarrow> addr" where
  "aligned_address a al = unat ((of_nat (a + ALIGNED_HDR) + of_nat al - 1 :: u64) AND NOT (of_nat al - 1))"

definition put_aligned :: "addr \<Rightarrow> aligned_header \<Rightarrow> heap \<Rightarrow> heap" where
  "put_aligned p a hp = hp\<lparr>aligned := (aligned hp)(p \<mapsto> a), blocks := (blocks hp)(p - HDR := None)\<rparr>"

definition realloc :: "(nat \<Rightarrow> int + addr) \<Rightarrow> addr \<Rightarrow> nat \<Rightarrow> heap \<Rightarrow> (heap \<times> addr) option" where
  "realloc mmap ptr sz hp =
     (if ptr = null then malloc mmap sz hp
      else if sz = 0 then do { hp \<leftarrow> free ptr hp; Some (hp, null) }
      else if sz > SIZE_MAX - (CRT_MALLOC_ALIGNMENT - 1) then Some (hp\<lparr>errno := ENOMEM\<rparr>, null)
      else if block_magic hp (ptr - HDR) \<noteq> CRT_BLOCK_MAGIC then
        if aligned_magic hp ptr \<noteq> CRT_ALIGNED_MAGIC then Some (hp\<lparr>errno := EINVAL\<rparr>, null)
        else do {
          a \<leftarrow> aligned hp ptr;
          let old_size = requested_size a;
          let old_alignment = alignment a;
          if sz > SIZE_MAX - old_alignment - ALIGNED_HDR then Some (hp\<lparr>errno := ENOMEM\<rparr>, null)
          else do {
            (hp, new_ptr) \<leftarrow> malloc_unlocked mmap (sz + old_alignment - 1 + ALIGNED_HDR) hp;
            if new_ptr = null then Some (hp, null)
            else do {
              let address = aligned_address new_ptr old_alignment;
              let hp = put_aligned address \<lparr>amagic = CRT_ALIGNED_MAGIC, allocation = new_ptr,
                alignment = old_alignment, requested_size = sz\<rparr> hp;
              (m, _) \<leftarrow> memcpy (bytes hp) address ptr (if old_size < sz then old_size else sz);
              hp \<leftarrow> free_unlocked ptr (hp\<lparr>bytes := m\<rparr>);
              Some (hp, address) } } }
      else do {
        let original_request = sz;
        let sz = align_size sz;
        b \<leftarrow> blocks hp (ptr - HDR);
        if bsize b \<ge> sz then do { hp \<leftarrow> split_block (ptr - HDR) sz hp; Some (hp, ptr) }
        else do {
          (hp, new_ptr) \<leftarrow> malloc_unlocked mmap original_request hp;
          if new_ptr = null then Some (hp, null)
          else do {
            b \<leftarrow> blocks hp (ptr - HDR);
            (m, _) \<leftarrow> memcpy (bytes hp) new_ptr ptr (if bsize b < sz then bsize b else sz);
            hp \<leftarrow> free_unlocked ptr (hp\<lparr>bytes := m\<rparr>);
            Some (hp, new_ptr) } } })"

text \<open>The result of \<open>posix_memalign\<close>: an error number (0 for success) and the pointer stored.\<close>

definition posix_memalign :: "(nat \<Rightarrow> int + addr) \<Rightarrow> bool \<Rightarrow> nat \<Rightarrow> nat \<Rightarrow> heap \<Rightarrow> (heap \<times> int \<times> addr option) option" where
  "posix_memalign mmap memptr_nonnull al sz hp =
     (if \<not> memptr_nonnull \<or> al < 8 \<or> (of_nat al :: u64) AND (of_nat al - 1) \<noteq> 0 then Some (hp, EINVAL, None)
      else if al \<le> CRT_MALLOC_ALIGNMENT then do {
        (hp, p) \<leftarrow> malloc mmap sz hp;
        if p = null then Some (hp, ENOMEM, None) else Some (hp, 0, Some p) }
      else if sz > SIZE_MAX - al - ALIGNED_HDR then Some (hp, ENOMEM, None)
      else do {
        (hp, p) \<leftarrow> malloc mmap (sz + al - 1 + ALIGNED_HDR) hp;
        if p = null then Some (hp, ENOMEM, None)
        else do {
          let address = aligned_address p al;
          Some (put_aligned address \<lparr>amagic = CRT_ALIGNED_MAGIC, allocation = p, alignment = al,
            requested_size = sz\<rparr> hp, 0, Some address) } })"

definition aligned_alloc :: "(nat \<Rightarrow> int + addr) \<Rightarrow> nat \<Rightarrow> nat \<Rightarrow> heap \<Rightarrow> (heap \<times> addr) option" where
  "aligned_alloc mmap al sz hp =
     (if al = 0 \<or> sz mod al \<noteq> 0 then Some (hp\<lparr>errno := EINVAL\<rparr>, null)
      else do {
        (hp, error, result) \<leftarrow> posix_memalign mmap True al sz hp;
        if error \<noteq> 0 then Some (hp\<lparr>errno := error\<rparr>, null)
        else Some (hp, case result of None \<Rightarrow> null | Some p \<Rightarrow> p) })"

definition reallocarray :: "(nat \<Rightarrow> int + addr) \<Rightarrow> addr \<Rightarrow> nat \<Rightarrow> nat \<Rightarrow> heap \<Rightarrow> (heap \<times> addr) option" where
  "reallocarray mmap ptr nmemb sz hp =
     (if nmemb * sz > SIZE_MAX then Some (hp\<lparr>errno := ENOMEM\<rparr>, null)
      else realloc mmap ptr (nmemb * sz) hp)"

text \<open>The mappings the heap consists of, which \<open>fork\<close> copies one by one.\<close>

definition crt_malloc_os_region_count :: "heap \<Rightarrow> int" where
  "crt_malloc_os_region_count hp = int (length (os_regions hp))"

definition crt_malloc_os_region_base :: "int \<Rightarrow> heap \<Rightarrow> addr" where
  "crt_malloc_os_region_base index hp =
     (if index \<ge> 0 \<and> index < int (length (os_regions hp)) then fst (os_regions hp ! nat index) else 0)"

definition crt_malloc_os_region_size :: "int \<Rightarrow> heap \<Rightarrow> nat" where
  "crt_malloc_os_region_size index hp =
     (if index \<ge> 0 \<and> index < int (length (os_regions hp)) then snd (os_regions hp ! nat index) else 0)"

text \<open>The Windows names of the over-aligned allocation.\<close>

definition aligned_malloc :: "(nat \<Rightarrow> int + addr) \<Rightarrow> nat \<Rightarrow> nat \<Rightarrow> heap \<Rightarrow> (heap \<times> addr) option" where
  "aligned_malloc mmap sz al hp = do {
     (hp, error, result) \<leftarrow> posix_memalign mmap True al sz hp;
     if error \<noteq> 0 then Some (hp, null)
     else Some (hp, case result of None \<Rightarrow> null | Some p \<Rightarrow> p) }"

definition aligned_free :: "addr \<Rightarrow> heap \<Rightarrow> heap option" where
  "aligned_free ptr hp = free ptr hp"

end
