(* ===== verification/CRT_Heap.thy ===== *)
theory CRT_Heap
  imports CRT_Malloc
begin

text \<open>
  The invariant of the heap and its preservation by every step of the allocator. The blocks are a
  doubly linked list in the order of their creation, disjoint and of multiples of 16 bytes; every free
  block is in the bin of its size, which is a doubly linked list too. \<open>heap_at hp hs X\<close> says this of the
  list \<open>hs\<close> of headers with the free blocks of \<open>X\<close> taken out of their bins, as they are in the middle of
  an operation.
\<close>

subsection \<open>Reading the store\<close>

definition bnx :: "(addr \<rightharpoonup> block) \<Rightarrow> addr \<Rightarrow> addr" where "bnx B h = (case B h of None \<Rightarrow> 0 | Some b \<Rightarrow> bnext b)"
definition bpv :: "(addr \<rightharpoonup> block) \<Rightarrow> addr \<Rightarrow> addr" where "bpv B h = (case B h of None \<Rightarrow> 0 | Some b \<Rightarrow> bprevious b)"
definition bsz :: "(addr \<rightharpoonup> block) \<Rightarrow> addr \<Rightarrow> nat" where "bsz B h = (case B h of None \<Rightarrow> 0 | Some b \<Rightarrow> bsize b)"
definition bfr :: "(addr \<rightharpoonup> block) \<Rightarrow> addr \<Rightarrow> bool" where "bfr B h = (case B h of None \<Rightarrow> False | Some b \<Rightarrow> bfree b)"
definition lnx :: "(addr \<rightharpoonup> free_links) \<Rightarrow> addr \<Rightarrow> addr" where "lnx L h = (case L h of None \<Rightarrow> 0 | Some l \<Rightarrow> lnext l)"
definition lpv :: "(addr \<rightharpoonup> free_links) \<Rightarrow> addr \<Rightarrow> addr" where "lpv L h = (case L h of None \<Rightarrow> 0 | Some l \<Rightarrow> lprevious l)"

lemmas field_defs = bnx_def bpv_def bsz_def bfr_def
lemmas link_defs = lnx_def lpv_def

lemma field_upd [simp]:
  "bnx (B(h \<mapsto> b)) k = (if k = h then bnext b else bnx B k)" "bpv (B(h \<mapsto> b)) k = (if k = h then bprevious b else bpv B k)"
  "bsz (B(h \<mapsto> b)) k = (if k = h then bsize b else bsz B k)" "bfr (B(h \<mapsto> b)) k = (if k = h then bfree b else bfr B k)"
  by (simp_all add: field_defs)

lemma link_upd [simp]:
  "lnx (L(h \<mapsto> l)) k = (if k = h then lnext l else lnx L k)" "lpv (L(h \<mapsto> l)) k = (if k = h then lprevious l else lpv L k)"
  by (simp_all add: link_defs)

subsection \<open>The bins hold the free blocks\<close>

text \<open>\<open>I\<close> is the set of indexed blocks, \<open>bn\<close> the bin of each, \<open>fs i\<close> the list in bin \<open>i\<close>.\<close>

definition bins_ok :: "(addr \<rightharpoonup> free_links) \<Rightarrow> (nat \<rightharpoonup> addr) \<Rightarrow> (nat \<Rightarrow> addr list) \<Rightarrow> (addr \<Rightarrow> nat) \<Rightarrow> addr set \<Rightarrow> bool" where
  "bins_ok L F fs bn I \<longleftrightarrow>
     (\<forall>i<64. F i = Some (head_of (fs i) 0) \<and> dll (lnx L) (lpv L) 0 (fs i) 0 \<and> distinct (fs i) \<and>
       set (fs i) = {h \<in> I. bn h = i}) \<and>
     (\<forall>h \<in> I. bn h < 64 \<and> h \<noteq> 0 \<and> L h \<noteq> None)"

lemma bins_ok_cong: "bins_ok L F fs bn I \<Longrightarrow> (\<And>h. h \<in> I \<Longrightarrow> bn h = bn' h) \<Longrightarrow> bins_ok L F fs bn' I"
  unfolding bins_ok_def by (auto cong: conj_cong)

lemma index_links:
  assumes ok: "bins_ok L F fs bn I" and h: "h \<notin> I" "h \<noteq> 0" and i: "bn h = i" "i < 64"
    and L1: "L1 = L(h \<mapsto> \<lparr>lprevious = 0, lnext = head_of (fs i) 0\<rparr>)"
    and L2: "L2 = (if fs i = [] then L1 else L1(hd (fs i) \<mapsto> (the (L1 (hd (fs i))))\<lparr>lprevious := h\<rparr>))"
  shows "bins_ok L2 (F(i \<mapsto> h)) (fs(i := h # fs i)) bn (insert h I)"
proof -
  have I: "\<forall>k \<in> I. bn k < 64 \<and> k \<noteq> 0 \<and> L k \<noteq> None" and
    B: "\<And>j. j < 64 \<Longrightarrow> F j = Some (head_of (fs j) 0) \<and> dll (lnx L) (lpv L) 0 (fs j) 0 \<and> distinct (fs j) \<and>
      set (fs j) = {h \<in> I. bn h = j}" using ok by (auto simp: bins_ok_def)
  have ne: "fs i \<noteq> [] \<Longrightarrow> hd (fs i) \<in> set (fs i)" by simp
  have hnot: "j < 64 \<Longrightarrow> h \<notin> set (fs j)" for j using B h by simp
  have "\<exists>l. L (hd (fs i)) = Some l" if "fs i \<noteq> []"
    using ne [OF that] B [OF i(2)] I by auto
  then have nx: "lnx L2 k = (if k = h then head_of (fs i) 0 else lnx L k)" for k
    using hnot [OF i(2)] ne by (auto simp: L2 L1 link_defs)
  have pv: "lpv L2 k = (if fs i \<noteq> [] \<and> k = hd (fs i) then h else if k = h then 0 else lpv L k)" for k
    using hnot [OF i(2)] ne by (auto simp: L2 L1)
  show ?thesis unfolding bins_ok_def
  proof (intro conjI allI impI ballI)
    fix j :: nat assume j: "j < 64"
    show "(F(i \<mapsto> h)) j = Some (head_of ((fs(i := h # fs i)) j) 0)" using B [OF j] by simp
    show "distinct ((fs(i := h # fs i)) j)" using B [OF j] hnot [OF j] by auto
    show "set ((fs(i := h # fs i)) j) = {k \<in> insert h I. bn k = j}" using B [OF j] i by auto
    show "dll (lnx L2) (lpv L2) 0 ((fs(i := h # fs i)) j) 0"
    proof (cases "j = i")
      case True
      have "dll (lnx L2) (lpv L2) h (fs i) 0"
      proof (rule dll_relink [of "lnx L" "lpv L" 0 "fs i" 0])
        show "lnx L2 (last (fs i)) = 0" if "fs i \<noteq> []"
          using dll_ends [of "lnx L" "lpv L" 0 "fs i" 0] B [OF i(2)] that hnot [OF i(2)] last_in_set [OF that] nx by auto
      qed (use B [OF i(2)] hnot [OF i(2)] nx pv in auto)
      then show ?thesis using True nx [of h] pv [of h] hnot [OF i(2)] ne by auto
    next
      case False
      have "dll (lnx L2) (lpv L2) 0 (fs j) 0"
      proof (subst dll_cong [of "fs j" _ "lnx L" _ "lpv L"])
        fix k assume k: "k \<in> set (fs j)"
        have "k \<noteq> h" using hnot [OF j] k by auto
        moreover have "k \<noteq> hd (fs i)" if "fs i \<noteq> []" using ne [OF that] k B [OF j] B [OF i(2)] False by auto
        ultimately show "lnx L2 k = lnx L k \<and> lpv L2 k = lpv L k" by (auto simp: nx pv)
      qed (use B [OF j] in simp)
      then show ?thesis using False by simp
    qed
  next
    fix k assume "k \<in> insert h I"
    then show "bn k < 64" "k \<noteq> 0" using I i h by auto
    show "L2 k \<noteq> None" using \<open>k \<in> insert h I\<close> I by (auto simp: L2 L1)
  qed
qed

lemma unindex_links:
  assumes ok: "bins_ok L F fs bn I" and h: "h \<in> I" and i: "bn h = i" and fs: "fs i = xs @ h # ys"
    and L1: "L1 = (if xs = [] then L else L(last xs \<mapsto> (the (L (last xs)))\<lparr>lnext := head_of ys 0\<rparr>))"
    and L2: "L2 = (if ys = [] then L1 else L1(hd ys \<mapsto> (the (L1 (hd ys)))\<lparr>lprevious := last_of 0 xs\<rparr>))"
    and F': "F' = (if xs = [] then F(i \<mapsto> head_of ys 0) else F)"
  shows "bins_ok L2 F' (fs(i := xs @ ys)) bn (I - {h})"
proof -
  have I: "\<forall>k \<in> I. bn k < 64 \<and> k \<noteq> 0 \<and> L k \<noteq> None" and
    B: "\<And>j. j < 64 \<Longrightarrow> F j = Some (head_of (fs j) 0) \<and> dll (lnx L) (lpv L) 0 (fs j) 0 \<and> distinct (fs j) \<and>
      set (fs j) = {h \<in> I. bn h = j}" using ok by (auto simp: bins_ok_def)
  have i64: "i < 64" using I h i by auto
  have d: "distinct (xs @ h # ys)" "dll (lnx L) (lpv L) 0 (xs @ h # ys) 0" "set (xs @ h # ys) = {h \<in> I. bn h = i}"
    using B [OF i64] fs by auto
  have ex: "\<exists>l. L k = Some l" if "k \<in> set (xs @ ys)" for k using that d(3) I by auto
  have lx: "last xs \<in> set xs \<and> last xs \<notin> set ys" if "xs \<noteq> []" using that d(1) last_in_set by fastforce
  have hy: "hd ys \<in> set ys \<and> hd ys \<notin> set xs" if "ys \<noteq> []" using that d(1) hd_in_set by fastforce
  have ex2: "xs \<noteq> [] \<Longrightarrow> \<exists>l. L (last xs) = Some l" "ys \<noteq> [] \<Longrightarrow> \<exists>l. L1 (hd ys) = Some l \<and> L (hd ys) = Some l"
    using ex lx hy by (auto simp: L1)
  have nx: "lnx L2 k = (if xs \<noteq> [] \<and> k = last xs then head_of ys 0 else lnx L k)" for k
    using ex2 lx hy by (auto simp: L2 L1 link_defs)
  have pv: "lpv L2 k = (if ys \<noteq> [] \<and> k = hd ys then last_of 0 xs else lpv L k)" for k
    using ex2 lx hy by (auto simp: L2 L1 link_defs)
  show ?thesis unfolding bins_ok_def
  proof (intro conjI allI impI ballI)
    fix j :: nat assume j: "j < 64"
    show "F' j = Some (head_of ((fs(i := xs @ ys)) j) 0)"
      using B [OF j] B [OF i64] fs by (cases xs) (auto simp: F')
    show "distinct ((fs(i := xs @ ys)) j)" using B [OF j] d(1) by auto
    show "set ((fs(i := xs @ ys)) j) = {k \<in> I - {h}. bn k = j}" using B [OF j] d i by auto
    show "dll (lnx L2) (lpv L2) 0 ((fs(i := xs @ ys)) j) 0"
    proof (cases "j = i")
      case True
      have dx: "dll (lnx L) (lpv L) 0 xs h" "dll (lnx L) (lpv L) h ys 0" using d(2) by simp_all
      have x: "dll (lnx L2) (lpv L2) 0 xs (head_of ys 0)"
      proof (rule dll_relink [OF dx(1)])
        show "lpv L2 (hd xs) = 0" if "xs \<noteq> []"
          using dll_ends [OF dx(1) that] hd_in_set [OF that] hy pv by auto
      qed (use d(1) nx pv hy in auto)
      have y: "dll (lnx L2) (lpv L2) (last_of 0 xs) ys 0"
      proof (rule dll_relink [OF dx(2)])
        show "lnx L2 (last ys) = 0" if "ys \<noteq> []"
          using dll_ends [OF dx(2) that] last_in_set [OF that] lx nx by auto
      qed (use d(1) nx pv lx in auto)
      show ?thesis using True x y by simp
    next
      case False
      have "dll (lnx L2) (lpv L2) 0 (fs j) 0"
      proof (subst dll_cong [of "fs j" _ "lnx L" _ "lpv L"])
        fix k assume k: "k \<in> set (fs j)"
        then have "k \<notin> set (xs @ ys)" using B [OF j] d(3) False by auto
        then have "xs \<noteq> [] \<Longrightarrow> k \<noteq> last xs" "ys \<noteq> [] \<Longrightarrow> k \<noteq> hd ys" using lx hy by auto
        then show "lnx L2 k = lnx L k \<and> lpv L2 k = lpv L k" by (auto simp: nx pv)
      qed (use B [OF j] in simp)
      then show ?thesis using False by simp
    qed
  next
    fix k assume "k \<in> I - {h}"
    then show "bn k < 64" "k \<noteq> 0" using I by auto
    have "L k \<noteq> None" using \<open>k \<in> I - {h}\<close> I by blast
    then have "L1 k \<noteq> None" unfolding L1 by (cases "xs = []"; cases "k = last xs") simp_all
    then show "L2 k \<noteq> None" unfolding L2 by (cases "ys = []"; cases "k = hd ys") simp_all
  qed
qed

subsection \<open>The heap\<close>

lemma free_bin_loop_lt: "sz < 2 ^ k \<Longrightarrow> 0 < k \<Longrightarrow> free_bin_loop sz bin < bin + k"
proof (induction sz bin arbitrary: k rule: free_bin_loop.induct)
  case (1 sz bin)
  show ?case
  proof (cases "sz div 2 = 0")
    case True
    then show ?thesis using 1(3) by (simp add: free_bin_loop.simps [of sz bin])
  next
    case False
    then have "2 \<le> sz" by simp
    then have "k \<noteq> 1" using 1(2) by auto
    then obtain j where j: "k = Suc j" "0 < j" using 1(3) by (cases k) auto
    have "sz < 2 * 2 ^ j" using 1(2) j by simp
    then have "sz div 2 < 2 ^ j" by simp
    with 1(1) [OF refl False this j(2)] False j show ?thesis by (simp add: free_bin_loop.simps [of sz bin])
  qed
qed

lemma free_bin_lt: "sz < 2 ^ 64 \<Longrightarrow> free_bin sz < 64"
  using free_bin_loop_lt [of sz 64 0] by (simp add: free_bin_def)

text \<open>\<open>hs\<close> are the headers of the blocks, in the order of the list that starts at \<open>heap_head\<close>.\<close>

text \<open>Every byte of the range is in a recorded mapping.\<close>

definition covered :: "(addr \<times> nat) list \<Rightarrow> addr \<Rightarrow> nat \<Rightarrow> bool" where
  "covered regions p n \<longleftrightarrow> (\<forall>i<n. \<exists>(a, k) \<in> set regions. a \<le> p + i \<and> p + i < a + k)"

lemma covered_add: "covered rs p (n + k) \<longleftrightarrow> covered rs p n \<and> covered rs (p + n) k"
proof
  assume c: "covered rs p n \<and> covered rs (p + n) k"
  show "covered rs p (n + k)" unfolding covered_def
  proof (intro allI impI)
    fix i assume i: "i < n + k"
    show "\<exists>(a, j) \<in> set rs. a \<le> p + i \<and> p + i < a + j"
    proof (cases "i < n")
      case True
      then show ?thesis using c by (simp add: covered_def)
    next
      case False
      then have k: "i - n < k" "p + n + (i - n) = p + i" using i by simp_all
      show ?thesis using c [THEN conjunct2, unfolded covered_def, rule_format, OF k(1)] unfolding k(2) .
    qed
  qed
next
  assume c: "covered rs p (n + k)"
  have "\<exists>(a, j) \<in> set rs. a \<le> p + n + i \<and> p + n + i < a + j" if "i < k" for i
    using c [unfolded covered_def, rule_format, of "n + i"] that by (simp add: add.assoc)
  then show "covered rs p n \<and> covered rs (p + n) k" using c by (simp add: covered_def)
qed

lemma covered_mono: "covered rs p n \<Longrightarrow> set rs \<subseteq> set rs' \<Longrightarrow> covered rs' p n"
  by (fastforce simp: covered_def)

definition block_ok :: "heap \<Rightarrow> addr \<Rightarrow> bool" where
  "block_ok hp h \<longleftrightarrow> (case blocks hp h of None \<Rightarrow> False
    | Some b \<Rightarrow> bmagic b = CRT_BLOCK_MAGIC \<and> h \<noteq> 0 \<and> 16 dvd h \<and> 16 dvd bsize b \<and> 0 < bsize b \<and>
        h + HDR + bsize b \<le> 2 ^ 64 \<and> mapped (bytes hp) h (HDR + bsize b) \<and>
        covered (os_regions hp) h (HDR + bsize b))"

definition apart :: "(addr \<rightharpoonup> block) \<Rightarrow> addr \<Rightarrow> addr \<Rightarrow> bool" where
  "apart B h k \<longleftrightarrow> h + HDR + bsz B h \<le> k \<or> k + HDR + bsz B k \<le> h"

definition blocks_ok :: "heap \<Rightarrow> addr list \<Rightarrow> bool" where
  "blocks_ok hp hs \<longleftrightarrow> distinct hs \<and> dll (bnx (blocks hp)) (bpv (blocks hp)) 0 hs 0 \<and>
     heap_head hp = head_of hs 0 \<and> heap_tail hp = last_of 0 hs \<and> (\<forall>h \<in> set hs. block_ok hp h) \<and>
     (\<forall>h \<in> set hs. \<forall>k \<in> set hs. h \<noteq> k \<longrightarrow> apart (blocks hp) h k)"

definition bin_of :: "heap \<Rightarrow> addr \<Rightarrow> nat" where "bin_of hp h = free_bin (bsz (blocks hp) h)"

definition free_in :: "heap \<Rightarrow> addr list \<Rightarrow> addr set" where "free_in hp hs = {h \<in> set hs. bfr (blocks hp) h}"

text \<open>All free blocks but those of \<open>X\<close> are in their bins.\<close>

definition heap_at :: "heap \<Rightarrow> addr list \<Rightarrow> addr set \<Rightarrow> bool" where
  "heap_at hp hs X \<longleftrightarrow> blocks_ok hp hs \<and>
     (\<exists>fs. bins_ok (links hp) (free_bins hp) fs (bin_of hp) (free_in hp hs - X))"

text \<open>Only links in free blocks and the bins change.\<close>

definition relinked :: "heap \<Rightarrow> heap \<Rightarrow> bool" where
  "relinked hp hp' \<longleftrightarrow> hp' = hp\<lparr>links := links hp', free_bins := free_bins hp'\<rparr> \<and>
     (\<forall>k. links hp' k \<noteq> links hp k \<longrightarrow> bfr (blocks hp) k)"

lemma relinked_same:
  assumes "relinked hp hp'"
  shows "blocks hp' = blocks hp" "bytes hp' = bytes hp" "aligned hp' = aligned hp" "heap_head hp' = heap_head hp"
    "heap_tail hp' = heap_tail hp" "os_regions hp' = os_regions hp" "errno hp' = errno hp" "bin_of hp' = bin_of hp"
    "free_in hp' = free_in hp" "block_ok hp' = block_ok hp" "blocks_ok hp' = blocks_ok hp"
proof -
  from assms have e: "hp' = hp\<lparr>links := links hp', free_bins := free_bins hp'\<rparr>" by (simp add: relinked_def)
  show s: "blocks hp' = blocks hp" "bytes hp' = bytes hp" "aligned hp' = aligned hp" "heap_head hp' = heap_head hp"
    "heap_tail hp' = heap_tail hp" "os_regions hp' = os_regions hp" "errno hp' = errno hp"
    by (subst e; simp)+
  show "bin_of hp' = bin_of hp" "free_in hp' = free_in hp" and b: "block_ok hp' = block_ok hp"
    by (auto simp: fun_eq_iff bin_of_def free_in_def block_ok_def s split: option.splits)
  then show "blocks_ok hp' = blocks_ok hp" by (simp add: fun_eq_iff blocks_ok_def s)
qed

lemma block_ok_D:
  assumes "block_ok hp h"
  shows "\<exists>b. blocks hp h = Some b" "h \<noteq> 0" "16 dvd h" "16 dvd bsz (blocks hp) h" "0 < bsz (blocks hp) h"
    "h + HDR + bsz (blocks hp) h \<le> 2 ^ 64" "bmagic (the (blocks hp h)) = CRT_BLOCK_MAGIC"
    "mapped (bytes hp) h (HDR + bsz (blocks hp) h)" "covered (os_regions hp) h (HDR + bsz (blocks hp) h)"
  using assms by (auto simp: block_ok_def bsz_def split: option.splits)

lemma index_free_block_ok:
  assumes at: "heap_at hp hs X" and h: "h \<in> set hs" "bfr (blocks hp) h" "h \<in> X"
  shows "\<exists>hp'. index_free_block h hp = Some hp' \<and> relinked hp hp' \<and> heap_at hp' hs (X - {h})"
proof -
  from at obtain fs where bo: "blocks_ok hp hs" and fs: "bins_ok (links hp) (free_bins hp) fs (bin_of hp) (free_in hp hs - X)"
    by (auto simp: heap_at_def)
  have b: "block_ok hp h" using bo h by (simp add: blocks_ok_def)
  obtain bl where bl: "blocks hp h = Some bl" using block_ok_D(1) [OF b] by blast
  define i where "i = bin_of hp h"
  have i: "i < 64" using block_ok_D(5,6) [OF b] free_bin_lt by (simp add: i_def bin_of_def HDR_def)
  have fi: "free_bin (bsize bl) = i" using bl by (simp add: i_def bin_of_def bsz_def)
  have F: "free_bins hp i = Some (head_of (fs i) 0)" and S: "set (fs i) = {k \<in> free_in hp hs - X. bin_of hp k = i}"
    using fs i by (auto simp: bins_ok_def)
  define L1 where "L1 = (links hp)(h \<mapsto> \<lparr>lprevious = 0, lnext = head_of (fs i) 0\<rparr>)"
  define L2 where "L2 = (if fs i = [] then L1 else L1(hd (fs i) \<mapsto> (the (L1 (hd (fs i))))\<lparr>lprevious := h\<rparr>))"
  let ?hp = "hp\<lparr>links := L2, free_bins := (free_bins hp)(i \<mapsto> h)\<rparr>"
  have "h \<notin> free_in hp hs - X" using h(3) by simp
  from index_links [OF fs this block_ok_D(2) [OF b] i_def [symmetric] i L1_def L2_def]
  have new: "bins_ok L2 ((free_bins hp)(i \<mapsto> h)) (fs(i := h # fs i)) (bin_of hp) (insert h (free_in hp hs - X))" .
  have hd: "hd (fs i) \<noteq> 0 \<and> bfr (blocks hp) (hd (fs i)) \<and> (\<exists>l. links hp (hd (fs i)) = Some l)" if "fs i \<noteq> []"
    using S fs hd_in_set [OF that] by (auto simp: bins_ok_def free_in_def)
  have "index_free_block h hp = Some ?hp"
  proof (cases "fs i")
    case Nil
    then show ?thesis using bl fi F by (simp add: index_free_block_def L1_def L2_def)
  next
    case (Cons x xs)
    have "x \<in> free_in hp hs - X" using S Cons by auto
    then have "x \<noteq> h" using h(3) by auto
    moreover obtain l where "x \<noteq> 0" "links hp x = Some l" using hd Cons by auto
    ultimately show ?thesis using bl fi F Cons by (simp add: index_free_block_def L1_def L2_def)
  qed
  moreover have r: "relinked hp ?hp"
    using h(2) hd by (auto simp: relinked_def L2_def L1_def split: if_splits)
  moreover have "insert h (free_in hp hs - X) = free_in hp hs - (X - {h})" using h by (auto simp: free_in_def)
  then have "heap_at ?hp hs (X - {h})"
    unfolding heap_at_def relinked_same(8,9,11) [OF r] using bo new by auto
  ultimately show ?thesis by blast
qed

lemma unindex_free_block_ok:
  assumes at: "heap_at hp hs X" and h: "h \<in> set hs" "bfr (blocks hp) h" "h \<notin> X"
  shows "\<exists>hp'. unindex_free_block h hp = Some hp' \<and> relinked hp hp' \<and> heap_at hp' hs (insert h X)"
proof -
  from at obtain fs where bo: "blocks_ok hp hs" and fs: "bins_ok (links hp) (free_bins hp) fs (bin_of hp) (free_in hp hs - X)"
    by (auto simp: heap_at_def)
  let ?I = "free_in hp hs - X"
  have hI: "h \<in> ?I" using h by (simp add: free_in_def)
  have b: "block_ok hp h" using bo h by (simp add: blocks_ok_def)
  obtain bl where bl: "blocks hp h = Some bl" using block_ok_D(1) [OF b] by blast
  define i where "i = bin_of hp h"
  have i: "i < 64" using fs hI by (auto simp: bins_ok_def i_def)
  have fi: "free_bin (bsize bl) = i" using bl by (simp add: i_def bin_of_def bsz_def)
  have F: "free_bins hp i = Some (head_of (fs i) 0)" and S: "set (fs i) = {k \<in> ?I. bin_of hp k = i}"
    and D: "dll (lnx (links hp)) (lpv (links hp)) 0 (fs i) 0" "distinct (fs i)"
    and N: "\<And>k. k \<in> ?I \<Longrightarrow> k \<noteq> 0 \<and> bfr (blocks hp) k \<and> (\<exists>l. links hp k = Some l)"
    using fs i by (auto simp: bins_ok_def free_in_def)
  obtain xs ys where xy: "fs i = xs @ h # ys" using S hI i_def by (metis (mono_tags, lifting) mem_Collect_eq split_list)
  obtain l where l: "links hp h = Some l" using N [OF hI] by blast
  have ln: "lnext l = head_of ys 0" "lprevious l = last_of 0 xs"
    using D(1) l by (simp_all add: xy lnx_def lpv_def)
  define L1 where "L1 = (if xs = [] then links hp else (links hp)(last xs \<mapsto> (the (links hp (last xs)))\<lparr>lnext := head_of ys 0\<rparr>))"
  define L2 where "L2 = (if ys = [] then L1 else L1(hd ys \<mapsto> (the (L1 (hd ys)))\<lparr>lprevious := last_of 0 xs\<rparr>))"
  define F' where "F' = (if xs = [] then (free_bins hp)(i \<mapsto> head_of ys 0) else free_bins hp)"
  let ?hp = "hp\<lparr>links := L2, free_bins := F'\<rparr>"
  have new: "bins_ok L2 F' (fs(i := xs @ ys)) (bin_of hp) (?I - {h})"
    by (rule unindex_links [OF fs hI i_def [symmetric] xy L1_def L2_def F'_def])
  have xl: "last xs \<noteq> 0 \<and> bfr (blocks hp) (last xs) \<and> (\<exists>l. links hp (last xs) = Some l)" if "xs \<noteq> []"
    by (rule N) (use S xy last_in_set [OF that] in auto)
  have yh: "hd ys \<noteq> 0 \<and> bfr (blocks hp) (hd ys) \<and> (\<exists>l. links hp (hd ys) = Some l)" if "ys \<noteq> []"
    by (rule N) (use S xy hd_in_set [OF that] in auto)
  have ne: "last xs \<noteq> hd ys" if "xs \<noteq> []" "ys \<noteq> []"
    using D(2) last_in_set [OF that(1)] hd_in_set [OF that(2)] unfolding xy by auto
  have "unindex_free_block h hp = Some ?hp"
  proof -
    have 1: "(if last_of 0 xs \<noteq> null
        then do { p \<leftarrow> links hp (last_of 0 xs); Some (hp\<lparr>links := (links hp)(last_of 0 xs \<mapsto> p\<lparr>lnext := head_of ys 0\<rparr>)\<rparr>) }
        else do { b \<leftarrow> blocks hp h; _ \<leftarrow> free_bins hp (free_bin (bsize b));
          Some (hp\<lparr>free_bins := (free_bins hp)(free_bin (bsize b) \<mapsto> head_of ys 0)\<rparr>) }) =
        Some (hp\<lparr>links := L1, free_bins := F'\<rparr>)"
      using xl bl fi F by (cases "xs = []") (auto simp: last_of_def L1_def F'_def)
    have u: "unindex_free_block h hp = do {
        hp \<leftarrow> (if last_of 0 xs \<noteq> null
          then do { p \<leftarrow> links hp (last_of 0 xs); Some (hp\<lparr>links := (links hp)(last_of 0 xs \<mapsto> p\<lparr>lnext := head_of ys 0\<rparr>)\<rparr>) }
          else do { b \<leftarrow> blocks hp h; _ \<leftarrow> free_bins hp (free_bin (bsize b));
            Some (hp\<lparr>free_bins := (free_bins hp)(free_bin (bsize b) \<mapsto> head_of ys 0)\<rparr>) });
        if head_of ys 0 \<noteq> null
        then do { n \<leftarrow> links hp (head_of ys 0); Some (hp\<lparr>links := (links hp)(head_of ys 0 \<mapsto> n\<lparr>lprevious := last_of 0 xs\<rparr>)\<rparr>) }
        else Some hp }"
      unfolding unindex_free_block_def l Option.bind.simps Let_def ln ..
    show ?thesis
    proof (cases ys)
      case Nil
      then show ?thesis unfolding u 1 by (simp add: L2_def)
    next
      case (Cons y ys')
      then obtain l' where "y \<noteq> 0" "L1 y = Some l'" using yh ne by (cases "xs = []") (auto simp: L1_def)
      then show ?thesis unfolding u 1 using Cons by (simp add: L2_def)
    qed
  qed
  moreover have r: "relinked hp ?hp"
    using xl yh by (auto simp: relinked_def L2_def L1_def split: if_splits)
  moreover have "?I - {h} = free_in hp hs - insert h X" by auto
  then have "heap_at ?hp hs (insert h X)"
    unfolding heap_at_def relinked_same(8,9,11) [OF r] using bo new by auto
  ultimately show ?thesis by blast
qed

subsection \<open>Coalescing\<close>

text \<open>The blocks in use, with their sizes, and what a step leaves alone.\<close>

definition live :: "heap \<Rightarrow> addr list \<Rightarrow> (addr \<times> nat) set" where
  "live hp hs = {(h, n). h \<in> set hs \<and> \<not> bfr (blocks hp) h \<and> n = bsz (blocks hp) h}"

definition keeps :: "heap \<Rightarrow> addr list \<Rightarrow> heap \<Rightarrow> bool" where
  "keeps hp hs hp' \<longleftrightarrow> bytes hp' = bytes hp \<and> aligned hp' = aligned hp \<and> os_regions hp' = os_regions hp \<and>
     errno hp' = errno hp \<and> (\<forall>(h, n) \<in> live hp hs. links hp' h = links hp h)"

lemma keeps_refl [simp]: "keeps hp hs hp"
  by (simp add: keeps_def)

lemma keeps_trans: "keeps hp hs hp' \<Longrightarrow> live hp hs \<subseteq> live hp' hs' \<Longrightarrow> keeps hp' hs' hp'' \<Longrightarrow> keeps hp hs hp''"
  by (fastforce simp: keeps_def)

lemma live_relinked: "relinked hp hp' \<Longrightarrow> live hp' hs = live hp hs"
  by (simp add: live_def relinked_same)

lemma keeps_relinked: "relinked hp hp' \<Longrightarrow> keeps hp hs hp'"
  using relinked_same [of hp hp'] by (auto simp: keeps_def live_def relinked_def)

definition has_magic :: "(addr \<rightharpoonup> block) \<Rightarrow> addr \<Rightarrow> bool" where
  "has_magic B h \<longleftrightarrow> (\<exists>b. B h = Some b \<and> bmagic b = CRT_BLOCK_MAGIC)"

lemma has_magic_upd [simp]: "has_magic (B(h \<mapsto> b)) k = (if k = h then bmagic b = CRT_BLOCK_MAGIC else has_magic B k)"
  by (simp add: has_magic_def)

lemma field_Some:
  "B h = Some b \<Longrightarrow> bnx B h = bnext b \<and> bpv B h = bprevious b \<and> bsz B h = bsize b \<and> bfr B h = bfree b \<and>
    has_magic B h = (bmagic b = CRT_BLOCK_MAGIC)"
  by (simp add: field_defs has_magic_def)

lemma block_ok_iff:
  "block_ok hp h \<longleftrightarrow> has_magic (blocks hp) h \<and> h \<noteq> 0 \<and> 16 dvd h \<and> 16 dvd bsz (blocks hp) h \<and>
     0 < bsz (blocks hp) h \<and> h + HDR + bsz (blocks hp) h \<le> 2 ^ 64 \<and>
     mapped (bytes hp) h (HDR + bsz (blocks hp) h) \<and> covered (os_regions hp) h (HDR + bsz (blocks hp) h)"
  by (cases "blocks hp h") (simp_all add: block_ok_def has_magic_def bsz_def)

lemma blocks_ok_D:
  assumes "blocks_ok hp hs"
  shows "distinct hs" "dll (bnx (blocks hp)) (bpv (blocks hp)) 0 hs 0" "heap_head hp = head_of hs 0"
    "heap_tail hp = last_of 0 hs" "h \<in> set hs \<Longrightarrow> block_ok hp h"
    "h \<in> set hs \<Longrightarrow> k \<in> set hs \<Longrightarrow> h \<noteq> k \<Longrightarrow> apart (blocks hp) h k"
  using assms unfolding blocks_ok_def by blast+

lemma blocks_ok_at: "heap_at hp hs X \<Longrightarrow> blocks_ok hp hs"
  by (simp add: heap_at_def)

lemma heap_at_block: "heap_at hp hs X \<Longrightarrow> h \<in> set hs \<Longrightarrow> block_ok hp h"
  by (simp add: heap_at_def blocks_ok_def)

lemma blocks_ok_next:
  assumes "blocks_ok hp (pre @ cur # post)"
  shows "\<exists>c. blocks hp cur = Some c \<and> bnext c = head_of post 0 \<and> bprevious c = last_of 0 pre"
  using assms block_ok_D(1) [of hp cur] by (auto simp: blocks_ok_def bnx_def bpv_def)

text \<open>The block that follows \<open>cur\<close> becomes part of it.\<close>

definition merge :: "addr \<Rightarrow> block \<Rightarrow> block \<Rightarrow> heap \<Rightarrow> heap option" where
  "merge cur c n hp = (let hp = put_block cur (c\<lparr>bsize := bsize c + (HDR + bsize n), bnext := bnext n\<rparr>) hp in
     if bnext n \<noteq> null then set_previous (bnext n) cur hp else Some (hp\<lparr>heap_tail := cur\<rparr>))"

lemma merge_ok:
  assumes at: "heap_at hp (pre @ cur # nxt # post) (insert nxt X)" and X: "cur \<in> X" and c: "blocks hp cur = Some c" and n: "blocks hp nxt = Some n"
    and adj: "cur + HDR + bsize c = nxt" and fr: "bfree n" "bfree c"
  shows "\<exists>hp'. merge cur c n hp = Some hp' \<and> heap_at hp' (pre @ cur # post) X \<and>
    links hp' = links hp \<and> bytes hp' = bytes hp \<and> aligned hp' = aligned hp \<and> os_regions hp' = os_regions hp \<and>
    errno hp' = errno hp \<and> (\<forall>k. bfr (blocks hp') k = bfr (blocks hp) k) \<and>
    (\<forall>k. bsz (blocks hp') k = (if k = cur then bsize c + (HDR + bsize n) else bsz (blocks hp) k))"
proof -
  let ?hs = "pre @ cur # nxt # post" and ?hs' = "pre @ cur # post"
  have bo: "blocks_ok hp ?hs" using at by (simp add: heap_at_def)
  note D = blocks_ok_D [OF bo]
  have d: "distinct ?hs" by (rule D(1))
  have nn: "bnext n = head_of post 0" using D(2) n by (simp add: bnx_def)
  let ?c = "c\<lparr>bsize := bsize c + (HDR + bsize n), bnext := bnext n\<rparr>"
  let ?B1 = "(blocks hp)(cur \<mapsto> ?c)"
  have post: "hd post \<noteq> 0" "\<exists>b. blocks hp (hd post) = Some b" "hd post \<noteq> cur" if "post \<noteq> []"
  proof -
    have "hd post \<in> set ?hs" using hd_in_set [OF that] by simp
    from block_ok_D(1,2) [OF D(5) [OF this]] show "hd post \<noteq> 0" "\<exists>b. blocks hp (hd post) = Some b" by simp_all
    show "hd post \<noteq> cur" using hd_in_set [OF that] d by auto
  qed
  define B' where "B' = (if post = [] then ?B1 else ?B1(hd post \<mapsto> (the (blocks hp (hd post)))\<lparr>bprevious := cur\<rparr>))"
  define hp' where "hp' = hp\<lparr>blocks := B', heap_tail := (if post = [] then cur else heap_tail hp)\<rparr>"
  have run: "merge cur c n hp = Some hp'"
    using post by (cases post) (auto simp: merge_def nn put_block_def set_previous_def hp'_def B'_def)
  have F: "bnx B' k = (if k = cur then head_of post 0 else bnx (blocks hp) k) \<and>
      bpv B' k = (if post \<noteq> [] \<and> k = hd post then cur else bpv (blocks hp) k) \<and>
      bfr B' k = bfr (blocks hp) k \<and> has_magic B' k = has_magic (blocks hp) k \<and>
      bsz B' k = (if k = cur then bsize c + (HDR + bsize n) else bsz (blocks hp) k)" for k
  proof (cases post)
    case Nil
    then show ?thesis using field_Some [of "blocks hp", OF c] by (simp add: B'_def nn)
  next
    case (Cons p ps)
    then obtain pb where pb: "blocks hp p = Some pb" "p \<noteq> cur" using post by auto
    then show ?thesis using Cons field_Some [of "blocks hp", OF c] field_Some [of "blocks hp", OF pb(1)] by (simp add: B'_def nn)
  qed
  note f = F [THEN conjunct1] F [THEN conjunct2, THEN conjunct1] F [THEN conjunct2, THEN conjunct2, THEN conjunct1]
    F [THEN conjunct2, THEN conjunct2, THEN conjunct2, THEN conjunct1] F [THEN conjunct2, THEN conjunct2, THEN conjunct2, THEN conjunct2]
  have same: "blocks hp' = B'" "bytes hp' = bytes hp" "heap_head hp' = heap_head hp" "links hp' = links hp"
    "free_bins hp' = free_bins hp" "os_regions hp' = os_regions hp" by (simp_all add: hp'_def)
  have sz: "bsz (blocks hp) cur = bsize c" "bsz (blocks hp) nxt = bsize n" using c n by (simp_all add: bsz_def)
  have bo': "blocks_ok hp' ?hs'" unfolding blocks_ok_def same
  proof (intro conjI ballI impI)
    show "distinct ?hs'" using d by simp
    show "heap_head hp = head_of ?hs' 0" using D(3) by simp
    show "heap_tail hp' = last_of 0 ?hs'" using D(4) by (auto simp: hp'_def last_of_def)
    have "dll (bnx B') (bpv B') 0 pre cur"
      by (subst dll_cong [of pre _ "bnx (blocks hp)" _ "bpv (blocks hp)"]) (use D(2) d f post in \<open>auto simp: neq_Nil_conv\<close>)
    moreover have "dll (bnx B') (bpv B') cur post 0"
    proof (rule dll_relink [of "bnx (blocks hp)" "bpv (blocks hp)" nxt post 0])
      show "bnx B' (last post) = 0" if ne: "post \<noteq> []"
      proof -
        have "dll (bnx (blocks hp)) (bpv (blocks hp)) nxt post 0" using D(2) by simp
        from dll_ends [OF this ne] have "bnx (blocks hp) (last post) = 0" by simp
        moreover have "last post \<noteq> cur" using last_in_set [OF ne] d by auto
        ultimately show ?thesis by (simp add: f)
      qed
    qed (use D(2) d f in auto)
    moreover have "bpv B' cur = last_of 0 pre" using D(2) f(2) [of cur] post(3) by auto
    ultimately show "dll (bnx B') (bpv B') 0 ?hs' 0" using f(1) [of cur] by simp
  next
    fix h assume h: "h \<in> set ?hs'"
    have "block_ok hp cur" "block_ok hp nxt" using D(5) by simp_all
    then have "16 dvd bsize c + (HDR + bsize n)" "cur + HDR + (bsize c + (HDR + bsize n)) \<le> 2 ^ 64"
      "mapped (bytes hp) cur (HDR + (bsize c + (HDR + bsize n)))"
      "covered (os_regions hp) cur (HDR + (bsize c + (HDR + bsize n)))"
      using adj sz mapped_add [of "bytes hp" cur "HDR + bsize c" "HDR + bsize n"]
        covered_add [of "os_regions hp" cur "HDR + bsize c" "HDR + bsize n"]
      by (auto simp: block_ok_iff HDR_def add.assoc)
    then show "block_ok hp' h" using D(5) [of h] h sz unfolding block_ok_iff same f by auto
  next
    fix h k assume hk: "h \<in> set ?hs'" "k \<in> set ?hs'" "h \<noteq> k"
    have big: "apart B' cur x \<and> apart B' x cur" if "x \<in> set ?hs'" "x \<noteq> cur" for x
    proof -
      have "apart (blocks hp) cur x" "apart (blocks hp) nxt x" "x \<noteq> nxt"
        using D(6) [of cur x] D(6) [of nxt x] that d by auto
      then show ?thesis using that(2) adj sz unfolding apart_def f by (auto simp: HDR_def)
    qed
    show "apart B' h k"
    proof (cases "h = cur \<or> k = cur")
      case True
      then show ?thesis using big hk by auto
    next
      case False
      then show ?thesis using D(6) [of h k] hk by (auto simp: apart_def f)
    qed
  qed
  have I: "free_in hp' ?hs' - X = free_in hp ?hs - insert nxt X"
    using d by (auto simp: free_in_def same f)
  obtain fs where "bins_ok (links hp) (free_bins hp) fs (bin_of hp) (free_in hp ?hs - insert nxt X)"
    using at by (auto simp: heap_at_def)
  then have "bins_ok (links hp') (free_bins hp') fs (bin_of hp') (free_in hp' ?hs' - X)"
    unfolding I same by (rule bins_ok_cong) (use X in \<open>auto simp: bin_of_def same f\<close>)
  with bo' have "heap_at hp' ?hs' X" by (auto simp: heap_at_def)
  then show ?thesis using run f by (auto simp: same hp'_def)
qed

lemma coalesce_step:
  assumes "blocks hp cur = Some c" "bnext c \<noteq> 0" "blocks hp (bnext c) = Some n"
  shows "coalesce_free_blocks cur hp =
    (if \<not> bfree n \<or> cur + HDR + bsize c \<noteq> bnext c then Some hp
     else do { hp \<leftarrow> unindex_free_block (bnext c) hp; hp \<leftarrow> merge cur c n hp; coalesce_free_blocks cur hp })"
  by (subst coalesce_free_blocks.simps) (simp add: assms merge_def Let_def cong: if_cong)

lemma coalesce_ok:
  assumes "heap_at hp (pre @ cur # post) X" "bfr (blocks hp) cur" "cur \<in> X" "X \<inter> set post = {}"
  shows "\<exists>hp' post'. coalesce_free_blocks cur hp = Some hp' \<and> heap_at hp' (pre @ cur # post') X \<and>
    live hp' (pre @ cur # post') = live hp (pre @ cur # post) \<and> keeps hp (pre @ cur # post) hp' \<and>
    (\<forall>k. bfr (blocks hp') k = bfr (blocks hp) k) \<and> (\<forall>k. k \<noteq> cur \<longrightarrow> bsz (blocks hp') k = bsz (blocks hp) k) \<and>
    bsz (blocks hp) cur \<le> bsz (blocks hp') cur"
  using assms
proof (induction post arbitrary: hp)
  case Nil
  obtain c where c: "blocks hp cur = Some c" "bnext c = 0"
    using blocks_ok_next [OF blocks_ok_at [OF Nil.prems(1)]] by auto
  then have "coalesce_free_blocks cur hp = Some hp" by (subst coalesce_free_blocks.simps) simp
  with Nil show ?case by (intro exI [of _ hp] exI [of _ "[]"]) simp
next
  case (Cons nxt post)
  let ?hs = "pre @ cur # nxt # post"
  note D = blocks_ok_D [OF blocks_ok_at [OF Cons.prems(1)]]
  obtain c where c: "blocks hp cur = Some c" "bnext c = nxt"
    using blocks_ok_next [OF blocks_ok_at [OF Cons.prems(1)]] by auto
  have no: "block_ok hp nxt" by (rule D(5)) simp
  obtain n where n: "blocks hp nxt = Some n" using block_ok_D(1) [OF no] by blast
  note step = coalesce_step [OF c(1), unfolded c(2), OF block_ok_D(2) [OF no] n]
  show ?case
  proof (cases "bfree n \<and> cur + HDR + bsize c = nxt")
    case False
    then have "coalesce_free_blocks cur hp = Some hp" using step by auto
    with Cons.prems show ?thesis by (intro exI [of _ hp] exI [of _ "nxt # post"]) simp
  next
    case True
    have fr: "bfr (blocks hp) nxt" "bfree c" using True n Cons.prems(2) c by (simp_all add: bfr_def)
    have nx: "nxt \<noteq> cur" using D(1) by auto
    obtain hp1 where h1: "unindex_free_block nxt hp = Some hp1" "relinked hp hp1" "heap_at hp1 ?hs (insert nxt X)"
      using unindex_free_block_ok [OF Cons.prems(1), of nxt] fr(1) Cons.prems(4) by auto
    note s1 = relinked_same [OF h1(2)]
    from merge_ok [OF h1(3) Cons.prems(3), unfolded s1(1), OF c(1) n] True fr(2)
    obtain hp2 where h2: "merge cur c n hp1 = Some hp2" "heap_at hp2 (pre @ cur # post) X" "links hp2 = links hp1"
      "bytes hp2 = bytes hp" "aligned hp2 = aligned hp" "os_regions hp2 = os_regions hp" "errno hp2 = errno hp"
      "\<And>k. bfr (blocks hp2) k = bfr (blocks hp) k"
      "\<And>k. bsz (blocks hp2) k = (if k = cur then bsize c + (HDR + bsize n) else bsz (blocks hp) k)"
      by (auto simp: s1)
    have l2: "live hp2 (pre @ cur # post) = live hp ?hs"
      using fr(1) Cons.prems(2) by (auto simp: live_def h2(8,9))
    have k2: "keeps hp ?hs hp2"
      using keeps_relinked [OF h1(2), of ?hs] by (simp add: keeps_def h2 s1)
    have "bfr (blocks hp2) cur" using Cons.prems(2) by (simp add: h2(8))
    from Cons.IH [OF h2(2) this Cons.prems(3)] Cons.prems(4) obtain hp' post' where h3: "coalesce_free_blocks cur hp2 = Some hp'"
      "heap_at hp' (pre @ cur # post') X" "live hp' (pre @ cur # post') = live hp2 (pre @ cur # post)"
      "keeps hp2 (pre @ cur # post) hp'" "\<forall>k. bfr (blocks hp') k = bfr (blocks hp2) k"
      "\<forall>k. k \<noteq> cur \<longrightarrow> bsz (blocks hp') k = bsz (blocks hp2) k" "bsz (blocks hp2) cur \<le> bsz (blocks hp') cur" by auto
    have "coalesce_free_blocks cur hp = Some hp'" using step True h1(1) h2(1) h3(1) by simp
    moreover have "keeps hp ?hs hp'" using keeps_trans [OF k2 _ h3(4)] l2 by simp
    moreover have "bsz (blocks hp) cur \<le> bsz (blocks hp') cur"
      using h3(7) h2(9) [of cur] c by (simp add: bsz_def)
    ultimately show ?thesis using h3 l2 h2(8,9)
      by (intro exI [of _ hp'] exI [of _ post']) auto
  qed
qed

subsection \<open>Splitting\<close>

definition carve :: "addr \<Rightarrow> block \<Rightarrow> nat \<Rightarrow> heap \<Rightarrow> heap option" where
  "carve h b sz hp = (let next = h + HDR + sz;
     hp = put_block next \<lparr>bsize = bsize b - sz - HDR, bfree = True, bnext = bnext b, bprevious = h,
       bmagic = CRT_BLOCK_MAGIC\<rparr> hp in do {
     hp \<leftarrow> (if bnext b \<noteq> null then set_previous (bnext b) next hp else Some (hp\<lparr>heap_tail := next\<rparr>));
     Some (put_block h (b\<lparr>bsize := sz, bnext := next\<rparr>) hp) })"

lemma carve_ok:
  assumes at: "heap_at hp (pre @ h # post) X" and b: "blocks hp h = Some b" and sz: "16 dvd sz" "0 < sz"
    "sz + HDR + HDR \<le> bsize b" and X: "X \<subseteq> {h}" "bfree b \<Longrightarrow> h \<in> X"
    and nxt: "nb = h + HDR + sz"
  shows "\<exists>hp'. carve h b sz hp = Some hp' \<and> heap_at hp' (pre @ h # nb # post) (insert nb X) \<and>
    links hp' = links hp \<and> bytes hp' = bytes hp \<and> aligned hp' = aligned hp \<and> os_regions hp' = os_regions hp \<and>
    errno hp' = errno hp \<and> (\<forall>k. bfr (blocks hp') k = (k = nb \<or> bfr (blocks hp) k)) \<and>
    (\<forall>k. bsz (blocks hp') k = (if k = nb then bsize b - sz - HDR else if k = h then sz else bsz (blocks hp) k)) \<and>
    nb \<notin> set (pre @ h # post)"
proof -
  let ?hs = "pre @ h # post" and ?hs' = "pre @ h # nb # post"
  have bo: "blocks_ok hp ?hs" by (rule blocks_ok_at [OF at])
  note D = blocks_ok_D [OF bo]
  have d: "distinct ?hs" by (rule D(1))
  have hok: "block_ok hp h" by (rule D(5)) simp
  have sb: "bsz (blocks hp) h = bsize b" using b by (simp add: bsz_def)
  note H = hok [unfolded block_ok_iff sb]
  have nh: "nb \<noteq> h" using sz nxt by (simp add: HDR_def)
  have new: "nb \<notin> set ?hs"
  proof
    assume "nb \<in> set ?hs"
    then have "apart (blocks hp) h nb" using D(6) [of h nb] nh by auto
    then show False using sz unfolding apart_def sb by (auto simp: nxt HDR_def)
  qed
  have bn: "bnext b = head_of post 0" using D(2) b by (simp add: bnx_def)
  have post: "hd post \<noteq> 0 \<and> (\<exists>p. blocks hp (hd post) = Some p) \<and> hd post \<noteq> h \<and> hd post \<noteq> nb" if "post \<noteq> []"
  proof -
    have "hd post \<in> set ?hs" using hd_in_set [OF that] by simp
    with block_ok_D(1,2) [OF D(5) [OF this]] new hd_in_set [OF that] d show ?thesis by auto
  qed
  let ?n = "\<lparr>bsize = bsize b - sz - HDR, bfree = True, bnext = bnext b, bprevious = h, bmagic = CRT_BLOCK_MAGIC\<rparr>"
  let ?b = "b\<lparr>bsize := sz, bnext := nb\<rparr>"
  let ?B1 = "(blocks hp)(nb \<mapsto> ?n)"
  define B' where "B' = (if post = [] then ?B1 else ?B1(hd post \<mapsto> (the (blocks hp (hd post)))\<lparr>bprevious := nb\<rparr>))(h \<mapsto> ?b)"
  define hp' where "hp' = hp\<lparr>blocks := B', heap_tail := (if post = [] then nb else heap_tail hp)\<rparr>"
  have run: "carve h b sz hp = Some hp'"
    using post nh by (cases post) (auto simp: carve_def Let_def bn nxt [symmetric] put_block_def set_previous_def hp'_def B'_def)
  have F: "bnx B' k = (if k = h then nb else if k = nb then head_of post 0 else bnx (blocks hp) k) \<and>
      bpv B' k = (if k = nb then h else if post \<noteq> [] \<and> k = hd post then nb else bpv (blocks hp) k) \<and>
      bfr B' k = (k = nb \<or> bfr (blocks hp) k) \<and> has_magic B' k = (k = nb \<or> has_magic (blocks hp) k) \<and>
      bsz B' k = (if k = nb then bsize b - sz - HDR else if k = h then sz else bsz (blocks hp) k)" for k
  proof (cases post)
    case Nil
    then show ?thesis using field_Some [of "blocks hp", OF b] nh by (simp add: B'_def bn)
  next
    case (Cons p ps)
    then obtain pb where pb: "blocks hp p = Some pb" "p \<noteq> h" "p \<noteq> nb" using post by auto
    then show ?thesis using Cons field_Some [of "blocks hp", OF b] field_Some [of "blocks hp", OF pb(1)] nh by (simp add: B'_def bn)
  qed
  note f = F [THEN conjunct1] F [THEN conjunct2, THEN conjunct1] F [THEN conjunct2, THEN conjunct2, THEN conjunct1]
    F [THEN conjunct2, THEN conjunct2, THEN conjunct2, THEN conjunct1] F [THEN conjunct2, THEN conjunct2, THEN conjunct2, THEN conjunct2]
  have same: "blocks hp' = B'" "bytes hp' = bytes hp" "heap_head hp' = heap_head hp" "links hp' = links hp"
    "free_bins hp' = free_bins hp" "os_regions hp' = os_regions hp" by (simp_all add: hp'_def)
  have bo': "blocks_ok hp' ?hs'" unfolding blocks_ok_def same
  proof (intro conjI ballI impI)
    show "distinct ?hs'" using d new by auto
    show "heap_head hp = head_of ?hs' 0" using D(3) by simp
    show "heap_tail hp' = last_of 0 ?hs'" using D(4) by (auto simp: hp'_def last_of_def)
    have "dll (bnx B') (bpv B') 0 pre h"
      by (subst dll_cong [of pre _ "bnx (blocks hp)" _ "bpv (blocks hp)"]) (use D(2) d f post new in \<open>auto simp: neq_Nil_conv\<close>)
    moreover have "dll (bnx B') (bpv B') nb post 0"
    proof (rule dll_relink [of "bnx (blocks hp)" "bpv (blocks hp)" h post 0])
      show "bnx B' (last post) = 0" if ne: "post \<noteq> []"
      proof -
        have "dll (bnx (blocks hp)) (bpv (blocks hp)) h post 0" using D(2) by simp
        from dll_ends [OF this ne] have "bnx (blocks hp) (last post) = 0" by simp
        moreover have "last post \<noteq> h" "last post \<noteq> nb" using last_in_set [OF ne] d new by auto
        ultimately show ?thesis by (simp add: f)
      qed
    qed (use D(2) d f new post in auto)
    moreover have "bpv B' h = last_of 0 pre" using D(2) f(2) [of h] post nh by auto
    ultimately show "dll (bnx B') (bpv B') 0 ?hs' 0" using f(1) [of h] f(1) [of nb] f(2) [of nb] nh by simp
  next
    fix k assume k: "k \<in> set ?hs'"
    have q: "16 dvd bsize b - sz - HDR"
      using H sz(1) by (intro dvd_diff_nat) (simp_all add: HDR_def)
    have ad: "HDR + bsize b = (HDR + sz) + (HDR + (bsize b - sz - HDR))" using sz(3) by simp
    have "mapped (bytes hp) h (HDR + bsize b)" "covered (os_regions hp) h (HDR + bsize b)" using H by blast+
    then have m: "mapped (bytes hp) h (HDR + sz)" "mapped (bytes hp) nb (HDR + (bsize b - sz - HDR))"
      "covered (os_regions hp) h (HDR + sz)" "covered (os_regions hp) nb (HDR + (bsize b - sz - HDR))"
      unfolding ad mapped_add covered_add nxt by (auto simp: add.assoc)
    have "block_ok hp' nb" unfolding block_ok_iff same f
      using H sz nxt m(2,4) q by (auto simp: HDR_def)
    moreover have "block_ok hp' h" unfolding block_ok_iff same f
      using H sz nh m(1,3) by (auto simp: HDR_def)
    moreover have "block_ok hp' k" if "k \<in> set ?hs" "k \<noteq> h"
      using D(5) [OF that(1)] that new unfolding block_ok_iff same f by auto
    ultimately show "block_ok hp' k" using k by auto
  next
    fix x y assume xy: "x \<in> set ?hs'" "y \<in> set ?hs'" "x \<noteq> y"
    have two: "apart B' h nb \<and> apart B' nb h"
      using nh nxt unfolding apart_def f by auto
    have big: "apart B' h x \<and> apart B' x h \<and> apart B' nb x \<and> apart B' x nb" if "x \<in> set ?hs" "x \<noteq> h" for x
    proof -
      have "apart (blocks hp) h x" "x \<noteq> nb" using D(6) [of h x] that new by auto
      then show ?thesis using that(2) sz nxt nh unfolding apart_def f sb by (auto simp: HDR_def)
    qed
    have rest: "apart B' x y" if "x \<in> set ?hs" "y \<in> set ?hs" "x \<noteq> h" "y \<noteq> h" "x \<noteq> y" for x y
    proof -
      have "apart (blocks hp) x y" "x \<noteq> nb" "y \<noteq> nb" using D(6) [of x y] that new by auto
      then show ?thesis using that unfolding apart_def f by auto
    qed
    show "apart B' x y"
      using xy two big [of x] big [of y] rest [of x y] by (cases "x = h"; cases "y = h"; cases "x = nb"; cases "y = nb") auto
  qed
  have I: "free_in hp' ?hs' - insert nb X = free_in hp ?hs - X"
    using new by (auto simp: free_in_def same f)
  obtain fs where "bins_ok (links hp) (free_bins hp) fs (bin_of hp) (free_in hp ?hs - X)"
    using at by (auto simp: heap_at_def)
  moreover have "bin_of hp k = bin_of hp' k" if "k \<in> free_in hp ?hs - X" for k
  proof -
    have "k \<noteq> nb" "k \<noteq> h" using that new X(2) b by (auto simp: free_in_def bfr_def)
    then show ?thesis by (simp add: bin_of_def same f)
  qed
  ultimately have "bins_ok (links hp') (free_bins hp') fs (bin_of hp') (free_in hp' ?hs' - insert nb X)"
    unfolding I same by (rule bins_ok_cong)
  with bo' have "heap_at hp' ?hs' (insert nb X)" by (auto simp: heap_at_def)
  then show ?thesis using run f new by (auto simp: same hp'_def)
qed

lemma split_block_step:
  assumes "blocks hp h = Some b"
  shows "split_block h sz hp = (if bsize b < sz + HDR + HDR then Some hp
    else do { hp \<leftarrow> carve h b sz hp; hp \<leftarrow> coalesce_free_blocks (h + HDR + sz) hp; index_free_block (h + HDR + sz) hp })"
  by (simp add: split_block_def assms carve_def Let_def)

text \<open>The block keeps its address and at least \<open>sz\<close> bytes; the blocks in use stay as they are.\<close>

lemma split_block_ok:
  assumes at: "heap_at hp hs X" and h: "h \<in> set hs" and sz: "16 dvd sz" "0 < sz" "sz \<le> bsz (blocks hp) h"
    and X: "X \<subseteq> {h}" "bfr (blocks hp) h \<Longrightarrow> h \<in> X"
  shows "\<exists>hp' hs' n. split_block h sz hp = Some hp' \<and> heap_at hp' hs' X \<and> h \<in> set hs' \<and>
    sz \<le> n \<and> n \<le> bsz (blocks hp) h \<and> bsz (blocks hp') h = n \<and> bfr (blocks hp') h = bfr (blocks hp) h \<and>
    live hp' hs' = {(k, m) \<in> live hp hs. k \<noteq> h} \<union> (if bfr (blocks hp) h then {} else {(h, n)}) \<and>
    keeps hp hs hp'"
proof -
  obtain pre post where hs: "hs = pre @ h # post" using h by (meson split_list)
  note D = blocks_ok_D [OF blocks_ok_at [OF at]]
  obtain b where b: "blocks hp h = Some b" using block_ok_D(1) [OF D(5) [OF h]] by blast
  have bb: "bsz (blocks hp) h = bsize b" "bfr (blocks hp) h = bfree b" using b by (simp_all add: field_defs)
  show ?thesis
  proof (cases "bsize b < sz + HDR + HDR")
    case True
    then have "split_block h sz hp = Some hp" using split_block_step [OF b] by simp
    with at h sz bb show ?thesis
      by (intro exI [of _ hp] exI [of _ hs] exI [of _ "bsize b"]) (auto simp: live_def)
  next
    case False
    let ?n = "h + HDR + sz"
    from False have le: "sz + HDR + HDR \<le> bsize b" by simp
    from carve_ok [OF at [unfolded hs] b sz(1,2) le X(1) X(2) refl] bb(2)
    obtain hp1 where 1: "carve h b sz hp = Some hp1" "heap_at hp1 (pre @ h # ?n # post) (insert ?n X)"
      "links hp1 = links hp" "bytes hp1 = bytes hp" "aligned hp1 = aligned hp" "os_regions hp1 = os_regions hp"
      "errno hp1 = errno hp" "\<And>k. bfr (blocks hp1) k = (k = ?n \<or> bfr (blocks hp) k)"
      "\<And>k. bsz (blocks hp1) k = (if k = ?n then bsize b - sz - HDR else if k = h then sz else bsz (blocks hp) k)"
      "?n \<notin> set (pre @ h # post)" by auto
    have l1: "live hp1 (pre @ h # ?n # post) = {(k, m) \<in> live hp hs. k \<noteq> h} \<union> (if bfr (blocks hp) h then {} else {(h, sz)})"
      using 1(10) unfolding live_def hs 1(8,9) by auto
    have k1: "keeps hp hs hp1" by (simp add: keeps_def 1)
    have "insert ?n X \<inter> set post = {}" using 1(10) X(1) D(1) by (auto simp: hs)
    from coalesce_ok [of hp1 "pre @ [h]" ?n post "insert ?n X"] 1(2,8) this
    obtain hp2 post' where 2: "coalesce_free_blocks ?n hp1 = Some hp2" "heap_at hp2 (pre @ h # ?n # post') (insert ?n X)"
      "live hp2 (pre @ h # ?n # post') = live hp1 (pre @ h # ?n # post)" "keeps hp1 (pre @ h # ?n # post) hp2"
      "\<And>k. bfr (blocks hp2) k = bfr (blocks hp1) k" "\<And>k. k \<noteq> ?n \<Longrightarrow> bsz (blocks hp2) k = bsz (blocks hp1) k"
      by auto
    have "?n \<notin> X" using 1(10) X(1) by auto
    then have Xn: "insert ?n X - {?n} = X" by simp
    from index_free_block_ok [OF 2(2), of ?n, unfolded Xn] 1(8) 2(5)
    obtain hp3 where 3: "index_free_block ?n hp2 = Some hp3" "relinked hp2 hp3" "heap_at hp3 (pre @ h # ?n # post') X"
      by auto
    have "split_block h sz hp = Some hp3" using split_block_step [OF b] False 1(1) 2(1) 3(1) by simp
    moreover have "live hp3 (pre @ h # ?n # post') = live hp1 (pre @ h # ?n # post)"
      using live_relinked [OF 3(2)] 2(3) by simp
    moreover have "keeps hp hs hp3"
    proof -
      have "keeps hp1 (pre @ h # ?n # post) hp3"
        using keeps_trans [OF 2(4) _ keeps_relinked [OF 3(2)]] 2(3) by blast
      moreover have "\<exists>m. (k, m) \<in> live hp1 (pre @ h # ?n # post)" if "(k, m) \<in> live hp hs" for k m
        using that l1 by (cases "k = h") (auto simp: live_def)
      ultimately show ?thesis using 1(3-7) by (fastforce simp: keeps_def)
    qed
    moreover have "bsz (blocks hp3) h = sz" "bfr (blocks hp3) h = bfr (blocks hp) h"
      using 1(8-10) 2(5,6) relinked_same(1) [OF 3(2)] by auto
    ultimately show ?thesis using 3(3) l1 bb(1) le
      by (intro exI [of _ hp3] exI [of _ "pre @ h # ?n # post'"] exI [of _ sz]) auto
  qed
qed

subsection \<open>Rounding\<close>

lemma unat_u64: "n < 2 ^ 64 \<Longrightarrow> unat (of_nat n :: u64) = n"
  by (simp add: unat_of_nat)

lemma unat_clear_low:
  fixes a :: u64
  shows "unat (a AND NOT (mask n)) = unat a - unat a mod 2 ^ n"
proof -
  have t: "unat (take_bit n a) = unat a mod 2 ^ n" by (simp only: unsigned_take_bit_eq take_bit_nat_def)
  have "a AND NOT (mask n) = a - take_bit n a"
    by (subst disjunctive_diff) (auto simp: bit_simps intro!: bit_eqI)
  moreover have "take_bit n a \<le> a"
    by (simp only: word_le_nat_alt t) simp
  ultimately show ?thesis by (simp only: unat_sub t)
qed

lemma mask_words: "(15 :: u64) = mask 4" "(0xFFFF0000 :: u64) = mask 32 AND NOT (mask 16)"
  by (simp_all add: mask_eq_decr_exp)

lemma align_size_eq: "n + 15 < 2 ^ 64 \<Longrightarrow> align_size n = (n + 15) - (n + 15) mod 16"
proof -
  assume n: "n + 15 < 2 ^ 64"
  have "align_size n = unat (of_nat (n + 15) AND NOT (mask 4) :: u64)"
    by (simp add: align_size_def CRT_MALLOC_ALIGNMENT_def mask_words(1) add_ac)
  then show ?thesis using unat_u64 [OF n] by (simp only: unat_clear_low) simp
qed

lemma align_size_bounds:
  assumes "n + 15 < 2 ^ 64"
  shows "n \<le> align_size n" "16 dvd align_size n" "align_size n \<le> n + 15" "0 < n \<Longrightarrow> 0 < align_size n"
proof -
  show "n \<le> align_size n" "align_size n \<le> n + 15" unfolding align_size_eq [OF assms] by simp_all
  show "16 dvd align_size n" unfolding align_size_eq [OF assms] by (rule dvd_minus_mod)
  then show "0 < n \<Longrightarrow> 0 < align_size n" using \<open>n \<le> align_size n\<close> by simp
qed

text \<open>The mask keeps only the low 32 bits of the sum.\<close>

lemma align_chunk_size_eq:
  assumes "n + 65535 < 2 ^ 64"
  shows "align_chunk_size n = (n + 65535) mod 2 ^ 32 - (n + 65535) mod 2 ^ 16"
proof -
  let ?x = "of_nat (n + 65535) :: u64"
  have m: "ucast (NOT (CRT_HEAP_CHUNK_SIZE - 1)) = (0xFFFF0000 :: u64)"
    unfolding CRT_HEAP_CHUNK_SIZE_def by code_simp
  have "of_nat n + ucast CRT_HEAP_CHUNK_SIZE - 1 = ?x"
    unfolding CRT_HEAP_CHUNK_SIZE_def of_nat_add by simp
  then have "align_chunk_size n = unat (take_bit 32 ?x AND NOT (mask 16))"
    unfolding align_chunk_size_def m by (simp only: mask_words(2) and.assoc [symmetric] take_bit_eq_mask [symmetric])
  then have "align_chunk_size n = (n + 65535) mod 2 ^ 32 - (n + 65535) mod 2 ^ 32 mod 2 ^ 16"
    by (simp only: unat_clear_low unsigned_take_bit_eq take_bit_nat_def unat_u64 [OF assms])
  then show ?thesis by (simp only: mod_mod_cancel [OF le_imp_power_dvd [of 16 32 "2 :: nat"]])
qed

lemma align_chunk_size_small:
  assumes "n + 65535 < 2 ^ 32"
  shows "n \<le> align_chunk_size n" "16 dvd align_chunk_size n" "align_chunk_size n \<le> n + 65535"
proof -
  have e: "align_chunk_size n = (n + 65535) - (n + 65535) mod 2 ^ 16"
    using assms by (subst align_chunk_size_eq) simp_all
  show "n \<le> align_chunk_size n" "align_chunk_size n \<le> n + 65535" unfolding e by simp_all
  have "(2 :: nat) ^ 16 dvd align_chunk_size n" unfolding e by (rule dvd_minus_mod)
  then show "16 dvd align_chunk_size n" by (rule dvd_trans [rotated]) simp
qed

subsection \<open>The heap grows\<close>

text \<open>A mapping is aligned to pages and lies in addresses that are not in use.\<close>

definition mmap_fresh :: "(nat \<Rightarrow> int + addr) \<Rightarrow> heap \<Rightarrow> bool" where
  "mmap_fresh mmap hp \<longleftrightarrow> (\<forall>n a. 0 < n \<longrightarrow> mmap n = Inr a \<longrightarrow>
     a \<noteq> 0 \<and> 4096 dvd a \<and> a + n \<le> 2 ^ 64 \<and> (\<forall>i<n. bytes hp (a + i) = None))"

lemma fresh_apart:
  assumes "\<forall>i<n. m (a + i) = None" "mapped m h k" "0 < n" "0 < k"
  shows "a + n \<le> h \<or> h + k \<le> a"
proof (rule ccontr)
  assume "\<not> (a + n \<le> h \<or> h + k \<le> a)"
  then have o: "h < a + n" "a < h + k" by simp_all
  show False
  proof (cases "a \<le> h")
    case True
    then have "m h = None" using assms(1)[rule_format, of "h - a"] o by simp
    then show False using assms(2,4) by (auto simp: mapped_iff)
  next
    case False
    then have "m a \<noteq> None" using assms(2) o by (auto simp: mapped_iff dest: spec [of _ "a - h"])
    then show False using assms(1)[rule_format, of 0] assms(3) by simp
  qed
qed

lemma heap_at_errno [simp]: "heap_at (hp\<lparr>errno := e\<rparr>) hs X = heap_at hp hs X"
proof -
  have "block_ok (hp\<lparr>errno := e\<rparr>) = block_ok hp" "bin_of (hp\<lparr>errno := e\<rparr>) = bin_of hp"
    "free_in (hp\<lparr>errno := e\<rparr>) = free_in hp"
    by (simp_all add: fun_eq_iff block_ok_def bin_of_def free_in_def split: option.splits)
  then show ?thesis by (simp add: heap_at_def blocks_ok_def)
qed

lemma live_errno [simp]: "live (hp\<lparr>errno := e\<rparr>) hs = live hp hs"
  by (simp add: live_def)

definition unharmed :: "heap \<Rightarrow> addr list \<Rightarrow> heap \<Rightarrow> bool" where
  "unharmed hp hs hp' \<longleftrightarrow> aligned hp' = aligned hp \<and> (\<forall>a. bytes hp a \<noteq> None \<longrightarrow> bytes hp' a = bytes hp a) \<and>
     (\<forall>(h, n) \<in> live hp hs. links hp' h = links hp h)"

lemma unharmed_errno [simp]: "unharmed hp hs (hp\<lparr>errno := e\<rparr>)"
  by (simp add: unharmed_def)

lemma unharmed_keeps: "keeps hp hs hp' \<Longrightarrow> unharmed hp hs hp'"
  by (simp add: unharmed_def keeps_def)

lemma unharmed_trans:
  "unharmed hp hs hp' \<Longrightarrow> live hp hs \<subseteq> live hp' hs' \<Longrightarrow> unharmed hp' hs' hp'' \<Longrightarrow> unharmed hp hs hp''"
  by (fastforce simp: unharmed_def)

text \<open>The system refuses a chunk for \<open>sz\<close> bytes, or the table of mappings is full.\<close>

definition no_memory :: "(nat \<Rightarrow> int + addr) \<Rightarrow> nat \<Rightarrow> heap \<Rightarrow> bool" where
  "no_memory mmap sz hp \<longleftrightarrow> CRT_MALLOC_MAX_OS_REGIONS \<le> length (os_regions hp) \<or>
     (\<exists>e. mmap (align_chunk_size (sz + HDR)) = Inl e)"

lemma append_chunk_ok:
  assumes at: "heap_at hp hs X" and sz: "16 dvd sz" "0 < sz" "sz + HDR + 65535 < 2 ^ 32" and mm: "mmap_fresh mmap hp"
  shows "\<exists>hp' p. append_chunk mmap sz hp = Some (hp', p) \<and>
    (p = 0 \<and> no_memory mmap sz hp \<and> (\<exists>e. hp' = hp\<lparr>errno := e\<rparr>) \<or>
     p \<noteq> 0 \<and> heap_at hp' (hs @ [p]) (insert p X) \<and> bfr (blocks hp') p \<and> sz \<le> bsz (blocks hp') p \<and>
     live hp' (hs @ [p]) = live hp hs \<and> unharmed hp hs hp' \<and> p \<notin> set hs \<and> errno hp' = errno hp)"
proof -
  let ?n = "align_chunk_size (sz + HDR)"
  have n: "sz + HDR \<le> ?n" "16 dvd ?n" using align_chunk_size_small [OF sz(3)] by simp_all
  have lim: "\<not> SIZE_MAX - HDR - (unat CRT_HEAP_CHUNK_SIZE - 1) < sz" using sz(3)
    by (simp add: SIZE_MAX_def HDR_def CRT_HEAP_CHUNK_SIZE_def)
  have fail: ?thesis if "append_chunk mmap sz hp = Some (hp\<lparr>errno := e\<rparr>, 0)" "no_memory mmap sz hp" for e using that by blast
  consider (full) "CRT_MALLOC_MAX_OS_REGIONS \<le> length (os_regions hp)" | (err) e where "mmap ?n = Inl e" "\<not> CRT_MALLOC_MAX_OS_REGIONS \<le> length (os_regions hp)"
    | (ok) p where "mmap ?n = Inr p" "\<not> CRT_MALLOC_MAX_OS_REGIONS \<le> length (os_regions hp)" by (cases "mmap ?n") auto
  then show ?thesis
  proof cases
    case full
    then show ?thesis using lim by (intro fail [of ENOMEM]) (simp_all add: append_chunk_def no_memory_def)
  next
    case (err e)
    then show ?thesis using lim by (intro fail [of e]) (simp_all add: append_chunk_def no_memory_def Let_def)
  next
    case (ok p)
    have p: "p \<noteq> 0" "4096 dvd p" "p + ?n \<le> 2 ^ 64" "\<forall>i<?n. bytes hp (p + i) = None"
      using mm [unfolded mmap_fresh_def, rule_format, OF _ ok(1)] n(1) sz(2) by auto
    have p16: "16 dvd p" by (rule dvd_trans [OF _ p(2)]) simp
    note D = blocks_ok_D [OF blocks_ok_at [OF at]]
    have far: "p + ?n \<le> h \<or> h + (HDR + bsz (blocks hp) h) \<le> p" if "h \<in> set hs" for h
      using fresh_apart [OF p(4) block_ok_D(8) [OF D(5) [OF that]]] n(1) sz(2) by (simp add: HDR_def)
    have new: "p \<notin> set hs"
    proof
      assume "p \<in> set hs"
      from far [OF this] show False using n(1) sz(2) by (auto simp: HDR_def)
    qed
    have mb: "(?n + 18446744073709551616 - HDR) mod 18446744073709551616 = ?n - HDR"
    proof -
      have two64: "(18446744073709551616 :: nat) = 2 ^ 64" by simp
      have "HDR \<le> ?n" using n(1) by linarith
      then have "?n + 2 ^ 64 - HDR = (?n - HDR) + 2 ^ 64" by (rule add_diff_assoc2 [symmetric])
      moreover have "?n - HDR < 2 ^ 64" using p(3) p(1) by linarith
      ultimately show ?thesis unfolding two64 by (simp only: mod_add_self2 mod_less)
    qed
    let ?b = "\<lparr>bsize = ?n - HDR, bfree = True, bnext = 0, bprevious = heap_tail hp, bmagic = CRT_BLOCK_MAGIC\<rparr>"
    let ?B1 = "(blocks hp)(p \<mapsto> ?b)"
    define t where "t = last hs"
    have tl: "t \<in> set hs \<and> t \<noteq> p \<and> heap_tail hp = t \<and> (\<exists>b. blocks hp t = Some b)" if "hs \<noteq> []"
      using last_in_set [OF that] new D(4) block_ok_D(1) [OF D(5)] that by (auto simp: t_def last_of_def)
    define B' where "B' = (if hs = [] then ?B1 else ?B1(t \<mapsto> (the (blocks hp t))\<lparr>bnext := p\<rparr>))"
    define hp' where "hp' = hp\<lparr>blocks := B', os_regions := os_regions hp @ [(p, ?n)], heap_tail := p,
      heap_head := (if hs = [] then p else heap_head hp),
      bytes := (\<lambda>a. if p \<le> a \<and> a < p + ?n then Some NUL else bytes hp a)\<rparr>"
    have hd0: "heap_head hp = 0 \<longleftrightarrow> hs = []"
      using D(3) block_ok_D(2) [OF D(5) [OF hd_in_set]] by (cases hs) auto
    have run: "append_chunk mmap sz hp = Some (hp', p)"
    proof (cases "hs = []")
      case True
      then show ?thesis using lim ok hd0 by (simp add: append_chunk_def Let_def mb put_block_def hp'_def B'_def)
    next
      case False
      then obtain b where "blocks hp t = Some b" "t \<noteq> p" "heap_tail hp = t" using tl by auto
      then show ?thesis using False lim ok hd0 by (simp add: append_chunk_def Let_def mb put_block_def hp'_def B'_def)
    qed
    have F: "bnx B' k = (if k = p then 0 else if hs \<noteq> [] \<and> k = t then p else bnx (blocks hp) k) \<and>
        bpv B' k = (if k = p then last_of 0 hs else bpv (blocks hp) k) \<and>
        bfr B' k = (k = p \<or> bfr (blocks hp) k) \<and> has_magic B' k = (k = p \<or> has_magic (blocks hp) k) \<and>
        bsz B' k = (if k = p then ?n - HDR else bsz (blocks hp) k)" for k
    proof (cases "hs = []")
      case True
      then show ?thesis using D(4) by (simp add: B'_def)
    next
      case False
      then obtain b where b: "blocks hp t = Some b" "t \<noteq> p" "heap_tail hp = t" using tl by auto
      then show ?thesis using False field_Some [of "blocks hp", OF b(1)] by (simp add: B'_def t_def last_of_def)
    qed
    note f = F [THEN conjunct1] F [THEN conjunct2, THEN conjunct1] F [THEN conjunct2, THEN conjunct2, THEN conjunct1]
      F [THEN conjunct2, THEN conjunct2, THEN conjunct2, THEN conjunct1] F [THEN conjunct2, THEN conjunct2, THEN conjunct2, THEN conjunct2]
    have same: "blocks hp' = B'" "links hp' = links hp" "free_bins hp' = free_bins hp" "aligned hp' = aligned hp"
      "errno hp' = errno hp" by (simp_all add: hp'_def)
    have mp: "mapped (bytes hp') a k" if "mapped (bytes hp) a k" for a k
      using that by (auto simp: mapped_iff hp'_def)
    have cv: "covered (os_regions hp') a k" if "covered (os_regions hp) a k" for a k
      by (rule covered_mono [OF that]) (auto simp: hp'_def)
    have bo': "blocks_ok hp' (hs @ [p])" unfolding blocks_ok_def same
    proof (intro conjI ballI impI)
      show "distinct (hs @ [p])" using D(1) new by simp
      show "heap_head hp' = head_of (hs @ [p]) 0" "heap_tail hp' = last_of 0 (hs @ [p])"
        using D(3) by (auto simp: hp'_def head_of_def split: list.splits)
      have "dll (bnx B') (bpv B') 0 hs p"
        by (rule dll_relink [OF D(2,1)]) (use f new t_def dll_ends [OF D(2)] in auto)
      then show "dll (bnx B') (bpv B') 0 (hs @ [p]) 0" using f(1,2) [of p] by simp
    next
      fix h assume h: "h \<in> set (hs @ [p])"
      have "mapped (bytes hp') p ?n" "covered (os_regions hp') p ?n" by (auto simp: mapped_iff covered_def hp'_def)
      then have "block_ok hp' p" unfolding block_ok_iff same f
        using p(1,3) p16 n sz(2) by (auto simp: HDR_def intro!: dvd_diff_nat)
      moreover have "block_ok hp' h" if "h \<in> set hs"
        using D(5) [OF that] that new mp cv unfolding block_ok_iff same f by auto
      ultimately show "block_ok hp' h" using h by auto
    next
      fix h k assume hk: "h \<in> set (hs @ [p])" "k \<in> set (hs @ [p])" "h \<noteq> k"
      have "apart B' x p \<and> apart B' p x" if "x \<in> set hs" for x
      proof -
        have "x \<noteq> p" using that new by auto
        then show ?thesis using far [OF that] n(1) unfolding apart_def f by (auto simp: add.assoc)
      qed
      moreover have "apart B' h k" if "h \<in> set hs" "k \<in> set hs"
        using D(6) [OF that hk(3)] that new unfolding apart_def f by auto
      ultimately show "apart B' h k" using hk by auto
    qed
    have I: "free_in hp' (hs @ [p]) - insert p X = free_in hp hs - X"
      using new by (auto simp: free_in_def same f)
    obtain fs where "bins_ok (links hp) (free_bins hp) fs (bin_of hp) (free_in hp hs - X)"
      using at by (auto simp: heap_at_def)
    then have "bins_ok (links hp') (free_bins hp') fs (bin_of hp') (free_in hp' (hs @ [p]) - insert p X)"
      unfolding I same by (rule bins_ok_cong) (use new in \<open>auto simp: bin_of_def free_in_def same f\<close>)
    with bo' have "heap_at hp' (hs @ [p]) (insert p X)" by (auto simp: heap_at_def)
    moreover have "live hp' (hs @ [p]) = live hp hs" using new by (auto simp: live_def same f)
    moreover have "unharmed hp hs hp'"
      using p(4) by (auto simp: unharmed_def hp'_def le_iff_add)
    moreover have "bfr (blocks hp') p" "sz \<le> bsz (blocks hp') p" using n(1) by (simp_all add: same f)
    ultimately show ?thesis using run p(1) new same(5) by blast
  qed
qed

subsection \<open>Searching the bins\<close>

lemma find_fit_Some:
  "dll (lnx (links hp)) (lpv (links hp)) p xs 0 \<Longrightarrow>
    (\<And>x. x \<in> set xs \<Longrightarrow> x \<noteq> 0 \<and> links hp x \<noteq> None \<and> blocks hp x \<noteq> None) \<Longrightarrow>
    \<exists>r. find_fit hp (head_of xs 0) sz = Some r \<and>
      (r = 0 \<and> (\<forall>x \<in> set xs. bsz (blocks hp) x < sz) \<or> r \<in> set xs \<and> sz \<le> bsz (blocks hp) r)"
proof (induction xs arbitrary: p)
  case Nil
  then show ?case by (simp add: find_fit.simps)
next
  case (Cons x xs)
  from Cons.prems(2) [of x] obtain l b where x: "x \<noteq> 0" "links hp x = Some l" "blocks hp x = Some b" by auto
  have n: "lnext l = head_of xs 0" using Cons.prems(1) x by (simp add: lnx_def)
  show ?case
  proof (cases "sz \<le> bsize b")
    case True
    then show ?thesis using x by (intro exI [of _ x]) (simp add: find_fit.simps [of hp x] bsz_def)
  next
    case False
    have "dll (lnx (links hp)) (lpv (links hp)) x xs 0" using Cons.prems(1) by simp
    from Cons.IH [OF this] Cons.prems(2) obtain r where "find_fit hp (head_of xs 0) sz = Some r"
      "r = 0 \<and> (\<forall>x \<in> set xs. bsz (blocks hp) x < sz) \<or> r \<in> set xs \<and> sz \<le> bsz (blocks hp) r" by auto
    with False x n show ?thesis by (intro exI [of _ r]) (auto simp: find_fit.simps [of hp x] bsz_def)
  qed
qed

lemma free_bin_loop_mono: "sz \<le> n \<Longrightarrow> free_bin_loop sz bin \<le> free_bin_loop n bin"
proof (induction sz bin arbitrary: n rule: free_bin_loop.induct)
  case (1 sz bin)
  have up: "b \<le> free_bin_loop k b" for k b
  proof (induction k b rule: free_bin_loop.induct)
    case (1 k b)
    show ?case
      using 1 [OF refl] by (cases "k div 2 = 0") (simp_all add: free_bin_loop.simps [of k b])
  qed
  have "sz div 2 \<le> n div 2" using 1(2) by (rule div_le_mono)
  with 1(1) [OF refl] up [of bin n] show ?case
    by (cases "sz div 2 = 0") (auto simp: free_bin_loop.simps [of sz bin] free_bin_loop.simps [of n bin] Let_def)
qed

lemma free_bin_mono: "sz \<le> n \<Longrightarrow> free_bin sz \<le> free_bin n"
  by (simp add: free_bin_def free_bin_loop_mono)

lemma search_bins_Some:
  assumes "heap_at hp hs {}"
  shows "\<exists>r. search_bins hp bin sz = Some r \<and>
    (r = 0 \<and> (\<forall>h \<in> free_in hp hs. bin \<le> bin_of hp h \<longrightarrow> bsz (blocks hp) h < sz) \<or>
     r \<in> free_in hp hs \<and> r \<noteq> 0 \<and> sz \<le> bsz (blocks hp) r)"
proof (induction "64 - bin" arbitrary: bin)
  case (0 bin)
  have "bin_of hp h < 64" if "h \<in> free_in hp hs" for h
    using assms that by (auto simp: heap_at_def bins_ok_def)
  with 0 show ?case by (intro exI [of _ 0]) (fastforce simp: search_bins.simps [of hp bin])
next
  case (Suc d)
  obtain fs where "bins_ok (links hp) (free_bins hp) fs (bin_of hp) (free_in hp hs)"
    using assms by (auto simp: heap_at_def)
  then have b: "free_bins hp bin = Some (head_of (fs bin) 0)" "dll (lnx (links hp)) (lpv (links hp)) 0 (fs bin) 0"
    "set (fs bin) = {h \<in> free_in hp hs. bin_of hp h = bin}" and I: "\<And>h. h \<in> free_in hp hs \<Longrightarrow> h \<noteq> 0 \<and> links hp h \<noteq> None"
    using Suc(2) by (auto simp: bins_ok_def)
  have ok: "x \<noteq> 0 \<and> links hp x \<noteq> None \<and> blocks hp x \<noteq> None" if "x \<in> set (fs bin)" for x
    using I [of x] that b(3) by (auto simp: free_in_def bfr_def split: option.splits)
  from find_fit_Some [OF b(2) ok] obtain r where r: "find_fit hp (head_of (fs bin) 0) sz = Some r"
    "r = 0 \<and> (\<forall>x \<in> set (fs bin). bsz (blocks hp) x < sz) \<or> r \<in> set (fs bin) \<and> sz \<le> bsz (blocks hp) r" by auto
  show ?case
  proof (cases "r = 0")
    case False
    then show ?thesis using r b I Suc(2) by (intro exI [of _ r]) (auto simp: search_bins.simps [of hp bin])
  next
    case True
    have "d = 64 - (bin + 1)" using Suc(2) by simp
    from Suc(1) [OF this] obtain q where q: "search_bins hp (bin + 1) sz = Some q"
      "q = 0 \<and> (\<forall>h \<in> free_in hp hs. bin + 1 \<le> bin_of hp h \<longrightarrow> bsz (blocks hp) h < sz) \<or>
        q \<in> free_in hp hs \<and> q \<noteq> 0 \<and> sz \<le> bsz (blocks hp) q" by auto
    have "0 \<notin> set (fs bin)" using ok by blast
    then have "\<forall>x \<in> set (fs bin). bsz (blocks hp) x < sz" using r(2) True by auto
    then have "\<forall>h \<in> free_in hp hs. bin + 1 \<le> bin_of hp h \<longrightarrow> bsz (blocks hp) h < sz \<Longrightarrow>
        \<forall>h \<in> free_in hp hs. bin \<le> bin_of hp h \<longrightarrow> bsz (blocks hp) h < sz"
      unfolding b(3) by (auto simp: Suc_le_eq le_less)
    with q r(1) b(1) True Suc(2) show ?thesis
      by (intro exI [of _ q]) (auto simp: search_bins.simps [of hp bin])
  qed
qed

subsection \<open>Marking a block\<close>

lemma set_free_ok:
  assumes at: "heap_at hp hs X" and h: "h \<in> set hs" "h \<in> X \<or> \<not> bfr (blocks hp) h"
  shows "\<exists>hp'. set_free h f hp = Some hp' \<and> heap_at hp' hs (if f then insert h X else X - {h}) \<and>
    hp' = hp\<lparr>blocks := blocks hp'\<rparr> \<and> (\<forall>k. bfr (blocks hp') k = (if k = h then f else bfr (blocks hp) k)) \<and>
    (\<forall>k. bsz (blocks hp') k = bsz (blocks hp) k)"
proof -
  note bo = blocks_ok_at [OF at] note D = blocks_ok_D [OF bo]
  obtain b where b: "blocks hp h = Some b" using block_ok_D(1) [OF D(5) [OF h(1)]] by blast
  define hp' where "hp' = put_block h (b\<lparr>bfree := f\<rparr>) hp"
  have run: "set_free h f hp = Some hp'" by (simp add: set_free_def b hp'_def)
  have f: "bnx (blocks hp') k = bnx (blocks hp) k" "bpv (blocks hp') k = bpv (blocks hp) k"
    "bsz (blocks hp') k = bsz (blocks hp) k" "has_magic (blocks hp') k = has_magic (blocks hp) k"
    "bfr (blocks hp') k = (if k = h then f else bfr (blocks hp) k)" for k
    using field_Some [of "blocks hp", OF b] by (simp_all add: hp'_def put_block_def)
  have same: "bytes hp' = bytes hp" "heap_head hp' = heap_head hp" "heap_tail hp' = heap_tail hp"
    "links hp' = links hp" "free_bins hp' = free_bins hp" "os_regions hp' = os_regions hp"
    by (simp_all add: hp'_def put_block_def)
  have "block_ok hp' = block_ok hp" by (simp add: fun_eq_iff block_ok_iff f same)
  then have bo': "blocks_ok hp' hs"
    using bo unfolding blocks_ok_def apart_def same f by (simp add: f dll_cong [of hs "bnx (blocks hp')" "bnx (blocks hp)" "bpv (blocks hp')" "bpv (blocks hp)"])
  have I: "free_in hp' hs - (if f then insert h X else X - {h}) = free_in hp hs - X"
    using h by (auto simp: free_in_def f)
  have bin: "bin_of hp' = bin_of hp" by (simp add: fun_eq_iff bin_of_def f)
  have "heap_at hp' hs (if f then insert h X else X - {h})"
    using at bo' unfolding heap_at_def I bin same by blast
  then show ?thesis using run f by (intro exI [of _ hp'] conjI allI) (simp_all add: hp'_def put_block_def)
qed

subsection \<open>Allocation\<close>

lemma take_block_ok:
  assumes at: "heap_at hp hs {h}" and h: "h \<in> set hs" "bfr (blocks hp) h" and sz: "16 dvd sz" "0 < sz" "sz \<le> bsz (blocks hp) h"
  shows "\<exists>hp' hs' n. do { hp \<leftarrow> split_block h sz hp; set_free h False hp } = Some hp' \<and> heap_at hp' hs' {} \<and>
    sz \<le> n \<and> live hp' hs' = insert (h, n) (live hp hs) \<and> keeps hp hs hp'"
proof -
  from split_block_ok [OF at h(1) sz] h(2)
  obtain hp1 hs1 n where 1: "split_block h sz hp = Some hp1" "heap_at hp1 hs1 {h}" "h \<in> set hs1" "sz \<le> n"
    "bsz (blocks hp1) h = n" "bfr (blocks hp1) h" "live hp1 hs1 = {(k, m) \<in> live hp hs. k \<noteq> h}" "keeps hp hs hp1"
    by auto
  have l: "live hp1 hs1 = live hp hs" using 1(7) h(2) by (auto simp: live_def)
  from set_free_ok [OF 1(2,3), of False] obtain hp2 where 2: "set_free h False hp1 = Some hp2" "heap_at hp2 hs1 {}"
    "hp2 = hp1\<lparr>blocks := blocks hp2\<rparr>" "\<And>k. bfr (blocks hp2) k = (if k = h then False else bfr (blocks hp1) k)"
    "\<And>k. bsz (blocks hp2) k = bsz (blocks hp1) k" by auto
  have "bytes hp2 = bytes hp1" "aligned hp2 = aligned hp1" "os_regions hp2 = os_regions hp1" "errno hp2 = errno hp1"
    "links hp2 = links hp1" by (subst 2(3), simp)+
  then have "keeps hp hs hp2" using 1(8) by (simp add: keeps_def)
  moreover have "live hp2 hs1 = insert (h, n) (live hp1 hs1)"
    using 1(3,5,6) unfolding live_def 2(4,5) by (auto split: if_splits)
  ultimately show ?thesis using 1(1,4) 2(1,2) l by (intro exI [of _ hp2] exI [of _ hs1] exI [of _ n]) simp
qed

lemma malloc_unlocked_ok:
  assumes at: "heap_at hp hs {}" and sz: "sz < 2 ^ 32 - 2 ^ 17" and mm: "mmap_fresh mmap hp"
  shows "\<exists>hp' hs' p. malloc_unlocked mmap sz hp = Some (hp', p) \<and> heap_at hp' hs' {} \<and> unharmed hp hs hp' \<and>
    (p = 0 \<and> no_memory mmap (align_size (max 1 sz)) hp \<and> live hp' hs' = live hp hs \<or>
     (\<exists>h n. p = h + HDR \<and> h \<noteq> 0 \<and> sz \<le> n \<and> h \<notin> fst ` live hp hs \<and> live hp' hs' = insert (h, n) (live hp hs))) \<and>
    ((\<exists>h \<in> free_in hp hs. align_size (max 1 sz) \<le> bsz (blocks hp) h) \<longrightarrow> p \<noteq> 0 \<and> os_regions hp' = os_regions hp)"
proof -
  let ?z = "max 1 sz"
  let ?s = "align_size ?z"
  have "?z + 15 < 2 ^ 64" using sz by simp
  note s = align_size_bounds [OF this]
  have lim: "(if sz = 0 then 1 else sz) = ?z" "\<not> SIZE_MAX - (CRT_MALLOC_ALIGNMENT - 1) < ?z"
    using sz by (simp_all add: SIZE_MAX_def CRT_MALLOC_ALIGNMENT_def)
  have s0: "0 < ?s" "sz \<le> ?s" "?s + HDR + 65535 < 2 ^ 32" using s sz by (simp_all add: HDR_def)
  note D = blocks_ok_D [OF blocks_ok_at [OF at]]
  obtain r where r: "search_bins hp (free_bin ?s) ?s = Some r"
    "r = 0 \<and> (\<forall>h \<in> free_in hp hs. free_bin ?s \<le> bin_of hp h \<longrightarrow> bsz (blocks hp) h < ?s) \<or>
      r \<in> free_in hp hs \<and> r \<noteq> 0 \<and> ?s \<le> bsz (blocks hp) r" using search_bins_Some [OF at] by blast
  show ?thesis
  proof (cases "r = 0")
    case False
    then have f: "r \<in> set hs" "bfr (blocks hp) r" "?s \<le> bsz (blocks hp) r" using r(2) by (auto simp: free_in_def)
    from unindex_free_block_ok [OF at f(1,2)] obtain hp1 where 1: "unindex_free_block r hp = Some hp1" "relinked hp hp1"
      "heap_at hp1 hs {r}" by auto
    note s1 = relinked_same [OF 1(2)]
    from take_block_ok [OF 1(3) f(1), of ?s] f s(2) s0(1)
    obtain hp2 hs2 n where 2: "do { hp \<leftarrow> split_block r ?s hp1; set_free r False hp } = Some hp2" "heap_at hp2 hs2 {}"
      "?s \<le> n" "live hp2 hs2 = insert (r, n) (live hp1 hs)" "keeps hp1 hs hp2" by (auto simp: s1)
    have "malloc_unlocked mmap sz hp = Some (hp2, r + HDR)"
      using 2(1) r(1) 1(1) False lim(2) unfolding malloc_unlocked_def Let_def lim(1)
      by (auto simp: bind_Some_iff cong: if_cong)
    moreover have "keeps hp hs hp2"
      using keeps_trans [OF keeps_relinked [OF 1(2)] _ 2(5)] live_relinked [OF 1(2)] by simp
    moreover have "r \<notin> fst ` live hp hs" using f(2) by (auto simp: live_def)
    ultimately show ?thesis using 2(2-4) s0(2) live_relinked [OF 1(2)] False
      by (intro exI [of _ hp2] exI [of _ hs2] exI [of _ "r + HDR"])
        (auto simp: unharmed_keeps keeps_def HDR_def intro!: exI [of _ r] exI [of _ n])
  next
    case True
    have "bsz (blocks hp) h < ?s" if "h \<in> free_in hp hs" for h
      using r(2) True that free_bin_mono [of ?s "bsz (blocks hp) h"] by (force simp: bin_of_def)
    then have none: "\<not> (\<exists>h \<in> free_in hp hs. ?s \<le> bsz (blocks hp) h)" by (auto simp: not_le)
    from append_chunk_ok [OF at s(2) s0(1,3) mm] obtain hp1 p where a: "append_chunk mmap ?s hp = Some (hp1, p)"
      "p = 0 \<and> no_memory mmap ?s hp \<and> (\<exists>e. hp1 = hp\<lparr>errno := e\<rparr>) \<or>
       p \<noteq> 0 \<and> heap_at hp1 (hs @ [p]) {p} \<and> bfr (blocks hp1) p \<and> ?s \<le> bsz (blocks hp1) p \<and>
       live hp1 (hs @ [p]) = live hp hs \<and> unharmed hp hs hp1 \<and> p \<notin> set hs" by auto
    have m: "malloc_unlocked mmap sz hp = do {
        (hp, current) \<leftarrow> append_chunk mmap ?s hp;
        if current = null then Some (hp, null)
        else do { hp \<leftarrow> do { hp \<leftarrow> split_block current ?s hp; set_free current False hp }; Some (hp, current + HDR) } }"
      using r(1) True lim(2) unfolding malloc_unlocked_def Let_def lim(1) by (simp cong: if_cong)
    show ?thesis
    proof (cases "p = 0")
      case True
      with a obtain e where "hp1 = hp\<lparr>errno := e\<rparr>" "no_memory mmap ?s hp" by auto
      with a(1) True m at none show ?thesis
        by (intro exI [of _ hp1] exI [of _ hs] exI [of _ 0]) simp
    next
      case False
      with a have p: "heap_at hp1 (hs @ [p]) {p}" "bfr (blocks hp1) p" "?s \<le> bsz (blocks hp1) p"
        "live hp1 (hs @ [p]) = live hp hs" "unharmed hp hs hp1" "p \<notin> set hs" by auto
      from take_block_ok [OF p(1) _ p(2) s(2) s0(1) p(3)]
      obtain hp2 hs2 n where 2: "do { hp \<leftarrow> split_block p ?s hp1; set_free p False hp } = Some hp2" "heap_at hp2 hs2 {}"
        "?s \<le> n" "live hp2 hs2 = insert (p, n) (live hp1 (hs @ [p]))" "keeps hp1 (hs @ [p]) hp2" by auto
      have "malloc_unlocked mmap sz hp = Some (hp2, p + HDR)" unfolding m using a(1) False 2(1) by simp
      moreover have "unharmed hp hs hp2"
        using unharmed_trans [OF p(5) _ unharmed_keeps [OF 2(5)]] p(4) by simp
      moreover have "p \<notin> fst ` live hp hs" using p(6) by (auto simp: live_def)
      moreover have "\<exists>h k. p + HDR = h + HDR \<and> h \<noteq> 0 \<and> sz \<le> k \<and> h \<notin> fst ` live hp hs \<and>
          live hp2 hs2 = insert (h, k) (live hp hs)" using calculation(3) 2(3,4) s0(2) p(4) False
        by (intro exI [of _ p] exI [of _ n]) simp
      ultimately show ?thesis using 2(2) none
        by (intro exI [of _ hp2] exI [of _ hs2] exI [of _ "p + HDR"]) simp
    qed
  qed
qed

subsection \<open>Release\<close>

lemma release_block_ok:
  assumes at: "heap_at hp hs {}" and h: "(h, n) \<in> live hp hs"
  shows "\<exists>hp' hs'. release_block h hp = Some hp' \<and> heap_at hp' hs' {} \<and> live hp' hs' = live hp hs - {(h, n)} \<and>
    bytes hp' = bytes hp \<and> aligned hp' = aligned hp \<and> os_regions hp' = os_regions hp \<and> errno hp' = errno hp \<and>
    (\<forall>(k, m) \<in> live hp hs - {(h, n)}. links hp' k = links hp k)"
proof -
  have h': "h \<in> set hs" "\<not> bfr (blocks hp) h" "n = bsz (blocks hp) h" using h by (auto simp: live_def)
  from set_free_ok [OF at h'(1), of True] h'(2)
  obtain hp1 where 1: "set_free h True hp = Some hp1" "heap_at hp1 hs {h}"
    "hp1 = hp\<lparr>blocks := blocks hp1\<rparr>" "\<And>k. bfr (blocks hp1) k = (if k = h then True else bfr (blocks hp) k)"
    "\<And>k. bsz (blocks hp1) k = bsz (blocks hp) k" by auto
  have s1: "bytes hp1 = bytes hp" "aligned hp1 = aligned hp" "os_regions hp1 = os_regions hp" "errno hp1 = errno hp"
    "links hp1 = links hp" by (subst 1(3), simp)+
  have l1: "live hp1 hs = live hp hs - {(h, n)}" using h' by (auto simp: live_def 1(4,5) split: if_splits)
  obtain pre post where hs: "hs = pre @ h # post" using h'(1) by (meson split_list)
  note D1 = blocks_ok_D [OF blocks_ok_at [OF 1(2)]]
  have "{h} \<inter> set post = {}" using D1(1) by (auto simp: hs)
  from coalesce_ok [OF 1(2) [unfolded hs] _ _ this] 1(4)
  obtain hp2 post2 where 2: "coalesce_free_blocks h hp1 = Some hp2" "heap_at hp2 (pre @ h # post2) {h}"
    "live hp2 (pre @ h # post2) = live hp1 hs" "keeps hp1 hs hp2" "\<And>k. bfr (blocks hp2) k = bfr (blocks hp1) k" by (auto simp: hs)
  from index_free_block_ok [OF 2(2), of h] 2(5) 1(4)
  obtain hp3 where 3: "index_free_block h hp2 = Some hp3" "relinked hp2 hp3" "heap_at hp3 (pre @ h # post2) {}" by auto
  note s3 = relinked_same [OF 3(2)]
  have l3: "live hp3 (pre @ h # post2) = live hp1 hs" using live_relinked [OF 3(2)] 2(3) by simp
  have k3: "keeps hp1 hs hp3" using keeps_trans [OF 2(4) _ keeps_relinked [OF 3(2)]] 2(3) by blast
  obtain b where b: "blocks hp3 h = Some b" "bprevious b = last_of 0 pre" using blocks_ok_next [OF blocks_ok_at [OF 3(3)]] by auto
  have fin: ?thesis if r: "release_block h hp = Some hp'" and a: "heap_at hp' hs' {}" and l: "live hp' hs' = live hp1 hs"
      and k: "keeps hp1 hs hp'" for hp' hs'
    using r a l k l1 s1 by (intro exI [of _ hp'] exI [of _ hs']) (auto simp: keeps_def)
  have R: "release_block h hp = (if last_of 0 pre = null then Some hp3
      else do { p \<leftarrow> blocks hp3 (last_of 0 pre);
        if bfree p \<and> last_of 0 pre + HDR + bsize p = h then do {
          hp \<leftarrow> unindex_free_block (last_of 0 pre) hp3; hp \<leftarrow> coalesce_free_blocks (last_of 0 pre) hp;
          index_free_block (last_of 0 pre) hp }
        else Some hp3 })"
    by (simp add: release_block_def 1(1) 2(1) 3(1) b Let_def)
  show ?thesis
  proof (cases "pre = []")
    case True
    then show ?thesis using R 3(3) l3 k3 by (intro fin) simp_all
  next
    case False
    define q where "q = last pre"
    define pre' where "pre' = butlast pre"
    have pq: "pre = pre' @ [q]" "last_of 0 pre = q" using False by (simp_all add: q_def pre'_def last_of_def)
    note D3 = blocks_ok_D [OF blocks_ok_at [OF 3(3)]]
    have qok: "block_ok hp3 q" by (rule D3(5)) (simp add: pq)
    obtain p where p: "blocks hp3 q = Some p" using block_ok_D(1) [OF qok] by blast
    have q0: "q \<noteq> 0" by (rule block_ok_D(2) [OF qok])
    show ?thesis
    proof (cases "bfree p \<and> q + HDR + bsize p = h")
      case no: False
      then have "release_block h hp = Some hp3" using R p q0 pq by auto
      then show ?thesis using 3(3) l3 k3 by (intro fin)
    next
      case yes: True
      have qf: "bfr (blocks hp3) q" using yes p by (simp add: bfr_def)
      let ?hs = "pre' @ q # h # post2"
      have at3: "heap_at hp3 ?hs {}" using 3(3) by (simp add: pq)
      from unindex_free_block_ok [OF at3, of q] qf
      obtain hp4 where 4: "unindex_free_block q hp3 = Some hp4" "relinked hp3 hp4" "heap_at hp4 ?hs {q}" by auto
      have "{q} \<inter> set (h # post2) = {}" using D3(1) by (auto simp: pq)
      from coalesce_ok [OF 4(3) _ _ this] qf relinked_same(1) [OF 4(2)]
      obtain hp5 post5 where 5: "coalesce_free_blocks q hp4 = Some hp5" "heap_at hp5 (pre' @ q # post5) {q}"
        "live hp5 (pre' @ q # post5) = live hp4 ?hs" "keeps hp4 ?hs hp5" "\<And>k. bfr (blocks hp5) k = bfr (blocks hp4) k" by auto
      from index_free_block_ok [OF 5(2), of q] 5(5) qf relinked_same(1) [OF 4(2)]
      obtain hp6 where 6: "index_free_block q hp5 = Some hp6" "relinked hp5 hp6" "heap_at hp6 (pre' @ q # post5) {}" by auto
      have "release_block h hp = Some hp6" using R p q0 pq yes 4(1) 5(1) 6(1) by simp
      moreover have l4: "live hp4 ?hs = live hp1 hs" using live_relinked [OF 4(2)] l3 by (simp add: pq)
      moreover have "live hp6 (pre' @ q # post5) = live hp1 hs" using live_relinked [OF 6(2)] 5(3) l4 by simp
      moreover have "keeps hp1 hs hp6"
      proof -
        have "keeps hp1 hs hp4" using keeps_trans [OF k3 _ keeps_relinked [OF 4(2)], of ?hs] l3 by (simp add: pq)
        then have "keeps hp1 hs hp5" using keeps_trans [OF _ _ 5(4)] l4 by blast
        then show ?thesis using keeps_trans [OF _ _ keeps_relinked [OF 6(2)]] 5(3) l4 by blast
      qed
      ultimately show ?thesis using 6(3) by (intro fin)
    qed
  qed
qed

end
