(* ===== verification/CRT_Alloc.thy ===== *)
theory CRT_Alloc
  imports CRT_Heap
begin

text \<open>
  What the allocator promises to its callers: the locale \<open>allocator\<close> states the laws of allocation and
  release over the set of regions that are handed out, and its interpretation derives them from the
  invariant of the heap. The public functions on top of it follow.
\<close>

subsection \<open>The interface of an allocator\<close>

text \<open>The bytes in the regions of \<open>A\<close> are as they were.\<close>

definition intact :: "(addr \<times> nat) set \<Rightarrow> mem \<Rightarrow> mem \<Rightarrow> bool" where
  "intact A m m' \<longleftrightarrow> (\<forall>(p, n) \<in> A. \<forall>a. p \<le> a \<longrightarrow> a < p + n \<longrightarrow> m' a = m a)"

lemma intact_refl [simp]: "intact A m m"
  by (simp add: intact_def)

lemma intact_trans: "intact A m m' \<Longrightarrow> intact B m' m'' \<Longrightarrow> B \<subseteq> A \<Longrightarrow> intact B m m''"
  by (fastforce simp: intact_def)

lemma intact_mono: "intact A m m' \<Longrightarrow> B \<subseteq> A \<Longrightarrow> intact B m m'"
  by (fastforce simp: intact_def)

lemma intact_bytes: "intact A m m' \<Longrightarrow> (p, n) \<in> A \<Longrightarrow> length s \<le> n \<Longrightarrow> bytes_at m p s \<Longrightarrow> bytes_at m' p s"
  by (fastforce simp: intact_def bytes_at_iff)

lemma intact_put:
  assumes "\<And>q m. (q, m) \<in> A \<Longrightarrow> p + length s \<le> q \<or> q + m \<le> p"
  shows "intact A c (mem_put c p s)"
  using assms by (fastforce simp: intact_def)

locale allocator =
  fixes rep :: "'s \<Rightarrow> (addr \<times> nat) set \<Rightarrow> bool" and content :: "'s \<Rightarrow> mem" and put_content :: "mem \<Rightarrow> 's \<Rightarrow> 's"
    and ready :: "nat \<Rightarrow> 's \<Rightarrow> bool" and full :: "nat \<Rightarrow> 's \<Rightarrow> bool" and alloc :: "nat \<Rightarrow> 's \<Rightarrow> ('s \<times> addr) option" and release :: "addr \<Rightarrow> 's \<Rightarrow> 's option"
  assumes regions_apart: "rep s A \<Longrightarrow> (p, n) \<in> A \<Longrightarrow> (q, m) \<in> A \<Longrightarrow> (p, n) \<noteq> (q, m) \<Longrightarrow> p + n \<le> q \<or> q + m \<le> p"
    and region: "rep s A \<Longrightarrow> (p, n) \<in> A \<Longrightarrow> p \<noteq> null \<and> 0 < n \<and> mapped (content s) p n"
    and alloc: "rep s A \<Longrightarrow> ready n s \<Longrightarrow> \<exists>s' p. alloc n s = Some (s', p) \<and> intact A (content s) (content s') \<and>
      (p = null \<and> full n s \<and> rep s' A \<or> (\<exists>k. n \<le> k \<and> (p, k) \<notin> A \<and> rep s' (insert (p, k) A)))"
    and release: "rep s A \<Longrightarrow> (p, n) \<in> A \<Longrightarrow> \<exists>s'. release p s = Some s' \<and> rep s' (A - {(p, n)}) \<and>
      intact (A - {(p, n)}) (content s) (content s')"
    and put_content: "rep s A \<Longrightarrow> (\<And>a. c a = None \<longleftrightarrow> content s a = None) \<Longrightarrow>
      rep (put_content c s) A \<and> content (put_content c s) = c"
begin

lemma put_region:
  assumes "rep s A" "(p, n) \<in> A" "length t \<le> n"
  shows "rep (put_content (mem_put (content s) p t) s) A"
    and "content (put_content (mem_put (content s) p t) s) = mem_put (content s) p t"
    and "intact (A - {(p, n)}) (content s) (mem_put (content s) p t)"
proof -
  have m: "mapped (content s) p (length t)" using region [OF assms(1,2)] mapped_mono assms(3) by blast
  have "mem_put (content s) p t a = None \<longleftrightarrow> content s a = None" for a
    using m by (auto simp: mem_put_def mapped_iff le_iff_add)
  from put_content [OF assms(1) this]
  show "rep (put_content (mem_put (content s) p t) s) A"
    "content (put_content (mem_put (content s) p t) s) = mem_put (content s) p t" by simp_all
  show "intact (A - {(p, n)}) (content s) (mem_put (content s) p t)"
    by (rule intact_put) (use regions_apart [OF assms(1,2)] assms(3) in fastforce)
qed

text \<open>A region that is allocated and cleared.\<close>

lemma alloc_zeroed:
  assumes "rep s A" "ready n s"
  shows "\<exists>s' p. do { (s, p) \<leftarrow> alloc n s; if p = null then Some (s, null)
      else do { (m, _) \<leftarrow> memset (content s) p 0 n; Some (put_content m s, p) } } = Some (s', p) \<and>
    intact A (content s) (content s') \<and>
    (p = null \<and> full n s \<and> rep s' A \<or> (\<exists>k. n \<le> k \<and> (p, k) \<notin> A \<and> rep s' (insert (p, k) A) \<and> bytes_at (content s') p (replicate n NUL)))"
proof -
  from alloc [OF assms] obtain s1 p where 1: "alloc n s = Some (s1, p)" "intact A (content s) (content s1)"
    "p = null \<and> full n s \<and> rep s1 A \<or> (\<exists>k. n \<le> k \<and> (p, k) \<notin> A \<and> rep s1 (insert (p, k) A))" by blast
  show ?thesis
  proof (cases "p = null \<and> full n s \<and> rep s1 A")
    case True
    then show ?thesis using 1 by (intro exI [of _ s1] exI [of _ null]) simp
  next
    case False
    then obtain k where k: "n \<le> k" "(p, k) \<notin> A" "rep s1 (insert (p, k) A)" using 1(3) by auto
    have r: "p \<noteq> null" "mapped (content s1) p n" using region [OF k(3) insertI1] mapped_mono [OF _ k(1)] by blast+
    let ?t = "replicate n NUL"
    note P = put_region [OF k(3), of p k ?t]
    have "intact A (content s) (mem_put (content s1) p ?t)"
      using intact_trans [OF 1(2) P(3)] k(1,2) by simp
    then show ?thesis using 1(1) r k P
      by (intro exI [of _ "put_content (mem_put (content s1) p ?t) s1"] exI [of _ p]) (auto simp: memset_Some)
  qed
qed

text \<open>A region that is replaced by a larger one with the same contents.\<close>

lemma region_moved:
  assumes "rep s A" "(p, n) \<in> A" "ready k s" "n \<le> k" "bytes_at (content s) p t" "length t = n"
  shows "\<exists>s' q. do { (s, q) \<leftarrow> alloc k s; if q = null then Some (s, null)
      else do { (m, _) \<leftarrow> memcpy (content s) q p n; s \<leftarrow> release p (put_content m s); Some (s, q) } } = Some (s', q) \<and>
    (q = null \<and> full k s \<and> rep s' A \<and> intact A (content s) (content s') \<or>
     (\<exists>j. k \<le> j \<and> (q, j) \<notin> A \<and> rep s' (insert (q, j) (A - {(p, n)})) \<and> bytes_at (content s') q t \<and>
       intact (A - {(p, n)}) (content s) (content s')))"
proof -
  from alloc [OF assms(1,3)] obtain s1 q where 1: "alloc k s = Some (s1, q)" "intact A (content s) (content s1)"
    "q = null \<and> full k s \<and> rep s1 A \<or> (\<exists>j. k \<le> j \<and> (q, j) \<notin> A \<and> rep s1 (insert (q, j) A))" by blast
  show ?thesis
  proof (cases "q = null \<and> full k s \<and> rep s1 A")
    case True
    then show ?thesis using 1 by (intro exI [of _ s1] exI [of _ null]) simp
  next
    case False
    then obtain j where j: "k \<le> j" "(q, j) \<notin> A" "rep s1 (insert (q, j) A)" using 1(3) by auto
    let ?s2 = "put_content (mem_put (content s1) q t) s1"
    have r: "q \<noteq> null" "mapped (content s1) q n"
      using region [OF j(3) insertI1] mapped_mono [OF _ le_trans [OF assms(4) j(1)]] by blast+
    have t: "bytes_at (content s1) p t" using intact_bytes [OF 1(2) assms(2)] assms(5,6) by simp
    have copy: "memcpy (content s1) q p n = Some (mem_put (content s1) q t, q)"
      by (rule memcpy.copy_block [OF t assms(6) [symmetric] r(2)])
    have "length t \<le> j" using assms(4,6) j(1) by simp
    note P = put_region [OF j(3) insertI1 this]
    have "insert (q, j) A - {(p, n)} = insert (q, j) (A - {(p, n)})" using assms(2) j(2) by auto
    with release [OF P(1) insertI2 [OF assms(2)]] obtain s3 where 3: "release p ?s2 = Some s3" "rep s3 (insert (q, j) (A - {(p, n)}))"
      "intact (insert (q, j) (A - {(p, n)})) (mem_put (content s1) q t) (content s3)"
      by (auto simp: P(2))
    have "intact (A - {(p, n)}) (content s) (mem_put (content s1) q t)"
      using intact_trans [OF 1(2) P(3)] j(2) by (auto simp: intact_def)
    then have "intact (A - {(p, n)}) (content s) (content s3)"
      by (rule intact_trans [OF _ intact_mono [OF 3(3)]]) auto
    moreover have "bytes_at (content s3) q t"
      by (rule intact_bytes [OF 3(3)]) (use \<open>length t \<le> j\<close> in simp_all)
    ultimately show ?thesis using 1(1) r(1) copy 3(1,2) j
      by (intro exI [of _ s3] exI [of _ q]) auto
  qed
qed

end

subsection \<open>The heap implements it\<close>

definition heap_rep :: "heap \<Rightarrow> (addr \<times> nat) set \<Rightarrow> bool" where
  "heap_rep hp A \<longleftrightarrow> (\<exists>hs. heap_at hp hs {} \<and> A = (\<lambda>(h, n). (h + HDR, n)) ` live hp hs)"

definition malloc_ready :: "(nat \<Rightarrow> int + addr) \<Rightarrow> nat \<Rightarrow> heap \<Rightarrow> bool" where
  "malloc_ready mmap n hp \<longleftrightarrow> n < 2 ^ 32 - 2 ^ 17 \<and> mmap_fresh mmap hp"

definition malloc_full :: "(nat \<Rightarrow> int + addr) \<Rightarrow> nat \<Rightarrow> heap \<Rightarrow> bool" where
  "malloc_full mmap n hp \<longleftrightarrow> no_memory mmap (align_size (max 1 n)) hp"

definition store_bytes :: "mem \<Rightarrow> heap \<Rightarrow> heap" where "store_bytes m hp = hp\<lparr>bytes := m\<rparr>"

lemma store_bytes_simps [simp]:
  "blocks (store_bytes m hp) = blocks hp" "links (store_bytes m hp) = links hp" "bytes (store_bytes m hp) = m"
  "aligned (store_bytes m hp) = aligned hp" "os_regions (store_bytes m hp) = os_regions hp" "live (store_bytes m hp) = live hp"
  by (simp_all add: store_bytes_def live_def fun_eq_iff)

lemma heap_at_store_bytes:
  assumes "heap_at hp hs X" "\<And>a. m a = None \<longleftrightarrow> bytes hp a = None"
  shows "heap_at (store_bytes m hp) hs X"
proof -
  have "mapped m a n = mapped (bytes hp) a n" for a n using assms(2) by (simp add: mapped_iff)
  then have "block_ok (store_bytes m hp) = block_ok hp" by (simp add: fun_eq_iff block_ok_iff)
  moreover have "bin_of (store_bytes m hp) = bin_of hp" "free_in (store_bytes m hp) = free_in hp"
    by (simp_all add: fun_eq_iff bin_of_def free_in_def)
  ultimately show ?thesis using assms(1) unfolding heap_at_def blocks_ok_def by (simp add: store_bytes_def)
qed

lemma live_block:
  assumes "heap_at hp hs X" "(h, n) \<in> live hp hs"
  shows "h \<noteq> 0" "0 < n" "16 dvd h" "h + HDR + n \<le> 2 ^ 64" "mapped (bytes hp) (h + HDR) n"
    "\<exists>b. blocks hp h = Some b \<and> bsize b = n \<and> \<not> bfree b \<and> bmagic b = CRT_BLOCK_MAGIC"
proof -
  have h: "block_ok hp h" "n = bsz (blocks hp) h" "\<not> bfr (blocks hp) h"
    using assms heap_at_block by (auto simp: live_def)
  note D = block_ok_D [OF h(1)]
  show "h \<noteq> 0" "0 < n" "16 dvd h" "h + HDR + n \<le> 2 ^ 64" using D h(2) by simp_all
  show "mapped (bytes hp) (h + HDR) n" using D(8) by (simp add: mapped_add h(2))
  show "\<exists>b. blocks hp h = Some b \<and> bsize b = n \<and> \<not> bfree b \<and> bmagic b = CRT_BLOCK_MAGIC"
    using D(1,7) h(2,3) by (auto simp: bsz_def bfr_def)
qed

lemma live_apart:
  assumes "heap_at hp hs X" "(h, n) \<in> live hp hs" "(k, m) \<in> live hp hs" "(h, n) \<noteq> (k, m)"
  shows "h + HDR + n \<le> k \<or> k + HDR + m \<le> h"
  using blocks_ok_D(6) [OF blocks_ok_at [OF assms(1)], of h k] assms(2-4) by (auto simp: live_def apart_def)

lemma heap_repE:
  assumes "heap_rep hp A" "(p, n) \<in> A"
  obtains hs h where "heap_at hp hs {}" "A = (\<lambda>(h, n). (h + HDR, n)) ` live hp hs" "(h, n) \<in> live hp hs" "p = h + HDR"
  using assms by (auto simp: heap_rep_def)

lemma intact_unharmed:
  assumes "heap_at hp hs {}" "unharmed hp hs hp'"
  shows "intact ((\<lambda>(h, n). (h + HDR, n)) ` live hp hs) (bytes hp) (bytes hp')"
proof -
  have "bytes hp' a = bytes hp a" if "(h, n) \<in> live hp hs" "h + HDR \<le> a" "a < h + HDR + n" for h n a
  proof -
    have "bytes hp a \<noteq> None" using live_block(5) [OF assms(1) that(1)] that(2,3) by (auto simp: mapped_iff le_iff_add)
    then show ?thesis using assms(2) by (simp add: unharmed_def)
  qed
  then show ?thesis by (auto simp: intact_def)
qed

lemma free_block:
  assumes "heap_at hp hs X" "(h, n) \<in> live hp hs"
  shows "free_unlocked (h + HDR) hp = release_block h hp"
  using live_block(6) [OF assms] by (auto simp: free_unlocked_def block_magic_def HDR_def)

interpretation crt_heap: allocator heap_rep bytes store_bytes "malloc_ready mmap" "malloc_full mmap" "malloc_unlocked mmap" free_unlocked
  for mmap
proof
  fix s A p n q m
  assume r: "heap_rep s A" "(p, n) \<in> A" "(q, m) \<in> A" "(p, n) \<noteq> (q, m)"
  then obtain hs h k where "heap_at s hs {}" "(h, n) \<in> live s hs" "(k, m) \<in> live s hs" "p = h + HDR" "q = k + HDR" "(h, n) \<noteq> (k, m)"
    by (auto simp: heap_rep_def)
  from live_apart [OF this(1-3,6)] this(4,5) show "p + n \<le> q \<or> q + m \<le> p" by auto
next
  fix s A p n
  assume "heap_rep s A" "(p, n) \<in> A"
  then obtain hs h where h: "heap_at s hs {}" "(h, n) \<in> live s hs" "p = h + HDR" by (rule heap_repE)
  with live_block [OF h(1,2)] show "p \<noteq> null \<and> 0 < n \<and> mapped (bytes s) p n" by simp
next
  fix s A n
  assume r: "heap_rep s A" and n: "malloc_ready mmap n s"
  obtain hs where at: "heap_at s hs {}" and A: "A = (\<lambda>(h, n). (h + HDR, n)) ` live s hs" using r by (auto simp: heap_rep_def)
  from n have "n < 2 ^ 32 - 2 ^ 17" "mmap_fresh mmap s" by (simp_all only: malloc_ready_def)
  from malloc_unlocked_ok [OF at this] obtain s' hs' p where m: "malloc_unlocked mmap n s = Some (s', p)" "heap_at s' hs' {}"
    "unharmed s hs s'" "p = 0 \<and> no_memory mmap (align_size (max 1 n)) s \<and> live s' hs' = live s hs \<or>
     (\<exists>h k. p = h + HDR \<and> h \<noteq> 0 \<and> n \<le> k \<and> h \<notin> fst ` live s hs \<and> live s' hs' = insert (h, k) (live s hs))"
    by (elim exE conjE) (rule that)
  have "p = null \<and> malloc_full mmap n s \<and> heap_rep s' A \<or> (\<exists>k. n \<le> k \<and> (p, k) \<notin> A \<and> heap_rep s' (insert (p, k) A))"
    using m(4)
  proof (elim disjE exE conjE)
    assume "p = 0" "live s' hs' = live s hs" "no_memory mmap (align_size (max 1 n)) s"
    then show ?thesis using m(2) A by (auto simp: heap_rep_def malloc_full_def)
  next
    fix h k assume h: "p = h + HDR" "n \<le> k" "h \<notin> fst ` live s hs" "live s' hs' = insert (h, k) (live s hs)"
    have "heap_rep s' (insert (p, k) A)"
      unfolding heap_rep_def by (rule exI [of _ hs']) (simp add: m(2) h(1,4) A)
    moreover have "(p, k) \<notin> A" using h(3) by (auto simp: A h(1) image_iff)
    ultimately show ?thesis using h(2) by blast
  qed
  then show "\<exists>s' p. malloc_unlocked mmap n s = Some (s', p) \<and> intact A (bytes s) (bytes s') \<and>
      (p = null \<and> malloc_full mmap n s \<and> heap_rep s' A \<or> (\<exists>k. n \<le> k \<and> (p, k) \<notin> A \<and> heap_rep s' (insert (p, k) A)))"
    using m(1) intact_unharmed [OF at m(3)] A by blast
next
  fix s A p n
  assume r: "heap_rep s A" "(p, n) \<in> A"
  then obtain hs h where h: "heap_at s hs {}" "A = (\<lambda>(h, n). (h + HDR, n)) ` live s hs" "(h, n) \<in> live s hs" "p = h + HDR"
    by (rule heap_repE)
  from release_block_ok [OF h(1,3)] obtain s' hs' where f: "release_block h s = Some s'" "heap_at s' hs' {}"
    "live s' hs' = live s hs - {(h, n)}" "bytes s' = bytes s" by auto
  have "A - {(p, n)} = (\<lambda>(h, n). (h + HDR, n)) ` live s' hs'"
    unfolding h(2,4) f(3) by auto
  then have "heap_rep s' (A - {(p, n)})" using f(2) unfolding heap_rep_def by blast
  then show "\<exists>s'. free_unlocked p s = Some s' \<and> heap_rep s' (A - {(p, n)}) \<and> intact (A - {(p, n)}) (bytes s) (bytes s')"
    using f free_block [OF h(1,3)] h(4) by (intro exI [of _ s']) simp
next
  fix s A and c :: mem
  assume "heap_rep s A" "\<And>a. (c a = None) = (bytes s a = None)"
  then show "heap_rep (store_bytes c s) A \<and> bytes (store_bytes c s) = c"
    unfolding heap_rep_def store_bytes_simps using heap_at_store_bytes by blast
qed

subsection \<open>The public functions\<close>

lemma rep_block:
  assumes "heap_rep hp A" "(p, n) \<in> A"
  shows "HDR < p" "16 dvd p" "p + n \<le> 2 ^ 64" "16 dvd n" "block_magic hp (p - HDR) = CRT_BLOCK_MAGIC"
    "\<exists>b. blocks hp (p - HDR) = Some b \<and> bsize b = n \<and> \<not> bfree b"
proof -
  obtain hs h where h: "heap_at hp hs {}" "(h, n) \<in> live hp hs" "p = h + HDR" using assms by (rule heap_repE)
  note L = live_block [OF h(1,2)]
  show "HDR < p" "16 dvd p" "p + n \<le> 2 ^ 64" using L(1,3,4) h(3) by (simp_all add: HDR_def)
  show "block_magic hp (p - HDR) = CRT_BLOCK_MAGIC" "\<exists>b. blocks hp (p - HDR) = Some b \<and> bsize b = n \<and> \<not> bfree b"
    using L(6) h(3) by (auto simp: block_magic_def)
  have "h \<in> set hs" "n = bsz (blocks hp) h" using h(2) by (auto simp: live_def)
  then show "16 dvd n" using block_ok_D(4) [OF heap_at_block [OF h(1)]] by simp
qed

lemma usable_size: "heap_rep hp A \<Longrightarrow> (p, n) \<in> A \<Longrightarrow> malloc_usable_size p hp = n"
  using rep_block [of hp A p n] by (auto simp: malloc_usable_size_def)

lemma rep_covered:
  assumes "heap_rep hp A" "(p, n) \<in> A"
  shows "covered (os_regions hp) p n"
proof -
  obtain hs h where h: "heap_at hp hs {}" "(h, n) \<in> live hp hs" "p = h + HDR" using assms by (rule heap_repE)
  then have "h \<in> set hs" "n = bsz (blocks hp) h" by (auto simp: live_def)
  with block_ok_D(9) [OF heap_at_block [OF h(1)]] h(3) show ?thesis by (simp add: covered_add)
qed

lemma heap_rep_empty:
  "blocks hp = Map.empty \<Longrightarrow> heap_head hp = 0 \<Longrightarrow> heap_tail hp = 0 \<Longrightarrow> (\<And>i. i < 64 \<Longrightarrow> free_bins hp i = Some 0) \<Longrightarrow> heap_rep hp {}"
  unfolding heap_rep_def heap_at_def blocks_ok_def bins_ok_def
  by (intro exI [of _ "[]"] conjI exI [of _ "\<lambda>_. []"]) (simp_all add: free_in_def live_def)

lemma heap_rep_start: "heap_rep heap_start {}"
  by (rule heap_rep_empty) (simp_all add: heap_start_def)

lemma size_overflow: "sz \<noteq> 0 \<and> SIZE_MAX div sz < nmemb \<longleftrightarrow> SIZE_MAX < sz * nmemb"
  by (cases "sz = 0") (simp_all add: div_less_iff_less_mult mult.commute)

lemma calloc_ok:
  assumes "heap_rep hp A" "malloc_ready mmap (sz * nmemb) hp"
  shows "\<exists>hp' p. calloc mmap nmemb sz hp = Some (hp', p) \<and> intact A (bytes hp) (bytes hp') \<and>
    (p = null \<and> malloc_full mmap (sz * nmemb) hp \<and> heap_rep hp' A \<or>
     (\<exists>n. sz * nmemb \<le> n \<and> (p, n) \<notin> A \<and> heap_rep hp' (insert (p, n) A) \<and> bytes_at (bytes hp') p (replicate (sz * nmemb) NUL)))"
proof -
  have "\<not> SIZE_MAX < sz * nmemb" using assms(2) by (simp add: malloc_ready_def SIZE_MAX_def)
  then have "calloc mmap nmemb sz hp = do { (hp, ptr) \<leftarrow> malloc_unlocked mmap (sz * nmemb) hp;
      if ptr = null then Some (hp, null)
      else do { (m, _) \<leftarrow> memset (bytes hp) ptr 0 (sz * nmemb); Some (store_bytes m hp, ptr) } }"
    unfolding calloc_def size_overflow malloc_def Let_def store_bytes_def by simp
  with crt_heap.alloc_zeroed [OF assms] show ?thesis by simp
qed

lemma calloc_overflow: "SIZE_MAX < sz * nmemb \<Longrightarrow> calloc mmap nmemb sz hp = Some (hp\<lparr>errno := ENOMEM\<rparr>, null)"
  unfolding calloc_def size_overflow by simp

lemma free_newest:
  assumes "heap_rep hp (insert (p, n) A)" "(p, n) \<notin> A"
  shows "\<exists>hp'. free_unlocked p hp = Some hp' \<and> heap_rep hp' A"
proof -
  have e: "insert (p, n) A - {(p, n)} = A" using assms(2) by simp
  from crt_heap.release [OF assms(1) insertI1] show ?thesis unfolding e by blast
qed

text \<open>A block is resized in its place, or moved.\<close>

lemma shift_remove: "(\<lambda>(h, n). (h + HDR, n)) ` (L - {(h, n)}) = (\<lambda>(h, n). (h + HDR, n)) ` L - {(h + HDR, n)}"
  by auto

lemma realloc_in_place:
  assumes "heap_rep hp A" "(p, n) \<in> A" "sz \<noteq> 0" "align_size sz \<le> n" "sz + 15 < 2 ^ 64"
  shows "\<exists>hp' j. realloc mmap p sz hp = Some (hp', p) \<and> sz \<le> j \<and> j \<le> n \<and>
    heap_rep hp' (insert (p, j) (A - {(p, n)})) \<and> bytes hp' = bytes hp"
proof -
  obtain hs h where h: "heap_at hp hs {}" "A = (\<lambda>(h, n). (h + HDR, n)) ` live hp hs" "(h, n) \<in> live hp hs" "p = h + HDR"
    using assms(1,2) by (rule heap_repE)
  have hh: "h \<in> set hs" "\<not> bfr (blocks hp) h" "n = bsz (blocks hp) h" using h(3) by (auto simp: live_def)
  note s = align_size_bounds [OF assms(5)]
  from split_block_ok [OF h(1) hh(1) s(2) s(4)] hh(2,3) assms(3,4)
  obtain hp' hs' j where r: "split_block h (align_size sz) hp = Some hp'" "heap_at hp' hs' {}" "align_size sz \<le> j"
    "j \<le> n" "live hp' hs' = {(k, m) \<in> live hp hs. k \<noteq> h} \<union> {(h, j)}" "keeps hp hs hp'" by auto
  have l: "live hp' hs' = insert (h, j) (live hp hs - {(h, n)})" unfolding r(5) using hh by (auto simp: live_def)
  have "insert (p, j) (A - {(p, n)}) = (\<lambda>(h, n). (h + HDR, n)) ` live hp' hs'"
    unfolding h(2,4) l image_insert shift_remove by simp
  then have "heap_rep hp' (insert (p, j) (A - {(p, n)}))" using r(2) unfolding heap_rep_def by blast
  moreover have "realloc mmap p sz hp = Some (hp', p)"
  proof -
    obtain b where "blocks hp (p - HDR) = Some b" "bsize b = n" using rep_block(6) [OF assms(1,2)] by blast
    moreover have "\<not> SIZE_MAX - (CRT_MALLOC_ALIGNMENT - 1) < sz"
      using assms(5) by (simp add: SIZE_MAX_def CRT_MALLOC_ALIGNMENT_def)
    moreover have "p - HDR = h" "p \<noteq> null" using h(4) by (simp_all add: HDR_def)
    ultimately show ?thesis
      using rep_block(5) [OF assms(1,2)] assms(3,4) r(1) by (simp add: realloc_def Let_def)
  qed
  ultimately show ?thesis using r(3,4,6) s(1) by (intro exI [of _ hp'] exI [of _ j]) (simp add: keeps_def)
qed

lemma realloc_ok:
  assumes rep: "heap_rep hp A" "(p, n) \<in> A" and sz: "sz \<noteq> 0" "malloc_ready mmap sz hp"
    and t: "bytes_at (bytes hp) p t" "length t = n"
  shows "\<exists>hp' q. realloc mmap p sz hp = Some (hp', q) \<and>
    (q = null \<and> malloc_full mmap sz hp \<and> heap_rep hp' A \<and> intact A (bytes hp) (bytes hp') \<or>
     (\<exists>j. sz \<le> j \<and> heap_rep hp' (insert (q, j) (A - {(p, n)})) \<and> bytes_at (bytes hp') q (take sz t) \<and>
       intact (A - {(p, n)}) (bytes hp) (bytes hp')))"
proof -
  have lim: "sz + 15 < 2 ^ 64" using sz(2) by (simp add: malloc_ready_def)
  note s = align_size_bounds [OF lim]
  show ?thesis
  proof (cases "align_size sz \<le> n")
    case True
    from realloc_in_place [OF rep sz(1) True lim, of mmap] obtain hp' j where r: "realloc mmap p sz hp = Some (hp', p)" "sz \<le> j"
      "heap_rep hp' (insert (p, j) (A - {(p, n)}))" "bytes hp' = bytes hp" by auto
    with bytes_at_take [OF t(1)] show ?thesis by (intro exI [of _ hp'] exI [of _ p]) auto
  next
    case False
    note R = rep_block [OF rep]
    have le: "n \<le> sz"
    proof -
      have "16 dvd align_size sz - n" using s(2) R(4) by (rule dvd_diff_nat)
      then have "16 \<le> align_size sz - n" using False by (intro dvd_imp_le) simp_all
      then show ?thesis using s(3) by linarith
    qed
    obtain b where b: "blocks hp (p - HDR) = Some b" "bsize b = n" using R(6) by blast
    let ?move = "\<lambda>hp q. do { (m, _) \<leftarrow> memcpy (bytes hp) q p n; hp \<leftarrow> free_unlocked p (store_bytes m hp); Some (hp, q) }"
    have run: "realloc mmap p sz hp = do { (hp, q) \<leftarrow> malloc_unlocked mmap sz hp; if q = null then Some (hp, null) else do {
        b \<leftarrow> blocks hp (p - HDR);
        (m, _) \<leftarrow> memcpy (bytes hp) q p (if bsize b < align_size sz then bsize b else align_size sz);
        hp \<leftarrow> free_unlocked p (store_bytes m hp); Some (hp, q) } }"
      using R(1,5) b sz(1) False lim
      unfolding store_bytes_def by (simp add: realloc_def Let_def SIZE_MAX_def CRT_MALLOC_ALIGNMENT_def)
    from crt_heap.alloc [OF rep(1) sz(2)] obtain hp1 q where a: "malloc_unlocked mmap sz hp = Some (hp1, q)"
      "q = null \<and> heap_rep hp1 A \<or> (\<exists>k. sz \<le> k \<and> (q, k) \<notin> A \<and> heap_rep hp1 (insert (q, k) A))" by blast
    then obtain A' where "heap_rep hp1 A'" "(p, n) \<in> A'" using rep(2) by blast
    then obtain b1 where "blocks hp1 (p - HDR) = Some b1" "bsize b1 = n" using rep_block(6) by blast
    then have "realloc mmap p sz hp = do { (hp, q) \<leftarrow> malloc_unlocked mmap sz hp;
        if q = null then Some (hp, null) else ?move hp q }"
      using a(1) False by (simp add: run)
    with crt_heap.region_moved [OF rep sz(2) le t] obtain hp' q where r: "realloc mmap p sz hp = Some (hp', q)"
      "q = null \<and> malloc_full mmap sz hp \<and> heap_rep hp' A \<and> intact A (bytes hp) (bytes hp') \<or>
       (\<exists>j. sz \<le> j \<and> (q, j) \<notin> A \<and> heap_rep hp' (insert (q, j) (A - {(p, n)})) \<and> bytes_at (bytes hp') q t \<and>
         intact (A - {(p, n)}) (bytes hp) (bytes hp'))" by auto
    then show ?thesis using le t(2) by auto
  qed
qed

subsection \<open>Over-aligned allocations\<close>

lemma power_of_two_mask: "al = 2 ^ k \<Longrightarrow> of_nat al - 1 = (mask k :: u64)"
  by (simp add: mask_eq_decr_exp)

lemma power_of_two_test: "al = 2 ^ k \<Longrightarrow> (of_nat al :: u64) AND (of_nat al - 1) = 0"
  unfolding power_of_two_mask by (simp add: take_bit_eq_mask [symmetric] take_bit_eq_mod)

lemma aligned_address_bounds:
  assumes "al = 2 ^ k" "a + ALIGNED_HDR + al \<le> 2 ^ 64" "0 < k" "k < 64"
  shows "a + ALIGNED_HDR \<le> aligned_address a al" "aligned_address a al < a + ALIGNED_HDR + al" "al dvd aligned_address a al"
proof -
  let ?n = "a + ALIGNED_HDR + al - 1"
  have "1 \<le> al" using assms(1) by simp
  then have w: "of_nat (a + ALIGNED_HDR) + of_nat al - 1 = (of_nat ?n :: u64)"
    by (simp add: of_nat_diff)
  note m = power_of_two_mask [OF assms(1)]
  have lt: "?n < 2 ^ 64" using assms(2) \<open>1 \<le> al\<close> by linarith
  have e: "aligned_address a al = ?n - ?n mod al"
    unfolding aligned_address_def w m unat_clear_low unat_u64 [OF lt] by (simp only: assms(1))
  have "?n mod al < al" using \<open>1 \<le> al\<close> by simp
  then show "a + ALIGNED_HDR \<le> aligned_address a al" unfolding e using \<open>1 \<le> al\<close> by linarith
  show "aligned_address a al < a + ALIGNED_HDR + al" unfolding e using \<open>1 \<le> al\<close> by linarith
  show "al dvd aligned_address a al" unfolding e by (rule dvd_minus_mod)
qed

text \<open>The header in front of an over-aligned pointer is inside of its allocation.\<close>

lemma put_aligned_rep:
  assumes "heap_rep hp A" "(p, n) \<in> A" "p + ALIGNED_HDR \<le> r" "r \<le> p + n"
  shows "heap_rep (put_aligned r x hp) A"
proof -
  obtain hs h where h: "heap_at hp hs {}" "A = (\<lambda>(h, n). (h + HDR, n)) ` live hp hs" "(h, n) \<in> live hp hs" "p = h + HDR"
    using assms(1,2) by (rule heap_repE)
  have hh: "h \<in> set hs" "n = bsz (blocks hp) h" using h(3) by (auto simp: live_def)
  let ?hp = "put_aligned r x hp"
  have out: "r - HDR \<notin> set hs"
  proof
    assume k: "r - HDR \<in> set hs"
    have "r - HDR \<noteq> h" using assms(3) h(4) by (auto simp: HDR_def ALIGNED_HDR_def)
    then have "apart (blocks hp) h (r - HDR)" using blocks_ok_D(6) [OF blocks_ok_at [OF h(1)] hh(1) k] by simp
    then show False using assms(3,4) h(4) unfolding apart_def hh(2) [symmetric] by (auto simp: HDR_def ALIGNED_HDR_def)
  qed
  have same: "blocks ?hp k = blocks hp k" if "k \<in> set hs" for k using that out by (auto simp: put_aligned_def)
  have b: "bytes ?hp = bytes hp" "os_regions ?hp = os_regions hp" by (simp_all add: put_aligned_def)
  have f: "bnx (blocks ?hp) k = bnx (blocks hp) k" "bpv (blocks ?hp) k = bpv (blocks hp) k" "bsz (blocks ?hp) k = bsz (blocks hp) k"
    "bfr (blocks ?hp) k = bfr (blocks hp) k" "block_ok ?hp k = block_ok hp k" "bin_of ?hp k = bin_of hp k" if "k \<in> set hs" for k
    using same [OF that] by (simp_all add: field_defs block_ok_iff has_magic_def bin_of_def b)
  have o: "links ?hp = links hp" "free_bins ?hp = free_bins hp" "heap_head ?hp = heap_head hp" "heap_tail ?hp = heap_tail hp"
    by (simp_all add: put_aligned_def)
  have "blocks_ok ?hp hs" using blocks_ok_at [OF h(1)] unfolding blocks_ok_def o
    by (simp add: f apart_def dll_cong [of hs "bnx (blocks ?hp)" "bnx (blocks hp)" "bpv (blocks ?hp)" "bpv (blocks hp)"])
  moreover have I: "free_in ?hp hs = free_in hp hs" by (auto simp: free_in_def f)
  obtain fs where "bins_ok (links hp) (free_bins hp) fs (bin_of hp) (free_in hp hs)" using h(1) by (auto simp: heap_at_def)
  then have "bins_ok (links hp) (free_bins hp) fs (bin_of ?hp) (free_in hp hs)"
    by (rule bins_ok_cong) (auto simp: free_in_def f(6))
  ultimately have "heap_at ?hp hs {}" unfolding heap_at_def o I by auto
  moreover have "live ?hp hs = live hp hs" by (auto simp: live_def f)
  ultimately show ?thesis using h(2) unfolding heap_rep_def by auto
qed

lemma posix_memalign_ok:
  assumes rep: "heap_rep hp A" and al: "al = 2 ^ k" "3 \<le> k" and rdy: "malloc_ready mmap (sz + al + ALIGNED_HDR) hp"
  shows "\<exists>hp' e q. posix_memalign mmap True al sz hp = Some (hp', e, q) \<and> intact A (bytes hp) (bytes hp') \<and>
    (e = ENOMEM \<and> q = None \<and> heap_rep hp' A \<or>
     (\<exists>p n r. e = 0 \<and> q = Some r \<and> al dvd r \<and> p \<le> r \<and> r + sz \<le> p + n \<and> (p, n) \<notin> A \<and> heap_rep hp' (insert (p, n) A) \<and>
       (\<exists>hp''. free r hp' = Some hp'' \<and> heap_rep hp'' A)))"
proof -
  have lim: "sz + al + ALIGNED_HDR < 2 ^ 32 - 2 ^ 17" "mmap_fresh mmap hp" using rdy by (simp_all only: malloc_ready_def)
  have k32: "k < 32"
  proof (rule ccontr)
    assume "\<not> k < 32"
    then have "(2 :: nat) ^ 32 \<le> 2 ^ k" by (intro power_increasing) simp_all
    then show False using lim(1) al(1) by simp
  qed
  have "(2 :: nat) ^ 3 \<le> 2 ^ k" using al(2) by (intro power_increasing) simp_all
  then have args: "\<not> (al < 8 \<or> (of_nat al :: u64) AND (of_nat al - 1) \<noteq> 0)"
    using power_of_two_test [OF al(1)] k32 al(1) by simp
  show ?thesis
  proof (cases "al \<le> CRT_MALLOC_ALIGNMENT")
    case True
    have "malloc_ready mmap sz hp" using lim by (simp add: malloc_ready_def)
    from crt_heap.alloc [OF rep this] obtain hp1 p where 1: "malloc_unlocked mmap sz hp = Some (hp1, p)"
      "intact A (bytes hp) (bytes hp1)" "p = null \<and> heap_rep hp1 A \<or> (\<exists>n. sz \<le> n \<and> (p, n) \<notin> A \<and> heap_rep hp1 (insert (p, n) A))" by blast
    have run: "posix_memalign mmap True al sz hp = (if p = null then Some (hp1, ENOMEM, None) else Some (hp1, 0, Some p))"
      using args True 1(1) by (simp add: posix_memalign_def malloc_def)
    show ?thesis
    proof (cases "p = null \<and> heap_rep hp1 A")
      case True
      then show ?thesis using run 1(2) by auto
    next
      case False
      then obtain n where n: "sz \<le> n" "(p, n) \<notin> A" "heap_rep hp1 (insert (p, n) A)" using 1(3) by auto
      note R = rep_block [OF n(3) insertI1]
      have "k \<le> 4"
      proof (rule ccontr)
        assume "\<not> k \<le> 4"
        then have "(2 :: nat) ^ 5 \<le> 2 ^ k" by (intro power_increasing) simp_all
        then show False using True al(1) by (simp add: CRT_MALLOC_ALIGNMENT_def)
      qed
      then have "al dvd 2 ^ 4" unfolding al(1) by (rule le_imp_power_dvd)
      moreover have "2 ^ 4 dvd p" using R(2) by simp
      ultimately have "al dvd p" by (rule dvd_trans)
      moreover obtain hp2 where "free p hp1 = Some hp2" "heap_rep hp2 A"
        using free_newest [OF n(3,2)] unfolding free_def by blast
      ultimately have "al dvd p \<and> p \<le> p \<and> p + sz \<le> p + n \<and> (p, n) \<notin> A \<and> heap_rep hp1 (insert (p, n) A) \<and>
          (\<exists>hp''. free p hp1 = Some hp'' \<and> heap_rep hp'' A)" using n by simp
      moreover have "posix_memalign mmap True al sz hp = Some (hp1, 0, Some p)" using run R(1) by simp
      ultimately show ?thesis using 1(2) by blast
    qed
  next
    case False
    let ?n = "sz + al - 1 + ALIGNED_HDR"
    have al1: "1 \<le> al" using al(1) by simp
    have "malloc_ready mmap ?n hp" using lim by (auto simp: malloc_ready_def)
    from crt_heap.alloc [OF rep this] obtain hp1 p where 1: "malloc_unlocked mmap ?n hp = Some (hp1, p)"
      "intact A (bytes hp) (bytes hp1)" "p = null \<and> heap_rep hp1 A \<or> (\<exists>n. ?n \<le> n \<and> (p, n) \<notin> A \<and> heap_rep hp1 (insert (p, n) A))" by blast
    define r where "r = aligned_address p al"
    let ?x = "\<lparr>amagic = CRT_ALIGNED_MAGIC, allocation = p, alignment = al, requested_size = sz\<rparr>"
    let ?hp2 = "put_aligned r ?x hp1"
    have "\<not> SIZE_MAX - al - ALIGNED_HDR < sz" using lim(1) by (simp add: SIZE_MAX_def)
    then have run: "posix_memalign mmap True al sz hp = (if p = null then Some (hp1, ENOMEM, None) else Some (?hp2, 0, Some r))"
      using args False 1(1) by (simp add: posix_memalign_def malloc_def r_def Let_def)
    show ?thesis
    proof (cases "p = null \<and> heap_rep hp1 A")
      case True
      then show ?thesis using run 1(2) by auto
    next
      case False
      then obtain n where n: "?n \<le> n" "(p, n) \<notin> A" "heap_rep hp1 (insert (p, n) A)" using 1(3) by auto
      note R = rep_block [OF n(3) insertI1]
      have "p + ALIGNED_HDR + al \<le> 2 ^ 64 + 1" using R(3) n(1) al1 by linarith
      have "p + ALIGNED_HDR + al \<le> 2 ^ 64"
      proof -
        have "p + ALIGNED_HDR + al - 1 \<le> p + n" using n(1) by linarith
        moreover have "16 dvd p + n" using R(2,4) by simp
        moreover have "16 dvd p + ALIGNED_HDR + al"
        proof -
          have "(2 :: nat) ^ 4 dvd al" unfolding al(1)
          proof (rule le_imp_power_dvd)
            show "4 \<le> k"
            proof (rule ccontr)
              assume "\<not> 4 \<le> k"
              then have "(2 :: nat) ^ k \<le> 2 ^ 4" by (intro power_increasing) simp_all
              then show False using \<open>\<not> al \<le> CRT_MALLOC_ALIGNMENT\<close> al(1) by (simp add: CRT_MALLOC_ALIGNMENT_def)
            qed
          qed
          then show ?thesis using R(2) by (simp add: ALIGNED_HDR_def)
        qed
        ultimately have "p + ALIGNED_HDR + al \<le> p + n" by presburger
        then show ?thesis using R(3) by linarith
      qed
      note B = aligned_address_bounds [OF al(1) this, folded r_def]
      have b: "p + ALIGNED_HDR \<le> r" "r < p + ALIGNED_HDR + al" "al dvd r" using B al(2) k32 by simp_all
      have fit: "r + sz \<le> p + n" using b(2) n(1) al1 by linarith
      have r2: "heap_rep ?hp2 (insert (p, n) A)"
        by (rule put_aligned_rep [OF n(3) insertI1 b(1)]) (use fit in linarith)
      have b2: "bytes ?hp2 = bytes hp1" by (simp add: put_aligned_def)
      have p0: "p \<noteq> null" using R(1) by simp
      obtain hs h where h: "heap_at ?hp2 hs {}" "(h, n) \<in> live ?hp2 hs" "p = h + HDR"
        using r2 insertI1 by (rule heap_repE)
      have "free r ?hp2 = free_unlocked p ?hp2"
      proof -
        have "block_magic ?hp2 (r - HDR) \<noteq> CRT_BLOCK_MAGIC" "aligned ?hp2 r = Some ?x" "r \<noteq> null"
          using b(1) by (simp_all add: block_magic_def put_aligned_def CRT_BLOCK_MAGIC_def ALIGNED_HDR_def)
        then have "free r ?hp2 = release_block (p - HDR) ?hp2"
          by (simp add: free_def free_unlocked_def aligned_magic_def)
        then show ?thesis using free_block [OF h(1,2)] h(3) by simp
      qed
      then obtain hp3 where "free r ?hp2 = Some hp3" "heap_rep hp3 A" using free_newest [OF r2 n(2)] by auto
      then have "al dvd r \<and> p \<le> r \<and> r + sz \<le> p + n \<and> (p, n) \<notin> A \<and> heap_rep ?hp2 (insert (p, n) A) \<and>
          (\<exists>hp''. free r ?hp2 = Some hp'' \<and> heap_rep hp'' A)" using b fit n(2) r2 by simp
      moreover have "posix_memalign mmap True al sz hp = Some (?hp2, 0, Some r)" using run p0 by simp
      ultimately show ?thesis using 1(2) b2 by metis
    qed
  qed
qed

text \<open>A request of 4 GiB on a heap without blocks: the chunk has 64 KiB, and so has the block.\<close>

lemma chunk_of_4GiB: "align_chunk_size (2 ^ 32 + HDR) = 65536"
  by (subst align_chunk_size_eq) (simp_all add: HDR_def)

lemma malloc_4GiB:
  assumes at: "heap_at hp [] {}" and a: "mmap 65536 = Inr a" "a \<noteq> 0" and r: "length (os_regions hp) < CRT_MALLOC_MAX_OS_REGIONS"
  shows "\<exists>hp'. malloc mmap (2 ^ 32) hp = Some (hp', a + HDR) \<and> malloc_usable_size (a + HDR) hp' = 65536 - HDR"
proof -
  have hd: "heap_head hp = 0" using blocks_ok_D(3) [OF blocks_ok_at [OF at]] by simp
  have sz: "align_size (2 ^ 32) = 2 ^ 32" by (subst align_size_eq) simp_all
  have none: "search_bins hp (free_bin (2 ^ 32)) (2 ^ 32) = Some 0"
    using search_bins_Some [OF at, of "free_bin (2 ^ 32)" "2 ^ 32"] by (auto simp: free_in_def)
  define b where "b = \<lparr>bsize = 65536 - HDR, bfree = True, bnext = 0, bprevious = heap_tail hp, bmagic = CRT_BLOCK_MAGIC\<rparr>"
  define hp1 where "hp1 = (put_block a b (hp\<lparr>os_regions := os_regions hp @ [(a, 65536)],
    bytes := (\<lambda>x. if a \<le> x \<and> x < a + 65536 then Some NUL else bytes hp x)\<rparr>))\<lparr>heap_head := a, heap_tail := a\<rparr>"
  have "append_chunk mmap (2 ^ 32) hp = Some (hp1, a)"
    using a r hd unfolding append_chunk_def Let_def chunk_of_4GiB
    by (simp add: SIZE_MAX_def HDR_def CRT_HEAP_CHUNK_SIZE_def hp1_def b_def put_block_def)
  moreover have b1: "blocks hp1 a = Some b" by (simp add: hp1_def put_block_def)
  moreover have "split_block a (2 ^ 32) hp1 = Some hp1"
    using b1 by (simp add: split_block_def b_def HDR_def)
  moreover have "set_free a False hp1 = Some (put_block a (b\<lparr>bfree := False\<rparr>) hp1)"
    using b1 by (simp add: set_free_def)
  ultimately have "malloc mmap (2 ^ 32) hp = Some (put_block a (b\<lparr>bfree := False\<rparr>) hp1, a + HDR)"
    using none sz a(2) by (simp add: malloc_def malloc_unlocked_def SIZE_MAX_def CRT_MALLOC_ALIGNMENT_def Let_def)
  then show ?thesis
    by (intro exI [of _ "put_block a (b\<lparr>bfree := False\<rparr>) hp1"])
      (simp add: malloc_usable_size_def block_magic_def put_block_def b_def HDR_def)
qed

lemma reallocarray_overflow: "SIZE_MAX < nmemb * sz \<Longrightarrow> reallocarray mmap p nmemb sz hp = Some (hp\<lparr>errno := ENOMEM\<rparr>, null)"
  by (simp add: reallocarray_def)

subsection \<open>Programs that use the heap\<close>

text \<open>
  What a program without memory errors can do: allocate, write into what it was given, resize it and
  give it back once. The second component is the set of regions it owns. Each call meets its own answer
  of the system.
\<close>

inductive program :: "heap \<Rightarrow> (addr \<times> nat) set \<Rightarrow> bool" where
  start: "program heap_start {}"
| call_malloc: "program hp A \<Longrightarrow> malloc_ready mmap n hp \<Longrightarrow> malloc mmap n hp = Some (hp', p) \<Longrightarrow>
    program hp' (if p = null then A else insert (p, malloc_usable_size p hp') A)"
| call_realloc: "program hp A \<Longrightarrow> (p, n) \<in> A \<Longrightarrow> sz \<noteq> 0 \<Longrightarrow> malloc_ready mmap sz hp \<Longrightarrow>
    realloc mmap p sz hp = Some (hp', q) \<Longrightarrow>
    program hp' (if q = null then A else insert (q, malloc_usable_size q hp') (A - {(p, n)}))"
| call_free: "program hp A \<Longrightarrow> (p, n) \<in> A \<Longrightarrow> free p hp = Some hp' \<Longrightarrow> program hp' (A - {(p, n)})"
| write_region: "program hp A \<Longrightarrow> (p, n) \<in> A \<Longrightarrow> length t \<le> n \<Longrightarrow> program (store_bytes (mem_put (bytes hp) p t) hp) A"

lemma region_bytes:
  assumes "heap_rep hp A" "(p, n) \<in> A"
  shows "p \<noteq> null" "\<exists>t. bytes_at (bytes hp) p t \<and> length t = n"
  using crt_heap.region [OF assms] mapped_bytes [of "bytes hp" p n] by blast+

lemma program_rep: "program hp A \<Longrightarrow> heap_rep hp A"
proof (induction rule: program.induct)
  case start
  show ?case by (rule heap_rep_start)
next
  case (call_malloc hp A mmap n hp' p)
  from crt_heap.alloc [OF call_malloc.IH call_malloc.hyps(2)] call_malloc.hyps(3)
  have "p = null \<and> heap_rep hp' A \<or> (\<exists>k. heap_rep hp' (insert (p, k) A))" by (auto simp: malloc_def)
  then show ?case
  proof (elim disjE exE)
    fix k assume r: "heap_rep hp' (insert (p, k) A)"
    with region_bytes(1) [OF r insertI1] usable_size [OF r insertI1] show ?thesis by simp
  qed simp
next
  case (call_realloc hp A p n sz mmap hp' q)
  obtain t where t: "bytes_at (bytes hp) p t" "length t = n" using region_bytes(2) [OF call_realloc.IH call_realloc.hyps(2)] by blast
  from realloc_ok [OF call_realloc.IH call_realloc.hyps(2-4) t] call_realloc.hyps(5)
  have "q = null \<and> heap_rep hp' A \<or> (\<exists>k. heap_rep hp' (insert (q, k) (A - {(p, n)})))" by auto
  then show ?case
  proof (elim disjE exE)
    fix k assume r: "heap_rep hp' (insert (q, k) (A - {(p, n)}))"
    with region_bytes(1) [OF r insertI1] usable_size [OF r insertI1] show ?thesis by simp
  qed simp
next
  case (call_free hp A p n hp')
  from crt_heap.release [OF call_free.IH call_free.hyps(2)] call_free.hyps(3) show ?case by (auto simp: free_def)
next
  case (write_region hp A p n t)
  then show ?case using crt_heap.put_region(1) by blast
qed

lemma program_regions:
  assumes "program hp A" "(p, n) \<in> A"
  shows "0 < n" "16 dvd p" "covered (os_regions hp) p n" "mapped (bytes hp) p n"
    "(q, m) \<in> A \<Longrightarrow> (p, n) \<noteq> (q, m) \<Longrightarrow> p + n \<le> q \<or> q + m \<le> p"
  using program_rep [OF assms(1)] assms(2) crt_heap.region [of hp A p n] crt_heap.regions_apart [of hp A p n q m]
    rep_block(2) rep_covered by blast+

text \<open>No call of such a program gets stuck.\<close>

lemma program_progress:
  assumes "program hp A"
  shows "malloc_ready mmap n hp \<Longrightarrow> malloc mmap n hp \<noteq> None"
    and "(p, n) \<in> A \<Longrightarrow> sz \<noteq> 0 \<Longrightarrow> malloc_ready mmap sz hp \<Longrightarrow> realloc mmap p sz hp \<noteq> None"
    and "(p, n) \<in> A \<Longrightarrow> free p hp \<noteq> None"
proof -
  note r = program_rep [OF assms]
  show "malloc_ready mmap n hp \<Longrightarrow> malloc mmap n hp \<noteq> None"
    using crt_heap.alloc [OF r, of mmap n] unfolding malloc_def by blast
  show "(p, n) \<in> A \<Longrightarrow> free p hp \<noteq> None"
    using crt_heap.release [OF r] unfolding free_def by blast
  assume a: "(p, n) \<in> A" "sz \<noteq> 0" "malloc_ready mmap sz hp"
  obtain t where "bytes_at (bytes hp) p t" "length t = n" using region_bytes(2) [OF r a(1)] by blast
  from realloc_ok [OF r a this] show "realloc mmap p sz hp \<noteq> None" by (elim exE conjE) simp
qed

end
