(* ===== verification/CRT_Stdio.thy ===== *)
theory CRT_Stdio
  imports CRT_Prelude
begin

text \<open>
  The buffered streams of \<^verbatim>\<open>libc/src/stdio.c\<close>. The record \<open>FILE\<close> holds the fields of
  \<^verbatim>\<open>struct __sFILE\<close> and of its cookie; the flag bits of \<^verbatim>\<open>_flags\<close> are one boolean
  field each. The pointer \<^verbatim>\<open>_p\<close> is its offset from \<^verbatim>\<open>_bf._base\<close>, with
  \<^term>\<open>None\<close> for the null pointer; the pushback area \<^verbatim>\<open>_up .. _up + _ur\<close> is the
  list of the bytes in it. What a call does to the rest of the process is the field \<open>fp_os\<close> of
  an arbitrary type: the system calls, the callbacks of \<^verbatim>\<open>funopen\<close> and the allocator are
  functions on it, parameters of the model. A call that fails gives \<^term>\<open>Inl e\<close> with the error
  number, one that succeeds \<^term>\<open>Inr\<close> of its result.

  A stream operation maps the stream to the stream after it and to the C result. The locked entry
  points take the stream's lock around the unlocked body, so on one thread they are their bodies.
\<close>

definition EOF :: int where "EOF = -1"
definition BUFSIZ :: nat where "BUFSIZ = 1024"
definition EBADF :: int where "EBADF = 9"
definition ENOSPC :: int where "ENOSPC = 28"
definition ESPIPE :: int where "ESPIPE = 29"
definition SEEK_SET :: int where "SEEK_SET = 0"
definition SEEK_CUR :: int where "SEEK_CUR = 1"
definition SEEK_END :: int where "SEEK_END = 2"

text \<open>The conversion of a \<open>size_t\<close> to \<open>int\<close>.\<close>

definition int_of_size :: "nat \<Rightarrow> int" where
  "int_of_size n = sint (word_of_nat n :: i32)"

text \<open>The \<open>int\<close> that a computation gives, wrapped around.\<close>

definition wrap_int :: "int \<Rightarrow> int" where
  "wrap_int i = sint (word_of_int i :: i32)"

lemma wrap_int [simp]: "- (2 ^ 31) \<le> i \<Longrightarrow> i < 2 ^ 31 \<Longrightarrow> wrap_int i = i"
  by (simp add: wrap_int_def signed_of_int signed_take_bit_int_eq_self)

datatype stream_kind = KIND_FD | KIND_MEMORY | KIND_FUNOPEN
datatype last_op = STDIO_NONE | STDIO_READ | STDIO_WRITE
datatype buffering = IOFBF | IOLBF | IONBF

text \<open>The access mode and the other flags that a mode string stands for.\<close>

datatype access = O_RDONLY | O_WRONLY | O_RDWR

record oflags =
  o_access :: access
  o_creat :: bool
  o_trunc :: bool
  o_append :: bool

text \<open>The host: the system calls on descriptors and the allocator. \<open>sys_malloc\<close> gives the
  address of the fresh block and the bytes it holds; \<open>sys_realloc\<close> gives the address of the
  enlarged block and its bytes, of which the caller's old ones overlay the first. The sizes of
  \<^verbatim>\<open>FILE\<close>, of its extension and of the cookie depend on the binary interface.\<close>

record 'w host =
  sys_open :: "'w \<Rightarrow> string \<Rightarrow> oflags \<Rightarrow> 'w \<times> (int + int)"
  sys_read :: "'w \<Rightarrow> int \<Rightarrow> nat \<Rightarrow> 'w \<times> (int + string)"
  sys_write :: "'w \<Rightarrow> int \<Rightarrow> string \<Rightarrow> 'w \<times> (int + nat)"
  sys_lseek :: "'w \<Rightarrow> int \<Rightarrow> int \<Rightarrow> int \<Rightarrow> 'w \<times> (int + int)"
  sys_close :: "'w \<Rightarrow> int \<Rightarrow> 'w \<times> (int + int)"
  sys_malloc :: "'w \<Rightarrow> nat \<Rightarrow> 'w \<times> (addr \<times> string) option"
  sys_realloc :: "'w \<Rightarrow> addr \<Rightarrow> nat \<Rightarrow> 'w \<times> (addr \<times> string) option"
  sizeof_FILE :: nat
  sizeof_ext :: nat
  sizeof_cookie :: nat

record 'w FILE =
  fp_os :: 'w
  fp_errno :: int
  fp_p :: "nat option"
  fp_r :: int
  fp_w :: int
  fl_lbf :: bool
  fl_nbf :: bool
  fl_rd :: bool
  fl_wr :: bool
  fl_eof :: bool
  fl_err :: bool
  fl_mbf :: bool
  bf_base :: "string option"
  bf_size :: nat
  fp_up :: string
  ub_size :: nat
  fp_orient :: int
  ck_kind :: stream_kind
  ck_fd :: int
  ck_owned :: bool
  ck_readable :: bool
  ck_writable :: bool
  ck_append :: bool
  has_ext :: bool
  mem_base :: addr
  mem_cells :: string
  mem_pos :: nat
  mem_len :: nat
  mem_open :: "(addr \<times> nat) option"
  user_read :: "('w \<Rightarrow> int \<Rightarrow> 'w \<times> (int + string)) option"
  user_write :: "('w \<Rightarrow> string \<Rightarrow> 'w \<times> (int + nat)) option"
  user_seek :: "('w \<Rightarrow> int \<Rightarrow> int \<Rightarrow> 'w \<times> (int + int)) option"
  user_close :: "('w \<Rightarrow> 'w \<times> (int + int)) option"

text \<open>\<open>has_ext\<close> tells whether \<^verbatim>\<open>_ext._base\<close> is not null.
  \<open>_r\<close> counts the unread bytes of the buffer, \<open>_ur\<close> the pushed-back ones.\<close>

abbreviation fp_ur :: "'w FILE \<Rightarrow> nat" where "fp_ur f \<equiv> length (fp_up f)"

abbreviation set_errno :: "int \<Rightarrow> 'w FILE \<Rightarrow> 'w FILE" where
  "set_errno e f \<equiv> f\<lparr>fp_errno := e\<rparr>"

definition set_stream_error :: "'w FILE \<Rightarrow> 'w FILE" where
  "set_stream_error f = f\<lparr>fl_err := True\<rparr>"

definition set_stream_eof :: "'w FILE \<Rightarrow> 'w FILE" where
  "set_stream_eof f = f\<lparr>fl_eof := True\<rparr>"

definition clear_stream_eof :: "'w FILE \<Rightarrow> 'w FILE" where
  "clear_stream_eof f = f\<lparr>fl_eof := False\<rparr>"

definition is_memory_stream :: "'w FILE \<Rightarrow> bool" where
  "is_memory_stream f \<longleftrightarrow> ck_kind f = KIND_MEMORY"

definition stream_buffering_mode :: "'w FILE \<Rightarrow> buffering" where
  "stream_buffering_mode f = (if fl_nbf f then IONBF else if fl_lbf f then IOLBF else IOFBF)"

definition stream_last_op :: "'w FILE \<Rightarrow> last_op" where
  "stream_last_op f = (if fl_wr f then STDIO_WRITE else if fl_rd f then STDIO_READ else STDIO_NONE)"

definition sync_bionic_buffer_fields :: "'w FILE \<Rightarrow> 'w FILE" where
  "sync_bionic_buffer_fields f =
     (if bf_base f = None then f\<lparr>fp_p := None, fp_r := 0, fp_w := 0\<rparr> else f)"

definition set_byte_orientation :: "'w FILE \<Rightarrow> 'w FILE" where
  "set_byte_orientation f = (if fp_orient f = 0 then f\<lparr>fp_orient := -1\<rparr> else f)"

definition pop_ungetc :: "'w FILE \<Rightarrow> 'w FILE \<times> int" where
  "pop_ungetc f = (case fp_up f of
     [] \<Rightarrow> (f, EOF)
   | c # cs \<Rightarrow> (clear_stream_eof (f\<lparr>fp_up := cs\<rparr>), uchar c))"

subsection \<open>The cookies: descriptors and \<open>funopen\<close> callbacks\<close>

text \<open>The stream's function pointers. A null pointer is \<^term>\<open>None\<close>; a call gives the bytes
  read, the number of bytes written or the new offset, and \<^term>\<open>None\<close> for a negative result, with
  \<open>errno\<close> set.\<close>

definition call_result :: "'w FILE \<Rightarrow> 'w \<times> (int + 'a) \<Rightarrow> 'w FILE \<times> 'a option" where
  "call_result f x = (case x of
     (w, Inl e) \<Rightarrow> (f\<lparr>fp_os := w, fp_errno := e\<rparr>, None)
   | (w, Inr v) \<Rightarrow> (f\<lparr>fp_os := w\<rparr>, Some v))"

definition fd_cookie_read :: "'w host \<Rightarrow> 'w FILE \<Rightarrow> int \<Rightarrow> 'w FILE \<times> string option" where
  "fd_cookie_read h f count = (if ck_fd f < 0 then (set_errno EBADF f, None)
     else call_result f (sys_read h (fp_os f) (ck_fd f) (nat (count mod 2 ^ 64))))"

definition fd_cookie_write :: "'w host \<Rightarrow> 'w FILE \<Rightarrow> string \<Rightarrow> 'w FILE \<times> nat option" where
  "fd_cookie_write h f buf = (if ck_fd f < 0 then (set_errno EBADF f, None)
     else call_result f (sys_write h (fp_os f) (ck_fd f) buf))"

definition fd_cookie_seek :: "'w host \<Rightarrow> 'w FILE \<Rightarrow> int \<Rightarrow> int \<Rightarrow> 'w FILE \<times> int option" where
  "fd_cookie_seek h f offset whence = (if ck_fd f < 0 then (set_errno EBADF f, None)
     else call_result f (sys_lseek h (fp_os f) (ck_fd f) offset whence))"

definition fd_cookie_close :: "'w host \<Rightarrow> 'w FILE \<Rightarrow> 'w FILE \<times> int option" where
  "fd_cookie_close h f = (if ck_fd f < 0 then (set_errno EBADF f, None)
     else call_result f (sys_close h (fp_os f) (ck_fd f)))"

definition funopen_cookie_read :: "'w FILE \<Rightarrow> int \<Rightarrow> 'w FILE \<times> string option" where
  "funopen_cookie_read f count = (case user_read f of
     None \<Rightarrow> (set_errno EBADF f, None) | Some g \<Rightarrow> call_result f (g (fp_os f) count))"

definition funopen_cookie_write :: "'w FILE \<Rightarrow> string \<Rightarrow> 'w FILE \<times> nat option" where
  "funopen_cookie_write f buf = (case user_write f of
     None \<Rightarrow> (set_errno EBADF f, None) | Some g \<Rightarrow> call_result f (g (fp_os f) buf))"

definition funopen_cookie_seek :: "'w FILE \<Rightarrow> int \<Rightarrow> int \<Rightarrow> 'w FILE \<times> int option" where
  "funopen_cookie_seek f offset whence = (case user_seek f of
     None \<Rightarrow> (set_errno ESPIPE f, None) | Some g \<Rightarrow> call_result f (g (fp_os f) offset whence))"

definition funopen_cookie_close :: "'w FILE \<Rightarrow> 'w FILE \<times> int option" where
  "funopen_cookie_close f = (case user_close f of
     None \<Rightarrow> (f, Some 0) | Some g \<Rightarrow> call_result f (g (fp_os f)))"

text \<open>\<open>funopen\<close> leaves the pointer of an absent callback null; the other streams have all four.\<close>

definition has_read :: "'w FILE \<Rightarrow> bool" where
  "has_read f \<longleftrightarrow> ck_kind f \<noteq> KIND_FUNOPEN \<or> user_read f \<noteq> None"

definition has_write :: "'w FILE \<Rightarrow> bool" where
  "has_write f \<longleftrightarrow> ck_kind f \<noteq> KIND_FUNOPEN \<or> user_write f \<noteq> None"

definition has_seek :: "'w FILE \<Rightarrow> bool" where
  "has_seek f \<longleftrightarrow> ck_kind f \<noteq> KIND_FUNOPEN \<or> user_seek f \<noteq> None"

definition call_read :: "'w host \<Rightarrow> 'w FILE \<Rightarrow> int \<Rightarrow> 'w FILE \<times> string option" where
  "call_read h f count = (if ck_kind f = KIND_FUNOPEN then funopen_cookie_read f count
     else fd_cookie_read h f count)"

definition call_write :: "'w host \<Rightarrow> 'w FILE \<Rightarrow> string \<Rightarrow> 'w FILE \<times> nat option" where
  "call_write h f buf = (if ck_kind f = KIND_FUNOPEN then funopen_cookie_write f buf
     else fd_cookie_write h f buf)"

definition call_seek :: "'w host \<Rightarrow> 'w FILE \<Rightarrow> int \<Rightarrow> int \<Rightarrow> 'w FILE \<times> int option" where
  "call_seek h f offset whence = (if ck_kind f = KIND_FUNOPEN then funopen_cookie_seek f offset whence
     else fd_cookie_seek h f offset whence)"

definition seek_failed :: "int option \<Rightarrow> bool" where
  "seek_failed off = (case off of None \<Rightarrow> True | Some off \<Rightarrow> off < 0)"

definition call_close :: "'w host \<Rightarrow> 'w FILE \<Rightarrow> 'w FILE \<times> int option" where
  "call_close h f = (if ck_kind f = KIND_FUNOPEN then funopen_cookie_close f
     else fd_cookie_close h f)"

subsection \<open>The buffer\<close>

definition reset_buffer_state :: "'w FILE \<Rightarrow> 'w FILE" where
  "reset_buffer_state f = sync_bionic_buffer_fields
     (f\<lparr>fp_p := (if bf_base f = None then None else Some 0),
        fp_r := 0,
        fp_w := (if bf_base f \<noteq> None \<and> stream_last_op f = STDIO_WRITE then int_of_size (bf_size f) else 0),
        fp_up := []\<rparr>)"

definition sync_memory_stream :: "'w FILE \<Rightarrow> 'w FILE" where
  "sync_memory_stream f =
     (if ck_kind f = KIND_MEMORY \<and> mem_open f \<noteq> None
      then f\<lparr>mem_open := Some (mem_base f, mem_len f)\<rparr> else f)"

text \<open>The bytes waiting in the buffer to be written.\<close>

definition pending_bytes :: "'w FILE \<Rightarrow> string" where
  "pending_bytes f = (case (fp_p f, bf_base f) of (Some p, Some b) \<Rightarrow> take p b | _ \<Rightarrow> [])"

function flush_loop :: "'w host \<Rightarrow> 'w FILE \<Rightarrow> string \<Rightarrow> nat \<Rightarrow> 'w FILE \<times> int" where
  "flush_loop h f buf done =
     (if done < length buf then
        let chunk = (if length buf - done > 0x7fffffff then 0x7fffffff else length buf - done);
            (f, result) = call_write h f (take chunk (drop done buf))
        in case result of
             Some (Suc n) \<Rightarrow> flush_loop h f buf (done + Suc n)
           | _ \<Rightarrow> (set_stream_error f, -1)
      else (f, 0))"
  by pat_completeness auto
termination by (relation "measure (\<lambda>(h, f, buf, done). length buf - done)") auto

declare flush_loop.simps [simp del]

definition flush_write_buffer :: "'w host \<Rightarrow> 'w FILE \<Rightarrow> 'w FILE \<times> int" where
  "flush_write_buffer h f =
     (if is_memory_stream f then (reset_buffer_state (sync_memory_stream f), 0)
      else if pending_bytes f = [] then (reset_buffer_state f, 0)
      else if \<not> has_write f then (set_stream_error (set_errno EBADF f), -1)
      else case flush_loop h f (pending_bytes f) 0 of
             (f, result) \<Rightarrow> if result \<noteq> 0 then (f, -1) else (reset_buffer_state f, 0))"

definition discard_read_buffer :: "'w host \<Rightarrow> 'w FILE \<Rightarrow> 'w FILE \<times> int" where
  "discard_read_buffer h f =
     (if is_memory_stream f then (f\<lparr>fp_up := [], fp_r := 0\<rparr>, 0)
      else if stream_last_op f \<noteq> STDIO_READ then (reset_buffer_state f, 0)
      else
        let unread = fp_r f + int (fp_ur f) in
        if \<not> has_seek f then (set_errno ESPIPE f, -1)
        else if unread \<noteq> 0 then
          case call_seek h f (- unread) SEEK_CUR of
            (f, off) \<Rightarrow> if seek_failed off \<and> fp_errno f \<noteq> ESPIPE then (set_stream_error f, -1)
                        else (reset_buffer_state f, 0)
        else (reset_buffer_state f, 0))"

definition ensure_buffer :: "'w host \<Rightarrow> 'w FILE \<Rightarrow> 'w FILE \<times> int" where
  "ensure_buffer h f =
     (if stream_buffering_mode f = IONBF then (f, 0)
      else if bf_base f \<noteq> None \<and> bf_size f \<noteq> 0 then (sync_bionic_buffer_fields f, 0)
      else case sys_malloc h (fp_os f) BUFSIZ of
             (w, None) \<Rightarrow> (set_stream_error (f\<lparr>fp_os := w, bf_base := None\<rparr>), -1)
           | (w, Some (_, b)) \<Rightarrow> (sync_bionic_buffer_fields
               (f\<lparr>fp_os := w, bf_base := Some b, bf_size := BUFSIZ, fp_p := Some 0, fl_mbf := True\<rparr>), 0))"

definition prepare_read :: "'w host \<Rightarrow> 'w FILE \<Rightarrow> 'w FILE \<times> int" where
  "prepare_read h f =
     (if \<not> ck_readable f \<or> \<not> has_read f then (set_stream_error (set_errno EBADF f), -1)
      else
        let (f, rc) = (if stream_last_op f = STDIO_WRITE then flush_write_buffer h f else (f, 0)) in
        if rc \<noteq> 0 then (f, -1)
        else
          let f = (if stream_last_op f \<noteq> STDIO_READ then reset_buffer_state f else f) in
          (sync_bionic_buffer_fields (f\<lparr>fl_wr := False, fl_rd := True\<rparr>), 0))"

definition prepare_write :: "'w host \<Rightarrow> 'w FILE \<Rightarrow> 'w FILE \<times> int" where
  "prepare_write h f =
     (if \<not> ck_writable f \<or> \<not> has_write f then (set_stream_error (set_errno EBADF f), -1)
      else
        let (f, rc) = (if stream_last_op f = STDIO_READ then discard_read_buffer h f else (f, 0)) in
        if rc \<noteq> 0 then (f, -1)
        else (sync_bionic_buffer_fields (clear_stream_eof (f\<lparr>fl_rd := False, fl_wr := True\<rparr>)), 0))"

subsection \<open>Bytes in and out\<close>

text \<open>The memory streams: the block, the position and the length live in the cookie.\<close>

function grow_capacity :: "nat \<Rightarrow> nat \<Rightarrow> nat option" where
  "grow_capacity capacity needed =
     (if capacity < needed then
        let doubled = (capacity * 2) mod 2 ^ 64 in
        if doubled \<le> capacity then None else grow_capacity doubled needed
      else Some capacity)"
  by pat_completeness auto
termination by (relation "measure (\<lambda>(capacity, needed). needed - capacity)") auto

declare grow_capacity.simps [simp del]

definition ensure_memory_capacity :: "'w host \<Rightarrow> 'w FILE \<Rightarrow> nat \<Rightarrow> 'w FILE \<times> int" where
  "ensure_memory_capacity h f needed =
     (let mem_size = length (mem_cells f) in
      if needed \<le> mem_size then (f, 0)
      else if mem_open f = None then (set_stream_error (set_errno ENOSPC f), -1)
      else case grow_capacity (if mem_size = 0 then 64 else mem_size) needed of
        None \<Rightarrow> (set_stream_error (set_errno ENOMEM f), -1)
      | Some capacity \<Rightarrow>
          (case sys_realloc h (fp_os f) (mem_base f) capacity of
             (w, None) \<Rightarrow> (set_stream_error (f\<lparr>fp_os := w\<rparr>), -1)
           | (w, Some (base, fresh)) \<Rightarrow> (sync_memory_stream
               (f\<lparr>fp_os := w, mem_base := base, mem_cells := mem_cells f @ drop mem_size fresh\<rparr>), 0)))"

text \<open>The capacity that a byte needs, and storing it with the terminator behind the text.\<close>

definition memory_needed :: "'w FILE \<Rightarrow> char \<Rightarrow> nat" where
  "memory_needed f byte = mem_pos f + 1 + (if mem_open f \<noteq> None \<or> byte \<noteq> NUL then 1 else 0)"

definition memory_store :: "'w FILE \<Rightarrow> char \<Rightarrow> 'w FILE" where
  "memory_store f byte =
     (let f = f\<lparr>mem_cells := (mem_cells f)[mem_pos f := byte], mem_pos := mem_pos f + 1\<rparr>;
          f = (if mem_pos f > mem_len f then f\<lparr>mem_len := mem_pos f\<rparr> else f);
          size = length (mem_cells f);
          f = (if mem_len f < size then f\<lparr>mem_cells := (mem_cells f)[mem_len f := NUL]\<rparr>
               else if size \<noteq> 0 then f\<lparr>mem_cells := (mem_cells f)[size - 1 := NUL]\<rparr>
               else f)
      in sync_memory_stream f)"

definition memory_putc :: "'w host \<Rightarrow> 'w FILE \<Rightarrow> char \<Rightarrow> 'w FILE \<times> int" where
  "memory_putc h f byte =
     (if \<not> ck_writable f then (set_stream_error (set_errno EBADF f), EOF)
      else case prepare_write h f of (f, rc) \<Rightarrow>
        if rc \<noteq> 0 then (f, EOF)
        else
          let f = set_byte_orientation f;
              f = (if ck_append f then f\<lparr>mem_pos := mem_len f\<rparr> else f)
          in case ensure_memory_capacity h f (memory_needed f byte) of (f, rc) \<Rightarrow>
            if rc \<noteq> 0 then (f, EOF) else (memory_store f byte, uchar byte))"

definition memory_getc :: "'w host \<Rightarrow> 'w FILE \<Rightarrow> 'w FILE \<times> int" where
  "memory_getc h f =
     (if \<not> ck_readable f then (set_stream_error (set_errno EBADF f), EOF)
      else case prepare_read h f of (f, rc) \<Rightarrow>
        if rc \<noteq> 0 then (f, EOF)
        else
          let f = set_byte_orientation f in
          if fp_ur f \<noteq> 0 then pop_ungetc f
          else if mem_pos f \<ge> mem_len f then (set_stream_eof f, EOF)
          else ((clear_stream_eof f)\<lparr>mem_pos := mem_pos f + 1\<rparr>, uchar (mem_cells f ! mem_pos f)))"

text \<open>Refilling and flushing. An unbuffered stream uses the one byte \<^verbatim>\<open>_nbuf\<close>; the
  bytes read replace the front of the buffer.\<close>

definition srefill :: "'w host \<Rightarrow> 'w FILE \<Rightarrow> 'w FILE \<times> int" where
  "srefill h f =
     (if is_memory_stream f then
        (if \<not> ck_readable f then (set_stream_error (set_errno EBADF f), EOF)
         else if mem_pos f \<ge> mem_len f then (set_stream_eof f, EOF)
         else (f, 0))
      else case prepare_read h f of (f, rc) \<Rightarrow>
        if rc \<noteq> 0 then (f, EOF)
        else
          let f = set_byte_orientation f;
              (f, rc) = (if stream_buffering_mode f = IONBF
                         then (f\<lparr>bf_base := Some [NUL], bf_size := 1\<rparr>, 0) else ensure_buffer h f)
          in if rc \<noteq> 0 then (f, EOF)
             else case call_read h f (int_of_size (bf_size f)) of
                 (f, None) \<Rightarrow> ((set_stream_error f)\<lparr>fp_r := 0, fp_p := Some 0\<rparr>, EOF)
               | (f, Some []) \<Rightarrow> ((set_stream_eof f)\<lparr>fp_r := 0, fp_p := Some 0\<rparr>, EOF)
               | (f, Some (c # cs)) \<Rightarrow>
                   (sync_bionic_buffer_fields (clear_stream_eof
                      (f\<lparr>bf_base := map_option (\<lambda>b. (c # cs) @ drop (length (c # cs)) b) (bf_base f),
                         fp_p := Some 0, fp_r := int (length (c # cs))\<rparr>)), 0))"

definition take_byte :: "'w FILE \<Rightarrow> 'w FILE \<times> int" where
  "take_byte f = (case (fp_p f, bf_base f) of
     (Some p, Some b) \<Rightarrow>
       (sync_bionic_buffer_fields (f\<lparr>fp_p := Some (p + 1), fp_r := fp_r f - 1\<rparr>), uchar (b ! p))
   | _ \<Rightarrow> (f, EOF))"

definition srget :: "'w host \<Rightarrow> 'w FILE \<Rightarrow> 'w FILE \<times> int" where
  "srget h f =
     (if is_memory_stream f then memory_getc h f
      else case srefill h f of (f, rc) \<Rightarrow>
        if rc \<noteq> 0 then (f, EOF)
        else if fp_r f \<le> 0 \<or> fp_p f = None then (set_stream_eof f, EOF)
        else take_byte f)"

text \<open>The room left behind \<^verbatim>\<open>_p\<close>.\<close>

definition room_left :: "'w FILE \<Rightarrow> int" where
  "room_left f = (case fp_p f of None \<Rightarrow> 0
     | Some p \<Rightarrow> if bf_size f \<ge> p then int_of_size (bf_size f - p) else 0)"

definition swsetup :: "'w host \<Rightarrow> 'w FILE \<Rightarrow> 'w FILE \<times> int" where
  "swsetup h f = (case prepare_write h f of (f, rc) \<Rightarrow>
     if rc \<noteq> 0 then (f, EOF)
     else
       let f = set_byte_orientation f in
       if stream_buffering_mode f = IONBF
       then (f\<lparr>bf_base := Some [NUL], bf_size := 1, fp_p := Some 0, fp_w := 0\<rparr>, 0)
       else case ensure_buffer h f of (f, rc) \<Rightarrow>
         if rc \<noteq> 0 then (f, EOF)
         else
           let f = (if fp_p f = None then f\<lparr>fp_p := Some 0\<rparr> else f) in
           (sync_bionic_buffer_fields (f\<lparr>fp_w := room_left f\<rparr>), 0))"

definition sflush :: "'w host \<Rightarrow> 'w FILE \<Rightarrow> 'w FILE \<times> int" where
  "sflush h f =
     (if is_memory_stream f then (reset_buffer_state (sync_memory_stream f), 0)
      else case stream_last_op f of
        STDIO_WRITE \<Rightarrow> (case flush_write_buffer h f of (f, rc) \<Rightarrow> (f, if rc = 0 then 0 else EOF))
      | STDIO_READ \<Rightarrow> (case discard_read_buffer h f of (f, rc) \<Rightarrow> (f, if rc = 0 then 0 else EOF))
      | STDIO_NONE \<Rightarrow> (f, 0))"

text \<open>\<open>*_p++ = byte\<close>.\<close>

definition put_byte :: "'w FILE \<Rightarrow> char \<Rightarrow> 'w FILE" where
  "put_byte f byte = (case fp_p f of None \<Rightarrow> f
     | Some p \<Rightarrow> f\<lparr>bf_base := map_option (\<lambda>b. b[p := byte]) (bf_base f), fp_p := Some (p + 1)\<rparr>)"

definition buffer_full :: "'w FILE \<Rightarrow> bool" where
  "buffer_full f \<longleftrightarrow> fp_p f = Some (bf_size f)"

definition swbuf :: "'w host \<Rightarrow> 'w FILE \<Rightarrow> char \<Rightarrow> 'w FILE \<times> int" where
  "swbuf h f byte =
     (if is_memory_stream f then memory_putc h f byte
      else case swsetup h f of (f, rc) \<Rightarrow>
        if rc \<noteq> 0 then (f, EOF)
        else if stream_buffering_mode f = IONBF then
          (case call_write h f [byte] of (f, result) \<Rightarrow>
             if result \<noteq> Some 1 then (set_stream_error f, EOF) else (f, uchar byte))
        else if fp_p f = None \<or> bf_base f = None \<or> bf_size f = 0
        then (set_stream_error (set_errno EBADF f), EOF)
        else
          let (f, rc) = (if buffer_full f then flush_write_buffer h f else (f, 0)) in
          if rc \<noteq> 0 then (f, EOF)
          else
            let f = put_byte f byte;
                f = sync_bionic_buffer_fields (f\<lparr>fp_w := room_left f\<rparr>);
                (f, rc) = (if buffer_full f \<or> stream_buffering_mode f = IOLBF \<and> byte = CHR 0x0A
                           then flush_write_buffer h f else (f, 0))
            in if rc \<noteq> 0 then (f, EOF) else (f, uchar byte))"

definition fputc_unlocked_impl :: "'w host \<Rightarrow> 'w FILE \<Rightarrow> char \<Rightarrow> 'w FILE \<times> int" where
  "fputc_unlocked_impl h f byte =
     (if is_memory_stream f then memory_putc h f byte
      else if stream_last_op f = STDIO_WRITE \<and> stream_buffering_mode f \<noteq> IONBF \<and>
              fp_p f \<noteq> None \<and> bf_base f \<noteq> None \<and> fp_w f > 0
      then
        let f = put_byte (f\<lparr>fp_w := fp_w f - 1\<rparr>) byte in
        if stream_buffering_mode f = IOLBF \<and> byte = CHR 0x0A
        then case sflush h f of (f, rc) \<Rightarrow> (f, if rc = 0 then uchar byte else EOF)
        else (f, uchar byte)
      else swbuf h f byte)"

definition fgetc_unlocked_impl :: "'w host \<Rightarrow> 'w FILE \<Rightarrow> 'w FILE \<times> int" where
  "fgetc_unlocked_impl h f =
     (if fp_ur f \<noteq> 0 then pop_ungetc f
      else if is_memory_stream f then memory_getc h f
      else if stream_last_op f = STDIO_READ \<and> fp_r f > 0 \<and> fp_p f \<noteq> None
      then take_byte (clear_stream_eof f)
      else srget h f)"

text \<open>The argument is the \<open>int\<close> that \<open>ungetc\<close> is given: \<open>EOF\<close> pushes nothing back. A full
  pushback area is moved to a larger one, which a stream without an extension has no place for.\<close>

definition ungetc :: "'w host \<Rightarrow> int \<Rightarrow> 'w FILE \<Rightarrow> 'w FILE \<times> int" where
  "ungetc h c f =
     (if c = EOF then (f, EOF)
      else if \<not> ck_readable f then (set_stream_error (set_errno EBADF f), EOF)
      else
        let (f, rc) =
          (if fp_ur f = ub_size f then
             let grown = (if ub_size f < 8 then 8 else ub_size f * 2) in
             case sys_malloc h (fp_os f) grown of
               (w, None) \<Rightarrow> (f\<lparr>fp_os := w\<rparr>, -1 :: int)
             | (w, Some _) \<Rightarrow> if has_ext f then (f\<lparr>fp_os := w, ub_size := grown\<rparr>, 0) else (f\<lparr>fp_os := w\<rparr>, -1)
           else (f, 0))
        in if rc \<noteq> 0 then (f, EOF)
           else (clear_stream_eof (f\<lparr>fp_up := char_of c # fp_up f\<rparr>), uchar (char_of c)))"

definition fflush :: "'w host \<Rightarrow> 'w FILE \<Rightarrow> 'w FILE \<times> int" where
  "fflush h f = sflush h f"

definition feof :: "'w FILE \<Rightarrow> int" where "feof f = (if fl_eof f then 1 else 0)"
definition ferror :: "'w FILE \<Rightarrow> int" where "ferror f = (if fl_err f then 1 else 0)"
definition clearerr :: "'w FILE \<Rightarrow> 'w FILE" where
  "clearerr f = f\<lparr>fl_eof := False, fl_err := False\<rparr>"

subsection \<open>Positions\<close>

definition memory_seek :: "'w host \<Rightarrow> 'w FILE \<Rightarrow> int \<Rightarrow> int \<Rightarrow> 'w FILE \<times> int" where
  "memory_seek h f offset whence =
     (if whence \<noteq> SEEK_SET \<and> whence \<noteq> SEEK_CUR \<and> whence \<noteq> SEEK_END
      then (set_stream_error (set_errno EINVAL f), -1)
      else
        let base = (if whence = SEEK_SET then 0
                    else if whence = SEEK_CUR then int (mem_pos f) - (if fp_ur f \<noteq> 0 then 1 else 0)
                    else int (mem_len f));
            target = base + offset
        in if target < 0 then (set_stream_error (set_errno EINVAL f), -1)
           else
             let target = nat target;
                 (f, rc) = (if target > length (mem_cells f) then
                              if mem_open f = None then (set_stream_error (set_errno EINVAL f), -1)
                              else ensure_memory_capacity h f (target + 1)
                            else (f, 0))
             in if rc \<noteq> 0 then (f, -1)
                else
                  let f = (if mem_open f \<noteq> None \<and> target > mem_len f then
                      let cells = take (mem_len f) (mem_cells f) @ replicate (target - mem_len f) NUL
                                    @ drop target (mem_cells f);
                          cells = (if target < length cells then cells[target := NUL] else cells)
                      in sync_memory_stream (f\<lparr>mem_cells := cells, mem_len := target\<rparr>)
                    else f);
                    f = reset_buffer_state (clear_stream_eof (f\<lparr>mem_pos := target\<rparr>))
                  in (f\<lparr>fl_rd := False, fl_wr := False\<rparr>, 0))"

definition stream_seek :: "'w host \<Rightarrow> 'w FILE \<Rightarrow> int \<Rightarrow> int \<Rightarrow> 'w FILE \<times> int" where
  "stream_seek h f offset whence =
     (if ck_kind f = KIND_MEMORY then memory_seek h f offset whence
      else if \<not> has_seek f then (set_stream_error (set_errno ESPIPE f), -1)
      else
        let (f, rc) = (if stream_last_op f = STDIO_WRITE then fflush h f else (f, 0)) in
        if rc \<noteq> 0 then (f, -1)
        else
          let adjusted = (if stream_last_op f = STDIO_READ \<and> whence = SEEK_CUR
                          then offset - fp_r f - int (fp_ur f) else offset)
          in case call_seek h f adjusted whence of (f, off) \<Rightarrow>
               if seek_failed off then (set_stream_error f, -1)
               else
                 let f = reset_buffer_state (clear_stream_eof f) in
                 (f\<lparr>fl_rd := False, fl_wr := False\<rparr>, 0))"

definition stream_tell :: "'w host \<Rightarrow> 'w FILE \<Rightarrow> 'w FILE \<times> int" where
  "stream_tell h f =
     (if ck_kind f = KIND_MEMORY then (f, int (mem_pos f) - int (fp_ur f))
      else if \<not> has_seek f then (set_errno ESPIPE f, -1)
      else case call_seek h f 0 SEEK_CUR of (f, off) \<Rightarrow>
        if seek_failed off then (f, -1)
        else if stream_last_op f = STDIO_WRITE \<and> fp_p f \<noteq> None \<and> bf_base f \<noteq> None
        then (f, the off + int (the (fp_p f)))
        else if stream_last_op f = STDIO_READ then (f, the off - fp_r f - int (fp_ur f))
        else (f, the off))"

definition fseek :: "'w host \<Rightarrow> 'w FILE \<Rightarrow> int \<Rightarrow> int \<Rightarrow> 'w FILE \<times> int" where
  "fseek h f offset whence = stream_seek h f offset whence"

definition ftell :: "'w host \<Rightarrow> 'w FILE \<Rightarrow> 'w FILE \<times> int" where
  "ftell h f = stream_tell h f"

definition rewind :: "'w host \<Rightarrow> 'w FILE \<Rightarrow> 'w FILE" where
  "rewind h f = (case stream_seek h f 0 SEEK_SET of (f, rc) \<Rightarrow> if rc = 0 then clearerr f else f)"

definition fsetpos :: "'w host \<Rightarrow> 'w FILE \<Rightarrow> int option \<Rightarrow> 'w FILE \<times> int" where
  "fsetpos h f pos = (case pos of None \<Rightarrow> (set_errno EINVAL f, -1)
     | Some off \<Rightarrow> stream_seek h f off SEEK_SET)"

text \<open>\<open>fgetpos\<close> with the variable it stores to, or a null pointer.\<close>

definition fgetpos :: "'w host \<Rightarrow> 'w FILE \<Rightarrow> int option \<Rightarrow> 'w FILE \<times> int option \<times> int" where
  "fgetpos h f pos = (case pos of None \<Rightarrow> (set_errno EINVAL f, None, -1)
     | Some old \<Rightarrow> (case stream_tell h f of (f, off) \<Rightarrow>
         if off < 0 then (f, Some old, -1) else (f, Some off, 0)))"

subsection \<open>Strings, blocks and lines\<close>

text \<open>The loops of the callers, over the byte operation that they call: write bytes until one
  fails, giving how many were written; read at most a number of bytes, up to the end of the file or
  a byte to stop behind.\<close>

primrec put_loop :: "('s \<Rightarrow> char \<Rightarrow> 's \<times> int) \<Rightarrow> 's \<Rightarrow> string \<Rightarrow> 's \<times> nat" where
  "put_loop putc f [] = (f, 0)"
| "put_loop putc f (c # cs) = (case putc f c of (f, rc) \<Rightarrow>
     if rc = EOF then (f, 0) else case put_loop putc f cs of (f, n) \<Rightarrow> (f, Suc n))"

primrec get_loop :: "('s \<Rightarrow> 's \<times> int) \<Rightarrow> (char \<Rightarrow> bool) \<Rightarrow> nat \<Rightarrow> 's \<Rightarrow> 's \<times> string" where
  "get_loop getc stop 0 f = (f, [])"
| "get_loop getc stop (Suc n) f = (case getc f of (f, ch) \<Rightarrow>
     if ch = EOF then (f, [])
     else let c = char_of ch in
       if stop c then (f, [c])
       else case get_loop getc stop n f of (f, cs) \<Rightarrow> (f, c # cs))"

definition fputs_unlocked_impl :: "'w host \<Rightarrow> string \<Rightarrow> 'w FILE \<Rightarrow> 'w FILE \<times> int" where
  "fputs_unlocked_impl h s f = (case put_loop (fputc_unlocked_impl h) f s of (f, n) \<Rightarrow>
     (f, if n < length s then EOF else 0))"

definition puts :: "'w host \<Rightarrow> string \<Rightarrow> 'w FILE \<Rightarrow> 'w FILE \<times> int" where
  "puts h s stdout = (case fputs_unlocked_impl h s stdout of (f, rc) \<Rightarrow>
     if rc = EOF then (f, EOF)
     else case fputc_unlocked_impl h f (CHR 0x0A) of (f, rc) \<Rightarrow> (f, if rc = EOF then EOF else 0))"

text \<open>\<open>fwrite\<close> of the block at \<open>ptr\<close>; \<open>fread\<close> gives the bytes it stores at \<open>ptr\<close> and the
  number of whole items.\<close>

definition fwrite_unlocked_impl :: "'w host \<Rightarrow> string \<Rightarrow> nat \<Rightarrow> nat \<Rightarrow> 'w FILE \<Rightarrow> 'w FILE \<times> nat" where
  "fwrite_unlocked_impl h ptr sz nmemb f =
     (if sz = 0 \<or> nmemb = 0 then (f, 0)
      else if nmemb > SIZE_MAX div sz then (set_errno EINVAL f, 0)
      else case put_loop (fputc_unlocked_impl h) f (take (sz * nmemb) ptr) of (f, n) \<Rightarrow>
        (f, n div sz))"

definition fread_unlocked_impl :: "'w host \<Rightarrow> nat \<Rightarrow> nat \<Rightarrow> 'w FILE \<Rightarrow> 'w FILE \<times> string \<times> nat" where
  "fread_unlocked_impl h sz nmemb f =
     (if sz = 0 \<or> nmemb = 0 then (f, [], 0)
      else if nmemb > SIZE_MAX div sz then (set_errno EINVAL f, [], 0)
      else case get_loop (fgetc_unlocked_impl h) (\<lambda>_. False) (sz * nmemb) f of (f, s) \<Rightarrow>
        (f, s, length s div sz))"

text \<open>\<open>fgets\<close> gives what it stores at \<open>s\<close>, the terminator included, or the null pointer.\<close>

definition fgets_unlocked_impl :: "'w host \<Rightarrow> int \<Rightarrow> 'w FILE \<Rightarrow> 'w FILE \<times> string option" where
  "fgets_unlocked_impl h sz f =
     (if sz \<le> 0 then (set_errno EINVAL f, None)
      else case get_loop (fgetc_unlocked_impl h) (\<lambda>c. c = CHR 0x0A) (nat (sz - 1)) f of (f, s) \<Rightarrow>
        (f, if s = [] then None else Some (s @ [NUL])))"

text \<open>\<open>getdelim\<close>: the caller's buffer of \<open>n\<close> bytes at \<open>lineptr\<close>, enlarged while the line grows.
  A stream that never ends keeps it reading, the value \<^term>\<open>None\<close>.\<close>

definition line_room :: "'w host \<Rightarrow> 'w FILE \<Rightarrow> addr \<Rightarrow> nat \<Rightarrow> nat \<Rightarrow> 'w FILE \<times> addr \<times> nat \<times> bool" where
  "line_room h f lineptr n pos =
     (if pos + 1 \<ge> n then
        let new_size = (n * 2) mod 2 ^ 64 in
        if new_size \<le> n then (set_errno ENOMEM f, lineptr, n, False)
        else case sys_realloc h (fp_os f) lineptr new_size of
          (w, None) \<Rightarrow> (f\<lparr>fp_os := w\<rparr>, lineptr, n, False)
        | (w, Some (new_line, _)) \<Rightarrow> (f\<lparr>fp_os := w\<rparr>, new_line, new_size, True)
      else (f, lineptr, n, True))"

partial_function (option) getdelim_loop ::
    "'w host \<Rightarrow> 'w FILE \<Rightarrow> addr \<Rightarrow> nat \<Rightarrow> int \<Rightarrow> string \<Rightarrow> ('w FILE \<times> addr \<times> nat \<times> string \<times> int) option" where
  "getdelim_loop h f lineptr n delimiter line =
     (case fgetc_unlocked_impl h f of (f, ch) \<Rightarrow>
        if ch = EOF then Some (f, lineptr, n, line, if line = [] then -1 else int (length line))
        else case line_room h f lineptr n (length line) of (f, lineptr, n, ok) \<Rightarrow>
          if \<not> ok then Some (f, lineptr, n, line, -1)
          else
            let line = line @ [char_of ch] in
            if ch = delimiter then Some (f, lineptr, n, line, int (length line))
            else getdelim_loop h f lineptr n delimiter line)"

text \<open>The argument \<open>vars\<close> has the values of the two variables of the caller, \<^term>\<open>None\<close> where one of the
  pointers to them is null.\<close>

definition getdelim :: "'w host \<Rightarrow> (addr \<times> nat) option \<Rightarrow> int \<Rightarrow> 'w FILE \<Rightarrow>
    ('w FILE \<times> addr \<times> nat \<times> string \<times> int) option" where
  "getdelim h vars delimiter f = (case vars of
     None \<Rightarrow> Some (set_errno EINVAL f, null, 0, [], -1)
   | Some (lineptr, n) \<Rightarrow>
      if lineptr = null \<or> n = 0 then
        (case sys_malloc h (fp_os f) 128 of
           (w, None) \<Rightarrow> Some (f\<lparr>fp_os := w\<rparr>, null, 0, [], -1)
         | (w, Some (p, _)) \<Rightarrow> getdelim_loop h (f\<lparr>fp_os := w\<rparr>) p 128 delimiter [])
      else getdelim_loop h f lineptr n delimiter [])"

definition getline :: "'w host \<Rightarrow> (addr \<times> nat) option \<Rightarrow> 'w FILE \<Rightarrow>
    ('w FILE \<times> addr \<times> nat \<times> string \<times> int) option" where
  "getline h vars f = getdelim h vars 10 f"

subsection \<open>Buffering control\<close>

definition setvbuf :: "'w host \<Rightarrow> 'w FILE \<Rightarrow> string option \<Rightarrow> int \<Rightarrow> nat \<Rightarrow> 'w FILE \<times> int" where
  "setvbuf h f buf mode sz =
     (if mode \<noteq> 0 \<and> mode \<noteq> 1 \<and> mode \<noteq> 2 then (set_errno EINVAL f, EOF)
      else case fflush h f of (f, rc) \<Rightarrow>
        if rc \<noteq> 0 then (f, EOF)
        else
          let f = f\<lparr>fl_mbf := False, fl_nbf := False, fl_lbf := False\<rparr>;
              f = (if mode = 2 then f\<lparr>fl_nbf := True, bf_base := None, bf_size := 0\<rparr>
                   else f\<lparr>fl_lbf := (mode = 1),
                          bf_base := (if sz = 0 then None else buf), bf_size := sz\<rparr>);
              f = reset_buffer_state f
          in (f\<lparr>fl_rd := False, fl_wr := False\<rparr>, 0))"

definition setbuf :: "'w host \<Rightarrow> 'w FILE \<Rightarrow> string option \<Rightarrow> 'w FILE" where
  "setbuf h f buf = fst (setvbuf h f buf (if buf \<noteq> None then 0 else 2) BUFSIZ)"

definition setbuffer :: "'w host \<Rightarrow> 'w FILE \<Rightarrow> string option \<Rightarrow> int \<Rightarrow> 'w FILE" where
  "setbuffer h f buf sz = fst (setvbuf h f buf (if buf \<noteq> None then 0 else 2) (nat sz))"

definition setlinebuf :: "'w host \<Rightarrow> 'w FILE \<Rightarrow> 'w FILE \<times> int" where
  "setlinebuf h f = setvbuf h f None 1 0"

definition fpurge :: "'w FILE \<Rightarrow> 'w FILE \<times> int" where
  "fpurge f =
     (let f = f\<lparr>ub_size := 3\<rparr> in
      if is_memory_stream f then (reset_buffer_state f, 0)
      else (f\<lparr>fp_r := 0, fp_w := 0, fp_p := map_option (\<lambda>_. 0) (bf_base f), fp_up := [],
              fl_rd := False, fl_wr := False\<rparr>, 0))"

definition fpending :: "'w FILE \<Rightarrow> nat" where
  "fpending f = (if fp_p f = None \<or> bf_base f = None \<or> stream_last_op f \<noteq> STDIO_WRITE then 0
     else the (fp_p f))"

definition freadahead :: "'w FILE \<Rightarrow> nat" where
  "freadahead f = (if fp_r f > 0 then nat (fp_r f) else 0) + fp_ur f"

subsection \<open>Opening and closing\<close>

fun parse_mode_tail :: "string \<Rightarrow> oflags \<Rightarrow> oflags" where
  "parse_mode_tail [] flags = flags"
| "parse_mode_tail (c # cs) flags =
     parse_mode_tail cs (if c = CHR ''+'' then flags\<lparr>o_access := O_RDWR\<rparr> else flags)"

definition parse_mode :: "string \<Rightarrow> oflags option" where
  "parse_mode mode = (case mode of [] \<Rightarrow> None
     | c # cs \<Rightarrow>
        if c = CHR ''r'' then
          Some (parse_mode_tail cs \<lparr>o_access = O_RDONLY, o_creat = False, o_trunc = False, o_append = False\<rparr>)
        else if c = CHR ''w'' then
          Some (parse_mode_tail cs \<lparr>o_access = O_WRONLY, o_creat = True, o_trunc = True, o_append = False\<rparr>)
        else if c = CHR ''a'' then
          Some (parse_mode_tail cs \<lparr>o_access = O_WRONLY, o_creat = True, o_trunc = False, o_append = True\<rparr>)
        else None)"

text \<open>A stream just initialised; the allocation of its extension may have failed.\<close>

definition new_stream :: "'w \<Rightarrow> int \<Rightarrow> int \<Rightarrow> bool \<Rightarrow> bool \<Rightarrow> bool \<Rightarrow> bool \<Rightarrow> bool \<Rightarrow> 'w FILE" where
  "new_stream w err fd owned readable writable app ext =
     \<lparr>fp_os = w, fp_errno = err, fp_p = None, fp_r = 0, fp_w = 0, fl_lbf = False, fl_nbf = False,
      fl_rd = False, fl_wr = False, fl_eof = False, fl_err = False, fl_mbf = False,
      bf_base = None, bf_size = 0, fp_up = [], ub_size = 3, fp_orient = 0,
      ck_kind = KIND_FD, ck_fd = fd, ck_owned = owned, ck_readable = readable, ck_writable = writable,
      ck_append = app, has_ext = ext, mem_base = null, mem_cells = [], mem_pos = 0, mem_len = 0, mem_open = None,
      user_read = None, user_write = None, user_seek = None, user_close = None\<rparr>"

text \<open>\<open>init_stream\<close> allocates the extension and the cookie; \<^term>\<open>None\<close> stands for a stream whose
  \<^verbatim>\<open>_cookie\<close> is null.\<close>

definition init_stream :: "'w host \<Rightarrow> 'w \<Rightarrow> int \<Rightarrow> int \<Rightarrow> bool \<Rightarrow> bool \<Rightarrow> bool \<Rightarrow> bool \<Rightarrow> 'w \<times> 'w FILE option" where
  "init_stream h w err fd owned readable writable app =
     (case sys_malloc h w (sizeof_ext h) of (w, ext) \<Rightarrow>
      case sys_malloc h w (sizeof_cookie h) of
        (w, None) \<Rightarrow> (w, None)
      | (w, Some _) \<Rightarrow> (w, Some (new_stream w err fd owned readable writable app (ext \<noteq> None))))"

definition bionic_flags_from_mode_flags :: "oflags \<Rightarrow> 'w FILE \<Rightarrow> 'w FILE" where
  "bionic_flags_from_mode_flags flags f =
     f\<lparr>fl_wr := (o_access flags = O_WRONLY), fl_rd := (o_access flags = O_RDONLY)\<rparr>"

definition open_stream :: "'w host \<Rightarrow> oflags \<Rightarrow> 'w FILE \<Rightarrow> 'w FILE" where
  "open_stream h flags f =
     (let f = bionic_flags_from_mode_flags flags f
      in if o_append flags then fst (call_seek h f 0 SEEK_END) else f)"

text \<open>The result is the stream, or the process after the failed call and the error number. \<open>malloc\<close>
  sets \<open>ENOMEM\<close> where it fails; a \<open>close\<close> that fails behind it replaces the number.\<close>

definition fopen :: "'w host \<Rightarrow> 'w \<Rightarrow> int \<Rightarrow> string \<Rightarrow> string \<Rightarrow> ('w \<times> int) + 'w FILE" where
  "fopen h w err path mode = (case parse_mode mode of None \<Rightarrow> Inl (w, EINVAL)
     | Some flags \<Rightarrow> (case sys_open h w path flags of
         (w, Inl e) \<Rightarrow> Inl (w, e)
       | (w, Inr fd) \<Rightarrow> (case sys_malloc h w (sizeof_FILE h) of
           (w, None) \<Rightarrow> (case sys_close h w fd of
               (w, Inl e) \<Rightarrow> Inl (w, e)
             | (w, Inr _) \<Rightarrow> Inl (w, ENOMEM))
         | (w, Some _) \<Rightarrow>
             (case init_stream h w err fd True (o_access flags \<noteq> O_WRONLY) (o_access flags \<noteq> O_RDONLY) (o_append flags) of
                (w, None) \<Rightarrow> Inl (fst (sys_close h w fd), ENOMEM)
              | (w, Some f) \<Rightarrow> Inr (open_stream h flags f)))))"

definition fdopen :: "'w host \<Rightarrow> 'w \<Rightarrow> int \<Rightarrow> int \<Rightarrow> string \<Rightarrow> ('w \<times> int) + 'w FILE" where
  "fdopen h w err fd mode = (case parse_mode mode of None \<Rightarrow> Inl (w, EINVAL)
     | Some flags \<Rightarrow>
        if fd < 0 then Inl (w, EBADF)
        else case sys_malloc h w (sizeof_FILE h) of
           (w, None) \<Rightarrow> Inl (w, ENOMEM)
         | (w, Some _) \<Rightarrow>
             (case init_stream h w err fd True (o_access flags \<noteq> O_WRONLY) (o_access flags \<noteq> O_RDONLY) (o_append flags) of
                (w, None) \<Rightarrow> Inl (w, ENOMEM)
              | (w, Some f) \<Rightarrow> Inr (open_stream h flags f)))"

definition parse_memory_mode :: "string \<Rightarrow> (bool \<times> bool \<times> bool \<times> bool) option" where
  "parse_memory_mode mode = (case mode of [] \<Rightarrow> None
     | c # cs \<Rightarrow>
        if c \<noteq> CHR ''r'' \<and> c \<noteq> CHR ''w'' \<and> c \<noteq> CHR ''a'' then None
        else
          let plus = list_ex (\<lambda>x. x = CHR ''+'') cs in
          Some (c = CHR ''r'' \<or> plus, c = CHR ''w'' \<or> c = CHR ''a'' \<or> plus, c = CHR ''a'', c = CHR ''w''))"

definition create_memory_stream :: "'w host \<Rightarrow>
    'w \<Rightarrow> int \<Rightarrow> addr \<Rightarrow> string \<Rightarrow> bool \<Rightarrow> bool \<Rightarrow> bool \<Rightarrow> nat \<Rightarrow> bool \<Rightarrow> ('w \<times> int) + 'w FILE" where
  "create_memory_stream h w err base cells readable writable app len open =
     (case sys_malloc h w (sizeof_FILE h) of
        (w, None) \<Rightarrow> Inl (w, ENOMEM)
      | (w, Some _) \<Rightarrow> (case init_stream h w err (-1) True readable writable app of
          (w, None) \<Rightarrow> Inl (w, ENOMEM)
        | (w, Some f) \<Rightarrow> Inr (sync_memory_stream (f
            \<lparr>ck_kind := KIND_MEMORY,
             fl_rd := (readable \<and> \<not> writable), fl_wr := (writable \<and> \<not> readable),
             mem_base := base, mem_cells := (if len < length cells then cells[len := NUL] else cells),
             mem_pos := (if app then len else 0), mem_len := len,
             mem_open := (if open then Some (null, 0) else None)\<rparr>))))"

text \<open>\<open>fmemopen\<close> on the caller's buffer, of \<^term>\<open>length cells\<close> bytes at \<open>buf\<close>, or on a fresh one of
  \<open>sz\<close> bytes.\<close>

definition fmemopen :: "'w host \<Rightarrow> 'w \<Rightarrow> int \<Rightarrow> addr \<Rightarrow> string \<Rightarrow> nat \<Rightarrow> string \<Rightarrow> ('w \<times> int) + 'w FILE" where
  "fmemopen h w err buf cells sz mode = (case parse_memory_mode mode of None \<Rightarrow> Inl (w, EINVAL)
     | Some (readable, writable, app, trunc) \<Rightarrow>
        if buf \<noteq> null then
          let len = (if trunc then 0
                     else if hd mode = CHR ''r'' then sz
                     else length (takeWhile (\<lambda>c. c \<noteq> NUL) cells))
          in create_memory_stream h w err buf cells readable writable app len False
        else if sz = 0 then
          create_memory_stream h w err null [] readable writable app 0 False
        else case sys_malloc h w sz of
          (w, None) \<Rightarrow> Inl (w, ENOMEM)
        | (w, Some (base, fresh)) \<Rightarrow>
            create_memory_stream h w err base (fresh[0 := NUL]) readable writable app 0 False)"

text \<open>\<open>vars\<close> tells whether the pointers to the two variables of the caller are not null. What a failed
  call has stored in them is not modelled.\<close>

definition open_memstream :: "'w host \<Rightarrow> 'w \<Rightarrow> int \<Rightarrow> bool \<Rightarrow> ('w \<times> int) + 'w FILE" where
  "open_memstream h w err vars =
     (if \<not> vars then Inl (w, EINVAL)
      else case sys_malloc h w 1 of
       (w, None) \<Rightarrow> Inl (w, ENOMEM)
     | (w, Some (base, fresh)) \<Rightarrow>
         create_memory_stream h w err base (fresh[0 := NUL]) False True False 0 True)"

definition funopen :: "'w host \<Rightarrow> 'w \<Rightarrow> int \<Rightarrow> ('w \<Rightarrow> int \<Rightarrow> 'w \<times> (int + string)) option \<Rightarrow>
    ('w \<Rightarrow> string \<Rightarrow> 'w \<times> (int + nat)) option \<Rightarrow> ('w \<Rightarrow> int \<Rightarrow> int \<Rightarrow> 'w \<times> (int + int)) option \<Rightarrow>
    ('w \<Rightarrow> 'w \<times> (int + int)) option \<Rightarrow> ('w \<times> int) + 'w FILE" where
  "funopen h w err read_fn write_fn seek_fn close_fn =
     (if read_fn = None \<and> write_fn = None then Inl (w, EINVAL)
      else case sys_malloc h w (sizeof_FILE h) of
        (w, None) \<Rightarrow> Inl (w, ENOMEM)
      | (w, Some _) \<Rightarrow> (case init_stream h w err (-1) True (read_fn \<noteq> None) (write_fn \<noteq> None) False of
          (w, None) \<Rightarrow> Inl (w, ENOMEM)
        | (w, Some f) \<Rightarrow> Inr (f
            \<lparr>ck_kind := KIND_FUNOPEN, user_read := read_fn, user_write := write_fn, user_seek := seek_fn,
             user_close := close_fn,
             fl_rd := (read_fn \<noteq> None \<and> write_fn = None), fl_wr := (read_fn = None)\<rparr>)))"

text \<open>The stream is gone after \<open>fclose\<close>; what is left is the process. A memory stream has no
  descriptor to close, and the three standard streams are not owned.\<close>

definition fclose :: "'w host \<Rightarrow> 'w FILE \<Rightarrow> 'w FILE \<times> int" where
  "fclose h f = (case fflush h f of (f, rc) \<Rightarrow>
     let result = (if rc \<noteq> 0 then -1 else 0 :: int) in
     if ck_kind f = KIND_MEMORY then (f, if result = 0 then 0 else EOF)
     else if ck_owned f then
       (case call_close h f of (f, closed) \<Rightarrow>
          let result = (if closed \<noteq> Some 0 then -1 else result) in (f, if result \<noteq> 0 then EOF else 0))
     else (f, 0))"

text \<open>\<open>fflush(NULL)\<close>: the standard output and error streams, then every open stream, one after the
  other on the same process. The result is \<open>EOF\<close> if one of them failed.\<close>

primrec flush_each :: "'w host \<Rightarrow> 'w \<Rightarrow> int \<Rightarrow> 'w FILE list \<Rightarrow> 'w \<times> int \<times> 'w FILE list \<times> int" where
  "flush_each h w err [] = (w, err, [], 0)"
| "flush_each h w err (f # fs) = (case sflush h (f\<lparr>fp_os := w, fp_errno := err\<rparr>) of (f, rc) \<Rightarrow>
     case flush_each h (fp_os f) (fp_errno f) fs of (w, err, fs, rest) \<Rightarrow>
       (w, err, f # fs, if rc \<noteq> 0 then EOF else rest))"

definition fflush_all :: "'w host \<Rightarrow> 'w \<Rightarrow> int \<Rightarrow> 'w FILE \<Rightarrow> 'w FILE \<Rightarrow> 'w FILE list \<Rightarrow>
    'w \<times> int \<times> 'w FILE list \<times> int" where
  "fflush_all h w err stdout stderr open_streams = flush_each h w err (stdout # stderr # open_streams)"

end
