(* ===== verification/CRT_Stream.thy ===== *)
theory CRT_Stream
  imports CRT_Stdio
begin

text \<open>
  What a buffered stream means. A stream over a regular file is a file position: the abstract
  state \<open>afile\<close> has the bytes of the file, the position in it, the bytes pushed back and the end
  of file indicator, and each stream operation is one obvious step on it, whatever the buffering
  mode, the size of the buffer and the number of bytes that each system call transfers. The relation
  \<open>sim\<close> links the two: bytes waiting in the buffer are in the abstract file already, bytes read
  ahead are not yet passed.

  The host is described by \<open>regular_file\<close>: \<open>read\<close> and \<open>write\<close> transfer at least one byte where
  they can and at most what was asked for, \<open>lseek\<close> sets the offset, and memory does not run out. A
  descriptor that was opened with \<^verbatim>\<open>O_APPEND\<close> writes at the end of the file, wherever its offset is;
  a stream on it stands for the file as long as it writes only at the end.
\<close>

subsection \<open>Writing at a position\<close>

text \<open>Writing behind the end fills the gap with zero bytes; writing nothing changes nothing.\<close>

definition put_at :: "string \<Rightarrow> nat \<Rightarrow> string \<Rightarrow> string" where
  "put_at d u s = (if s = [] then d
     else take u d @ replicate (u - length d) NUL @ s @ drop (u + length s) d)"

lemma put_at_Nil [simp]: "put_at d u [] = d"
  by (simp add: put_at_def)

lemma length_overwrite: "length (put_at d u s) = (if s = [] then length d else max (length d) (u + length s))"
  by (auto simp: put_at_def)

lemma nth_overwrite:
  assumes "i < length (put_at d u s)"
  shows "put_at d u s ! i =
    (if u \<le> i \<and> i < u + length s then s ! (i - u) else if i < length d then d ! i else NUL)"
proof (cases "s = []")
  case False
  then have len: "i < max (length d) (u + length s)" using assms by (simp add: length_overwrite)
  consider "i < u" "i < length d" | "i < u" "length d \<le> i" | "u \<le> i" "i < u + length s" | "u + length s \<le> i"
    by linarith
  then show ?thesis
  proof cases
    case 1
    then show ?thesis using False by (simp add: put_at_def nth_append)
  next
    case 2
    then have "i - length d < u - length d" by linarith
    with 2 show ?thesis using False by (simp add: put_at_def nth_append min_def)
  next
    case 3
    then have *: "\<not> i - length d < u - length d" "i - u < length s" by linarith+
    with 3 have "put_at d u s ! i = (s @ drop (u + length s) d) ! (i - u)"
      using False by (simp add: put_at_def nth_append min_def)
    with 3 * show ?thesis by (simp add: nth_append)
  next
    case 4
    then have i: "i < length d" using len by auto
    have *: "\<not> i - u < length s" using 4 by linarith
    then have "put_at d u s ! i = drop (u + length s) d ! (i - (u + length s))"
      using 4 i False by (simp add: put_at_def nth_append min_def)
    with 4 i * show ?thesis by simp
  qed
qed (use assms in auto)

lemma put_at_append: "put_at (put_at d u s) (u + length s) t = put_at d u (s @ t)"
proof (cases "s = [] \<or> t = []")
  case False
  then show ?thesis
    by (intro nth_equalityI) (auto simp: length_overwrite nth_overwrite nth_append)
qed auto

lemma put_at_at_end: "put_at d (length d) s = d @ s"
  by (simp add: put_at_def)

subsection \<open>The host's regular file\<close>

definition seek_target :: "string \<Rightarrow> nat \<Rightarrow> int \<Rightarrow> int \<Rightarrow> int" where
  "seek_target d u off whence =
     (if whence = SEEK_SET then off else if whence = SEEK_CUR then int u + off else int (length d) + off)"

definition whence_ok :: "int \<Rightarrow> bool" where
  "whence_ok whence \<longleftrightarrow> whence = SEEK_SET \<or> whence = SEEK_CUR \<or> whence = SEEK_END"

lemma seek_constants [simp]: "SEEK_SET \<noteq> SEEK_CUR" "SEEK_SET \<noteq> SEEK_END" "SEEK_CUR \<noteq> SEEK_END"
  "SEEK_CUR \<noteq> SEEK_SET" "SEEK_END \<noteq> SEEK_SET" "SEEK_END \<noteq> SEEK_CUR"
  "whence_ok SEEK_SET" "whence_ok SEEK_CUR" "whence_ok SEEK_END"
  by (simp_all add: SEEK_SET_def SEEK_CUR_def SEEK_END_def whence_ok_def)

text \<open>A descriptor and whether it was opened with \<^verbatim>\<open>O_APPEND\<close>.\<close>

type_synonym descriptor = "int \<times> bool"

definition reads_ok :: "'w host \<Rightarrow> descriptor \<Rightarrow> ('w \<Rightarrow> string \<times> nat) \<Rightarrow> bool" where
  "reads_ok h fd view \<longleftrightarrow> (\<forall>w n. case view w of (d, u) \<Rightarrow>
     \<exists>w' k. k \<le> n \<and> (k = 0 \<longrightarrow> n = 0 \<or> length d \<le> u) \<and>
       sys_read h w (fst fd) n = (w', Inr (take k (drop u d))) \<and> view w' = (d, u + length (take k (drop u d))))"

definition writes_ok :: "'w host \<Rightarrow> descriptor \<Rightarrow> ('w \<Rightarrow> string \<times> nat) \<Rightarrow> bool" where
  "writes_ok h fd view \<longleftrightarrow> (\<forall>w s. s \<noteq> [] \<longrightarrow> (case view w of (d, u) \<Rightarrow>
     let at = (if snd fd then length d else u) in
     \<exists>w' k. 0 < k \<and> k \<le> length s \<and>
       sys_write h w (fst fd) s = (w', Inr k) \<and> view w' = (put_at d at (take k s), at + k)))"

definition seeks_ok :: "'w host \<Rightarrow> descriptor \<Rightarrow> ('w \<Rightarrow> string \<times> nat) \<Rightarrow> bool" where
  "seeks_ok h fd view \<longleftrightarrow> (\<forall>w off whence. whence_ok whence \<longrightarrow> (case view w of (d, u) \<Rightarrow>
     let target = seek_target d u off whence in
     if target < 0 then (\<exists>w' e. sys_lseek h w (fst fd) off whence = (w', Inl e) \<and> e \<noteq> ESPIPE \<and> view w' = (d, u))
     else (\<exists>w'. sys_lseek h w (fst fd) off whence = (w', Inr target) \<and> view w' = (d, nat target))))"

definition memory_ok :: "'w host \<Rightarrow> ('w \<Rightarrow> 'v) \<Rightarrow> bool" where
  "memory_ok h view \<longleftrightarrow>
     (\<forall>w n. \<exists>w' a b. length b = n \<and> a \<noteq> null \<and> sys_malloc h w n = (w', Some (a, b)) \<and> view w' = view w) \<and>
     (\<forall>w p n. \<exists>w' a b. length b = n \<and> sys_realloc h w p n = (w', Some (a, b)) \<and> view w' = view w)"

definition regular_file :: "'w host \<Rightarrow> descriptor \<Rightarrow> ('w \<Rightarrow> string \<times> nat) \<Rightarrow> bool" where
  "regular_file h fd view \<longleftrightarrow>
     0 \<le> fst fd \<and> reads_ok h fd view \<and> writes_ok h fd view \<and> seeks_ok h fd view \<and> memory_ok h view"

lemma regular_fd: "regular_file h fd view \<Longrightarrow> 0 \<le> fst fd"
  by (simp add: regular_file_def)

lemma regular_read:
  assumes "regular_file h fd view" "view w = (d, u)"
  obtains w' k where "k \<le> n" "k = 0 \<longrightarrow> n = 0 \<or> length d \<le> u"
    "sys_read h w (fst fd) n = (w', Inr (take k (drop u d)))" "view w' = (d, u + length (take k (drop u d)))"
proof -
  have "reads_ok h fd view" using assms(1) by (simp add: regular_file_def)
  from this [unfolded reads_ok_def, rule_format, of n w] assms(2) show ?thesis using that by auto
qed

lemma regular_write:
  assumes "regular_file h fd view" "view w = (d, u)" "s \<noteq> []" "snd fd \<longrightarrow> u = length d"
  obtains w' k where "0 < k" "k \<le> length s" "sys_write h w (fst fd) s = (w', Inr k)"
    "view w' = (put_at d u (take k s), u + k)"
proof -
  have "writes_ok h fd view" using assms(1) by (simp add: regular_file_def)
  from this [unfolded writes_ok_def, rule_format, of s w] assms(2-4) show ?thesis
    using that by (cases "snd fd") (auto simp: Let_def)
qed

lemma regular_seek:
  assumes "regular_file h fd view" "view w = (d, u)" "whence_ok whence" "0 \<le> seek_target d u off whence"
  obtains w' where "sys_lseek h w (fst fd) off whence = (w', Inr (seek_target d u off whence))"
    "view w' = (d, nat (seek_target d u off whence))"
proof -
  have "seeks_ok h fd view" using assms(1) by (simp add: regular_file_def)
  from this [unfolded seeks_ok_def, rule_format, of whence off w] assms(2-4) show ?thesis
    using that by (auto simp: Let_def)
qed

lemma regular_seek_fails:
  assumes "regular_file h fd view" "view w = (d, u)" "whence_ok whence" "seek_target d u off whence < 0"
  obtains w' e where "sys_lseek h w (fst fd) off whence = (w', Inl e)" "e \<noteq> ESPIPE" "view w' = (d, u)"
proof -
  have "seeks_ok h fd view" using assms(1) by (simp add: regular_file_def)
  from this [unfolded seeks_ok_def, rule_format, of whence off w] assms(2-4) show ?thesis
    using that by (auto simp: Let_def)
qed

lemma regular_malloc:
  assumes "regular_file h fd view"
  obtains w' a b where "length b = n" "sys_malloc h w n = (w', Some (a, b))" "view w' = view w" "a \<noteq> null"
proof -
  have "memory_ok h view" using assms(1) by (simp add: regular_file_def)
  then obtain w' a b where "length b = n" "a \<noteq> null" "sys_malloc h w n = (w', Some (a, b))" "view w' = view w"
    unfolding memory_ok_def by blast
  then show ?thesis using that by blast
qed

lemma regular_realloc:
  assumes "regular_file h fd view"
  obtains w' a b where "length b = n" "sys_realloc h w p n = (w', Some (a, b))" "view w' = view w"
proof -
  have "memory_ok h view" using assms(1) by (simp add: regular_file_def)
  then obtain w' a b where "length b = n" "sys_realloc h w p n = (w', Some (a, b))" "view w' = view w"
    unfolding memory_ok_def by blast
  then show ?thesis using that by blast
qed

subsection \<open>The abstract file\<close>

text \<open>\<open>a_pushed\<close> are the bytes pushed back and \<open>a_reading\<close> whether the stream was last read.\<close>

record afile =
  a_data :: string
  a_pos :: nat
  a_pushed :: string
  a_eof :: bool
  a_reading :: bool

definition a_getc :: "afile \<Rightarrow> afile \<times> int" where
  "a_getc a = (case a_pushed a of
     c # cs \<Rightarrow> (a\<lparr>a_pushed := cs, a_pos := a_pos a + 1, a_eof := False\<rparr>, uchar c)
   | [] \<Rightarrow> if a_pos a < length (a_data a)
       then (a\<lparr>a_pos := a_pos a + 1, a_eof := False, a_reading := True\<rparr>, uchar (a_data a ! a_pos a))
       else (a\<lparr>a_eof := True, a_reading := True\<rparr>, EOF))"

definition a_putc :: "char \<Rightarrow> afile \<Rightarrow> afile \<times> int" where
  "a_putc c a = (a\<lparr>a_data := put_at (a_data a) (a_pos a) [c], a_pos := a_pos a + 1,
     a_pushed := [], a_eof := False, a_reading := False\<rparr>, uchar c)"

definition a_ungetc :: "char \<Rightarrow> afile \<Rightarrow> afile \<times> int" where
  "a_ungetc c a = (a\<lparr>a_pushed := c # a_pushed a, a_pos := a_pos a - 1, a_eof := False\<rparr>, uchar c)"

definition a_flush :: "afile \<Rightarrow> afile \<times> int" where
  "a_flush a = (a\<lparr>a_pushed := []\<rparr>, 0)"

definition a_seek :: "int \<Rightarrow> int \<Rightarrow> afile \<Rightarrow> afile \<times> int" where
  "a_seek off whence a =
     (let target = seek_target (a_data a) (a_pos a) off whence in
      if target < 0 then (a, -1)
      else (a\<lparr>a_pos := nat target, a_pushed := [], a_eof := False, a_reading := False\<rparr>, 0))"

definition a_tell :: "afile \<Rightarrow> afile \<times> int" where
  "a_tell a = (a, int (a_pos a))"

subsection \<open>The relation between a stream and its file\<close>

text \<open>The bytes read ahead.\<close>

definition unread_bytes :: "'w FILE \<Rightarrow> string" where
  "unread_bytes f = (case (fp_p f, bf_base f) of
     (Some p, Some b) \<Rightarrow> take (nat (fp_r f)) (drop p b) | _ \<Rightarrow> [])"

text \<open>The buffer's fields fit together; \<open>room_ok\<close> says that the fast path of \<open>fputc\<close> stays in
  the buffer.\<close>

definition buffer_ok :: "'w FILE \<Rightarrow> bool" where
  "buffer_ok f \<longleftrightarrow> (case bf_base f of
     None \<Rightarrow> fp_p f = None \<and> fp_r f = 0 \<and> fp_w f = 0
   | Some b \<Rightarrow> length b = bf_size f \<and> 0 < bf_size f \<and> bf_size f < 2 ^ 31 \<and>
       (case fp_p f of None \<Rightarrow> False | Some p \<Rightarrow> p \<le> bf_size f))"

definition room_ok :: "'w FILE \<Rightarrow> bool" where
  "room_ok f \<longleftrightarrow> (case (fp_p f, bf_base f) of
     (Some p, Some b) \<Rightarrow> int p + fp_w f \<le> int (length b) | _ \<Rightarrow> True)"

definition file_state :: "('w \<Rightarrow> string \<times> nat) \<Rightarrow> 'w FILE \<Rightarrow> afile \<Rightarrow> bool" where
  "file_state view f a \<longleftrightarrow> (case view (fp_os f) of (d, u) \<Rightarrow>
     case stream_last_op f of
       STDIO_NONE \<Rightarrow> pending_bytes f = [] \<and> fp_up f = [] \<and> a_data a = d \<and> a_pos a = u
     | STDIO_WRITE \<Rightarrow> fp_up f = [] \<and> \<not> fl_eof f \<and> room_ok f \<and> (fl_nbf f \<longrightarrow> pending_bytes f = []) \<and>
         (ck_append f \<and> pending_bytes f \<noteq> [] \<longrightarrow> u = length d) \<and>
         a_data a = put_at d u (pending_bytes f) \<and> a_pos a = u + length (pending_bytes f)
     | STDIO_READ \<Rightarrow> a_data a = d \<and> fp_r f = int (length (unread_bytes f)) \<and>
         u = a_pos a + fp_ur f + length (unread_bytes f) \<and>
         unread_bytes f = take (length (unread_bytes f)) (drop (a_pos a + fp_ur f) d))"

definition sim :: "descriptor \<Rightarrow> ('w \<Rightarrow> string \<times> nat) \<Rightarrow> 'w FILE \<Rightarrow> afile \<Rightarrow> bool" where
  "sim fd view f a \<longleftrightarrow> ck_kind f = KIND_FD \<and> ck_fd f = fst fd \<and> ck_append f = snd fd \<and> has_ext f \<and> buffer_ok f \<and>
     0 < ub_size f \<and> fp_ur f \<le> ub_size f \<and>
     a_pushed a = fp_up f \<and> a_eof a = fl_eof f \<and> a_reading a = (stream_last_op f = STDIO_READ) \<and>
     file_state view f a"

lemma int_of_size [simp]: "n < 2 ^ 31 \<Longrightarrow> int_of_size n = int n"
proof -
  assume "n < 2 ^ 31"
  then have "signed_take_bit 31 (int n) = int n"
    by (intro signed_take_bit_int_eq_self) auto
  then show ?thesis by (simp add: int_of_size_def signed_of_nat)
qed

lemmas stream_basics = set_stream_error_def set_stream_eof_def clear_stream_eof_def
  is_memory_stream_def stream_buffering_mode_def stream_last_op_def sync_bionic_buffer_fields_def
  set_byte_orientation_def call_result_def has_read_def has_write_def has_seek_def call_read_def
  call_write_def call_seek_def fd_cookie_read_def fd_cookie_write_def fd_cookie_seek_def
  reset_buffer_state_def pending_bytes_def unread_bytes_def buffer_ok_def room_ok_def

lemma last_op_iff:
  "stream_last_op f = STDIO_WRITE \<longleftrightarrow> fl_wr f"
  "stream_last_op f = STDIO_READ \<longleftrightarrow> \<not> fl_wr f \<and> fl_rd f"
  "stream_last_op f = STDIO_NONE \<longleftrightarrow> \<not> fl_wr f \<and> \<not> fl_rd f"
  by (auto simp: stream_last_op_def)

text \<open>What a step leaves alone.\<close>

definition same_stream :: "'w FILE \<Rightarrow> 'w FILE \<Rightarrow> bool" where
  "same_stream f f' \<longleftrightarrow> ck_readable f' = ck_readable f \<and> ck_writable f' = ck_writable f \<and>
     fl_err f' = fl_err f"

lemma same_stream_refl [simp]: "same_stream f f"
  by (simp add: same_stream_def)

lemma same_stream_trans: "same_stream f g \<Longrightarrow> same_stream g k \<Longrightarrow> same_stream f k"
  by (simp add: same_stream_def)

text \<open>The fields that the buffer's contents do not depend on.\<close>

lemma orientation_buffer [simp]:
  "buffer_ok (f\<lparr>fp_orient := n\<rparr>) = buffer_ok f" "room_ok (f\<lparr>fp_orient := n\<rparr>) = room_ok f"
  "unread_bytes (f\<lparr>fp_orient := n\<rparr>) = unread_bytes f" "pending_bytes (f\<lparr>fp_orient := n\<rparr>) = pending_bytes f"
  "stream_last_op (f\<lparr>fp_orient := n\<rparr>) = stream_last_op f"
  by (cases "bf_base f"; cases "fp_p f"; simp add: stream_basics)+

lemma eof_buffer [simp]:
  "buffer_ok (f\<lparr>fl_eof := n\<rparr>) = buffer_ok f" "room_ok (f\<lparr>fl_eof := n\<rparr>) = room_ok f"
  "unread_bytes (f\<lparr>fl_eof := n\<rparr>) = unread_bytes f" "pending_bytes (f\<lparr>fl_eof := n\<rparr>) = pending_bytes f"
  "stream_last_op (f\<lparr>fl_eof := n\<rparr>) = stream_last_op f"
  by (cases "bf_base f"; cases "fp_p f"; simp add: stream_basics)+

lemma err_buffer [simp]:
  "buffer_ok (f\<lparr>fl_err := n\<rparr>) = buffer_ok f" "room_ok (f\<lparr>fl_err := n\<rparr>) = room_ok f"
  "unread_bytes (f\<lparr>fl_err := n\<rparr>) = unread_bytes f" "pending_bytes (f\<lparr>fl_err := n\<rparr>) = pending_bytes f"
  "stream_last_op (f\<lparr>fl_err := n\<rparr>) = stream_last_op f"
  by (cases "bf_base f"; cases "fp_p f"; simp add: stream_basics)+

lemma errno_buffer [simp]:
  "buffer_ok (f\<lparr>fp_errno := n\<rparr>) = buffer_ok f" "room_ok (f\<lparr>fp_errno := n\<rparr>) = room_ok f"
  "unread_bytes (f\<lparr>fp_errno := n\<rparr>) = unread_bytes f" "pending_bytes (f\<lparr>fp_errno := n\<rparr>) = pending_bytes f"
  "stream_last_op (f\<lparr>fp_errno := n\<rparr>) = stream_last_op f"
  by (cases "bf_base f"; cases "fp_p f"; simp add: stream_basics)+

lemma up_buffer [simp]:
  "buffer_ok (f\<lparr>fp_up := n\<rparr>) = buffer_ok f" "room_ok (f\<lparr>fp_up := n\<rparr>) = room_ok f"
  "unread_bytes (f\<lparr>fp_up := n\<rparr>) = unread_bytes f" "pending_bytes (f\<lparr>fp_up := n\<rparr>) = pending_bytes f"
  "stream_last_op (f\<lparr>fp_up := n\<rparr>) = stream_last_op f"
  by (cases "bf_base f"; cases "fp_p f"; simp add: stream_basics)+

lemma ub_buffer [simp]:
  "buffer_ok (f\<lparr>ub_size := n\<rparr>) = buffer_ok f" "room_ok (f\<lparr>ub_size := n\<rparr>) = room_ok f"
  "unread_bytes (f\<lparr>ub_size := n\<rparr>) = unread_bytes f" "pending_bytes (f\<lparr>ub_size := n\<rparr>) = pending_bytes f"
  "stream_last_op (f\<lparr>ub_size := n\<rparr>) = stream_last_op f"
  by (cases "bf_base f"; cases "fp_p f"; simp add: stream_basics)+

lemma os_buffer [simp]:
  "buffer_ok (f\<lparr>fp_os := n\<rparr>) = buffer_ok f" "room_ok (f\<lparr>fp_os := n\<rparr>) = room_ok f"
  "unread_bytes (f\<lparr>fp_os := n\<rparr>) = unread_bytes f" "pending_bytes (f\<lparr>fp_os := n\<rparr>) = pending_bytes f"
  "stream_last_op (f\<lparr>fp_os := n\<rparr>) = stream_last_op f"
  by (cases "bf_base f"; cases "fp_p f"; simp add: stream_basics)+

lemma sim_os: "view w = view (fp_os f) \<Longrightarrow> sim fd view (f\<lparr>fp_os := w\<rparr>) a = sim fd view f a"
  by (cases "stream_last_op f") (simp_all add: sim_def file_state_def)

lemma w_buffer [simp]:
  "unread_bytes (f\<lparr>fp_w := n\<rparr>) = unread_bytes f" "pending_bytes (f\<lparr>fp_w := n\<rparr>) = pending_bytes f"
  "stream_last_op (f\<lparr>fp_w := n\<rparr>) = stream_last_op f"
  by (cases "bf_base f"; cases "fp_p f"; simp add: stream_basics)+

subsection \<open>Flushing\<close>

lemma flush_loop_writes:
  assumes "regular_file h (ck_fd f, app) view" "ck_kind f = KIND_FD" "view (fp_os f) = (d, u)" "done \<le> length buf"
    and "app \<longrightarrow> done < length buf \<longrightarrow> u = length d"
  shows "\<exists>w. flush_loop h f buf done = (f\<lparr>fp_os := w\<rparr>, 0) \<and>
    view w = (put_at d u (drop done buf), u + (length buf - done))"
  using assms
proof (induction "length buf - done" arbitrary: f "done" d u rule: less_induct)
  case less
  show ?case
  proof (cases "done < length buf")
    case False
    with less.prems show ?thesis
      by (subst flush_loop.simps) (auto intro!: exI [of _ "fp_os f"])
  next
    case True
    define chunk where "chunk = (if length buf - done > 0x7fffffff then 0x7fffffff else length buf - done)"
    define part where "part = take chunk (drop done buf)"
    have part: "part \<noteq> []" "length part \<le> length buf - done" "part = take (length part) (drop done buf)"
      using True by (auto simp: part_def chunk_def)
    obtain w k where k: "0 < k" "k \<le> length part" "sys_write h (fp_os f) (ck_fd f) part = (w, Inr k)"
      and w: "view w = (put_at d u (take k part), u + k)"
      using regular_write [OF less.prems(1,3) part(1)] less.prems(5) True by (metis fst_conv snd_conv)
    have call: "call_write h f (take chunk (drop done buf)) = (f\<lparr>fp_os := w\<rparr>, Some k)"
      using less.prems(2) k regular_fd [OF less.prems(1)] by (simp add: stream_basics part_def [symmetric])
    obtain n where n: "k = Suc n" using k(1) by (cases k) auto
    have step: "flush_loop h f buf done = flush_loop h (f\<lparr>fp_os := w\<rparr>) buf (done + k)"
      using True call n by (subst flush_loop.simps) (simp add: chunk_def [symmetric])
    have tk: "take k part = take k (drop done buf)"
      using k(2) part(3) by (metis min.absorb1 take_take)
    have le: "done + k \<le> length buf" using k part True by linarith
    have join: "take k (drop done buf) @ drop (done + k) buf = drop done buf"
      by (metis append_take_drop_id drop_drop add.commute)
    have "\<exists>w'. flush_loop h (f\<lparr>fp_os := w\<rparr>) buf (done + k) = ((f\<lparr>fp_os := w\<rparr>)\<lparr>fp_os := w'\<rparr>, 0) \<and>
        view w' = (put_at (put_at d u (take k part)) (u + k) (drop (done + k) buf),
                   u + k + (length buf - (done + k)))"
      by (rule less.hyps) (use less.prems w le k True part(1) in \<open>auto simp: length_overwrite\<close>)
    moreover have "put_at (put_at d u (take k part)) (u + k) (drop (done + k) buf) = put_at d u (drop done buf)"
      using put_at_append [of d u "take k (drop done buf)" "drop (done + k) buf"] tk join le
      by (simp add: min_def split: if_splits)
    moreover have "u + k + (length buf - (done + k)) = u + (length buf - done)" using le by simp
    ultimately show ?thesis using step by auto
  qed
qed

lemma flush_write_buffer_sim:
  assumes reg: "regular_file h fd view" and sim: "sim fd view f a" and w: "stream_last_op f = STDIO_WRITE"
  shows "\<exists>f'. flush_write_buffer h f = (f', 0) \<and> sim fd view f' a \<and> same_stream f f' \<and>
    stream_last_op f' = STDIO_WRITE \<and> pending_bytes f' = [] \<and> fl_nbf f' = fl_nbf f \<and>
    bf_base f' = bf_base f \<and> bf_size f' = bf_size f \<and> fl_lbf f' = fl_lbf f"
proof -
  obtain d u where v: "view (fp_os f) = (d, u)" by fastforce
  from sim have kind: "ck_kind f = KIND_FD" "ck_fd f = fst fd" and buf: "buffer_ok f"
    and st: "file_state view f a" by (auto simp: sim_def)
  have flags: "fl_wr f" using w by (auto simp: stream_basics split: if_splits)
  have a: "a_data a = put_at d u (pending_bytes f)" "a_pos a = u + length (pending_bytes f)"
    and up: "fp_up f = []" "\<not> fl_eof f" and app: "snd fd \<and> pending_bytes f \<noteq> [] \<longrightarrow> u = length d"
    using st w v sim by (auto simp: file_state_def sim_def)
  have reset: "sim fd view (reset_buffer_state (f\<lparr>fp_os := w'\<rparr>)) a \<and>
      same_stream f (reset_buffer_state (f\<lparr>fp_os := w'\<rparr>)) \<and>
      stream_last_op (reset_buffer_state (f\<lparr>fp_os := w'\<rparr>)) = STDIO_WRITE \<and>
      pending_bytes (reset_buffer_state (f\<lparr>fp_os := w'\<rparr>)) = [] \<and>
      fl_nbf (reset_buffer_state (f\<lparr>fp_os := w'\<rparr>)) = fl_nbf f \<and>
      bf_base (reset_buffer_state (f\<lparr>fp_os := w'\<rparr>)) = bf_base f \<and>
      bf_size (reset_buffer_state (f\<lparr>fp_os := w'\<rparr>)) = bf_size f \<and>
      fl_lbf (reset_buffer_state (f\<lparr>fp_os := w'\<rparr>)) = fl_lbf f"
    if "view w' = (a_data a, a_pos a)" for w'
    using sim that flags up buf
    by (auto simp: sim_def file_state_def stream_basics same_stream_def split: option.splits)
  show ?thesis
  proof (cases "pending_bytes f = []")
    case True
    then have "flush_write_buffer h f = (reset_buffer_state (f\<lparr>fp_os := fp_os f\<rparr>), 0)"
      using kind by (simp add: flush_write_buffer_def is_memory_stream_def)
    with reset [of "fp_os f"] a v True show ?thesis by auto
  next
    case False
    obtain w' where w': "flush_loop h f (pending_bytes f) 0 = (f\<lparr>fp_os := w'\<rparr>, 0)"
      "view w' = (put_at d u (pending_bytes f), u + length (pending_bytes f))"
      using flush_loop_writes [of h f "snd fd" view d u 0 "pending_bytes f"] reg kind v app by auto
    then have "flush_write_buffer h f = (reset_buffer_state (f\<lparr>fp_os := w'\<rparr>), 0)"
      using kind False by (simp add: flush_write_buffer_def is_memory_stream_def has_write_def)
    with reset [of w'] a w' show ?thesis by auto
  qed
qed

subsection \<open>Changing direction\<close>

lemma discard_read_buffer_sim:
  assumes reg: "regular_file h fd view" and sim: "sim fd view f a" and r: "stream_last_op f = STDIO_READ"
  shows "\<exists>f'. discard_read_buffer h f = (f', 0) \<and> sim fd view f' (a\<lparr>a_pushed := []\<rparr>) \<and> same_stream f f' \<and>
    stream_last_op f' = STDIO_READ \<and> unread_bytes f' = [] \<and> pending_bytes f' = [] \<and> fl_nbf f' = fl_nbf f \<and>
    view (fp_os f') = (a_data a, a_pos a) \<and> fp_w f' = 0 \<and> fp_up f' = []"
proof -
  obtain u where v: "view (fp_os f) = (a_data a, u)" and rr: "fp_r f = int (length (unread_bytes f))"
    and u: "u = a_pos a + fp_ur f + length (unread_bytes f)"
    using sim r by (auto simp: sim_def file_state_def split: prod.splits)
  have flags: "fl_rd f" "\<not> fl_wr f" using r by (auto simp: stream_basics split: if_splits)
  have reset: "sim fd view (reset_buffer_state (f\<lparr>fp_os := w\<rparr>)) (a\<lparr>a_pushed := []\<rparr>) \<and>
      same_stream f (reset_buffer_state (f\<lparr>fp_os := w\<rparr>)) \<and>
      stream_last_op (reset_buffer_state (f\<lparr>fp_os := w\<rparr>)) = STDIO_READ \<and>
      unread_bytes (reset_buffer_state (f\<lparr>fp_os := w\<rparr>)) = [] \<and>
      pending_bytes (reset_buffer_state (f\<lparr>fp_os := w\<rparr>)) = [] \<and>
      fl_nbf (reset_buffer_state (f\<lparr>fp_os := w\<rparr>)) = fl_nbf f \<and>
      view (fp_os (reset_buffer_state (f\<lparr>fp_os := w\<rparr>))) = (a_data a, a_pos a) \<and>
      fp_w (reset_buffer_state (f\<lparr>fp_os := w\<rparr>)) = 0 \<and> fp_up (reset_buffer_state (f\<lparr>fp_os := w\<rparr>)) = []"
    if "view w = (a_data a, a_pos a)" for w
    using sim that flags
    by (auto simp: sim_def file_state_def stream_basics same_stream_def split: option.splits)
  show ?thesis
  proof (cases "fp_r f + int (fp_ur f) = 0")
    case True
    then have "discard_read_buffer h f = (reset_buffer_state (f\<lparr>fp_os := fp_os f\<rparr>), 0)"
      using sim r by (simp add: discard_read_buffer_def sim_def is_memory_stream_def has_seek_def)
    moreover have "length (unread_bytes f) = 0" "fp_ur f = 0" using True rr by linarith+
    then have "view (fp_os f) = (a_data a, a_pos a)" using v u by simp
    ultimately show ?thesis using reset [of "fp_os f"] by auto
  next
    case False
    have target: "seek_target (a_data a) u (- (fp_r f + int (fp_ur f))) SEEK_CUR = int (a_pos a)"
      using u rr by (simp add: seek_target_def)
    obtain w where "sys_lseek h (fp_os f) (fst fd) (- (fp_r f + int (fp_ur f))) SEEK_CUR = (w, Inr (int (a_pos a)))"
      and w: "view w = (a_data a, a_pos a)"
      using regular_seek [OF reg v, of SEEK_CUR "- (fp_r f + int (fp_ur f))"] unfolding target by auto
    then have "call_seek h f (- (fp_r f + int (fp_ur f))) SEEK_CUR = (f\<lparr>fp_os := w\<rparr>, Some (int (a_pos a)))"
      using sim regular_fd [OF reg] by (simp add: stream_basics sim_def)
    then have "discard_read_buffer h f = (reset_buffer_state (f\<lparr>fp_os := w\<rparr>), 0)"
      using sim r False by (simp add: discard_read_buffer_def sim_def is_memory_stream_def has_seek_def
        seek_failed_def Let_def)
    with reset [OF w] show ?thesis by auto
  qed
qed

lemma file_state_reading [simp]:
  "file_state view f (a\<lparr>a_reading := b\<rparr>) = file_state view f a"
  "file_state view f (a\<lparr>a_eof := b\<rparr>) = file_state view f a"
  "file_state view f (a\<lparr>a_pushed := s\<rparr>) = file_state view f a"
  by (simp_all add: file_state_def split: last_op.splits prod.splits)

lemma read_mode_sim:
  assumes "sim fd view f a" "stream_last_op f \<noteq> STDIO_READ" "pending_bytes f = []"
  defines "f' \<equiv> sync_bionic_buffer_fields ((reset_buffer_state f)\<lparr>fl_wr := False, fl_rd := True\<rparr>)"
  shows "sim fd view f' (a\<lparr>a_reading := True\<rparr>) \<and> same_stream f f' \<and> stream_last_op f' = STDIO_READ \<and>
    unread_bytes f' = [] \<and> fl_nbf f' = fl_nbf f"
  using assms(1-3) unfolding f'_def
  by (auto simp: sim_def file_state_def stream_basics same_stream_def split: option.splits if_splits)

lemma prepare_read_sim:
  assumes reg: "regular_file h fd view" and sim: "sim fd view f a" and rd: "ck_readable f"
  shows "\<exists>f'. prepare_read h f = (f', 0) \<and> sim fd view f' (a\<lparr>a_reading := True\<rparr>) \<and> same_stream f f' \<and>
    stream_last_op f' = STDIO_READ \<and> fl_nbf f' = fl_nbf f \<and>
    unread_bytes f' = (if stream_last_op f = STDIO_READ then unread_bytes f else [])"
proof (cases "stream_last_op f")
  case STDIO_NONE
  then have "pending_bytes f = []" using sim by (auto simp: sim_def file_state_def)
  with read_mode_sim [OF sim] STDIO_NONE show ?thesis
    using sim rd by (auto simp: prepare_read_def sim_def has_read_def Let_def)
next
  case STDIO_READ
  then have "sync_bionic_buffer_fields (f\<lparr>fl_wr := False, fl_rd := True\<rparr>) = f"
    using sim by (auto simp: stream_basics sim_def split: if_splits option.splits)
  moreover have "a\<lparr>a_reading := True\<rparr> = a" using sim STDIO_READ by (cases a) (simp add: sim_def)
  ultimately show ?thesis
    using sim rd STDIO_READ by (auto simp: prepare_read_def sim_def has_read_def Let_def)
next
  case STDIO_WRITE
  obtain g where g: "flush_write_buffer h f = (g, 0)" "sim fd view g a" "same_stream f g"
    "stream_last_op g = STDIO_WRITE" "pending_bytes g = []" "fl_nbf g = fl_nbf f"
    using flush_write_buffer_sim [OF reg sim STDIO_WRITE] by blast
  have "prepare_read h f =
      (sync_bionic_buffer_fields ((reset_buffer_state g)\<lparr>fl_wr := False, fl_rd := True\<rparr>), 0)"
    using sim rd g STDIO_WRITE by (simp add: prepare_read_def sim_def has_read_def Let_def)
  with read_mode_sim [OF g(2)] g STDIO_WRITE show ?thesis
    by (auto intro: same_stream_trans)
qed

lemma write_mode_sim:
  assumes "sim fd view f a" "view (fp_os f) = (a_data a, a_pos a)" "pending_bytes f = []" "fp_up f = []"
  defines "f' \<equiv> sync_bionic_buffer_fields (clear_stream_eof (f\<lparr>fl_rd := False, fl_wr := True, fp_w := 0\<rparr>))"
  shows "sim fd view f' (a\<lparr>a_pushed := [], a_eof := False, a_reading := False\<rparr>) \<and> same_stream f f' \<and>
    stream_last_op f' = STDIO_WRITE \<and> fl_nbf f' = fl_nbf f"
  using assms(1-4) unfolding f'_def
  by (auto simp: sim_def file_state_def stream_basics same_stream_def split: option.splits if_splits)

lemma prepare_write_sim:
  assumes reg: "regular_file h fd view" and sim: "sim fd view f a" and wr: "ck_writable f"
  shows "\<exists>f'. prepare_write h f = (f', 0) \<and>
    sim fd view (f'\<lparr>fp_w := 0\<rparr>) (a\<lparr>a_pushed := [], a_eof := False, a_reading := False\<rparr>) \<and>
    same_stream f f' \<and> stream_last_op f' = STDIO_WRITE \<and> fl_nbf f' = fl_nbf f"
proof -
  let ?mode = "\<lambda>f. sync_bionic_buffer_fields (clear_stream_eof (f\<lparr>fl_rd := False, fl_wr := True\<rparr>))"
  let ?a = "a\<lparr>a_pushed := [], a_eof := False, a_reading := False\<rparr>"
  have zero: "(?mode g)\<lparr>fp_w := 0\<rparr> =
      sync_bionic_buffer_fields (clear_stream_eof (g\<lparr>fl_rd := False, fl_wr := True, fp_w := 0\<rparr>))" for g :: "'a FILE"
    by (simp add: stream_basics)
  have mode: "same_stream g (?mode g) \<and> stream_last_op (?mode g) = STDIO_WRITE \<and> fl_nbf (?mode g) = fl_nbf g"
    for g :: "'a FILE"
    by (simp add: stream_basics same_stream_def)
  show ?thesis
  proof (cases "stream_last_op f")
    case STDIO_NONE
    then have "pending_bytes f = []" "fp_up f = []" "view (fp_os f) = (a_data a, a_pos a)"
      using sim by (auto simp: sim_def file_state_def split: prod.splits)
    with write_mode_sim [OF sim] have "sim fd view ((?mode f)\<lparr>fp_w := 0\<rparr>) ?a" unfolding zero by simp
    with STDIO_NONE show ?thesis
      using sim wr mode [of f] by (auto simp: prepare_write_def sim_def has_write_def Let_def)
  next
    case STDIO_READ
    obtain g where g: "discard_read_buffer h f = (g, 0)" "sim fd view g (a\<lparr>a_pushed := []\<rparr>)" "same_stream f g"
      "pending_bytes g = []" "fl_nbf g = fl_nbf f" "view (fp_os g) = (a_data a, a_pos a)" "fp_up g = []"
      using discard_read_buffer_sim [OF reg sim STDIO_READ] by blast
    with write_mode_sim [OF g(2)] have "sim fd view ((?mode g)\<lparr>fp_w := 0\<rparr>) ?a" unfolding zero by simp
    moreover have "prepare_write h f = (?mode g, 0)"
      using sim wr STDIO_READ g by (simp add: prepare_write_def sim_def has_write_def Let_def)
    ultimately show ?thesis using mode [of g] g by (auto intro: same_stream_trans)
  next
    case STDIO_WRITE
    have "sim fd view ((?mode f)\<lparr>fp_w := 0\<rparr>) ?a" unfolding zero
      using sim STDIO_WRITE
      by (auto simp: sim_def file_state_def stream_basics split: option.splits if_splits)
    with STDIO_WRITE show ?thesis
      using sim wr mode [of f] by (auto simp: prepare_write_def sim_def has_write_def Let_def)
  qed
qed

subsection \<open>Setting up the buffer\<close>

lemma byte_orientation_sim [simp]:
  "sim fd view (set_byte_orientation f) a = sim fd view f a"
  "same_stream f' (set_byte_orientation f) = same_stream f' f"
  "same_stream (set_byte_orientation f) f' = same_stream f f'"
  "stream_last_op (set_byte_orientation f) = stream_last_op f"
  "fl_nbf (set_byte_orientation f) = fl_nbf f" "fl_lbf (set_byte_orientation f) = fl_lbf f"
  "unread_bytes (set_byte_orientation f) = unread_bytes f"
  "pending_bytes (set_byte_orientation f) = pending_bytes f"
  "(set_byte_orientation f)\<lparr>fp_w := n\<rparr> = set_byte_orientation (f\<lparr>fp_w := n\<rparr>)"
  by (simp_all add: sim_def file_state_def same_stream_def set_byte_orientation_def
      cong: last_op.case_cong)

lemma ensure_buffer_sim:
  assumes reg: "regular_file h fd view" and sim: "sim fd view (f\<lparr>fp_w := 0\<rparr>) a" and nbf: "\<not> fl_nbf f"
  shows "\<exists>f'. ensure_buffer h f = (f', 0) \<and> sim fd view (f'\<lparr>fp_w := 0\<rparr>) a \<and> same_stream f f' \<and>
    stream_last_op f' = stream_last_op f \<and> bf_base f' \<noteq> None \<and> fl_nbf f' = fl_nbf f \<and>
    unread_bytes f' = unread_bytes f \<and> pending_bytes f' = pending_bytes f"
proof (cases "bf_base f")
  case None
  obtain w b x where m: "length b = BUFSIZ" "sys_malloc h (fp_os f) BUFSIZ = (w, Some (x, b))" "view w = view (fp_os f)"
    using regular_malloc [OF reg] by metis
  let ?f = "f\<lparr>fp_os := w, bf_base := Some b, bf_size := BUFSIZ, fp_p := Some 0, fl_mbf := True\<rparr>"
  have e: "ensure_buffer h f = (?f, 0)"
    using None m(2) nbf by (simp add: ensure_buffer_def stream_basics)
  have r: "fp_p f = None" "fp_r f = 0" using sim None by (auto simp: sim_def stream_basics)
  have "sim fd view (?f\<lparr>fp_w := 0\<rparr>) a"
    using sim None r m(1,3)
    by (auto simp: sim_def file_state_def stream_basics BUFSIZ_def split: if_splits prod.splits)
  then show ?thesis using e None r by (auto simp: stream_basics same_stream_def)
next
  case (Some b)
  then have "bf_size f \<noteq> 0" using sim by (auto simp: sim_def stream_basics)
  then have "ensure_buffer h f = (f, 0)"
    using Some nbf by (simp add: ensure_buffer_def stream_basics)
  then show ?thesis using sim Some by simp
qed

lemma swsetup_sim:
  assumes reg: "regular_file h fd view" and sim: "sim fd view f a" and wr: "ck_writable f"
  shows "\<exists>f'. swsetup h f = (f', 0) \<and>
    sim fd view f' (a\<lparr>a_pushed := [], a_eof := False, a_reading := False\<rparr>) \<and> same_stream f f' \<and>
    stream_last_op f' = STDIO_WRITE \<and> bf_base f' \<noteq> None \<and> fl_nbf f' = fl_nbf f \<and>
    (fl_nbf f \<longrightarrow> fp_w f' = 0)"
proof -
  obtain g where g: "prepare_write h f = (g, 0)"
    "sim fd view (g\<lparr>fp_w := 0\<rparr>) (a\<lparr>a_pushed := [], a_eof := False, a_reading := False\<rparr>)"
    "same_stream f g" "stream_last_op g = STDIO_WRITE" "fl_nbf g = fl_nbf f"
    using prepare_write_sim [OF reg sim wr] by blast
  show ?thesis
  proof (cases "fl_nbf f")
    case True
    have "swsetup h f =
        ((set_byte_orientation g)\<lparr>bf_base := Some [NUL], bf_size := 1, fp_p := Some 0, fp_w := 0\<rparr>, 0)"
      using g True by (simp add: swsetup_def stream_buffering_mode_def Let_def)
    moreover have "pending_bytes g = []"
      using g True by (auto simp: sim_def file_state_def stream_basics split: prod.splits if_splits)
    ultimately show ?thesis
      using g True
      by (auto simp: sim_def file_state_def stream_basics same_stream_def split: prod.splits if_splits)
  next
    case False
    obtain k where k: "ensure_buffer h (set_byte_orientation g) = (k, 0)"
      "sim fd view (k\<lparr>fp_w := 0\<rparr>) (a\<lparr>a_pushed := [], a_eof := False, a_reading := False\<rparr>)"
      "same_stream (set_byte_orientation g) k" "stream_last_op k = STDIO_WRITE" "bf_base k \<noteq> None" "fl_nbf k = fl_nbf f"
      using ensure_buffer_sim [OF reg, of "set_byte_orientation g"] g False by fastforce
    obtain b p where bp: "bf_base k = Some b" "fp_p k = Some p" "p \<le> bf_size k" "length b = bf_size k" "bf_size k < 2 ^ 31"
      using k(2,5) by (auto simp: sim_def stream_basics split: option.splits)
    have "swsetup h f = (k\<lparr>fp_w := room_left k\<rparr>, 0)"
      using g k(1) False bp by (simp add: swsetup_def stream_basics Let_def)
    moreover have "room_left k = int (bf_size k - p)" using bp by (simp add: room_left_def)
    moreover have "same_stream f k" using k(3) g(3) by (auto intro: same_stream_trans)
    ultimately show ?thesis
      using k False bp
      by (auto simp: sim_def file_state_def stream_basics same_stream_def split: prod.splits if_splits)
  qed
qed

subsection \<open>Reading and writing a byte\<close>

lemma take_byte_sim:
  assumes sim: "sim fd view f a" and r: "stream_last_op f = STDIO_READ" "unread_bytes f \<noteq> []" "fp_up f = []"
  shows "\<exists>f'. take_byte f = (f', uchar (a_data a ! a_pos a)) \<and> sim fd view f' (a\<lparr>a_pos := a_pos a + 1\<rparr>) \<and>
    same_stream f f' \<and> a_pos a < length (a_data a)"
proof -
  obtain p b where pb: "fp_p f = Some p" "bf_base f = Some b" "unread_bytes f = take (nat (fp_r f)) (drop p b)"
    using r(2) by (auto simp: unread_bytes_def split: option.splits)
  obtain u where u: "view (fp_os f) = (a_data a, u)" "fp_r f = int (length (unread_bytes f))"
    "u = a_pos a + length (unread_bytes f)"
    "unread_bytes f = take (length (unread_bytes f)) (drop (a_pos a) (a_data a))"
    using sim r by (auto simp: sim_def file_state_def split: prod.splits)
  define n where "n = length (unread_bytes f)"
  have n: "0 < n" "nat (fp_r f) = n" using r(2) u(2) by (simp_all add: n_def)
  have un: "unread_bytes f = take n (drop p b)" "unread_bytes f = take n (drop (a_pos a) (a_data a))"
    using pb u n by (simp_all add: n_def)
  have lens: "p + n \<le> length b" "a_pos a + n \<le> length (a_data a)"
  proof -
    have "n = min n (length b - p)" "n = min n (length (a_data a) - a_pos a)"
      using arg_cong [OF un(1), of length] arg_cong [OF un(2), of length] by (simp_all add: n_def [symmetric])
    then show "p + n \<le> length b" "a_pos a + n \<le> length (a_data a)" using n(1) by linarith+
  qed
  have "b ! p = unread_bytes f ! 0" using un(1) n lens by simp
  also have "\<dots> = a_data a ! a_pos a" using un(2) n lens by simp
  finally have c: "b ! p = a_data a ! a_pos a" .
  let ?f = "f\<lparr>fp_p := Some (p + 1), fp_r := fp_r f - 1\<rparr>"
  have take: "take_byte f = (?f, uchar (a_data a ! a_pos a))"
    using pb c by (simp add: take_byte_def sync_bionic_buffer_fields_def)
  have un': "unread_bytes ?f = tl (unread_bytes f)"
    using pb un(1) n lens by (simp add: unread_bytes_def nat_diff_distrib tl_take tl_drop drop_Suc)
  moreover have "tl (unread_bytes f) = take (n - 1) (drop (a_pos a + 1) (a_data a))"
    by (subst un(2)) (simp add: tl_take tl_drop drop_Suc)
  moreover have "length (tl (unread_bytes f)) = n - 1" by (simp add: n_def)
  moreover have "stream_last_op ?f = STDIO_READ" using r(1) by (simp add: last_op_iff)
  ultimately have "file_state view ?f (a\<lparr>a_pos := a_pos a + 1\<rparr>)"
    using u n r(3) lens by (simp add: file_state_def n_def [symmetric])
  moreover have "buffer_ok ?f" using sim pb lens n by (auto simp: sim_def buffer_ok_def)
  ultimately have "sim fd view ?f (a\<lparr>a_pos := a_pos a + 1\<rparr>)"
    using sim r(1) \<open>stream_last_op ?f = STDIO_READ\<close> by (simp add: sim_def)
  then show ?thesis using take lens n by (auto simp: same_stream_def)
qed

lemma fgetc_buffered_sim:
  assumes sim: "sim fd view f a" and r: "stream_last_op f = STDIO_READ" "unread_bytes f \<noteq> []" "fp_up f = []"
  shows "\<exists>f'. take_byte (clear_stream_eof f) = (f', snd (a_getc a)) \<and> sim fd view f' (fst (a_getc a)) \<and> same_stream f f'"
proof -
  have "sim fd view (clear_stream_eof f) (a\<lparr>a_eof := False\<rparr>)"
    using sim r by (auto simp: sim_def file_state_def clear_stream_eof_def split: prod.splits)
  from take_byte_sim [OF this] obtain f' where f': "take_byte (clear_stream_eof f) = (f', uchar (a_data a ! a_pos a))"
    "sim fd view f' (a\<lparr>a_eof := False, a_pos := a_pos a + 1\<rparr>)" "same_stream (clear_stream_eof f) f'"
    "a_pos a < length (a_data a)"
    using r by (auto simp: clear_stream_eof_def)
  have "a_reading a" "a_pushed a = []" using sim r by (auto simp: sim_def)
  then have "a_getc a = (a\<lparr>a_eof := False, a_pos := a_pos a + 1\<rparr>, uchar (a_data a ! a_pos a))"
    using f'(4) by (simp add: a_getc_def)
  with f' show ?thesis by (auto simp: same_stream_def clear_stream_eof_def)
qed

lemma srefill_sim:
  assumes reg: "regular_file h fd view" and sim: "sim fd view f a" and rd: "ck_readable f"
    and none: "fp_up f = []" "stream_last_op f = STDIO_READ \<longrightarrow> unread_bytes f = []"
  shows "if a_pos a < length (a_data a)
    then \<exists>f'. srefill h f = (f', 0) \<and> sim fd view f' (a\<lparr>a_reading := True, a_eof := False\<rparr>) \<and> same_stream f f' \<and>
      stream_last_op f' = STDIO_READ \<and> unread_bytes f' \<noteq> [] \<and> fp_up f' = [] \<and> fp_p f' \<noteq> None
    else \<exists>f'. srefill h f = (f', EOF) \<and> sim fd view f' (a\<lparr>a_reading := True, a_eof := True\<rparr>) \<and> same_stream f f'"
proof -
  obtain g where g: "prepare_read h f = (g, 0)" "sim fd view g (a\<lparr>a_reading := True\<rparr>)" "same_stream f g"
    "stream_last_op g = STDIO_READ" "fl_nbf g = fl_nbf f" "unread_bytes g = []"
    using prepare_read_sim [OF reg sim rd] none by (metis (full_types))
  have up: "fp_up g = []" using g(2) sim none by (simp add: sim_def)
  \<comment> \<open>after the buffer is there, nothing is unread and the offset is the position\<close>
  obtain k where k: "(if stream_buffering_mode (set_byte_orientation g) = IONBF
        then ((set_byte_orientation g)\<lparr>bf_base := Some [NUL], bf_size := 1\<rparr>, 0)
        else ensure_buffer h (set_byte_orientation g)) = (k, 0)"
      and kk: "same_stream f k" "stream_last_op k = STDIO_READ" "fp_up k = []" "ck_kind k = KIND_FD" "ck_fd k = fst fd" "ck_append k = snd fd" "has_ext k"
        "view (fp_os k) = (a_data a, a_pos a)" "0 < ub_size k" "a_eof a = fl_eof k" "a_pushed a = []"
      and kb: "\<exists>b. bf_base k = Some b \<and> length b = bf_size k \<and> 0 < bf_size k \<and> bf_size k < 2 ^ 31"
  proof (cases "fl_nbf g")
    case True
    have "view (fp_os g) = (a_data a, a_pos a)"
      using g up by (auto simp: sim_def file_state_def split: prod.splits)
    moreover have "stream_last_op ((set_byte_orientation g)\<lparr>bf_base := Some [NUL], bf_size := 1\<rparr>) = STDIO_READ"
      using g(4) by (auto simp: stream_basics split: if_splits)
    ultimately show ?thesis
      using that [of "(set_byte_orientation g)\<lparr>bf_base := Some [NUL], bf_size := 1\<rparr>"] g up True
      by (auto simp: sim_def stream_buffering_mode_def same_stream_def set_byte_orientation_def)
  next
    case False
    have "sim fd view ((set_byte_orientation g)\<lparr>fp_w := 0\<rparr>) (a\<lparr>a_reading := True\<rparr>)"
      using g(2,4) by (auto simp: sim_def file_state_def stream_basics split: option.splits prod.splits if_splits)
    from ensure_buffer_sim [OF reg this] obtain k where k: "ensure_buffer h (set_byte_orientation g) = (k, 0)"
      "sim fd view (k\<lparr>fp_w := 0\<rparr>) (a\<lparr>a_reading := True\<rparr>)" "same_stream g k" "stream_last_op k = STDIO_READ"
      "bf_base k \<noteq> None" "unread_bytes k = []"
      using g False by auto
    have "fp_up k = []" using k(2) sim none by (simp add: sim_def)
    moreover have "view (fp_os k) = (a_data a, a_pos a)"
      using k(2,4,6) \<open>fp_up k = []\<close> by (auto simp: sim_def file_state_def split: prod.splits)
    moreover have "stream_buffering_mode (set_byte_orientation g) \<noteq> IONBF"
      using False by (simp add: stream_buffering_mode_def)
    moreover have "same_stream f k" using g(3) k(3) by (rule same_stream_trans)
    moreover have "\<exists>b. bf_base k = Some b \<and> length b = bf_size k \<and> 0 < bf_size k \<and> bf_size k < 2 ^ 31"
      using k(2,5) by (auto simp: sim_def buffer_ok_def split: option.splits)
    moreover have "ck_kind k = KIND_FD" "ck_fd k = fst fd" "ck_append k = snd fd" "has_ext k" "0 < ub_size k" "a_eof a = fl_eof k" "a_pushed a = []"
      using k(2) \<open>fp_up k = []\<close> by (auto simp: sim_def)
    ultimately show ?thesis using that [of k] k by simp
  qed
  obtain w j where j: "j \<le> bf_size k" "j = 0 \<longrightarrow> bf_size k = 0 \<or> length (a_data a) \<le> a_pos a"
    and call: "sys_read h (fp_os k) (fst fd) (bf_size k) = (w, Inr (take j (drop (a_pos a) (a_data a))))"
    and w: "view w = (a_data a, a_pos a + length (take j (drop (a_pos a) (a_data a))))"
    using regular_read [OF reg kk(8)] by metis
  let ?s = "take j (drop (a_pos a) (a_data a))"
  have "bf_size k < 2 ^ 31" using kb by auto
  then have cr: "call_read h k (int_of_size (bf_size k)) = (k\<lparr>fp_os := w\<rparr>, Some ?s)"
    using call kk regular_fd [OF reg] by (simp add: stream_basics)
  have empty: "?s = [] \<longleftrightarrow> length (a_data a) \<le> a_pos a" using j kb by auto
  show ?thesis
  proof (cases "a_pos a < length (a_data a)")
    case False
    then have s: "?s = []" using empty by simp
    let ?f = "(set_stream_eof (k\<lparr>fp_os := w\<rparr>))\<lparr>fp_r := 0, fp_p := Some 0\<rparr>"
    have "srefill h f = (?f, EOF)"
      using g k cr s sim by (simp add: srefill_def is_memory_stream_def sim_def Let_def)
    moreover have "stream_last_op ?f = STDIO_READ" "buffer_ok ?f" "unread_bytes ?f = []"
      using kk(2) kb by (auto simp: last_op_iff set_stream_eof_def buffer_ok_def unread_bytes_def)
    then have "sim fd view ?f (a\<lparr>a_reading := True, a_eof := True\<rparr>)"
      using kk w s by (simp add: sim_def file_state_def set_stream_eof_def)
    moreover have "same_stream f ?f" using kk(1) by (simp add: same_stream_def set_stream_eof_def)
    ultimately show ?thesis using False by auto
  next
    case True
    then obtain c cs where s: "?s = c # cs" using empty by (cases ?s) auto
    define t where "t = c # cs"
    have st: "?s = t" using s by (simp add: t_def)
    have tl: "take (length (take j xs)) xs = take j xs" for xs :: string
      by (cases "j \<le> length xs") simp_all
    have lt: "length t \<le> j" by (simp flip: st)
    have t: "take (length t) (drop (a_pos a) (a_data a)) = t" "view w = (a_data a, a_pos a + length t)"
      "length t \<le> bf_size k" "t \<noteq> []"
      using w j(1) lt tl [of "drop (a_pos a) (a_data a)"] unfolding st by (auto simp: t_def)
    let ?f = "clear_stream_eof (k\<lparr>fp_os := w, bf_base := map_option (\<lambda>b. t @ drop (length t) b) (bf_base k),
        fp_p := Some 0, fp_r := int (length t)\<rparr>)"
    have "srefill h f = (?f, 0)"
      using g k cr s sim kb by (auto simp: srefill_def is_memory_stream_def sim_def Let_def sync_bionic_buffer_fields_def
        clear_stream_eof_def t_def)
    moreover have un: "unread_bytes ?f = t" using kb by (auto simp: unread_bytes_def clear_stream_eof_def)
    moreover have op: "stream_last_op ?f = STDIO_READ" "buffer_ok ?f"
      using kk(2) kb t(3) by (auto simp: last_op_iff clear_stream_eof_def buffer_ok_def)
    moreover have "file_state view ?f (a\<lparr>a_reading := True, a_eof := False\<rparr>)"
      unfolding file_state_def un op using kk t by (simp add: clear_stream_eof_def)
    then have "sim fd view ?f (a\<lparr>a_reading := True, a_eof := False\<rparr>)"
      using kk op by (simp add: sim_def clear_stream_eof_def)
    moreover have "same_stream f ?f" "fp_up ?f = []"
      using kk by (simp_all add: same_stream_def clear_stream_eof_def)
    moreover have "fp_p ?f \<noteq> None" by (simp add: clear_stream_eof_def)
    ultimately show ?thesis using True t(4) by auto
  qed
qed

text \<open>\<open>fgetc\<close> is one step of the file.\<close>

lemma srget_sim:
  assumes reg: "regular_file h fd view" and sim: "sim fd view f a" and rd: "ck_readable f"
    and none: "fp_up f = []" "stream_last_op f = STDIO_READ \<longrightarrow> unread_bytes f = []"
  shows "\<exists>f'. srget h f = (f', snd (a_getc a)) \<and> sim fd view f' (fst (a_getc a)) \<and> same_stream f f'"
proof (cases "a_pos a < length (a_data a)")
  case True
  obtain g where g: "srefill h f = (g, 0)" "sim fd view g (a\<lparr>a_reading := True, a_eof := False\<rparr>)" "same_stream f g"
    "stream_last_op g = STDIO_READ" "unread_bytes g \<noteq> []" "fp_up g = []" "fp_p g \<noteq> None"
    using srefill_sim [OF assms] True by auto
  have "fp_r g > 0"
    using g(2,4,5) by (auto simp: sim_def file_state_def split: prod.splits)
  moreover obtain f' where "take_byte g = (f', uchar (a_data a ! a_pos a))"
    "sim fd view f' (a\<lparr>a_reading := True, a_eof := False, a_pos := a_pos a + 1\<rparr>)" "same_stream g f'"
    using take_byte_sim [OF g(2,4,5,6)] by auto
  moreover have "a_getc a = (a\<lparr>a_reading := True, a_eof := False, a_pos := a_pos a + 1\<rparr>, uchar (a_data a ! a_pos a))"
    using True sim none by (simp add: a_getc_def sim_def)
  ultimately show ?thesis
    using g(1,3,7) sim by (auto simp: srget_def is_memory_stream_def sim_def intro: same_stream_trans)
next
  case False
  then obtain g where "srefill h f = (g, EOF)" "sim fd view g (a\<lparr>a_reading := True, a_eof := True\<rparr>)" "same_stream f g"
    using srefill_sim [OF assms] by auto
  moreover have "a_getc a = (a\<lparr>a_reading := True, a_eof := True\<rparr>, EOF)"
    using False sim none by (simp add: a_getc_def sim_def)
  ultimately show ?thesis
    using sim by (simp add: srget_def is_memory_stream_def sim_def EOF_def)
qed

lemma fgetc_sim:
  assumes reg: "regular_file h fd view" and sim: "sim fd view f a" and rd: "ck_readable f"
  shows "\<exists>f'. fgetc_unlocked_impl h f = (f', snd (a_getc a)) \<and> sim fd view f' (fst (a_getc a)) \<and> same_stream f f'"
proof (cases "fp_up f")
  case (Cons c cs)
  then have r: "stream_last_op f = STDIO_READ"
    using sim by (cases "stream_last_op f") (auto simp: sim_def file_state_def split: prod.splits)
  have "sim fd view (clear_stream_eof (f\<lparr>fp_up := cs\<rparr>)) (a\<lparr>a_pushed := cs, a_pos := a_pos a + 1, a_eof := False\<rparr>)"
    using sim r Cons by (auto simp: sim_def file_state_def clear_stream_eof_def split: prod.splits)
  moreover have "a_pushed a = c # cs" using sim Cons by (simp add: sim_def)
  ultimately show ?thesis
    using Cons by (simp add: fgetc_unlocked_impl_def pop_ungetc_def a_getc_def same_stream_def clear_stream_eof_def)
next
  case Nil
  note fgetc = fgetc_unlocked_impl_def
  show ?thesis
  proof (cases "stream_last_op f = STDIO_READ \<and> fp_r f > 0 \<and> fp_p f \<noteq> None")
    case True
    then have "unread_bytes f \<noteq> []"
      using sim by (auto simp: sim_def file_state_def split: prod.splits)
    with fgetc_buffered_sim [OF sim] True Nil sim show ?thesis
      by (auto simp: fgetc is_memory_stream_def sim_def)
  next
    case False
    have "stream_last_op f = STDIO_READ \<Longrightarrow> fp_r f = int (length (unread_bytes f))"
      using sim by (auto simp: sim_def file_state_def split: prod.splits)
    moreover have "fp_p f = None \<Longrightarrow> unread_bytes f = []" by (simp add: unread_bytes_def)
    ultimately have "stream_last_op f = STDIO_READ \<longrightarrow> unread_bytes f = []"
      using False by fastforce
    from srget_sim [OF reg sim rd Nil this] False Nil sim show ?thesis
      by (auto simp: fgetc is_memory_stream_def sim_def)
  qed
qed

lemma ungetc_sim:
  assumes reg: "regular_file h fd view" and sim: "sim fd view f a" and rd: "ck_readable f"
    and a: "a_reading a" "0 < a_pos a"
  shows "\<exists>f'. ungetc h (uchar c) f = (f', snd (a_ungetc c a)) \<and> sim fd view f' (fst (a_ungetc c a)) \<and> same_stream f f'"
proof -
  have neq: "uchar c \<noteq> EOF" using uchar_bounds [of c] by (simp add: EOF_def)
  obtain w b x where m: "length b = (if ub_size f < 8 then 8 else ub_size f * 2)"
    "sys_malloc h (fp_os f) (if ub_size f < 8 then 8 else ub_size f * 2) = (w, Some (x, b))" "view w = view (fp_os f)"
    by (rule regular_malloc [OF reg, where n = "if ub_size f < 8 then 8 else ub_size f * 2" and w = "fp_os f"])
  define g where "g = (if fp_ur f = ub_size f
     then f\<lparr>fp_os := w, ub_size := (if ub_size f < 8 then 8 else ub_size f * 2)\<rparr> else f)"
  have "ungetc h (uchar c) f = (clear_stream_eof (g\<lparr>fp_up := c # fp_up f\<rparr>), uchar c)"
    using neq rd m sim by (simp add: ungetc_def g_def Let_def sim_def)
  moreover have "sim fd view (clear_stream_eof (g\<lparr>fp_up := c # fp_up f\<rparr>)) (fst (a_ungetc c a))"
    using sim a m(3)
    by (auto simp: sim_def file_state_def clear_stream_eof_def a_ungetc_def g_def unread_bytes_def
        buffer_ok_def stream_last_op_def split: prod.splits option.splits if_splits)
  moreover have "same_stream f (clear_stream_eof (g\<lparr>fp_up := c # fp_up f\<rparr>))"
    by (simp add: g_def same_stream_def clear_stream_eof_def)
  ultimately show ?thesis by (simp add: a_ungetc_def)
qed

lemma put_byte_pending:
  assumes "fp_p f = Some p" "bf_base f = Some b" "p < length b"
  shows "pending_bytes (put_byte f c) = pending_bytes f @ [c]"
  using assms by (simp add: put_byte_def pending_bytes_def take_Suc_conv_app_nth)

text \<open>A byte put behind the pending ones is a byte written at the position of the file.\<close>

lemma put_byte_sim:
  assumes sim: "sim fd view f a" and w: "stream_last_op f = STDIO_WRITE" "\<not> fl_nbf f"
    and pb: "fp_p f = Some p" "bf_base f = Some b" "p < bf_size f" and n: "int (p + 1) + n \<le> int (bf_size f)"
    and app: "snd fd \<longrightarrow> a_pos a = length (a_data a)"
  shows "sim fd view ((put_byte f c)\<lparr>fp_w := n\<rparr>) (fst (a_putc c a)) \<and> same_stream f ((put_byte f c)\<lparr>fp_w := n\<rparr>) \<and>
    stream_last_op ((put_byte f c)\<lparr>fp_w := n\<rparr>) = STDIO_WRITE"
proof -
  let ?f = "(put_byte f c)\<lparr>fp_w := n\<rparr>"
  have len: "length b = bf_size f" "bf_size f < 2 ^ 31" using sim pb by (auto simp: sim_def buffer_ok_def)
  have pend: "pending_bytes ?f = pending_bytes f @ [c]" using put_byte_pending [of f p b c] pb len by simp
  have op: "stream_last_op ?f = STDIO_WRITE" using w pb by (simp add: put_byte_def last_op_iff)
  have "buffer_ok ?f" "room_ok ?f" using pb len n by (auto simp: put_byte_def buffer_ok_def room_ok_def)
  moreover have "fp_up ?f = []" "\<not> fl_eof ?f" "fp_os ?f = fp_os f"
    using sim w pb by (auto simp: sim_def file_state_def put_byte_def split: prod.splits)
  moreover have behind: "ck_append f \<longrightarrow> (case view (fp_os f) of (d, u) \<Rightarrow> u = length d)"
    using sim w app by (cases "pending_bytes f = []") (auto simp: sim_def file_state_def split: prod.splits)
  ultimately have "file_state view ?f (fst (a_putc c a))"
    using sim w pend op pb
    by (auto simp: sim_def file_state_def a_putc_def put_at_append put_byte_def split: prod.splits)
  then show ?thesis
    using sim w op \<open>buffer_ok ?f\<close> pb
    by (auto simp: sim_def file_state_def a_putc_def same_stream_def put_byte_def split: prod.splits)
qed

lemma a_putc_ready:
  "a_putc c (a\<lparr>a_pushed := [], a_eof := False, a_reading := False\<rparr>) = a_putc c a"
  by (simp add: a_putc_def)

lemma swbuf_sim:
  assumes reg: "regular_file h fd view" and sim: "sim fd view f a" and wr: "ck_writable f"
    and app: "snd fd \<longrightarrow> a_pos a = length (a_data a)"
  shows "\<exists>f'. swbuf h f c = (f', uchar c) \<and> sim fd view f' (fst (a_putc c a)) \<and> same_stream f f'"
proof -
  let ?a = "a\<lparr>a_pushed := [], a_eof := False, a_reading := False\<rparr>"
  obtain g where g: "swsetup h f = (g, 0)" "sim fd view g ?a" "same_stream f g" "stream_last_op g = STDIO_WRITE"
    "bf_base g \<noteq> None" "fl_nbf g = fl_nbf f" "fl_nbf f \<longrightarrow> fp_w g = 0"
    using swsetup_sim [OF reg sim wr] by blast
  have mem: "\<not> is_memory_stream f" using sim by (simp add: sim_def is_memory_stream_def)
  obtain d u where v: "view (fp_os g) = (d, u)" by fastforce
  show ?thesis
  proof (cases "fl_nbf f")
    case True
    have st: "pending_bytes g = []" "d = a_data a" "u = a_pos a"
      using g v True by (auto simp: sim_def file_state_def)
    obtain w k where k: "0 < k" "k \<le> length [c]" "sys_write h (fp_os g) (fst fd) [c] = (w, Inr k)"
      "view w = (put_at d u (take k [c]), u + k)"
      by (rule regular_write [OF reg v, of "[c]"]) (use app st in simp_all)
    then have k1: "k = 1" by simp
    have "call_write h g [c] = (g\<lparr>fp_os := w\<rparr>, Some 1)"
      using g(2) k k1 regular_fd [OF reg] by (simp add: stream_basics sim_def)
    then have "swbuf h f c = (g\<lparr>fp_os := w\<rparr>, uchar c)"
      using g True mem by (simp add: swbuf_def stream_buffering_mode_def Let_def)
    moreover have "sim fd view (g\<lparr>fp_os := w\<rparr>) (fst (a_putc c a))"
      using g st k(4) k1
      by (auto simp: sim_def file_state_def a_putc_def stream_last_op_def buffer_ok_def room_ok_def
          pending_bytes_def split: prod.splits option.splits if_splits)
    ultimately show ?thesis using g(3) by (auto simp: same_stream_def)
  next
    case False
    \<comment> \<open>after a flush if need be, there is room\<close>
    obtain k p b where k: "(if buffer_full g then flush_write_buffer h g else (g, 0)) = (k, 0)"
      and ks: "sim fd view k ?a" "same_stream g k" "stream_last_op k = STDIO_WRITE" "fl_nbf k = fl_nbf g"
      and pb: "fp_p k = Some p" "bf_base k = Some b" "p < bf_size k" "bf_size k < 2 ^ 31"
    proof (cases "buffer_full g")
      case True
      obtain k where k: "flush_write_buffer h g = (k, 0)" "sim fd view k ?a" "same_stream g k"
        "stream_last_op k = STDIO_WRITE" "pending_bytes k = []" "fl_nbf k = fl_nbf g" "bf_base k = bf_base g"
        using flush_write_buffer_sim [OF reg g(2,4)] by blast
      obtain b where b: "bf_base k = Some b" using k g by auto
      then obtain p where p: "fp_p k = Some p" "p \<le> length b" "length b = bf_size k" "0 < bf_size k" "bf_size k < 2 ^ 31"
        using k(2) by (auto simp: sim_def buffer_ok_def split: option.splits)
      with k(5) b have "p = 0" by (auto simp: pending_bytes_def)
      with that [of k p b] True k b p show ?thesis by simp
    next
      case False
      obtain b where b: "bf_base g = Some b" using g by auto
      then obtain p where p: "fp_p g = Some p" "p \<le> bf_size g" "bf_size g < 2 ^ 31"
        using g(2) by (auto simp: sim_def buffer_ok_def split: option.splits)
      with False have "p < bf_size g" by (auto simp: buffer_full_def)
      with that [of g p b] False g p b show ?thesis by simp
    qed
    let ?put = "put_byte k c"
    have room: "room_left ?put = int (bf_size k - (p + 1))"
      using pb by (simp add: room_left_def put_byte_def)
    have put: "sim fd view (?put\<lparr>fp_w := room_left ?put\<rparr>) (fst (a_putc c a))"
        "same_stream k (?put\<lparr>fp_w := room_left ?put\<rparr>)" "stream_last_op (?put\<lparr>fp_w := room_left ?put\<rparr>) = STDIO_WRITE"
      using put_byte_sim [OF ks(1,3) _ pb(1-3), of "room_left ?put" c] ks(4) g(6) False pb(3) app
      by (simp_all add: room a_putc_ready)
    let ?k = "?put\<lparr>fp_w := room_left ?put\<rparr>"
    have sync: "sync_bionic_buffer_fields ?k = ?k"
      using pb by (simp add: sync_bionic_buffer_fields_def put_byte_def)
    obtain gb gp where ready: "bf_base g = Some gb" "fp_p g = Some gp" "bf_size g \<noteq> 0"
      using g(2,5) by (auto simp: sim_def buffer_ok_def split: option.splits)
    have mode: "stream_buffering_mode g \<noteq> IONBF" using False g by (simp add: stream_buffering_mode_def)
    obtain j where j: "(if buffer_full ?k \<or> stream_buffering_mode ?k = IOLBF \<and> c = CHR 0x0A
         then flush_write_buffer h ?k else (?k, 0)) = (j, 0)"
      "sim fd view j (fst (a_putc c a))" "same_stream ?k j"
    proof (cases "buffer_full ?k \<or> stream_buffering_mode ?k = IOLBF \<and> c = CHR 0x0A")
      case True
      with flush_write_buffer_sim [OF reg put(1,3)] that show ?thesis by auto
    next
      case False
      with that [of ?k] put show ?thesis by (simp only: if_False same_stream_refl)
    qed
    have j': "(if buffer_full ?k \<or> stream_buffering_mode ?k = IOLBF \<and> c = CHR 0x0A
         then flush_write_buffer h (sync_bionic_buffer_fields ?k) else (sync_bionic_buffer_fields ?k, 0)) = (j, 0)"
      unfolding sync by (rule j(1))
    have "swbuf h f c = (j, uchar c)"
      by (simp add: swbuf_def Let_def mem g(1) mode ready k sync j' split del: if_split)
    moreover have "same_stream f j" using g(3) ks(2) put(2) j(3) by (metis same_stream_trans)
    ultimately show ?thesis using j(2) by blast
  qed
qed

lemma sflush_sim:
  assumes reg: "regular_file h fd view" and sim: "sim fd view f a"
  shows "\<exists>f'. sflush h f = (f', 0) \<and> sim fd view f' (fst (a_flush a)) \<and> same_stream f f' \<and>
    view (fp_os f') = (a_data a, a_pos a)"
proof (cases "stream_last_op f")
  case STDIO_NONE
  then have "fp_up f = []" "view (fp_os f) = (a_data a, a_pos a)"
    using sim by (auto simp: sim_def file_state_def split: prod.splits)
  moreover from this have "a\<lparr>a_pushed := []\<rparr> = a" using sim by (cases a) (simp add: sim_def)
  ultimately show ?thesis
    using STDIO_NONE sim by (simp add: sflush_def is_memory_stream_def sim_def a_flush_def)
next
  case STDIO_READ
  with discard_read_buffer_sim [OF assms STDIO_READ] sim show ?thesis
    by (auto simp: sflush_def is_memory_stream_def sim_def a_flush_def)
next
  case STDIO_WRITE
  obtain g where g: "flush_write_buffer h f = (g, 0)" "sim fd view g a" "same_stream f g"
    "stream_last_op g = STDIO_WRITE" "pending_bytes g = []"
    using flush_write_buffer_sim [OF assms STDIO_WRITE] by blast
  have "a_pushed a = []" using sim STDIO_WRITE by (auto simp: sim_def file_state_def split: prod.splits)
  then have "a\<lparr>a_pushed := []\<rparr> = a" by (cases a) simp
  moreover have "view (fp_os g) = (a_data a, a_pos a)"
    using g by (auto simp: sim_def file_state_def split: prod.splits)
  ultimately show ?thesis
    using g STDIO_WRITE sim by (auto simp: sflush_def is_memory_stream_def sim_def a_flush_def)
qed

lemma fputc_sim:
  assumes reg: "regular_file h fd view" and sim: "sim fd view f a" and wr: "ck_writable f"
    and app: "snd fd \<longrightarrow> a_pos a = length (a_data a)"
  shows "\<exists>f'. fputc_unlocked_impl h f c = (f', uchar c) \<and> sim fd view f' (fst (a_putc c a)) \<and> same_stream f f'"
proof -
  have mem: "\<not> is_memory_stream f" using sim by (simp add: sim_def is_memory_stream_def)
  show ?thesis
  proof (cases "stream_last_op f = STDIO_WRITE \<and> stream_buffering_mode f \<noteq> IONBF \<and>
      fp_p f \<noteq> None \<and> bf_base f \<noteq> None \<and> fp_w f > 0")
    case False
    with swbuf_sim [OF assms] mem show ?thesis by (simp only: fputc_unlocked_impl_def if_False)
  next
    case True
    then obtain p b where pb: "fp_p f = Some p" "bf_base f = Some b" and w: "fp_w f > 0" by auto
    have nbf: "\<not> fl_nbf f" using True by (auto simp: stream_buffering_mode_def)
    have "length b = bf_size f" using sim pb by (simp add: sim_def buffer_ok_def)
    moreover have "int p + fp_w f \<le> int (length b)"
      using sim True pb by (auto simp: sim_def file_state_def room_ok_def split: prod.splits)
    ultimately have room: "p < bf_size f" "int (p + 1) + (fp_w f - 1) \<le> int (bf_size f)" using w by linarith+
    let ?f = "put_byte (f\<lparr>fp_w := fp_w f - 1\<rparr>) c"
    have eq: "?f = (put_byte f c)\<lparr>fp_w := fp_w f - 1\<rparr>" using pb by (simp add: put_byte_def)
    have put: "sim fd view ?f (fst (a_putc c a))" "same_stream f ?f" "stream_last_op ?f = STDIO_WRITE"
      using put_byte_sim [OF sim _ nbf pb room app] True unfolding eq by auto
    show ?thesis
    proof (cases "stream_buffering_mode f = IOLBF \<and> c = CHR 0x0A")
      case False
      have "stream_buffering_mode ?f = stream_buffering_mode f"
        using pb by (simp add: put_byte_def stream_buffering_mode_def)
      with False True mem have "fputc_unlocked_impl h f c = (?f, uchar c)"
        by (auto simp: fputc_unlocked_impl_def Let_def)
      with put show ?thesis by blast
    next
      case lf: True
      have "stream_buffering_mode ?f = stream_buffering_mode f"
        using pb by (simp add: put_byte_def stream_buffering_mode_def)
      obtain g where g: "sflush h ?f = (g, 0)" "sim fd view g (fst (a_flush (fst (a_putc c a))))" "same_stream ?f g"
        using sflush_sim [OF reg put(1)] by blast
      have "fputc_unlocked_impl h f c = (g, uchar c)"
        using lf True mem g(1) \<open>stream_buffering_mode ?f = _\<close> by (auto simp: fputc_unlocked_impl_def Let_def)
      moreover have "fst (a_flush (fst (a_putc c a))) = fst (a_putc c a)" by (simp add: a_flush_def a_putc_def)
      ultimately show ?thesis using g put(2) by (auto intro: same_stream_trans)
    qed
  qed
qed

lemma stream_tell_sim:
  assumes reg: "regular_file h fd view" and sim: "sim fd view f a"
  shows "\<exists>f'. stream_tell h f = (f', snd (a_tell a)) \<and> sim fd view f' a \<and> same_stream f f'"
proof -
  obtain d u where v: "view (fp_os f) = (d, u)" by fastforce
  obtain w where "sys_lseek h (fp_os f) (fst fd) 0 SEEK_CUR = (w, Inr (int u))" and w: "view w = (d, u)"
    using regular_seek [OF reg v, of SEEK_CUR 0] by (auto simp: seek_target_def)
  then have call: "call_seek h f 0 SEEK_CUR = (f\<lparr>fp_os := w\<rparr>, Some (int u))"
    using sim regular_fd [OF reg] by (simp add: stream_basics sim_def)
  have "sim fd view (f\<lparr>fp_os := w\<rparr>) a" using sim v w by (simp add: sim_os)
  moreover have "stream_tell h f = (f\<lparr>fp_os := w\<rparr>, int (a_pos a))"
  proof (cases "stream_last_op f")
    case STDIO_WRITE
    then have "a_pos a = u + length (pending_bytes f)" using sim v by (auto simp: sim_def file_state_def)
    moreover have "length (pending_bytes f) = (case fp_p f of Some p \<Rightarrow> p | None \<Rightarrow> 0)"
      using sim by (auto simp: sim_def buffer_ok_def pending_bytes_def split: option.splits)
    moreover have "bf_base f = None \<longrightarrow> fp_p f = None" using sim by (auto simp: sim_def buffer_ok_def split: option.splits)
    ultimately show ?thesis
      using call sim STDIO_WRITE by (auto simp: stream_tell_def sim_def has_seek_def seek_failed_def split: option.splits)
  next
    case STDIO_READ
    then have "fp_r f = int (length (unread_bytes f))" "u = a_pos a + fp_ur f + length (unread_bytes f)"
      using sim v by (auto simp: sim_def file_state_def)
    then show ?thesis
      using call sim STDIO_READ by (simp add: stream_tell_def sim_def has_seek_def seek_failed_def)
  next
    case STDIO_NONE
    then show ?thesis
      using call sim v by (auto simp: stream_tell_def sim_def has_seek_def seek_failed_def file_state_def)
  qed
  ultimately show ?thesis by (auto simp: a_tell_def same_stream_def)
qed

lemma reset_none_sim:
  assumes sim: "sim fd view f a" and w: "view w = (d, u)"
  defines "f' \<equiv> (reset_buffer_state (clear_stream_eof (f\<lparr>fp_os := w\<rparr>)))\<lparr>fl_rd := False, fl_wr := False\<rparr>"
  shows "sim fd view f' \<lparr>a_data = d, a_pos = u, a_pushed = [], a_eof = False, a_reading = False\<rparr> \<and> same_stream f f'"
  using assms(1,2) unfolding f'_def
  by (auto simp: sim_def file_state_def stream_basics same_stream_def split: option.splits if_splits)

lemma stream_seek_sim:
  assumes reg: "regular_file h fd view" and sim: "sim fd view f a" and wh: "whence_ok whence"
  shows "\<exists>f'. stream_seek h f off whence = (f', snd (a_seek off whence a)) \<and> sim fd view f' (fst (a_seek off whence a)) \<and>
    ck_readable f' = ck_readable f \<and> ck_writable f' = ck_writable f"
proof -
  obtain g where g: "(if stream_last_op f = STDIO_WRITE then fflush h f else (f, 0)) = (g, 0)"
      "sim fd view g a" "same_stream f g"
  proof (cases "stream_last_op f = STDIO_WRITE")
    case True
    obtain g where "sflush h f = (g, 0)" "sim fd view g (fst (a_flush a))" "same_stream f g"
      using sflush_sim [OF reg sim] by blast
    moreover have "fst (a_flush a) = a"
      using sim True by (cases a) (auto simp: a_flush_def sim_def file_state_def split: prod.splits)
    ultimately show ?thesis using that True by (simp add: fflush_def)
  qed (use that sim in simp)
  obtain d u where v: "view (fp_os g) = (d, u)" by fastforce
  define adj where "adj = (if stream_last_op g = STDIO_READ \<and> whence = SEEK_CUR then off - fp_r g - int (fp_ur g) else off)"
  obtain k where k: "k = g" by simp
  have flushed: "stream_last_op g = STDIO_WRITE \<Longrightarrow> d = a_data a \<and> u = a_pos a"
  proof -
    assume "stream_last_op g = STDIO_WRITE"
    have "view (fp_os g) = (a_data a, a_pos a)"
    proof (cases "stream_last_op f = STDIO_WRITE")
      case True
      with g(1) sflush_sim [OF reg sim] show ?thesis by (auto simp: fflush_def)
    next
      case False
      with g(1) \<open>stream_last_op g = STDIO_WRITE\<close> show ?thesis by simp
    qed
    with v show ?thesis by simp
  qed
  have d: "d = a_data a" and target: "seek_target d u adj whence = seek_target (a_data a) (a_pos a) off whence"
  proof -
    have "d = a_data a \<and> seek_target d u adj whence = seek_target (a_data a) (a_pos a) off whence"
    proof (cases "stream_last_op g")
      case STDIO_NONE
      then show ?thesis using g(2) v by (simp add: sim_def file_state_def adj_def)
    next
      case STDIO_READ
      then have "a_data a = d" "fp_r g = int (length (unread_bytes g))"
        "u = a_pos a + fp_ur g + length (unread_bytes g)"
        using g(2) v by (simp_all add: sim_def file_state_def)
      with STDIO_READ show ?thesis by (simp add: adj_def seek_target_def)
    next
      case STDIO_WRITE
      then show ?thesis using flushed by (simp add: adj_def)
    qed
    then show "d = a_data a" "seek_target d u adj whence = seek_target (a_data a) (a_pos a) off whence" by auto
  qed
  let ?t = "seek_target (a_data a) (a_pos a) off whence"
  have seek: "stream_seek h f off whence = (case call_seek h g adj whence of (f, off) \<Rightarrow>
      if seek_failed off then (set_stream_error f, -1)
      else ((reset_buffer_state (clear_stream_eof f))\<lparr>fl_rd := False, fl_wr := False\<rparr>, 0))"
    using sim g(1) by (simp add: stream_seek_def sim_def has_seek_def adj_def Let_def split: prod.splits)
  show ?thesis
  proof (cases "?t < 0")
    case True
    obtain w e where "sys_lseek h (fp_os g) (fst fd) adj whence = (w, Inl e)" and w: "view w = (d, u)"
      using regular_seek_fails [OF reg v wh, of adj] True unfolding target by blast
    then have "call_seek h g adj whence = (g\<lparr>fp_os := w, fp_errno := e\<rparr>, None)"
      using g(2) regular_fd [OF reg] by (simp add: stream_basics sim_def)
    then have "stream_seek h f off whence = (set_stream_error (g\<lparr>fp_os := w, fp_errno := e\<rparr>), -1)"
      using seek by (simp add: seek_failed_def)
    moreover have "sim fd view (set_stream_error (g\<lparr>fp_os := w, fp_errno := e\<rparr>)) a"
      using g(2) v w by (simp add: sim_def file_state_def set_stream_error_def split: last_op.splits)
    ultimately show ?thesis
      using True g(3) by (simp add: a_seek_def Let_def set_stream_error_def same_stream_def)
  next
    case False
    obtain w where "sys_lseek h (fp_os g) (fst fd) adj whence = (w, Inr ?t)" and w: "view w = (d, nat ?t)"
      using regular_seek [OF reg v wh, of adj] False unfolding target not_less by blast
    then have "call_seek h g adj whence = (g\<lparr>fp_os := w\<rparr>, Some ?t)"
      using g(2) regular_fd [OF reg] by (simp add: stream_basics sim_def)
    then have "stream_seek h f off whence =
        ((reset_buffer_state (clear_stream_eof (g\<lparr>fp_os := w\<rparr>)))\<lparr>fl_rd := False, fl_wr := False\<rparr>, 0)"
      using seek False by (simp add: seek_failed_def)
    moreover have "fst (a_seek off whence a) =
        \<lparr>a_data = a_data a, a_pos = nat ?t, a_pushed = [], a_eof = False, a_reading = False\<rparr>"
        "snd (a_seek off whence a) = 0"
      using False by (cases a; simp add: a_seek_def)+
    ultimately show ?thesis
      using reset_none_sim [OF g(2) w] g(3) d by (simp add: same_stream_def)
  qed
qed

text \<open>The buffer that \<open>setvbuf\<close> may be given: of the size stated, which an \<open>int\<close> holds; without
  one, the stream allocates its own.\<close>

definition buffer_arg_ok :: "string option \<Rightarrow> nat \<Rightarrow> bool" where
  "buffer_arg_ok buf n \<longleftrightarrow> n < 2 ^ 31 \<and> (case buf of None \<Rightarrow> True | Some b \<Rightarrow> length b = n)"

definition a_setvbuf :: "afile \<Rightarrow> afile \<times> int" where
  "a_setvbuf a = (a\<lparr>a_pushed := [], a_reading := False\<rparr>, 0)"

lemma setvbuf_sim:
  assumes reg: "regular_file h fd view" and sim: "sim fd view f a" and arg: "buffer_arg_ok buf n"
    and mode: "mode \<in> {0, 1, 2}"
  shows "\<exists>f'. setvbuf h f buf mode n = (f', snd (a_setvbuf a)) \<and> sim fd view f' (fst (a_setvbuf a)) \<and> same_stream f f'"
proof -
  obtain g where g: "sflush h f = (g, 0)" "sim fd view g (fst (a_flush a))" "same_stream f g"
    "view (fp_os g) = (a_data a, a_pos a)"
    using sflush_sim [OF reg sim] by blast
  define k where "k = (if mode = 2
    then (g\<lparr>fl_mbf := False, fl_nbf := False, fl_lbf := False\<rparr>)\<lparr>fl_nbf := True, bf_base := None, bf_size := 0\<rparr>
    else (g\<lparr>fl_mbf := False, fl_nbf := False, fl_lbf := False\<rparr>)\<lparr>fl_lbf := (mode = 1),
           bf_base := (if n = 0 then None else buf), bf_size := n\<rparr>)"
  have "setvbuf h f buf mode n = ((reset_buffer_state k)\<lparr>fl_rd := False, fl_wr := False\<rparr>, 0)"
    using mode g(1) by (auto simp: setvbuf_def fflush_def k_def Let_def)
  moreover have "sim fd view ((reset_buffer_state k)\<lparr>fl_rd := False, fl_wr := False\<rparr>) (fst (a_setvbuf a))"
    using g(2,4) arg
    by (auto simp: sim_def file_state_def stream_basics k_def a_setvbuf_def a_flush_def buffer_arg_ok_def
        split: option.splits if_splits)
  moreover have "same_stream f ((reset_buffer_state k)\<lparr>fl_rd := False, fl_wr := False\<rparr>)"
    using g(3) by (simp add: same_stream_def k_def reset_buffer_state_def sync_bionic_buffer_fields_def)
  ultimately show ?thesis by (simp add: a_setvbuf_def)
qed

subsection \<open>Any sequence of operations\<close>

datatype file_op = Getc | Putc char | Ungetc char | Flush | Seek int int | Tell
  | Setvbuf "string option" int nat

definition run_op :: "'w host \<Rightarrow> file_op \<Rightarrow> 'w FILE \<Rightarrow> 'w FILE \<times> int" where
  "run_op h x f = (case x of
     Getc \<Rightarrow> fgetc_unlocked_impl h f
   | Putc c \<Rightarrow> fputc_unlocked_impl h f c
   | Ungetc c \<Rightarrow> ungetc h (uchar c) f
   | Flush \<Rightarrow> fflush h f
   | Seek off whence \<Rightarrow> fseek h f off whence
   | Tell \<Rightarrow> ftell h f
   | Setvbuf buf mode n \<Rightarrow> setvbuf h f buf mode n)"

definition file_step :: "file_op \<Rightarrow> afile \<Rightarrow> afile \<times> int" where
  "file_step x a = (case x of
     Getc \<Rightarrow> a_getc a
   | Putc c \<Rightarrow> a_putc c a
   | Ungetc c \<Rightarrow> a_ungetc c a
   | Flush \<Rightarrow> a_flush a
   | Seek off whence \<Rightarrow> a_seek off whence a
   | Tell \<Rightarrow> a_tell a
   | Setvbuf buf mode n \<Rightarrow> a_setvbuf a)"

text \<open>What the caller may do: read a stream open for reading and write one open for writing, one open
  for appending only at the end of the file, push back behind the start of the file while reading, and
  pass valid arguments.\<close>

definition op_ok :: "bool \<Rightarrow> bool \<Rightarrow> bool \<Rightarrow> file_op \<Rightarrow> afile \<Rightarrow> bool" where
  "op_ok app rd wr x a = (case x of
     Getc \<Rightarrow> rd
   | Putc c \<Rightarrow> wr \<and> (app \<longrightarrow> a_pos a = length (a_data a))
   | Ungetc c \<Rightarrow> rd \<and> a_reading a \<and> 0 < a_pos a
   | Seek off whence \<Rightarrow> whence_ok whence
   | Setvbuf buf mode n \<Rightarrow> buffer_arg_ok buf n \<and> mode \<in> {0, 1, 2}
   | _ \<Rightarrow> True)"

primrec run_ops :: "('s \<Rightarrow> 's \<times> int) list \<Rightarrow> 's \<Rightarrow> 's \<times> int list" where
  "run_ops [] f = (f, [])"
| "run_ops (x # xs) f = (case x f of (f, r) \<Rightarrow> case run_ops xs f of (f, rs) \<Rightarrow> (f, r # rs))"

primrec ops_ok :: "bool \<Rightarrow> bool \<Rightarrow> bool \<Rightarrow> file_op list \<Rightarrow> afile \<Rightarrow> bool" where
  "ops_ok app rd wr [] a = True"
| "ops_ok app rd wr (x # xs) a = (op_ok app rd wr x a \<and> ops_ok app rd wr xs (fst (file_step x a)))"

lemma run_op_sim:
  assumes reg: "regular_file h fd view" and sim: "sim fd view f a"
    and ok: "op_ok (snd fd) (ck_readable f) (ck_writable f) x a"
  shows "\<exists>f'. run_op h x f = (f', snd (file_step x a)) \<and> sim fd view f' (fst (file_step x a)) \<and>
    ck_readable f' = ck_readable f \<and> ck_writable f' = ck_writable f"
proof (cases x)
  case Getc
  with fgetc_sim [OF reg sim] ok show ?thesis by (auto simp: run_op_def file_step_def op_ok_def same_stream_def)
next
  case (Putc c)
  with fputc_sim [OF reg sim, of c] ok show ?thesis
    by (auto simp: run_op_def file_step_def op_ok_def same_stream_def a_putc_def)
next
  case (Ungetc c)
  with ungetc_sim [OF reg sim, of c] ok show ?thesis
    by (auto simp: run_op_def file_step_def op_ok_def same_stream_def)
next
  case Flush
  with sflush_sim [OF reg sim] show ?thesis
    by (auto simp: run_op_def file_step_def same_stream_def fflush_def a_flush_def)
next
  case (Seek off whence)
  with stream_seek_sim [OF reg sim, of whence off] ok show ?thesis
    by (auto simp: run_op_def file_step_def op_ok_def fseek_def)
next
  case Tell
  with stream_tell_sim [OF reg sim] show ?thesis
    by (auto simp: run_op_def file_step_def same_stream_def ftell_def a_tell_def)
next
  case (Setvbuf buf mode n)
  with setvbuf_sim [OF reg sim, of buf n mode] ok show ?thesis
    by (auto simp: run_op_def file_step_def op_ok_def same_stream_def)
qed

lemma run_ops_sim:
  assumes "regular_file h fd view" "sim fd view f a" "ops_ok (snd fd) (ck_readable f) (ck_writable f) xs a"
  shows "\<exists>f'. run_ops (map (run_op h) xs) f = (f', snd (run_ops (map file_step xs) a)) \<and>
    sim fd view f' (fst (run_ops (map file_step xs) a))"
  using assms
proof (induction xs arbitrary: f a)
  case (Cons x xs)
  obtain g where g: "run_op h x f = (g, snd (file_step x a))" "sim fd view g (fst (file_step x a))"
    "ck_readable g = ck_readable f" "ck_writable g = ck_writable f"
    using run_op_sim [OF Cons.prems(1,2)] Cons.prems(3) by auto
  with Cons.IH [OF Cons.prems(1) g(2)] Cons.prems(3) show ?case by (auto split: prod.splits)
qed auto

text \<open>A stream just opened on a descriptor.\<close>

definition opened_file :: "string \<Rightarrow> nat \<Rightarrow> oflags \<Rightarrow> afile" where
  "opened_file d u flags = \<lparr>a_data = d, a_pos = (if o_append flags then length d else u), a_pushed = [],
     a_eof = False, a_reading = (o_access flags = O_RDONLY)\<rparr>"

lemma new_stream_sim:
  fixes e fd :: int and flags :: oflags
  assumes v: "view w = (d, u)"
  defines "f \<equiv> bionic_flags_from_mode_flags flags
    (new_stream w e fd True (o_access flags \<noteq> O_WRONLY) (o_access flags \<noteq> O_RDONLY) (o_append flags) True)"
  shows "sim (fd, o_append flags) view f
    \<lparr>a_data = d, a_pos = u, a_pushed = [], a_eof = False, a_reading = (o_access flags = O_RDONLY)\<rparr>"
  using v unfolding f_def
  by (cases "o_access flags")
    (simp_all add: bionic_flags_from_mode_flags_def new_stream_def sim_def file_state_def stream_basics)

lemma open_stream_sim:
  fixes e fd :: int and flags :: oflags
  assumes reg: "regular_file h (fd, o_append flags) view" and v: "view w = (d, u)"
  defines "f \<equiv> open_stream h flags
    (new_stream w e fd True (o_access flags \<noteq> O_WRONLY) (o_access flags \<noteq> O_RDONLY) (o_append flags) True)"
  shows "sim (fd, o_append flags) view f (opened_file d u flags)"
    "ck_readable f = (o_access flags \<noteq> O_WRONLY)" "ck_writable f = (o_access flags \<noteq> O_RDONLY)"
proof -
  let ?g = "\<lambda>w. bionic_flags_from_mode_flags flags
    (new_stream w e fd True (o_access flags \<noteq> O_WRONLY) (o_access flags \<noteq> O_RDONLY) (o_append flags) True)"
  note init = bionic_flags_from_mode_flags_def new_stream_def
  obtain w' where "sys_lseek h w fd 0 SEEK_END = (w', Inr (int (length d)))" and w': "view w' = (d, length d)"
    using regular_seek [OF reg v, of SEEK_END 0] by (auto simp: seek_target_def)
  then have "call_seek h (?g w) 0 SEEK_END = (?g w', Some (int (length d)))"
    using regular_fd [OF reg] by (simp add: init stream_basics)
  then have op: "f = (if o_append flags then ?g w' else ?g w)"
    by (cases "o_append flags") (simp_all add: f_def open_stream_def Let_def)
  show "sim (fd, o_append flags) view f (opened_file d u flags)"
    unfolding op opened_file_def
    using new_stream_sim [where view = view and flags = flags and fd = fd and e = e, OF v]
      new_stream_sim [where view = view and flags = flags and fd = fd and e = e, OF w']
    by (cases "o_append flags") simp_all
  show "ck_readable f = (o_access flags \<noteq> O_WRONLY)" "ck_writable f = (o_access flags \<noteq> O_RDONLY)"
    unfolding op by (simp_all add: init)
qed

lemma fopen_sim:
  assumes reg: "regular_file h (fd, o_append flags) view" and op: "parse_mode mode = Some flags"
    "sys_open h w path flags = (w', Inr fd)" "view w' = (d, u)"
  obtains f where "fopen h w e path mode = Inr f" "sim (fd, o_append flags) view f (opened_file d u flags)"
    "ck_readable f = (o_access flags \<noteq> O_WRONLY)" "ck_writable f = (o_access flags \<noteq> O_RDONLY)"
proof -
  obtain w1 a1 b1 where m1: "sys_malloc h w' (sizeof_FILE h) = (w1, Some (a1, b1))" "view w1 = view w'"
    by (rule regular_malloc [OF reg])
  obtain w2 a2 b2 where m2: "sys_malloc h w1 (sizeof_ext h) = (w2, Some (a2, b2))" "view w2 = view w1"
    by (rule regular_malloc [OF reg])
  obtain w3 a3 b3 where m3: "sys_malloc h w2 (sizeof_cookie h) = (w3, Some (a3, b3))" "view w3 = view w2"
    by (rule regular_malloc [OF reg])
  have v: "view w3 = (d, u)" using m1(2) m2(2) m3(2) op(3) by simp
  note sim = open_stream_sim [OF reg v, of e]
  have "fopen h w e path mode = Inr (open_stream h flags (new_stream w3 e fd True (o_access flags \<noteq> O_WRONLY)
      (o_access flags \<noteq> O_RDONLY) (o_append flags) True))"
    using op(1,2) m1(1) m2(1) m3(1) by (simp add: fopen_def init_stream_def)
  with sim show ?thesis using that by blast
qed

text \<open>From opening to flushing: the results are those of the file, and the file holds what was
  written.\<close>

lemma stream_is_file:
  assumes reg: "regular_file h (fd, o_append flags) view" and op: "parse_mode mode = Some flags"
    "sys_open h w path flags = (w', Inr fd)" "view w' = (d, u)"
    and ok: "ops_ok (o_append flags) (o_access flags \<noteq> O_WRONLY) (o_access flags \<noteq> O_RDONLY) xs (opened_file d u flags)"
  shows "\<exists>f f' f''. fopen h w e path mode = Inr f \<and>
    run_ops (map (run_op h) xs) f = (f', snd (run_ops (map file_step xs) (opened_file d u flags))) \<and>
    fflush h f' = (f'', 0) \<and>
    view (fp_os f'') = (let a = fst (run_ops (map file_step xs) (opened_file d u flags)) in (a_data a, a_pos a))"
proof -
  obtain f where f: "fopen h w e path mode = Inr f" "sim (fd, o_append flags) view f (opened_file d u flags)"
    "ck_readable f = (o_access flags \<noteq> O_WRONLY)" "ck_writable f = (o_access flags \<noteq> O_RDONLY)"
    by (rule fopen_sim [OF reg op])
  obtain f' where f': "run_ops (map (run_op h) xs) f = (f', snd (run_ops (map file_step xs) (opened_file d u flags)))"
    "sim (fd, o_append flags) view f' (fst (run_ops (map file_step xs) (opened_file d u flags)))"
    using run_ops_sim [OF reg f(2), of xs] ok f(3,4) by auto
  with f(1) show ?thesis
    using sflush_sim [OF reg f'(2)] by (auto simp: fflush_def Let_def)
qed

end
