(* ===== verification/CRT_Lines.thy ===== *)
theory CRT_Lines
  imports CRT_Stream
begin

text \<open>
  The operations on strings, blocks and lines, proved once against two small interfaces: a
  \<open>byte_source\<close> gives the bytes of a text one after the other and then the end of file, a
  \<open>byte_sink\<close> takes them as long as it has room. Streams over a regular file provide both, and so do
  the memory streams.
\<close>

subsection \<open>The interfaces\<close>

definition first_line :: "char \<Rightarrow> string \<Rightarrow> string" where
  "first_line d s = takeWhile (\<lambda>c. c \<noteq> d) s @ (if d \<in> set s then [d] else [])"

lemma first_line_simps [simp]:
  "first_line d [] = []" "first_line d (c # s) = (if c = d then [c] else c # first_line d s)"
  by (auto simp: first_line_def)

lemma first_line_prefix: "first_line d s = take (length (first_line d s)) s"
  by (induction s) auto

locale byte_source =
  fixes getc :: "'s \<Rightarrow> 's \<times> int"
    and text_left :: "'s \<Rightarrow> string"
    and readable :: "'s \<Rightarrow> bool"
  assumes get_byte: "readable s \<Longrightarrow> text_left s = c # cs \<Longrightarrow>
      \<exists>s'. getc s = (s', uchar c) \<and> text_left s' = cs \<and> readable s'"
    and get_end: "readable s \<Longrightarrow> text_left s = [] \<Longrightarrow>
      \<exists>s'. getc s = (s', EOF) \<and> text_left s' = [] \<and> readable s'"
begin

lemma get_loop_all:
  "readable s \<Longrightarrow> \<exists>s'. get_loop getc (\<lambda>_. False) n s = (s', take n (text_left s)) \<and>
     text_left s' = drop n (text_left s) \<and> readable s'"
proof (induction n arbitrary: s)
  case (Suc n)
  show ?case
  proof (cases "text_left s")
    case Nil
    with get_end [OF Suc.prems] show ?thesis by auto
  next
    case (Cons c cs)
    then obtain s' where s': "getc s = (s', uchar c)" "text_left s' = cs" "readable s'"
      using get_byte [OF Suc.prems] by auto
    have "uchar c \<noteq> EOF" using uchar_bounds [of c] by (simp add: EOF_def)
    with Suc.IH [OF s'(3)] s' Cons show ?thesis by auto
  qed
qed auto

lemma get_loop_line:
  "readable s \<Longrightarrow> \<exists>s'. get_loop getc (\<lambda>c. c = d) n s = (s', take n (first_line d (text_left s))) \<and>
     text_left s' = drop (length (take n (first_line d (text_left s)))) (text_left s) \<and> readable s'"
proof (induction n arbitrary: s)
  case (Suc n)
  show ?case
  proof (cases "text_left s")
    case Nil
    with get_end [OF Suc.prems] show ?thesis by auto
  next
    case (Cons c cs)
    then obtain s' where s': "getc s = (s', uchar c)" "text_left s' = cs" "readable s'"
      using get_byte [OF Suc.prems] by auto
    have "uchar c \<noteq> EOF" using uchar_bounds [of c] by (simp add: EOF_def)
    with Suc.IH [OF s'(3)] s' Cons show ?thesis by (cases "c = d") auto
  qed
qed auto

end

locale byte_sink =
  fixes putc :: "'s \<Rightarrow> char \<Rightarrow> 's \<times> int"
    and written :: "'s \<Rightarrow> string"
    and room :: "nat \<Rightarrow> 's \<Rightarrow> bool"
  assumes put_byte: "room (Suc n) s \<Longrightarrow> \<exists>s'. putc s c = (s', uchar c) \<and> written s' = written s @ [c] \<and> room n s'"
begin

lemma put_loop_all:
  "room (length cs + n) s \<Longrightarrow>
     \<exists>s'. put_loop putc s cs = (s', length cs) \<and> written s' = written s @ cs \<and> room n s'"
proof (induction cs arbitrary: s)
  case (Cons c cs)
  obtain s' where s': "putc s c = (s', uchar c)" "written s' = written s @ [c]" "room (length cs + n) s'"
    using put_byte [of "length cs + n" s c] Cons.prems by auto
  have "uchar c \<noteq> EOF" using uchar_bounds [of c] by (simp add: EOF_def)
  with Cons.IH [OF s'(3)] s' show ?case by auto
qed auto

end

subsection \<open>Streams over a regular file\<close>

text \<open>The file that a stream stands for.\<close>

definition file_of :: "('w \<Rightarrow> string \<times> nat) \<Rightarrow> 'w FILE \<Rightarrow> afile" where
  "file_of view f = (case view (fp_os f) of (d, u) \<Rightarrow>
     case stream_last_op f of
       STDIO_NONE \<Rightarrow> \<lparr>a_data = d, a_pos = u, a_pushed = fp_up f, a_eof = fl_eof f, a_reading = False\<rparr>
     | STDIO_WRITE \<Rightarrow> \<lparr>a_data = put_at d u (pending_bytes f), a_pos = u + length (pending_bytes f),
         a_pushed = fp_up f, a_eof = fl_eof f, a_reading = False\<rparr>
     | STDIO_READ \<Rightarrow> \<lparr>a_data = d, a_pos = u - fp_ur f - length (unread_bytes f),
         a_pushed = fp_up f, a_eof = fl_eof f, a_reading = True\<rparr>)"

lemma sim_file_of: "sim fd view f a \<Longrightarrow> a = file_of view f"
  by (cases a) (auto simp: sim_def file_state_def file_of_def split: prod.splits last_op.splits)

definition a_rest :: "afile \<Rightarrow> string" where
  "a_rest a = a_pushed a @ drop (a_pos a + length (a_pushed a)) (a_data a)"

definition file_source :: "'w host \<Rightarrow> descriptor \<Rightarrow> ('w \<Rightarrow> string \<times> nat) \<Rightarrow> 'w FILE \<Rightarrow> bool" where
  "file_source h fd view f \<longleftrightarrow> regular_file h fd view \<and> sim fd view f (file_of view f) \<and> ck_readable f"

definition file_sink :: "'w host \<Rightarrow> descriptor \<Rightarrow> ('w \<Rightarrow> string \<times> nat) \<Rightarrow> nat \<Rightarrow> 'w FILE \<Rightarrow> bool" where
  "file_sink h fd view n f \<longleftrightarrow> regular_file h fd view \<and> sim fd view f (file_of view f) \<and> ck_writable f \<and>
     a_pos (file_of view f) \<le> length (a_data (file_of view f)) \<and>
     (snd fd \<longrightarrow> a_pos (file_of view f) = length (a_data (file_of view f)))"

definition a_written :: "afile \<Rightarrow> string" where
  "a_written a = take (a_pos a) (a_data a)"

lemma a_getc_rest:
  "a_rest a = c # cs \<Longrightarrow> snd (a_getc a) = uchar c \<and> a_rest (fst (a_getc a)) = cs"
  "a_rest a = [] \<Longrightarrow> snd (a_getc a) = EOF \<and> a_rest (fst (a_getc a)) = []"
proof -
  assume r: "a_rest a = c # cs"
  show "snd (a_getc a) = uchar c \<and> a_rest (fst (a_getc a)) = cs"
  proof (cases "a_pushed a")
    case Nil
    then have d: "drop (a_pos a) (a_data a) = c # cs" using r by (simp add: a_rest_def)
    then have "a_pos a < length (a_data a)" by (metis drop_eq_Nil list.distinct(1) not_le)
    with d Nil show ?thesis
      by (simp add: a_getc_def a_rest_def nth_via_drop) (metis drop_Suc list.sel(3) tl_drop)
  qed (use r in \<open>auto simp: a_getc_def a_rest_def\<close>)
next
  assume "a_rest a = []"
  then show "snd (a_getc a) = EOF \<and> a_rest (fst (a_getc a)) = []"
    by (auto simp: a_getc_def a_rest_def)
qed

interpretation file_reader: byte_source "fgetc_unlocked_impl h" "\<lambda>f. a_rest (file_of view f)" "file_source h fd view"
  for h :: "'w host" and fd view
proof
  fix s :: "'w FILE" and c cs
  assume s: "file_source h fd view s"
  then obtain s' where s': "fgetc_unlocked_impl h s = (s', snd (a_getc (file_of view s)))"
    "sim fd view s' (fst (a_getc (file_of view s)))" "same_stream s s'"
    using fgetc_sim [of h fd view s "file_of view s"] by (auto simp: file_source_def)
  have "file_of view s' = fst (a_getc (file_of view s))" using sim_file_of [OF s'(2)] by simp
  moreover have "file_source h fd view s'"
    using s s' \<open>file_of view s' = _\<close> by (simp add: file_source_def same_stream_def)
  ultimately show
    "a_rest (file_of view s) = c # cs \<Longrightarrow> \<exists>s'. fgetc_unlocked_impl h s = (s', uchar c) \<and>
       a_rest (file_of view s') = cs \<and> file_source h fd view s'"
    "a_rest (file_of view s) = [] \<Longrightarrow> \<exists>s'. fgetc_unlocked_impl h s = (s', EOF) \<and>
       a_rest (file_of view s') = [] \<and> file_source h fd view s'"
    using a_getc_rest [of "file_of view s"] s'(1) by auto
qed

interpretation file_writer: byte_sink "fputc_unlocked_impl h" "\<lambda>f. a_written (file_of view f)" "file_sink h fd view"
  for h :: "'w host" and fd view
proof
  fix n c and s :: "'w FILE"
  assume s: "file_sink h fd view (Suc n) s"
  then obtain s' where s': "fputc_unlocked_impl h s c = (s', uchar c)"
    "sim fd view s' (fst (a_putc c (file_of view s)))" "same_stream s s'"
    using fputc_sim [of h fd view s "file_of view s" c] by (auto simp: file_sink_def)
  have f: "file_of view s' = fst (a_putc c (file_of view s))" using sim_file_of [OF s'(2)] by simp
  let ?a = "file_of view s"
  have le: "a_pos ?a \<le> length (a_data ?a)" "snd fd \<longrightarrow> a_pos ?a = length (a_data ?a)"
    using s by (simp_all add: file_sink_def)
  have "a_written (fst (a_putc c ?a)) = a_written ?a @ [c]"
    using le by (simp add: a_written_def a_putc_def put_at_def)
  moreover have "a_pos (fst (a_putc c ?a)) \<le> length (a_data (fst (a_putc c ?a)))"
    "snd fd \<longrightarrow> a_pos (fst (a_putc c ?a)) = length (a_data (fst (a_putc c ?a)))"
    using le by (auto simp: a_putc_def length_overwrite)
  ultimately show "\<exists>s'. fputc_unlocked_impl h s c = (s', uchar c) \<and>
      a_written (file_of view s') = a_written ?a @ [c] \<and> file_sink h fd view n s'"
    using s s' f by (auto simp: file_sink_def same_stream_def)
qed

subsection \<open>Memory streams\<close>

text \<open>A memory stream with room for \<open>n\<close> more bytes: in the caller's buffer, one more for the
  terminator; in the growing buffer of \<open>open_memstream\<close>, as long as the allocator delivers, which
  \<open>grows_ok\<close> states, and the size stays far from the end of the address space.\<close>

definition grows_ok :: "'w host \<Rightarrow> bool" where
  "grows_ok h \<longleftrightarrow>
     (\<forall>w base n. \<exists>w' base' fresh. length fresh = n \<and> sys_realloc h w base n = (w', Some (base', fresh)))"

lemma grows_okE:
  assumes "grows_ok h"
  obtains w' base' fresh where "length fresh = n" "sys_realloc h w base n = (w', Some (base', fresh))"
  using assms [unfolded grows_ok_def, rule_format, of n w base] by blast

text \<open>A block from the allocator has the size that was asked for.\<close>

definition blocks_ok :: "'w host \<Rightarrow> bool" where
  "blocks_ok h \<longleftrightarrow> (\<forall>w n. case snd (sys_malloc h w n) of None \<Rightarrow> True | Some (a, b) \<Rightarrow> length b = n)"

definition mem_state :: "'w FILE \<Rightarrow> bool" where
  "mem_state f \<longleftrightarrow> ck_kind f = KIND_MEMORY \<and> mem_pos f \<le> mem_len f \<and> mem_len f \<le> length (mem_cells f) \<and>
     (mem_open f \<noteq> None \<longrightarrow> mem_open f = Some (mem_base f, mem_len f))"

definition mem_sink :: "'w host \<Rightarrow> nat \<Rightarrow> 'w FILE \<Rightarrow> bool" where
  "mem_sink h n f \<longleftrightarrow> mem_state f \<and> ck_writable f \<and> \<not> ck_append f \<and>
     (if mem_open f = None then mem_pos f + n + 1 \<le> length (mem_cells f)
      else grows_ok h \<and> mem_pos f + n + 1 \<le> 2 ^ 62)"

definition mem_source :: "'w FILE \<Rightarrow> bool" where
  "mem_source f \<longleftrightarrow> mem_state f \<and> ck_readable f"

definition mem_text :: "'w FILE \<Rightarrow> string" where
  "mem_text f = take (mem_pos f) (mem_cells f)"

definition mem_rest :: "'w FILE \<Rightarrow> string" where
  "mem_rest f = fp_up f @ drop (mem_pos f) (take (mem_len f) (mem_cells f))"

lemma grow_capacity_enough:
  assumes "0 < capacity" "needed \<le> 2 ^ 62"
  shows "\<exists>n. grow_capacity capacity needed = Some n \<and> needed \<le> n"
  using assms
proof (induction "needed - capacity" arbitrary: capacity rule: less_induct)
  case less
  show ?case
  proof (cases "capacity < needed")
    case True
    then have "capacity * 2 < 2 ^ 64" using less.prems(2) by simp
    then have step: "grow_capacity capacity needed = grow_capacity (capacity * 2) needed"
      using True less.prems by (subst grow_capacity.simps) (simp add: Let_def)
    show ?thesis
      unfolding step by (rule less.hyps) (use True less.prems in auto)
  next
    case False
    then show ?thesis by (subst grow_capacity.simps) simp
  qed
qed

text \<open>Which fields a switch to writing or reading leaves alone.\<close>

definition same_mem :: "'w FILE \<Rightarrow> 'w FILE \<Rightarrow> bool" where
  "same_mem f f' \<longleftrightarrow> ck_kind f' = ck_kind f \<and> ck_readable f' = ck_readable f \<and> ck_writable f' = ck_writable f \<and>
     ck_append f' = ck_append f \<and> mem_base f' = mem_base f \<and> mem_cells f' = mem_cells f \<and>
     mem_pos f' = mem_pos f \<and> mem_len f' = mem_len f \<and> mem_open f' = mem_open f"

lemma same_mem_basics [simp]:
  "same_mem f (set_byte_orientation f') = same_mem f f'"
  "same_mem f (sync_bionic_buffer_fields f') = same_mem f f'"
  "same_mem f (reset_buffer_state f') = same_mem f f'"
  "same_mem f (clear_stream_eof f') = same_mem f f'"
  "same_mem f (f'\<lparr>fl_rd := a, fl_wr := b\<rparr>) = same_mem f f'" "same_mem f (f'\<lparr>fl_wr := a, fl_rd := b\<rparr>) = same_mem f f'"
  "same_mem f f"
  by (simp_all add: same_mem_def set_byte_orientation_def sync_bionic_buffer_fields_def
      reset_buffer_state_def clear_stream_eof_def)

lemma mem_prepare_write:
  assumes "mem_state f" "ck_writable f"
  shows "\<exists>f'. prepare_write h f = (f', 0) \<and> same_mem f f'"
proof (cases "stream_last_op f = STDIO_READ")
  case True
  have "same_mem f (f\<lparr>fp_up := [], fp_r := 0\<rparr>)" by (simp add: same_mem_def)
  with True assms show ?thesis
    by (simp add: prepare_write_def mem_state_def has_write_def discard_read_buffer_def is_memory_stream_def)
next
  case False
  with assms show ?thesis by (simp add: prepare_write_def mem_state_def has_write_def)
qed

lemma mem_prepare_read:
  assumes "mem_state f" "ck_readable f" "fp_up f = []"
  shows "\<exists>f'. prepare_read h f = (f', 0) \<and> same_mem f f' \<and> fp_up f' = []"
proof -
  have sync: "sync_memory_stream f = f"
    using assms by (cases "mem_open f") (auto simp: sync_memory_stream_def mem_state_def)
  have up: "fp_up (reset_buffer_state g) = []" "fp_up (sync_bionic_buffer_fields g) = fp_up g" for g :: "'a FILE"
    by (simp_all add: reset_buffer_state_def sync_bionic_buffer_fields_def)
  show ?thesis
    by (cases "stream_last_op f")
      (use assms in \<open>simp_all add: prepare_read_def mem_state_def has_read_def flush_write_buffer_def
         is_memory_stream_def sync Let_def up\<close>)
qed

lemma mem_capacity:
  assumes st: "mem_state f" and room: "if mem_open f = None then needed \<le> length (mem_cells f)
      else grows_ok h \<and> needed \<le> 2 ^ 62"
  shows "\<exists>f'. ensure_memory_capacity h f needed = (f', 0) \<and> mem_state f' \<and> needed \<le> length (mem_cells f') \<and>
    (\<exists>fresh. mem_cells f' = mem_cells f @ fresh) \<and> mem_pos f' = mem_pos f \<and> mem_len f' = mem_len f \<and>
    (mem_open f' = None \<longleftrightarrow> mem_open f = None) \<and> (mem_open f = None \<longrightarrow> mem_cells f' = mem_cells f) \<and>
    ck_writable f' = ck_writable f \<and> ck_readable f' = ck_readable f \<and> ck_append f' = ck_append f"
proof (cases "needed \<le> length (mem_cells f)")
  case False
  then have open': "mem_open f \<noteq> None" and ok: "grows_ok h" "needed \<le> 2 ^ 62"
    using room by (auto split: if_splits)
  have "0 < (if length (mem_cells f) = 0 then 64 else length (mem_cells f))" by auto
  from grow_capacity_enough [OF this ok(2)] obtain n
    where n: "grow_capacity (if length (mem_cells f) = 0 then 64 else length (mem_cells f)) needed = Some n" "needed \<le> n"
    by blast
  obtain w base fresh where r: "length fresh = n" "sys_realloc h (fp_os f) (mem_base f) n = (w, Some (base, fresh))"
    by (rule grows_okE [OF ok(1)])
  let ?f = "sync_memory_stream (f\<lparr>fp_os := w, mem_base := base,
    mem_cells := mem_cells f @ drop (length (mem_cells f)) fresh\<rparr>)"
  have "ensure_memory_capacity h f needed = (?f, 0)"
    using False open' n r(2) by (simp add: ensure_memory_capacity_def Let_def)
  moreover have "needed \<le> length (mem_cells ?f)" using r(1) n(2) by (auto simp: sync_memory_stream_def)
  ultimately show ?thesis
    using st open' by (auto simp: sync_memory_stream_def mem_state_def)
qed (use st in \<open>simp add: ensure_memory_capacity_def\<close>)

text \<open>The cells after a byte has been stored and the terminator set.\<close>

definition terminated :: "nat \<Rightarrow> string \<Rightarrow> string" where
  "terminated n cells = (if n < length cells then cells[n := NUL]
     else if length cells \<noteq> 0 then cells[length cells - 1 := NUL] else cells)"

lemma terminated_simps [simp]: "length (terminated n cells) = length cells"
  by (simp add: terminated_def)

lemma take_terminated: "n \<le> m \<Longrightarrow> n < length cells \<Longrightarrow> take n (terminated m cells) = take n cells"
  by (simp add: terminated_def)

lemma memory_putc_sink:
  assumes sink: "mem_sink h (Suc n) f"
  shows "\<exists>f'. memory_putc h f c = (f', uchar c) \<and> mem_sink h n f' \<and> mem_text f' = mem_text f @ [c] \<and>
    mem_pos f' = mem_pos f + 1 \<and> mem_len f' = max (mem_len f) (mem_pos f + 1) \<and>
    (mem_open f' = None \<longleftrightarrow> mem_open f = None) \<and>
    (mem_len f = mem_pos f \<longrightarrow> mem_len f' < length (mem_cells f') \<and> mem_cells f' ! mem_len f' = NUL)"
proof -
  have st: "mem_state f" "ck_writable f" "\<not> ck_append f" using sink by (simp_all add: mem_sink_def)
  obtain g where g: "prepare_write h f = (g, 0)" "same_mem f (set_byte_orientation g)"
    using mem_prepare_write [OF st(1,2)] by (metis same_mem_basics(1))
  let ?g = "set_byte_orientation g"
  have gst: "mem_state ?g" and gf: "mem_open ?g = mem_open f" "mem_pos ?g = mem_pos f" "mem_len ?g = mem_len f"
    "mem_cells ?g = mem_cells f" "ck_append ?g = ck_append f" "ck_writable ?g"
    using g(2) st by (simp_all add: same_mem_def mem_state_def)
  define needed where "needed = memory_needed ?g c"
  have room: "if mem_open ?g = None then needed \<le> length (mem_cells ?g) else grows_ok h \<and> needed \<le> 2 ^ 62"
    using sink by (auto simp: gf mem_sink_def needed_def memory_needed_def split: if_splits)
  obtain k fresh where k: "ensure_memory_capacity h ?g needed = (k, 0)" "mem_state k" "needed \<le> length (mem_cells k)"
    "mem_cells k = mem_cells f @ fresh" "mem_pos k = mem_pos f" "mem_len k = mem_len f"
    "mem_open k = None \<longleftrightarrow> mem_open f = None" "mem_open f = None \<longrightarrow> mem_cells k = mem_cells f"
    "ck_writable k" "\<not> ck_append k"
    using mem_capacity [OF gst room] gf st by auto
  define cells where "cells = terminated (max (mem_len f) (mem_pos f + 1)) ((mem_cells k)[mem_pos f := c])"
  define f' where "f' = sync_memory_stream (k\<lparr>mem_cells := cells, mem_pos := mem_pos f + 1,
    mem_len := max (mem_len f) (mem_pos f + 1)\<rparr>)"
  have size: "mem_pos f + 2 \<le> length (mem_cells k)"
    using sink k(3,8) by (auto simp: gf mem_sink_def needed_def memory_needed_def split: if_splits)
  have put: "memory_putc h f c = (f', uchar c)"
  proof -
    have "memory_store k c = f'"
      using k(5,6) by (auto simp: memory_store_def f'_def cells_def terminated_def Let_def max_def
        intro!: arg_cong [where f = sync_memory_stream] FILE.equality)
    moreover have "\<not> ck_append ?g" using gf(5) st(3) by simp
    ultimately show ?thesis
      using st(2) g(1) k(1) by (simp add: memory_putc_def Let_def flip: needed_def)
  qed
  have "mem_text f' = take (mem_pos f + 1) cells" by (simp add: mem_text_def f'_def sync_memory_stream_def)
  also have "\<dots> = take (mem_pos f + 1) ((mem_cells k)[mem_pos f := c])"
    unfolding cells_def by (rule take_terminated) (use size in auto)
  also have "\<dots> = take (mem_pos f) (mem_cells k) @ [c]"
    using size by (simp add: take_Suc_conv_app_nth)
  also have "take (mem_pos f) (mem_cells k) = mem_text f"
    using st(1) k(4) by (simp add: mem_text_def mem_state_def)
  finally have appended: "mem_text f' = mem_text f @ [c]" .
  have len: "max (mem_len f) (mem_pos f + 1) \<le> length (mem_cells k)"
    using k(2,6) size by (simp add: mem_state_def)
  then have st': "mem_state f'"
    using k(2) by (auto simp: f'_def mem_state_def sync_memory_stream_def cells_def)
  have fields: "ck_writable f'" "\<not> ck_append f'" "mem_open f' = None \<longleftrightarrow> mem_open f = None"
    "mem_pos f' = mem_pos f + 1" "length (mem_cells f') = length (mem_cells k)"
    "mem_len f' = max (mem_len f) (mem_pos f + 1)" "mem_cells f' = cells"
    using k by (auto simp: f'_def sync_memory_stream_def cells_def)
  have sink': "mem_sink h n f'"
    using sink k(8) st' fields(1-5) by (auto simp: mem_sink_def split: if_splits)
  have "mem_len f = mem_pos f \<longrightarrow> mem_len f' < length (mem_cells f') \<and> mem_cells f' ! mem_len f' = NUL"
    using size by (simp add: fields(6,7)) (simp add: cells_def terminated_def)
  then show ?thesis
    by (intro exI [of _ f'] conjI) (use put appended sink' fields in simp_all)
qed

lemma memory_getc_source:
  assumes src: "mem_source f"
  shows "\<exists>f'. fgetc_unlocked_impl h f = (f', case mem_rest f of [] \<Rightarrow> EOF | c # cs \<Rightarrow> uchar c) \<and>
    mem_rest f' = tl (mem_rest f) \<and> mem_source f'"
proof (cases "fp_up f")
  case (Cons c cs)
  then show ?thesis
    using src by (auto simp: fgetc_unlocked_impl_def pop_ungetc_def clear_stream_eof_def mem_rest_def
      mem_source_def mem_state_def)
next
  case Nil
  have st: "mem_state f" "ck_readable f" using src by (simp_all add: mem_source_def)
  obtain g where g: "prepare_read h f = (g, 0)" "same_mem f g" "fp_up g = []"
    using mem_prepare_read [OF st Nil] by blast
  have up: "fp_up (set_byte_orientation g) = []" using g(3) by (simp add: set_byte_orientation_def)
  have fields: "mem_pos (set_byte_orientation g) = mem_pos f" "mem_len (set_byte_orientation g) = mem_len f"
    "mem_cells (set_byte_orientation g) = mem_cells f" "mem_source (set_byte_orientation g)"
    using g(2) src by (auto simp: same_mem_def set_byte_orientation_def mem_source_def mem_state_def)
  have get: "fgetc_unlocked_impl h f = (if mem_pos f \<ge> mem_len f then (set_stream_eof (set_byte_orientation g), EOF)
      else ((clear_stream_eof (set_byte_orientation g))\<lparr>mem_pos := mem_pos f + 1\<rparr>, uchar (mem_cells f ! mem_pos f)))"
    using Nil st g(1) up fields
    by (simp add: fgetc_unlocked_impl_def memory_getc_def is_memory_stream_def mem_state_def Let_def)
  show ?thesis
  proof (cases "mem_pos f \<ge> mem_len f")
    case True
    then show ?thesis
      using get Nil fields up by (auto simp: mem_rest_def set_stream_eof_def mem_source_def mem_state_def)
  next
    case False
    then have "mem_pos f < length (mem_cells f)" using st(1) by (simp add: mem_state_def)
    with False have "drop (mem_pos f) (take (mem_len f) (mem_cells f)) =
        mem_cells f ! mem_pos f # drop (mem_pos f + 1) (take (mem_len f) (mem_cells f))"
      by (simp add: Cons_nth_drop_Suc [symmetric])
    with False show ?thesis
      using get Nil fields up by (auto simp: mem_rest_def clear_stream_eof_def mem_source_def mem_state_def)
  qed
qed

text \<open>A stream at the end of its text, the terminator behind it.\<close>

definition mem_at_end :: "bool \<Rightarrow> 'w FILE \<Rightarrow> bool" where
  "mem_at_end growing f \<longleftrightarrow> (mem_open f \<noteq> None) = growing \<and>
     mem_len f = mem_pos f \<and> mem_len f < length (mem_cells f) \<and> mem_cells f ! mem_len f = NUL"

interpretation memory_writer: byte_sink "fputc_unlocked_impl h" mem_text "\<lambda>n f. mem_sink h n f \<and> mem_at_end growing f"
  for h :: "'w host" and growing
proof
  fix n c and s :: "'w FILE"
  assume s: "mem_sink h (Suc n) s \<and> mem_at_end growing s"
  then have "fputc_unlocked_impl h s c = memory_putc h s c"
    by (simp add: fputc_unlocked_impl_def is_memory_stream_def mem_sink_def mem_state_def)
  with memory_putc_sink [of h n s c] s
  show "\<exists>s'. fputc_unlocked_impl h s c = (s', uchar c) \<and> mem_text s' = mem_text s @ [c] \<and>
      mem_sink h n s' \<and> mem_at_end growing s'"
    by (auto simp: mem_at_end_def)
qed

interpretation memory_reader: byte_source "fgetc_unlocked_impl h" mem_rest mem_source for h :: "'w host"
proof
  fix s :: "'w FILE" and c cs
  assume s: "mem_source s"
  from memory_getc_source [OF s, of h] show
    "mem_rest s = c # cs \<Longrightarrow> \<exists>s'. fgetc_unlocked_impl h s = (s', uchar c) \<and> mem_rest s' = cs \<and> mem_source s'"
    "mem_rest s = [] \<Longrightarrow> \<exists>s'. fgetc_unlocked_impl h s = (s', EOF) \<and> mem_rest s' = [] \<and> mem_source s'"
    by auto
qed

subsection \<open>Strings, blocks and lines\<close>

lemma fputs_file:
  assumes "file_sink h fd view n f"
  shows "\<exists>f'. fputs_unlocked_impl h s f = (f', 0) \<and> a_written (file_of view f') = a_written (file_of view f) @ s \<and>
    file_sink h fd view n f'"
  using file_writer.put_loop_all [of h fd view s 0 f] assms
  by (auto simp: fputs_unlocked_impl_def file_sink_def split: prod.splits)

lemma fwrite_file:
  assumes "file_sink h fd view n f" "length ptr = sz * nmemb" "nmemb \<le> SIZE_MAX div sz" "0 < sz"
  shows "\<exists>f'. fwrite_unlocked_impl h ptr sz nmemb f = (f', nmemb) \<and>
    a_written (file_of view f') = a_written (file_of view f) @ ptr \<and> file_sink h fd view n f'"
proof (cases "nmemb = 0")
  case False
  obtain f' where "put_loop (fputc_unlocked_impl h) f ptr = (f', length ptr)"
    "a_written (file_of view f') = a_written (file_of view f) @ ptr" "file_sink h fd view 0 f'"
    using file_writer.put_loop_all [of h fd view ptr 0 f] assms(1) by (auto simp: file_sink_def)
  with False assms show ?thesis by (simp add: fwrite_unlocked_impl_def file_sink_def)
qed (use assms in \<open>simp add: fwrite_unlocked_impl_def\<close>)

lemma fread_file:
  assumes "file_source h fd view f" "nmemb \<le> SIZE_MAX div sz" "0 < sz"
  defines "text \<equiv> a_rest (file_of view f)"
  shows "\<exists>f'. fread_unlocked_impl h sz nmemb f =
      (f', take (sz * nmemb) text, length (take (sz * nmemb) text) div sz) \<and>
    a_rest (file_of view f') = drop (sz * nmemb) text \<and> file_source h fd view f'"
proof (cases "nmemb = 0")
  case False
  then show ?thesis
    using file_reader.get_loop_all [OF assms(1), of "sz * nmemb"] assms(2,3)
    by (auto simp: fread_unlocked_impl_def text_def)
qed (use assms in \<open>auto simp: fread_unlocked_impl_def\<close>)

lemma fgets_file:
  assumes src: "file_source h fd view f" and n: "0 < n"
  defines "line \<equiv> take (nat (n - 1)) (first_line (CHR 0x0A) (a_rest (file_of view f)))"
  shows "\<exists>f'. fgets_unlocked_impl h n f = (f', if line = [] then None else Some (line @ [NUL])) \<and>
    a_rest (file_of view f') = drop (length line) (a_rest (file_of view f)) \<and> file_source h fd view f'"
proof -
  obtain f' where f': "get_loop (fgetc_unlocked_impl h) (\<lambda>c. c = CHR 0x0A) (nat (n - 1)) f = (f', line)"
    "a_rest (file_of view f') = drop (length line) (a_rest (file_of view f))" "file_source h fd view f'"
    using file_reader.get_loop_line [OF src, of "CHR 0x0A" "nat (n - 1)"] unfolding line_def by blast
  then have "fgets_unlocked_impl h n f = (f', if line = [] then None else Some (line @ [NUL]))"
    using n by (simp add: fgets_unlocked_impl_def)
  with f' show ?thesis by blast
qed

text \<open>\<open>getdelim\<close> gives the line to the delimiter, in a buffer that has room for its terminator.\<close>

lemma line_room_file:
  assumes reg: "regular_file h fd view" and n: "pos < n" "pos < 2 ^ 62"
  shows "\<exists>w p k. line_room h f lineptr n pos = (f\<lparr>fp_os := w\<rparr>, p, k, True) \<and> view w = view (fp_os f) \<and> pos + 1 < k"
proof (cases "pos + 1 \<ge> n")
  case True
  then have k: "(n * 2) mod 2 ^ 64 = n * 2" "n < n * 2" using n by simp_all
  obtain w p b where "length b = n * 2" "sys_realloc h (fp_os f) lineptr (n * 2) = (w, Some (p, b))" "view w = view (fp_os f)"
    by (rule regular_realloc [OF reg])
  with True k n show ?thesis by (auto simp: line_room_def Let_def)
next
  case False
  then show ?thesis by (auto simp: line_room_def intro!: exI [of _ "fp_os f"])
qed

lemma file_source_os:
  assumes "file_source h fd view f" "view w = view (fp_os f)"
  shows "file_source h fd view (f\<lparr>fp_os := w\<rparr>)" "file_of view (f\<lparr>fp_os := w\<rparr>) = file_of view f"
proof -
  show eq: "file_of view (f\<lparr>fp_os := w\<rparr>) = file_of view f"
    using assms(2) by (cases "stream_last_op f") (simp_all add: file_of_def split: prod.splits)
  show "file_source h fd view (f\<lparr>fp_os := w\<rparr>)"
    using assms by (simp add: file_source_def eq sim_os)
qed

lemma getdelim_loop_file:
  fixes d :: char
  assumes "file_source h fd view f" "length line < n" "length line + length (a_rest (file_of view f)) < 2 ^ 62"
  defines "whole \<equiv> first_line d (a_rest (file_of view f))"
  shows "\<exists>f' p k. getdelim_loop h f lineptr n (uchar d) line =
      Some (f', p, k, line @ whole, if line @ whole = [] then -1 else int (length (line @ whole))) \<and>
    length (line @ whole) < k \<and> file_source h fd view f' \<and>
    a_rest (file_of view f') = drop (length whole) (a_rest (file_of view f))"
  using assms(1-3) unfolding whole_def
proof (induction "a_rest (file_of view f)" arbitrary: f lineptr n line)
  case Nil
  obtain f' where "fgetc_unlocked_impl h f = (f', EOF)" "a_rest (file_of view f') = []" "file_source h fd view f'"
    using file_reader.get_end [OF Nil.prems(1)] Nil.hyps by auto
  with Nil show ?case by (subst getdelim_loop.simps) auto
next
  case (Cons c cs)
  obtain g where g: "fgetc_unlocked_impl h f = (g, uchar c)" "a_rest (file_of view g) = cs" "file_source h fd view g"
    using file_reader.get_byte [OF Cons.prems(1)] Cons.hyps(2) by metis
  have c: "uchar c \<noteq> EOF" using uchar_bounds [of c] by (simp add: EOF_def)
  have "regular_file h fd view" using g(3) by (simp add: file_source_def)
  moreover have "length line < 2 ^ 62" using Cons.prems(3) by simp
  ultimately obtain w p k where room: "line_room h g lineptr n (length line) = (g\<lparr>fp_os := w\<rparr>, p, k, True)"
    "view w = view (fp_os g)" "length line + 1 < k"
    using line_room_file Cons.prems(2) by blast
  note src = file_source_os [OF g(3) room(2)]
  have rest: "a_rest (file_of view f) = c # cs" using Cons.hyps(2) by simp
  show ?case
  proof (cases "c = d")
    case True
    with c g room src rest show ?thesis by (subst getdelim_loop.simps) (simp add: Let_def)
  next
    case False
    have "uchar c \<noteq> uchar d" using False by (metis char_of_char)
    then have step: "getdelim_loop h f lineptr n (uchar d) line =
        getdelim_loop h (g\<lparr>fp_os := w\<rparr>) p k (uchar d) (line @ [c])"
      using c g(1) room(1) by (subst getdelim_loop.simps) (simp add: Let_def)
    have eq: "a_rest (file_of view (g\<lparr>fp_os := w\<rparr>)) = cs" using g(2) src(2) by simp
    have len: "length (line @ [c]) < k" "length (line @ [c]) + length cs < 2 ^ 62"
      using room(3) Cons.prems(3) rest by simp_all
    obtain f' p' k' where f': "getdelim_loop h (g\<lparr>fp_os := w\<rparr>) p k (uchar d) (line @ [c]) =
        Some (f', p', k', (line @ [c]) @ first_line d cs, int (length ((line @ [c]) @ first_line d cs)))"
      "length ((line @ [c]) @ first_line d cs) < k'" "file_source h fd view f'"
      "a_rest (file_of view f') = drop (length (first_line d cs)) cs"
      using Cons.hyps(1) [OF eq [symmetric] src(1) len(1), of p] len(2) unfolding eq by auto
    have "line @ first_line d (a_rest (file_of view f)) = (line @ [c]) @ first_line d cs"
      "length (first_line d (a_rest (file_of view f))) = Suc (length (first_line d cs))"
      using rest False by simp_all
    then show ?thesis unfolding step using f' rest by (intro exI [of _ f'] exI [of _ p'] exI [of _ k'] conjI) simp_all
  qed
qed

text \<open>The stream that \<open>open_memstream\<close> opens, and what it shows of the text written to it.\<close>

lemma open_memstream_sink:
  assumes "blocks_ok h" "grows_ok h" "n < 2 ^ 62"
  shows "(\<exists>w'. open_memstream h w e True = Inl (w', ENOMEM) \<and>
      (\<exists>w1 k. k \<in> {1, sizeof_FILE h, sizeof_cookie h} \<and> snd (sys_malloc h w1 k) = None)) \<or>
    (\<exists>f. open_memstream h w e True = Inr f \<and> mem_sink h n f \<and> mem_at_end True f \<and> mem_text f = [])"
proof -
  obtain w1 r1 where m1: "sys_malloc h w 1 = (w1, r1)" by fastforce
  obtain w2 r2 where m2: "sys_malloc h w1 (sizeof_FILE h) = (w2, r2)" by fastforce
  obtain w3 r3 where m3: "sys_malloc h w2 (sizeof_ext h) = (w3, r3)" by fastforce
  obtain w4 r4 where m4: "sys_malloc h w3 (sizeof_cookie h) = (w4, r4)" by fastforce
  show ?thesis
  proof (cases r1)
    case None
    then show ?thesis using m1 by (auto simp: open_memstream_def intro!: disjI1 exI [of _ w] exI [of _ 1])
  next
    case r1: (Some block)
    then obtain b x where "block = (b, x)" "length x = 1"
      using assms(1) [unfolded blocks_ok_def, rule_format, of 1 w] m1 by (cases block) simp
    then obtain c where b: "r1 = Some (b, [c])" using r1 by (cases x) auto
    note open_def = open_memstream_def create_memory_stream_def init_stream_def m1 [simplified] m2 m3 m4 b
    consider "r2 = None" | "r2 \<noteq> None" "r4 = None" | y z where "r2 = Some y" "r4 = Some z" by (cases r2; cases r4) auto
    then show ?thesis
    proof cases
      case 1
      then have "open_memstream h w e True = Inl (w2, ENOMEM)" "snd (sys_malloc h w1 (sizeof_FILE h)) = None"
        using m2 by (simp_all add: open_def)
      then show ?thesis by blast
    next
      case 2
      then have "open_memstream h w e True = Inl (w4, ENOMEM)" "snd (sys_malloc h w3 (sizeof_cookie h)) = None"
        using m4 by (auto simp: open_def)
      then show ?thesis by blast
    next
      case 3
      then show ?thesis using assms(2,3)
        by (simp add: open_def new_stream_def sync_memory_stream_def mem_sink_def mem_state_def mem_at_end_def mem_text_def)
    qed
  qed
qed

lemma memstream_text:
  assumes "mem_sink h (length s) f" "mem_at_end True f" "mem_text f = []"
  shows "\<exists>f'. fputs_unlocked_impl h s f = (f', 0) \<and> mem_open f' = Some (mem_base f', length s) \<and>
    take (length s + 1) (mem_cells f') = s @ [NUL]"
proof -
  have len: "length (mem_text g) = mem_pos g" if "mem_state g" for g :: "'a FILE"
    using that by (simp add: mem_text_def mem_state_def)
  obtain f' where f': "put_loop (fputc_unlocked_impl h) f s = (f', length s)" "mem_text f' = s"
    "mem_sink h 0 f'" "mem_at_end True f'"
    using memory_writer.put_loop_all [of h s 0 f True] assms by auto
  have st: "mem_state f'" using f'(3) by (simp add: mem_sink_def)
  have pos: "mem_pos f' = length s" using len [OF st] f'(2) by simp
  have "mem_open f' = Some (mem_base f', length s)"
    using st f'(4) pos by (simp add: mem_state_def mem_at_end_def)
  moreover have "take (length s + 1) (mem_cells f') = s @ [NUL]"
    using f'(2,4) pos by (auto simp: mem_text_def mem_at_end_def take_Suc_conv_app_nth)
  ultimately show ?thesis using f'(1) by (simp add: fputs_unlocked_impl_def)
qed

subsection \<open>Reading a file back\<close>

lemma put_loop_sim:
  assumes "regular_file h fd view" "sim fd view f a" "ck_writable f" "snd fd \<longrightarrow> a_pos a = length (a_data a)"
  shows "\<exists>f'. put_loop (fputc_unlocked_impl h) f s = (f', length s) \<and>
    sim fd view f' (fold (\<lambda>c a. fst (a_putc c a)) s a) \<and> same_stream f f'"
  using assms(2-4)
proof (induction s arbitrary: f a)
  case (Cons c s)
  obtain g where g: "fputc_unlocked_impl h f c = (g, uchar c)" "sim fd view g (fst (a_putc c a))" "same_stream f g"
    using fputc_sim [OF assms(1) Cons.prems] by blast
  moreover have "ck_writable g" using g(3) Cons.prems(2) by (simp add: same_stream_def)
  moreover have "uchar c \<noteq> EOF" using uchar_bounds [of c] by (simp add: EOF_def)
  moreover have "snd fd \<longrightarrow> a_pos (fst (a_putc c a)) = length (a_data (fst (a_putc c a)))"
    using Cons.prems(3) by (simp add: a_putc_def length_overwrite)
  ultimately show ?case using Cons.IH [OF g(2)] same_stream_trans [OF g(3)] by fastforce
qed simp

lemma putc_data:
  "a_data (fold (\<lambda>c a. fst (a_putc c a)) s a) = put_at (a_data a) (a_pos a) s"
proof (induction s arbitrary: a)
  case (Cons c s)
  then show ?case using put_at_append [of "a_data a" "a_pos a" "[c]" s] by (simp add: a_putc_def)
qed simp

lemma clearerr_frame [simp]:
  "stream_last_op (clearerr f) = stream_last_op f" "pending_bytes (clearerr f) = pending_bytes f"
  "unread_bytes (clearerr f) = unread_bytes f" "buffer_ok (clearerr f) = buffer_ok f" "room_ok (clearerr f) = room_ok f"
  "fp_os (clearerr f) = fp_os f" "fp_up (clearerr f) = fp_up f" "fp_r (clearerr f) = fp_r f" "fl_nbf (clearerr f) = fl_nbf f"
  "ck_kind (clearerr f) = ck_kind f" "ck_fd (clearerr f) = ck_fd f" "ub_size (clearerr f) = ub_size f"
  "ck_readable (clearerr f) = ck_readable f" "ck_append (clearerr f) = ck_append f" "has_ext (clearerr f) = has_ext f"
  "\<not> fl_eof (clearerr f)"
  by (cases "bf_base f"; cases "fp_p f";
      simp add: clearerr_def stream_last_op_def pending_bytes_def unread_bytes_def buffer_ok_def room_ok_def)+

lemma rewind_file:
  assumes reg: "regular_file h fd view" and sim: "sim fd view f a" and rd: "ck_readable f"
  shows "file_source h fd view (rewind h f) \<and> a_rest (file_of view (rewind h f)) = a_data a"
proof -
  define b where "b = a\<lparr>a_pos := 0, a_pushed := [], a_eof := False, a_reading := False\<rparr>"
  obtain f' where f': "stream_seek h f 0 SEEK_SET = (f', 0)" "sim fd view f' b" "ck_readable f' = ck_readable f"
    using stream_seek_sim [OF reg sim, of SEEK_SET 0] by (auto simp: a_seek_def seek_target_def b_def)
  have "sim fd view (clearerr f') b"
    using f'(2) by (auto simp: sim_def file_state_def b_def split: last_op.splits prod.splits)
  then have c: "sim fd view (clearerr f') b" "file_of view (clearerr f') = b"
    using sim_file_of [of fd view "clearerr f'" b] by auto
  have "rewind h f = clearerr f'" using f'(1) by (simp add: rewind_def)
  then show ?thesis
    using c reg rd f'(3) by (simp add: file_source_def a_rest_def b_def)
qed

text \<open>\<open>getline\<close> with any buffer, or none.\<close>

lemma getline_file:
  assumes src: "file_source h fd view f" and size: "length (a_rest (file_of view f)) < 2 ^ 62"
  defines "line \<equiv> first_line (CHR 0x0A) (a_rest (file_of view f))"
  shows "\<exists>f' p k. getline h (Some (lineptr, n)) f = Some (f', p, k, line, if line = [] then -1 else int (length line)) \<and>
    length line < k \<and> file_source h fd view f' \<and>
    a_rest (file_of view f') = drop (length line) (a_rest (file_of view f))"
proof -
  have nl: "uchar (CHR 0x0A) = 10" by simp
  show ?thesis
  proof (cases "lineptr = null \<or> n = 0")
    case False
    then show ?thesis
      using getdelim_loop_file [OF src, where line = "[]" and n = n and d = "CHR 0x0A" and lineptr = lineptr] size nl
      by (auto simp: getline_def getdelim_def line_def)
  next
    case True
    have "regular_file h fd view" using src by (simp add: file_source_def)
    then obtain w a b where w: "sys_malloc h (fp_os f) 128 = (w, Some (a, b))" "view w = view (fp_os f)"
      by (rule regular_malloc)
    note src' = file_source_os [OF src w(2)]
    show ?thesis
      using getdelim_loop_file [OF src'(1), where line = "[]" and n = 128 and d = "CHR 0x0A" and lineptr = a] size nl True w(1) unfolding src'(2)
      by (auto simp: getline_def getdelim_def line_def)
  qed
qed

subsection \<open>A write that fails\<close>

text \<open>The flush of a descriptor stream when the host takes some bytes and then fails: nothing is
  dropped from the buffer.\<close>

lemma flush_loop_partial:
  assumes "ck_kind f = KIND_FD" "0 \<le> ck_fd f" "length s < 2 ^ 31" "0 < k" "k < length s"
    and "sys_write h (fp_os f) (ck_fd f) s = (w1, Inr k)" "sys_write h w1 (ck_fd f) (drop k s) = (w2, Inl e)"
  shows "flush_loop h f s 0 = (set_stream_error (f\<lparr>fp_os := w2, fp_errno := e\<rparr>), -1)"
proof -
  obtain j where j: "k = Suc j" using assms(4) by (cases k) auto
  have "s \<noteq> []" using assms(5) by auto
  note assms = this assms
  have "flush_loop h f s 0 = flush_loop h (f\<lparr>fp_os := w1\<rparr>) s k"
    using assms j by (subst flush_loop.simps) (simp add: call_write_def fd_cookie_write_def call_result_def Let_def)
  also have "\<dots> = (set_stream_error (f\<lparr>fp_os := w2, fp_errno := e\<rparr>), -1)"
    using assms by (subst flush_loop.simps) (simp add: call_write_def fd_cookie_write_def call_result_def Let_def)
  finally show ?thesis .
qed

lemma flush_loop_whole:
  assumes "ck_kind f = KIND_FD" "0 \<le> ck_fd f" "length s < 2 ^ 31" "s \<noteq> []"
    and "sys_write h (fp_os f) (ck_fd f) s = (w, Inr (length s))"
  shows "flush_loop h f s 0 = (f\<lparr>fp_os := w\<rparr>, 0)"
proof -
  obtain j where j: "length s = Suc j" using assms(4) by (cases s) auto
  have "flush_loop h f s 0 = flush_loop h (f\<lparr>fp_os := w\<rparr>) s (length s)"
    using assms j by (subst flush_loop.simps) (simp add: call_write_def fd_cookie_write_def call_result_def Let_def)
  then show ?thesis by (subst (asm) (2) flush_loop.simps) simp
qed

end
