(* ===== verification/CRT_Printf.thy ===== *)
theory CRT_Printf
  imports CRT_Utf8 CRT_Stdio
begin

text \<open>
  Formatted output, \<^verbatim>\<open>libc/src/printf.c\<close>, on the LP64 hosts: the conversions of
  integers, characters, strings, pointers and counts, with their flags, widths, precisions and
  length modifiers. The arguments of a call are a list of typed values; an argument that is missing
  or of another type than the format asks for is undefined behaviour, the value \<^term>\<open>None\<close>, and so
  is a store behind the end of one of the local arrays of the floating-point conversions. The digits
  of a floating-point number, which the vendored \<open>gdtoa\<close> computes, and the arithmetic of \<open>long double\<close>
  are parameters, as are the locale's conventions and the text of \<open>errno\<close>. Widths and precisions are
  of type \<open>int\<close>, and their arithmetic wraps around.
\<close>

subsection \<open>The output buffer\<close>

text \<open>\<open>pb_data\<close> holds the bytes stored so far, by their offset in the caller's buffer.\<close>

record printf_buffer =
  pb_data :: "nat \<rightharpoonup> char"
  pb_capacity :: nat
  pb_length :: nat

definition buffer_putc :: "printf_buffer \<Rightarrow> char \<Rightarrow> printf_buffer" where
  "buffer_putc b c =
     (let b = (if pb_capacity b \<noteq> 0 \<and> pb_length b + 1 < pb_capacity b
               then b\<lparr>pb_data := (pb_data b)(pb_length b \<mapsto> c)\<rparr> else b)
      in b\<lparr>pb_length := pb_length b + 1\<rparr>)"

primrec buffer_write :: "printf_buffer \<Rightarrow> string \<Rightarrow> printf_buffer" where
  "buffer_write b [] = b"
| "buffer_write b (c # s) = buffer_write (buffer_putc b c) s"

function write_padding :: "printf_buffer \<Rightarrow> char \<Rightarrow> int \<Rightarrow> printf_buffer" where
  "write_padding b ch count = (if count > 0 then write_padding (buffer_putc b ch) ch (count - 1) else b)"
  by pat_completeness auto
termination by (relation "measure (\<lambda>(b, ch, count). nat count)") auto

declare write_padding.simps [simp del]

definition new_buffer :: "nat \<Rightarrow> printf_buffer" where
  "new_buffer n = \<lparr>pb_data = Map.empty, pb_capacity = n, pb_length = 0\<rparr>"

subsection \<open>Conversion specifications\<close>

record printf_spec =
  left :: bool
  zero :: bool
  plus :: bool
  space :: bool
  alt :: bool
  grouping :: bool
  width :: int
  precision :: int
  precision_set :: bool
  long_count :: nat
  short_count :: nat
  size_length :: bool
  intmax_length :: bool
  ptrdiff_length :: bool
  long_double_length :: bool
  value_index :: int
  width_index :: int
  precision_index :: int

definition empty_spec :: printf_spec where
  "empty_spec = \<lparr>left = False, zero = False, plus = False, space = False, alt = False, grouping = False,
     width = 0, precision = 0, precision_set = False, long_count = 0, short_count = 0,
     size_length = False, intmax_length = False, ptrdiff_length = False, long_double_length = False,
     value_index = 0, width_index = 0, precision_index = 0\<rparr>"

text \<open>The values of the variable argument list. A \<open>long\<close>, a \<open>size_t\<close> and the like are 64-bit;
  a \<open>double\<close> is its 64 bits, a \<open>long double\<close> a value of a type that depends on the host; \<open>%n\<close>
  stores to an address.\<close>

datatype 'd printf_arg = ArgInt i32 | ArgLong u64 | ArgPointer u64 | ArgString "string option"
  | ArgWide "wchar list option" | ArgDouble u64 | ArgLongDouble 'd | ArgStore addr

text \<open>What the functions take from the rest of the library: the locale's numeric conventions, the
  text of the current \<open>errno\<close>, the sizes \<open>malloc\<close> has memory for; and from the compiler and \<open>gdtoa\<close>
  the arithmetic of \<open>long double\<close>, and \<^verbatim>\<open>__dtoa\<close> and its variants: the digits and the position of
  the point, or nothing without memory, and for the hexadecimal ones the sign.\<close>

record lconv =
  decimal_point :: string
  thousands_sep :: string
  lc_grouping :: string

record 'd float_env =
  dtoa :: "u64 \<Rightarrow> int \<Rightarrow> int \<Rightarrow> (string \<times> int) option"
  ldtoa :: "'d \<Rightarrow> int \<Rightarrow> int \<Rightarrow> (string \<times> int) option"
  hdtoa :: "u64 \<Rightarrow> string \<Rightarrow> int \<Rightarrow> (string \<times> int \<times> bool) option"
  hldtoa :: "'d \<Rightarrow> string \<Rightarrow> int \<Rightarrow> (string \<times> int \<times> bool) option"
  ld_of_double :: "u64 \<Rightarrow> 'd"
  ld_signbit :: "'d \<Rightarrow> bool"
  ld_isnan :: "'d \<Rightarrow> bool"
  ld_isinf :: "'d \<Rightarrow> bool"
  ld_is_zero :: "'d \<Rightarrow> bool"
  ld_minus :: "'d \<Rightarrow> 'd"
  ld_ge_ten :: "'d \<Rightarrow> bool"
  ld_less_one :: "'d \<Rightarrow> bool"
  ld_div_ten :: "'d \<Rightarrow> 'd"
  ld_mult_ten :: "'d \<Rightarrow> 'd"

record 'd printf_env =
  localeconv :: lconv
  errno_text :: string
  malloc_ok :: "nat \<Rightarrow> bool"
  floats :: "'d float_env"

fun is_digit :: "char \<Rightarrow> bool" where
  "is_digit c \<longleftrightarrow> uchar c \<ge> 48 \<and> uchar c \<le> 57"

text \<open>\<open>parse_decimal\<close> gives the format behind the digits and their value.\<close>

fun parse_decimal_from :: "int \<Rightarrow> string \<Rightarrow> string \<times> int" where
  "parse_decimal_from result [] = ([], result)"
| "parse_decimal_from result (c # cs) =
     (if is_digit c then parse_decimal_from (wrap_int (result * 10 + (uchar c - 48))) cs else (c # cs, result))"

definition parse_decimal :: "string \<Rightarrow> string \<times> int" where
  "parse_decimal fmt = parse_decimal_from 0 fmt"

fun parse_flags :: "string \<Rightarrow> printf_spec \<Rightarrow> string \<times> printf_spec" where
  "parse_flags [] spec = ([], spec)"
| "parse_flags (c # cs) spec =
     (if c = CHR ''-'' then parse_flags cs (spec\<lparr>left := True\<rparr>)
      else if c = CHR ''0'' then parse_flags cs (spec\<lparr>zero := True\<rparr>)
      else if c = CHR ''+'' then parse_flags cs (spec\<lparr>plus := True\<rparr>)
      else if c = CHR '' '' then parse_flags cs (spec\<lparr>space := True\<rparr>)
      else if c = CHR ''#'' then parse_flags cs (spec\<lparr>alt := True\<rparr>)
      else if c = CHR 0x27 then parse_flags cs (spec\<lparr>grouping := True\<rparr>)
      else (c # cs, spec))"

definition va_int :: "'d printf_arg list \<Rightarrow> (int \<times> 'd printf_arg list) option" where
  "va_int args = (case args of ArgInt v # args \<Rightarrow> Some (sint v, args) | _ \<Rightarrow> None)"

text \<open>Whether the format goes on with a character.\<close>

definition starts_with :: "char \<Rightarrow> string \<Rightarrow> bool" where
  "starts_with c fmt \<longleftrightarrow> fmt \<noteq> [] \<and> hd fmt = c"

definition parse_width ::
    "string \<Rightarrow> 'd printf_arg list \<Rightarrow> printf_spec \<Rightarrow> (string \<times> 'd printf_arg list \<times> printf_spec) option" where
  "parse_width fmt args spec =
     (if starts_with (CHR ''*'') fmt then do {
        (w, args) \<leftarrow> va_int args;
        Some (tl fmt, args, if w < 0 then spec\<lparr>left := True, width := wrap_int (- w)\<rparr> else spec\<lparr>width := w\<rparr>) }
      else (case parse_decimal fmt of (fmt, w) \<Rightarrow> Some (fmt, args, spec\<lparr>width := w\<rparr>)))"

definition parse_precision ::
    "string \<Rightarrow> 'd printf_arg list \<Rightarrow> printf_spec \<Rightarrow> (string \<times> 'd printf_arg list \<times> printf_spec) option" where
  "parse_precision fmt args spec =
     (if starts_with (CHR ''.'') fmt then
        let fmt = tl fmt; spec = spec\<lparr>precision_set := True\<rparr> in
        if starts_with (CHR ''*'') fmt then do {
          (p, args) \<leftarrow> va_int args;
          Some (tl fmt, args, if p < 0 then spec\<lparr>precision_set := False, precision := 0\<rparr>
                              else spec\<lparr>precision := p\<rparr>) }
        else (case parse_decimal fmt of (fmt, p) \<Rightarrow> Some (fmt, args, spec\<lparr>precision := p\<rparr>))
      else Some (fmt, args, spec))"

fun count_prefix :: "char \<Rightarrow> string \<Rightarrow> string \<times> nat" where
  "count_prefix x [] = ([], 0)"
| "count_prefix x (c # cs) =
     (if c = x then (case count_prefix x cs of (cs, n) \<Rightarrow> (cs, Suc n)) else (c # cs, 0))"

definition parse_length :: "string \<Rightarrow> printf_spec \<Rightarrow> string \<times> printf_spec" where
  "parse_length fmt spec =
     (let (fmt, h) = count_prefix (CHR ''h'') fmt;
          (fmt, l) = count_prefix (CHR ''l'') fmt;
          spec = spec\<lparr>short_count := h, long_count := l\<rparr>;
          (fmt, spec) = (if starts_with (CHR ''L'') fmt then (tl fmt, spec\<lparr>long_double_length := True\<rparr>)
                         else (fmt, spec))
      in if starts_with (CHR ''z'') fmt then (tl fmt, spec\<lparr>size_length := True\<rparr>)
         else if starts_with (CHR ''j'') fmt then (tl fmt, spec\<lparr>intmax_length := True\<rparr>)
         else if starts_with (CHR ''t'') fmt then (tl fmt, spec\<lparr>ptrdiff_length := True\<rparr>)
         else (fmt, spec))"

definition parse_spec ::
    "string \<Rightarrow> 'd printf_arg list \<Rightarrow> (string \<times> 'd printf_arg list \<times> printf_spec) option" where
  "parse_spec fmt args =
     (let (fmt, spec) = parse_flags fmt empty_spec in do {
        (fmt, args, spec) \<leftarrow> parse_width fmt args spec;
        (fmt, args, spec) \<leftarrow> parse_precision fmt args spec;
        Some (fst (parse_length fmt spec), args, snd (parse_length fmt spec)) })"

subsection \<open>Numbers and strings\<close>

definition digit_table :: "bool \<Rightarrow> string" where
  "digit_table uppercase = (if uppercase then ''0123456789ABCDEF'' else ''0123456789abcdef'')"

text \<open>The digits in \<^verbatim>\<open>scratch\<close>, the last one first.\<close>

function convert_loop :: "string \<Rightarrow> nat \<Rightarrow> nat \<Rightarrow> string" where
  "convert_loop table val base =
     (if val \<noteq> 0 \<and> 1 < base then table ! (val mod base) # convert_loop table (val div base) base else [])"
  by pat_completeness auto
termination by (relation "measure (\<lambda>(table, val, base). val)") auto

declare convert_loop.simps [simp del]

definition convert_unsigned :: "nat \<Rightarrow> nat \<Rightarrow> bool \<Rightarrow> string" where
  "convert_unsigned val base uppercase =
     (if val = 0 then ''0'' else rev (convert_loop (digit_table uppercase) val base))"

text \<open>Grouping of the digits. A group size of 127, \<open>CHAR_MAX\<close>, or 0 ends the grouping; the last
  size repeats.\<close>

definition char_max :: char where "char_max = char_of (127 :: nat)"

definition grouping_on :: "lconv \<Rightarrow> bool" where
  "grouping_on lc \<longleftrightarrow> thousands_sep lc \<noteq> [] \<and> lc_grouping lc \<noteq> [] \<and> hd (lc_grouping lc) \<noteq> char_max"

definition printf_grouping_enabled :: "lconv \<Rightarrow> printf_spec \<Rightarrow> bool" where
  "printf_grouping_enabled lc spec \<longleftrightarrow> grouping spec \<and> grouping_on lc"

definition next_group :: "string \<Rightarrow> string" where
  "next_group g = (case g of _ # c # g' \<Rightarrow> if c \<noteq> char_max then c # g' else g | _ \<Rightarrow> g)"

function grouping_span_loop :: "nat \<Rightarrow> string \<Rightarrow> nat" where
  "grouping_span_loop n g =
     (if g \<noteq> [] \<and> (of_char (hd g) :: nat) \<noteq> 0 \<and> n > of_char (hd g)
      then Suc (grouping_span_loop (n - of_char (hd g)) (next_group g)) else 0)"
  by pat_completeness auto
termination by (relation "measure (\<lambda>(n, g). n)") auto

declare grouping_span_loop.simps [simp del]

definition grouping_span :: "nat \<Rightarrow> string \<Rightarrow> nat" where
  "grouping_span n g = (if hd g = NUL \<or> hd g = char_max then 0 else grouping_span_loop n g)"

text \<open>From the right: the last group of digits, a separator, the digits before it.\<close>

function group_digits :: "string \<Rightarrow> string \<Rightarrow> string \<Rightarrow> string" where
  "group_digits sep g ds =
     (if g \<noteq> [] \<and> (of_char (hd g) :: nat) \<noteq> 0 \<and> length ds > of_char (hd g)
      then group_digits sep (next_group g) (take (length ds - of_char (hd g)) ds) @ sep @
           drop (length ds - of_char (hd g)) ds
      else ds)"
  by pat_completeness auto
termination by (relation "measure (\<lambda>(sep, g, ds). length ds)") auto

declare group_digits.simps [simp del]

definition apply_grouping_to_digits :: "lconv \<Rightarrow> nat \<Rightarrow> string \<Rightarrow> string" where
  "apply_grouping_to_digits lc out_capacity ds =
     (if \<not> grouping_on lc then ds
      else
        let groups = grouping_span (length ds) (lc_grouping lc);
            out_len = length ds + groups * length (thousands_sep lc)
        in if out_len + 1 > out_capacity then ds else group_digits (thousands_sep lc) (lc_grouping lc) ds)"

definition write_formatted :: "printf_buffer \<Rightarrow> printf_spec \<Rightarrow> string \<Rightarrow> string \<Rightarrow> bool \<Rightarrow> printf_buffer" where
  "write_formatted b spec prefix ds zero_value =
     (let zero_count = (if precision_set spec \<and> precision spec > int_of_size (length ds)
                        then wrap_int (precision spec - int_of_size (length ds)) else 0);
          pad_ch = (if \<not> precision_set spec \<and> zero spec \<and> \<not> left spec \<and> width spec > 0
                    then CHR ''0'' else CHR '' '');
          ds = (if zero_value \<and> precision_set spec \<and> precision spec = 0 then [] else ds);
          content_len = wrap_int (int_of_size (length prefix) + zero_count + int_of_size (length ds));
          pad_count = (if width spec > content_len then wrap_int (width spec - content_len) else 0);
          b = (if \<not> left spec \<and> pad_ch = CHR '' '' then write_padding b (CHR '' '') pad_count else b);
          b = buffer_write b prefix;
          b = (if \<not> left spec \<and> pad_ch = CHR ''0'' then write_padding b (CHR ''0'') pad_count else b);
          b = write_padding b (CHR ''0'') zero_count;
          b = buffer_write b ds
      in if left spec then write_padding b (CHR '' '') pad_count else b)"

definition format_string :: "printf_buffer \<Rightarrow> printf_spec \<Rightarrow> string option \<Rightarrow> printf_buffer" where
  "format_string b spec val =
     (let s = (case val of None \<Rightarrow> ''(null)'' | Some s \<Rightarrow> s);
          len = (if precision_set spec \<and> precision spec \<ge> 0 \<and> nat (precision spec) < length s
                 then nat (precision spec) else length s);
          pad = (if width spec > int_of_size len then wrap_int (width spec - int_of_size len) else 0);
          b = (if \<not> left spec then write_padding b (CHR '' '') pad else b);
          b = buffer_write b (take len s)
      in if left spec then write_padding b (CHR '' '') pad else b)"

text \<open>The bytes of one wide character, \<open>wcrtomb\<close> into a local buffer; \<^term>\<open>None\<close> where it fails.\<close>

definition wide_bytes :: "wchar \<Rightarrow> string option" where
  "wide_bytes wc = (case wcrtomb (mem_of 1 (replicate 4 NUL)) 1 wc of
     Some (Bytes n, m) \<Rightarrow> load_n m 1 n | _ \<Rightarrow> None)"

primrec narrow_string :: "wchar list \<Rightarrow> string option" where
  "narrow_string [] = Some []"
| "narrow_string (w # ws) = do { b \<leftarrow> wide_bytes w; bs \<leftarrow> narrow_string ws; Some (b @ bs) }"

definition format_wide_string :: "(nat \<Rightarrow> bool) \<Rightarrow> printf_buffer \<Rightarrow> printf_spec \<Rightarrow> wchar list option \<Rightarrow> printf_buffer" where
  "format_wide_string has_memory b spec val = (case val of None \<Rightarrow> format_string b spec (Some ''(null)'')
   | Some ws \<Rightarrow>
      (let wide_len = (if precision_set spec \<and> precision spec \<ge> 0 \<and> nat (precision spec) < length ws
                       then nat (precision spec) else length ws)
       in if \<not> has_memory (wide_len * 4 + 1) then b
          else case narrow_string (take wide_len ws) of None \<Rightarrow> b
          | Some s \<Rightarrow> format_string b
              (if precision_set spec then spec\<lparr>precision_set := False, precision := 0\<rparr> else spec)
              (Some (takeWhile (\<lambda>c. c \<noteq> NUL) s))))"

definition format_wide_char :: "printf_buffer \<Rightarrow> printf_spec \<Rightarrow> wchar \<Rightarrow> printf_buffer" where
  "format_wide_char b spec wc = (case wide_bytes wc of None \<Rightarrow> b
     | Some s \<Rightarrow> format_string b spec (Some (takeWhile (\<lambda>c. c \<noteq> NUL) s)))"

definition integer_prefix :: "printf_spec \<Rightarrow> nat \<Rightarrow> bool \<Rightarrow> bool \<Rightarrow> nat \<Rightarrow> bool \<Rightarrow> string" where
  "integer_prefix spec val is_signed negative base uppercase =
     (if is_signed then
        if negative then ''-'' else if plus spec then ''+'' else if space spec then '' '' else []
      else if alt spec \<and> val \<noteq> 0 then
        if base = 8 then ''0'' else if base = 16 then if uppercase then ''0X'' else ''0x'' else []
      else [])"

text \<open>The grouped digits and their terminator are copied back into an array of 64 bytes.\<close>

definition format_integer ::
    "lconv \<Rightarrow> printf_buffer \<Rightarrow> printf_spec \<Rightarrow> nat \<Rightarrow> bool \<Rightarrow> bool \<Rightarrow> nat \<Rightarrow> bool \<Rightarrow> printf_buffer option" where
  "format_integer lc b spec val is_signed negative base uppercase =
     (let ds = convert_unsigned val base uppercase; grouped = (base = 10 \<and> printf_grouping_enabled lc spec);
          ds = (if grouped then apply_grouping_to_digits lc 128 ds else ds)
      in if grouped \<and> length ds + 1 > 64 then None
         else Some (write_formatted b spec (integer_prefix spec val is_signed negative base uppercase) ds (val = 0)))"

subsection \<open>Floating-point numbers\<close>

definition double_is_negative :: "u64 \<Rightarrow> bool" where
  "double_is_negative bits \<longleftrightarrow> drop_bit 63 bits \<noteq> 0"

definition double_is_nan :: "u64 \<Rightarrow> bool" where
  "double_is_nan bits \<longleftrightarrow> and bits 0x7ff0000000000000 = 0x7ff0000000000000 \<and> and bits 0x000fffffffffffff \<noteq> 0"

definition double_is_inf :: "u64 \<Rightarrow> bool" where
  "double_is_inf bits \<longleftrightarrow> and bits 0x7fffffffffffffff = 0x7ff0000000000000"

definition double_abs_value :: "'d float_env \<Rightarrow> u64 \<Rightarrow> 'd" where
  "double_abs_value fe bits =
     (if double_is_negative bits then ld_minus fe (ld_of_double fe bits) else ld_of_double fe bits)"

definition long_double_abs_value :: "'d float_env \<Rightarrow> 'd \<Rightarrow> 'd" where
  "long_double_abs_value fe v = (if ld_signbit fe v then ld_minus fe v else v)"

partial_function (option) exponent_up :: "'d float_env \<Rightarrow> 'd \<Rightarrow> int \<Rightarrow> ('d \<times> int) option" where
  "exponent_up fe v e = (if ld_ge_ten fe v then exponent_up fe (ld_div_ten fe v) (e + 1) else Some (v, e))"

partial_function (option) exponent_down :: "'d float_env \<Rightarrow> 'd \<Rightarrow> int \<Rightarrow> ('d \<times> int) option" where
  "exponent_down fe v e = (if ld_less_one fe v then exponent_down fe (ld_mult_ten fe v) (e - 1) else Some (v, e))"

definition decimal_exponent :: "'d float_env \<Rightarrow> 'd \<Rightarrow> int option" where
  "decimal_exponent fe v = (if ld_is_zero fe v then Some 0 else do {
     (v, e) \<leftarrow> exponent_up fe v 0;
     (v, e) \<leftarrow> exponent_down fe v e;
     Some e })"

text \<open>What the conversions read of a \<open>double\<close> or a \<open>long double\<close>, and the sizes of the arrays that
  the two sets of functions put the text in, with the greatest precision they honour. The functions
  for \<open>long double\<close> differ from those for \<open>double\<close> in nothing else.\<close>

record float_value =
  fp_negative :: bool
  fp_nan :: bool
  fp_inf :: bool
  fp_zero :: bool
  fp_exponent :: "int option"
  fp_dtoa :: "int \<Rightarrow> int \<Rightarrow> (string \<times> int) option"
  fp_hdtoa :: "string \<Rightarrow> int \<Rightarrow> (string \<times> int \<times> bool) option"

definition double_value :: "'d float_env \<Rightarrow> u64 \<Rightarrow> float_value" where
  "double_value fe bits = \<lparr>fp_negative = double_is_negative bits, fp_nan = double_is_nan bits,
     fp_inf = double_is_inf bits, fp_zero = (and bits 0x7fffffffffffffff = 0),
     fp_exponent = decimal_exponent fe (double_abs_value fe bits),
     fp_dtoa = dtoa fe bits, fp_hdtoa = hdtoa fe bits\<rparr>"

definition long_double_value :: "'d float_env \<Rightarrow> 'd \<Rightarrow> float_value" where
  "long_double_value fe v = \<lparr>fp_negative = ld_signbit fe v, fp_nan = ld_isnan fe v, fp_inf = ld_isinf fe v,
     fp_zero = ld_is_zero fe v, fp_exponent = decimal_exponent fe (long_double_abs_value fe v),
     fp_dtoa = ldtoa fe v, fp_hdtoa = hldtoa fe v\<rparr>"

record float_arrays =
  fixed_size :: nat
  exp_size :: nat
  general_size :: nat
  most_digits :: int

definition double_arrays :: float_arrays where
  "double_arrays = \<lparr>fixed_size = 160, exp_size = 192, general_size = 192, most_digits = 18\<rparr>"

definition long_double_arrays :: float_arrays where
  "long_double_arrays = \<lparr>fixed_size = 256, exp_size = 256, general_size = 256, most_digits = 36\<rparr>"

definition append_float_prefix :: "printf_spec \<Rightarrow> bool \<Rightarrow> string" where
  "append_float_prefix spec negative =
     (if negative then ''-'' else if plus spec then ''+'' else if space spec then '' '' else [])"

definition format_float_special :: "float_value \<Rightarrow> bool \<Rightarrow> printf_spec \<Rightarrow> printf_buffer \<Rightarrow> printf_buffer" where
  "format_float_special v uppercase spec b =
     write_formatted b spec (if fp_nan v then [] else append_float_prefix spec (fp_negative v))
       (if fp_nan v then if uppercase then ''NAN'' else ''nan'' else if uppercase then ''INF'' else ''inf'') False"

definition printf_decimal_point :: "lconv \<Rightarrow> string" where
  "printf_decimal_point lc = (if decimal_point lc = [] then ''.'' else decimal_point lc)"

definition decimal_point_suffix :: "lconv \<Rightarrow> string \<Rightarrow> bool" where
  "decimal_point_suffix lc ds \<longleftrightarrow> length ds \<ge> length (printf_decimal_point lc) \<and>
     drop (length ds - length (printf_decimal_point lc)) ds = printf_decimal_point lc"

definition trim_fraction :: "lconv \<Rightarrow> string \<Rightarrow> string" where
  "trim_fraction lc ds = (let ds = rev (dropWhile (\<lambda>c. c = CHR ''0'') (rev ds))
     in if decimal_point_suffix lc ds then take (length ds - length (printf_decimal_point lc)) ds else ds)"

definition append_exponent :: "string \<Rightarrow> int \<Rightarrow> bool \<Rightarrow> string" where
  "append_exponent ds e uppercase = ds @ (if uppercase then ''E'' else ''e'') @ (if e < 0 then ''-'' else ''+'') @
     (if nat \<bar>e\<bar> \<ge> 100 then convert_unsigned (nat \<bar>e\<bar>) 10 False
      else [char_of (48 + nat \<bar>e\<bar> div 10), char_of (48 + nat \<bar>e\<bar> mod 10)])"

definition dtoa_digit_at :: "string \<Rightarrow> int \<Rightarrow> char" where
  "dtoa_digit_at ds i = (if i < 0 \<or> nat i \<ge> length ds then CHR ''0'' else ds ! nat i)"

text \<open>The digits before the point, grouped in an array of 192 bytes, the point and the digits behind it.
  A text that the array holds neither grouped nor plain is compared past its end.\<close>

definition append_dtoa_fixed_digits :: "lconv \<Rightarrow> string \<Rightarrow> int \<Rightarrow> int \<Rightarrow> bool \<Rightarrow> bool \<Rightarrow> string option" where
  "append_dtoa_fixed_digits lc ds decpt prec alt_form group_form =
     (let out = (if decpt > 0 then map (dtoa_digit_at ds) [0..decpt - 1] else ''0'')
      in if group_form \<and> length out \<ge> 192 then None
         else let out = (if group_form then apply_grouping_to_digits lc 192 out else out)
           in Some (if prec > 0 \<or> alt_form
                then out @ printf_decimal_point lc @ map (\<lambda>i. dtoa_digit_at ds (decpt + i)) [0..prec - 1]
                else out))"

definition float_precision :: "float_arrays \<Rightarrow> printf_spec \<Rightarrow> int" where
  "float_precision arr spec =
     (let p = (if precision_set spec then precision spec else 6); p = (if p < 0 then 6 else p)
      in if p > most_digits arr then most_digits arr else p)"

definition format_double_fixed ::
    "lconv \<Rightarrow> float_arrays \<Rightarrow> float_value \<Rightarrow> printf_spec \<Rightarrow> printf_buffer \<Rightarrow> printf_buffer option" where
  "format_double_fixed lc arr v spec b =
     (if fp_nan v \<or> fp_inf v then Some (format_float_special v False spec b)
      else
        let prefix = append_float_prefix spec (fp_negative v); prec = float_precision arr spec
        in case fp_dtoa v 5 prec of None \<Rightarrow> Some (write_formatted b spec prefix ''0'' False)
           | Some (ds, decpt) \<Rightarrow> do {
               digits \<leftarrow> append_dtoa_fixed_digits lc ds decpt prec (alt spec) (printf_grouping_enabled lc spec);
               if length digits < fixed_size arr
               then Some (write_formatted b (spec\<lparr>precision_set := False\<rparr>) prefix digits False) else None })"

definition format_double_exp ::
    "lconv \<Rightarrow> float_arrays \<Rightarrow> float_value \<Rightarrow> bool \<Rightarrow> bool \<Rightarrow> printf_spec \<Rightarrow> printf_buffer \<Rightarrow> printf_buffer option" where
  "format_double_exp lc arr v uppercase trim spec b =
     (if fp_nan v \<or> fp_inf v then Some (format_float_special v uppercase spec b)
      else
        let prefix = append_float_prefix spec (fp_negative v); prec = float_precision arr spec
        in case fp_dtoa v 4 (prec + 1) of None \<Rightarrow> Some (write_formatted b spec prefix ''0'' False)
           | Some (ds, decpt) \<Rightarrow>
              (let digits = dtoa_digit_at ds 0 # (if prec > 0 \<or> alt spec
                     then printf_decimal_point lc @ map (\<lambda>i. dtoa_digit_at ds (i + 1)) [0..prec - 1] else []);
                   trimmed = (if (prec > 0 \<or> alt spec) \<and> trim \<and> \<not> alt spec then trim_fraction lc digits else digits);
                   shown = append_exponent trimmed (decpt - 1) uppercase
               in if length digits \<le> exp_size arr \<and> length shown < exp_size arr
                  then Some (write_formatted b (spec\<lparr>precision_set := False\<rparr>) prefix shown False) else None))"

definition format_double_general ::
    "lconv \<Rightarrow> float_arrays \<Rightarrow> float_value \<Rightarrow> bool \<Rightarrow> printf_spec \<Rightarrow> printf_buffer \<Rightarrow> printf_buffer option" where
  "format_double_general lc arr v uppercase spec b =
     (let p = (if precision_set spec then precision spec else 6); p = (if p = 0 then 1 else p)
      in if fp_nan v \<or> fp_inf v then Some (format_float_special v uppercase spec b)
         else do {
           e \<leftarrow> fp_exponent v;
           if e < -4 \<or> e \<ge> p
           then format_double_exp lc arr v uppercase True (spec\<lparr>precision_set := True, precision := wrap_int (p - 1)\<rparr>) b
           else do {
             temp \<leftarrow> format_double_fixed lc arr v (spec\<lparr>precision_set := True, precision := max 0 (p - (e + 1)),
                 width := 0, left := False, zero := False\<rparr>) (new_buffer (general_size arr));
             let len = (if pb_length temp < general_size arr then pb_length temp else general_size arr - 1);
             digits \<leftarrow> load_n (pb_data temp) 0 len;
             Some (write_formatted b (spec\<lparr>precision_set := False\<rparr>) []
               (if alt spec then digits else trim_fraction lc digits) False) }})"

definition format_hex_digits ::
    "lconv \<Rightarrow> string \<Rightarrow> int \<Rightarrow> bool \<Rightarrow> bool \<Rightarrow> printf_spec \<Rightarrow> printf_buffer \<Rightarrow> printf_buffer option" where
  "format_hex_digits lc hdigits decpt negative uppercase spec b =
     (let p = (if precision_set spec then precision spec else int (length hdigits) - 1);
          p = (if p < 0 then 0 else p); p = (if p > 64 then 64 else p);
          prefix = append_float_prefix spec negative @ (if uppercase then ''0X'' else ''0x'');
          digits = (if hdigits = [] then CHR ''0'' else hd hdigits) # (if p > 0 \<or> alt spec
              then printf_decimal_point lc @ map (\<lambda>i. dtoa_digit_at hdigits (i + 1)) [0..p - 1] else []);
          trimmed = (if (p > 0 \<or> alt spec) \<and> \<not> precision_set spec \<and> \<not> alt spec then trim_fraction lc digits else digits);
          shown = trimmed @ (if uppercase then ''P'' else ''p'') @ (if decpt < 0 then ''-'' else ''+'') @
              convert_unsigned (nat \<bar>decpt\<bar>) 10 False
      in if length digits \<le> 256 \<and> length shown < 256
         then Some (write_formatted b (spec\<lparr>precision_set := False\<rparr>) prefix shown False) else None)"

definition format_double_hex ::
    "lconv \<Rightarrow> float_value \<Rightarrow> bool \<Rightarrow> printf_spec \<Rightarrow> printf_buffer \<Rightarrow> printf_buffer option" where
  "format_double_hex lc v uppercase spec b =
     (if fp_nan v \<or> fp_inf v then Some (format_float_special v uppercase spec b)
      else case fp_hdtoa v (digit_table uppercase) (if precision_set spec then wrap_int (precision spec + 1) else -1) of
          None \<Rightarrow> format_hex_digits lc ''0'' 0 (fp_negative v) uppercase spec b
        | Some (hdigits, decpt, sign) \<Rightarrow>
            format_hex_digits lc hdigits (if fp_zero v then 0 else decpt - 1) sign uppercase spec b)"

text \<open>The cases of the floating-point conversions in the loop of \<^verbatim>\<open>vsnprintf\<close>.\<close>

definition convert_float ::
    "lconv \<Rightarrow> float_arrays \<Rightarrow> float_value \<Rightarrow> char \<Rightarrow> printf_spec \<Rightarrow> printf_buffer \<Rightarrow> printf_buffer option" where
  "convert_float lc arr v c spec b =
     (if c = CHR ''f'' then format_double_fixed lc arr v spec b
      else if c = CHR ''F'' then
        if fp_nan v \<or> fp_inf v then Some (format_float_special v True spec b) else format_double_fixed lc arr v spec b
      else if c = CHR ''e'' \<or> c = CHR ''E'' then format_double_exp lc arr v (c = CHR ''E'') False spec b
      else if c = CHR ''g'' \<or> c = CHR ''G'' then format_double_general lc arr v (c = CHR ''G'') spec b
      else format_double_hex lc v (c = CHR ''A'') spec b)"

subsection \<open>The conversions\<close>

text \<open>The integer argument of the width that the length modifiers name. \<open>h\<close> and \<open>hh\<close> are counted
  and not used.\<close>

definition wide_integer :: "printf_spec \<Rightarrow> bool" where
  "wide_integer spec \<longleftrightarrow> intmax_length spec \<or> ptrdiff_length spec \<or> size_length spec \<or> long_count spec \<ge> 1"

definition va_signed :: "printf_spec \<Rightarrow> 'd printf_arg list \<Rightarrow> (int \<times> 'd printf_arg list) option" where
  "va_signed spec args = (case args of
     ArgLong v # args \<Rightarrow> if wide_integer spec then Some (sint v, args) else None
   | ArgInt v # args \<Rightarrow> if wide_integer spec then None else Some (sint v, args)
   | _ \<Rightarrow> None)"

definition va_unsigned :: "printf_spec \<Rightarrow> 'd printf_arg list \<Rightarrow> (nat \<times> 'd printf_arg list) option" where
  "va_unsigned spec args = (case args of
     ArgLong v # args \<Rightarrow> if wide_integer spec then Some (unat v, args) else None
   | ArgInt v # args \<Rightarrow> if wide_integer spec then None else Some (unat v, args)
   | _ \<Rightarrow> None)"

text \<open>The bytes that \<open>%n\<close> stores to.\<close>

definition count_size :: "printf_spec \<Rightarrow> nat" where
  "count_size spec = (if short_count spec \<ge> 2 then 1 else if short_count spec = 1 then 2
     else if long_count spec \<ge> 1 \<or> size_length spec \<or> ptrdiff_length spec then 8 else 4)"

definition store_count :: "nat \<Rightarrow> nat \<Rightarrow> string" where
  "store_count bytes n = map (\<lambda>i. char_of (n div 256 ^ i mod 256)) [0..<bytes]"

text \<open>One conversion: the buffer, the memory for \<open>%n\<close> and the arguments left.\<close>

definition convert_spec :: "'d printf_env \<Rightarrow> char \<Rightarrow> printf_spec \<Rightarrow> 'd printf_arg list \<Rightarrow> printf_buffer \<times> mem \<Rightarrow>
    ((printf_buffer \<times> mem) \<times> 'd printf_arg list) option" where
  "convert_spec env c spec args st = (case st of (b, m) \<Rightarrow>
     if c = CHR ''c'' then do {
       (v, args) \<leftarrow> va_int args;
       Some ((if long_count spec > 0 then format_wide_char b spec (word_of_int v)
              else write_formatted b spec [] [char_of v] False, m), args) }
     else if c = CHR ''s'' then (case args of
         ArgWide s # args \<Rightarrow> if long_count spec > 0 then Some ((format_wide_string (malloc_ok env) b spec s, m), args) else None
       | ArgString s # args \<Rightarrow> if long_count spec > 0 then None else Some ((format_string b spec s, m), args)
       | _ \<Rightarrow> None)
     else if c = CHR ''d'' \<or> c = CHR ''i'' then do {
       (v, args) \<leftarrow> va_signed spec args;
       let magnitude = (if v < 0 then nat (- (v + 1)) + 1 else nat v);
       map_option (\<lambda>b. ((b, m), args)) (format_integer (localeconv env) b spec magnitude True (v < 0) 10 False) }
     else if c = CHR ''u'' \<or> c = CHR ''o'' \<or> c = CHR ''x'' \<or> c = CHR ''X'' then do {
       (v, args) \<leftarrow> va_unsigned spec args;
       let base = (if c = CHR ''o'' then 8 else if c = CHR ''u'' then 10 else 16);
       map_option (\<lambda>b. ((b, m), args)) (format_integer (localeconv env) b spec v False False base (c = CHR ''X'')) }
     else if c = CHR ''p'' then (case args of
         ArgPointer v # args \<Rightarrow>
           map_option (\<lambda>b. ((b, m), args)) (format_integer (localeconv env) b (spec\<lparr>alt := True\<rparr>) (unat v) False False 16 False)
       | _ \<Rightarrow> None)
     else if c = CHR ''n'' then (case args of
         ArgStore p # args \<Rightarrow> do {
           m \<leftarrow> store_n m p (store_count (count_size spec) (pb_length b));
           Some ((b, m), args) }
       | _ \<Rightarrow> None)
     else if c = CHR ''m'' then Some ((format_string b spec (Some (errno_text env)), m), args)
     else if c \<in> set ''fFeEgGaA'' then (case args of
         ArgDouble d # args \<Rightarrow>
           if long_double_length spec then None
           else map_option (\<lambda>b. ((b, m), args)) (convert_float (localeconv env) double_arrays (double_value (floats env) d) c spec b)
       | ArgLongDouble d # args \<Rightarrow>
           if long_double_length spec
           then map_option (\<lambda>b. ((b, m), args))
             (convert_float (localeconv env) long_double_arrays (long_double_value (floats env) d) c spec b)
           else None
       | _ \<Rightarrow> None)
     else Some ((buffer_putc (buffer_putc b (CHR ''%'')) c, m), args))"

subsection \<open>Formatting\<close>

lemma parse_decimal_shorter: "parse_decimal fmt = (fmt', n) \<Longrightarrow> length fmt' \<le> length fmt"
proof -
  have "length (fst (parse_decimal_from r fmt)) \<le> length fmt" for r
    by (induction r fmt rule: parse_decimal_from.induct) (auto simp: Let_def)
  from this [of 0] show "parse_decimal fmt = (fmt', n) \<Longrightarrow> length fmt' \<le> length fmt"
    by (simp add: parse_decimal_def)
qed

lemma parse_flags_shorter: "parse_flags fmt spec = (fmt', spec') \<Longrightarrow> length fmt' \<le> length fmt"
proof (induction fmt spec rule: parse_flags.induct)
  case (2 c cs spec)
  then show ?case by (auto split: if_splits)
qed simp

lemma count_prefix_shorter: "count_prefix x fmt = (fmt', n) \<Longrightarrow> length fmt' \<le> length fmt"
proof (induction x fmt arbitrary: fmt' n rule: count_prefix.induct)
  case (2 x c cs)
  then show ?case by (cases "count_prefix x cs") (auto split: if_splits)
qed simp

lemma parse_spec_shorter:
  assumes "parse_spec fmt args = Some (fmt', args', spec)"
  shows "length fmt' \<le> length fmt"
proof -
  obtain f1 s1 where 1: "parse_flags fmt empty_spec = (f1, s1)" by fastforce
  from assms obtain f2 a2 s2 f3 a3 s3 where 2: "parse_width f1 args s1 = Some (f2, a2, s2)"
    and 3: "parse_precision f2 a2 s2 = Some (f3, a3, s3)" and 4: "parse_length f3 s3 = (fmt', spec)"
    by (auto simp: parse_spec_def 1)
  have "length f1 \<le> length fmt" by (rule parse_flags_shorter [OF 1])
  moreover have "length f2 \<le> length f1"
    using 2 by (auto simp: parse_width_def split: if_splits prod.splits dest: parse_decimal_shorter)
  moreover have "length f3 \<le> length f2"
    using 3 by (auto simp: parse_precision_def Let_def split: if_splits prod.splits dest!: parse_decimal_shorter)
  moreover have "length fmt' \<le> length f3"
    using 4 by (auto simp: parse_length_def Let_def split: if_splits prod.splits dest!: count_prefix_shorter)
  ultimately show ?thesis by linarith
qed

text \<open>The loop of \<open>vsnprintf\<close>: characters copied and conversions.\<close>

function vsnprintf_loop :: "'d printf_env \<Rightarrow> string \<Rightarrow> 'd printf_arg list \<Rightarrow> printf_buffer \<times> mem \<Rightarrow>
    (printf_buffer \<times> mem) option" where
  "vsnprintf_loop env [] args st = Some st"
| "vsnprintf_loop env (c # fmt) args st =
     (if c \<noteq> CHR ''%'' then vsnprintf_loop env fmt args (buffer_putc (fst st) c, snd st)
      else if starts_with (CHR ''%'') fmt
      then vsnprintf_loop env (tl fmt) args (buffer_putc (fst st) (CHR ''%''), snd st)
      else (case parse_spec fmt args of
          None \<Rightarrow> None
        | Some (fmt', args, spec) \<Rightarrow>
            (case fmt' of
               [] \<Rightarrow> Some (buffer_putc (fst st) (CHR ''%''), snd st)
             | x # rest \<Rightarrow>
                 (case convert_spec env x spec args st of
                    None \<Rightarrow> None
                  | Some (st, args) \<Rightarrow> vsnprintf_loop env rest args st))))"
  by pat_completeness auto
termination
  by (relation "measure (\<lambda>(env, fmt, args, st). length fmt)") (auto simp: starts_with_def dest: parse_spec_shorter)

text \<open>The start and the end of the formatting: the terminator is the last store.\<close>

definition put_terminator :: "nat \<Rightarrow> printf_buffer \<Rightarrow> (nat \<rightharpoonup> char)" where
  "put_terminator n b = (if n \<noteq> 0 then
     if pb_length b < n then (pb_data b)(pb_length b \<mapsto> NUL) else (pb_data b)(n - 1 \<mapsto> NUL)
   else pb_data b)"

subsection \<open>Every conversion appends a text\<close>

lemma buffer_write_append: "buffer_write (buffer_write b s) t = buffer_write b (s @ t)"
  by (induction s arbitrary: b) auto

lemma buffer_putc_write: "buffer_putc b c = buffer_write b [c]"
  by simp

lemma write_padding_write: "write_padding b ch n = buffer_write b (replicate (nat n) ch)"
proof (induction b ch n rule: write_padding.induct)
  case (1 b ch count)
  then show ?case
    by (subst write_padding.simps) (auto simp: Suc_nat_eq_nat_zadd1 simp flip: replicate_Suc buffer_write.simps)
qed

definition formatted_text :: "printf_spec \<Rightarrow> string \<Rightarrow> string \<Rightarrow> bool \<Rightarrow> string" where
  "formatted_text spec prefix ds zero_value =
     (let z = (if precision_set spec \<and> precision spec > int_of_size (length ds)
               then wrap_int (precision spec - int_of_size (length ds)) else 0);
          ds = (if zero_value \<and> precision_set spec \<and> precision spec = 0 then [] else ds);
          len = wrap_int (int_of_size (length prefix) + z + int_of_size (length ds));
          pad = (if width spec > len then nat (wrap_int (width spec - len)) else 0);
          zeros = replicate (nat z) (CHR ''0'')
      in if left spec then prefix @ zeros @ ds @ replicate pad (CHR '' '')
         else if \<not> precision_set spec \<and> zero spec \<and> width spec > 0
         then prefix @ replicate pad (CHR ''0'') @ zeros @ ds
         else replicate pad (CHR '' '') @ prefix @ zeros @ ds)"

lemma write_formatted_text:
  "write_formatted b spec prefix ds z = buffer_write b (formatted_text spec prefix ds z)"
proof -
  have nat_if: "nat (if P then n else 0) = (if P then nat n else 0)" for P n by simp
  show ?thesis
    unfolding write_formatted_def formatted_text_def Let_def
    by (simp add: write_padding_write buffer_write_append nat_if flip: append_assoc)
qed

definition string_text :: "printf_spec \<Rightarrow> string option \<Rightarrow> string" where
  "string_text spec val =
     (let s = (case val of None \<Rightarrow> ''(null)'' | Some s \<Rightarrow> s);
          s = (if precision_set spec \<and> precision spec \<ge> 0 then take (nat (precision spec)) s else s);
          n = int_of_size (length s);
          pad = replicate (if width spec > n then nat (wrap_int (width spec - n)) else 0) (CHR '' '')
      in if left spec then s @ pad else pad @ s)"

lemma format_string_text: "format_string b spec val = buffer_write b (string_text spec val)"
proof -
  have nat_if: "nat (if P then n else 0) = (if P then nat n else 0)" for P n by simp
  define s where "s = (case val of None \<Rightarrow> ''(null)'' | Some s \<Rightarrow> s)"
  define n where "n = (if precision_set spec \<and> precision spec \<ge> 0 \<and> nat (precision spec) < length s
    then nat (precision spec) else length s)"
  define t where "t = (if precision_set spec \<and> precision spec \<ge> 0 then take (nat (precision spec)) s else s)"
  have t: "t = take n s" "length t = n" by (auto simp: t_def n_def)
  define pad where "pad = (if width spec > int_of_size n then nat (wrap_int (width spec - int_of_size n)) else 0)"
  have "format_string b spec val = buffer_write b (if left spec then take n s @ replicate pad (CHR '' '')
      else replicate pad (CHR '' '') @ take n s)"
    unfolding format_string_def Let_def s_def [symmetric] n_def [symmetric]
    by (simp add: write_padding_write buffer_write_append nat_if pad_def)
  then show ?thesis
    unfolding string_text_def Let_def s_def [symmetric] t_def [symmetric] using t by (simp add: pad_def)
qed

lemma wide_string_text: "\<exists>t. \<forall>b. format_wide_string ok b spec val = buffer_write b t"
proof (cases "val")
  case None
  then show ?thesis by (auto simp: format_wide_string_def format_string_text)
next
  case (Some ws)
  define n where "n = (if precision_set spec \<and> precision spec \<ge> 0 \<and> nat (precision spec) < length ws
    then nat (precision spec) else length ws)"
  show ?thesis
  proof (cases "ok (n * 4 + 1) \<and> narrow_string (take n ws) \<noteq> None")
    case False
    with Some show ?thesis
      unfolding format_wide_string_def by (auto simp: Let_def simp flip: n_def intro!: exI [of _ "[]"])
  next
    case True
    with Some show ?thesis
      unfolding format_wide_string_def by (auto simp: Let_def format_string_text simp flip: n_def)
  qed
qed

lemma wide_char_text: "\<exists>t. \<forall>b. format_wide_char b spec wc = buffer_write b t"
proof (cases "wide_bytes wc")
  case None
  then show ?thesis by (auto simp: format_wide_char_def intro!: exI [of _ "[]"])
qed (auto simp: format_wide_char_def format_string_text)

text \<open>The text of an integer conversion.\<close>

definition integer_text :: "lconv \<Rightarrow> printf_spec \<Rightarrow> nat \<Rightarrow> bool \<Rightarrow> bool \<Rightarrow> nat \<Rightarrow> bool \<Rightarrow> string option" where
  "integer_text lc spec val is_signed negative base uppercase =
     (let ds = convert_unsigned val base uppercase; grouped = (base = 10 \<and> printf_grouping_enabled lc spec);
          ds = (if grouped then apply_grouping_to_digits lc 128 ds else ds)
      in if grouped \<and> length ds + 1 > 64 then None
         else Some (formatted_text spec (integer_prefix spec val is_signed negative base uppercase) ds (val = 0)))"

lemma format_integer_text:
  "format_integer lc b spec val sg neg base up = map_option (buffer_write b) (integer_text lc spec val sg neg base up)"
  by (auto simp: format_integer_def integer_text_def write_formatted_text Let_def)

text \<open>The formatting functions that may overrun an array do so for every buffer or write the same text
  into every buffer.\<close>

definition emits :: "(printf_buffer \<Rightarrow> printf_buffer option) \<Rightarrow> bool" where
  "emits f \<longleftrightarrow> (\<exists>t. \<forall>b. f b = map_option (buffer_write b) t)"

lemma emits_None: "emits (\<lambda>b. None)"
  by (auto simp: emits_def intro!: exI [of _ None])

lemma emits_Some: "emits (\<lambda>b. Some (write_formatted b spec prefix ds z))"
  by (auto simp: emits_def write_formatted_text intro!: exI [of _ "Some (formatted_text spec prefix ds z)"])

lemma emits_if: "emits f \<Longrightarrow> emits g \<Longrightarrow> emits (\<lambda>b. if P then f b else g b)"
  by (cases P) simp_all

lemma emits_option:
  "emits f \<Longrightarrow> (\<And>x. emits (g x)) \<Longrightarrow> emits (\<lambda>b. case x of None \<Rightarrow> f b | Some x \<Rightarrow> g x b)"
  by (cases x) simp_all

lemma emits_prod: "(\<And>x y. emits (g x y)) \<Longrightarrow> emits (\<lambda>b. case p of (x, y) \<Rightarrow> g x y b)"
  by (cases p) simp

lemma emits_bind: "(\<And>x. emits (g x)) \<Longrightarrow> emits (\<lambda>b. x \<bind> (\<lambda>x. g x b))"
  by (cases x) (simp_all add: emits_None)

lemma emits_integer: "emits (\<lambda>b. format_integer lc b spec val sg neg base up)"
  unfolding emits_def format_integer_text by blast

lemma emits_special: "emits (\<lambda>b. Some (format_float_special v up spec b))"
  unfolding format_float_special_def by (rule emits_Some)

lemmas emits_intros = emits_special emits_Some emits_None emits_if emits_option emits_prod emits_bind

lemma emits_fixed: "emits (\<lambda>b. format_double_fixed lc arr v spec b)"
  unfolding format_double_fixed_def Let_def by (intro emits_intros)

lemma emits_exp: "emits (\<lambda>b. format_double_exp lc arr v up trim spec b)"
  unfolding format_double_exp_def Let_def by (intro emits_intros)

lemma emits_general: "emits (\<lambda>b. format_double_general lc arr v up spec b)"
  unfolding format_double_general_def Let_def by (intro emits_exp emits_intros)

lemma emits_hex_digits: "emits (\<lambda>b. format_hex_digits lc ds decpt neg up spec b)"
  unfolding format_hex_digits_def Let_def by (intro emits_intros)

lemma emits_hex: "emits (\<lambda>b. format_double_hex lc v up spec b)"
  unfolding format_double_hex_def by (intro emits_hex_digits emits_intros)

lemma emits_float: "emits (\<lambda>b. convert_float lc arr v c spec b)"
  unfolding convert_float_def by (intro emits_fixed emits_exp emits_general emits_hex emits_intros)

text \<open>What a conversion does depends on the buffer only by its length, which \<open>%n\<close> stores, and on
  the memory only by what is mapped: it appends a text and overlays the memory.\<close>

definition appends :: "(printf_buffer \<times> mem \<Rightarrow> ((printf_buffer \<times> mem) \<times> 'a) option) \<Rightarrow> nat \<Rightarrow> bool" where
  "appends f n \<longleftrightarrow> (\<forall>b m. pb_length b = n \<longrightarrow> f (b, m) = None) \<or>
     (\<exists>t d r. \<forall>b m. pb_length b = n \<longrightarrow>
        f (b, m) = (if dom d \<subseteq> dom m then Some ((buffer_write b t, m ++ d), r) else None))"

lemma appends_None: "(\<And>b m. f (b, m) = None) \<Longrightarrow> appends f n"
  by (simp add: appends_def)

lemma appends_store:
  "(\<And>b m. pb_length b = n \<Longrightarrow> f (b, m) = (if dom d \<subseteq> dom m then Some ((buffer_write b t, m ++ d), r) else None)) \<Longrightarrow>
    appends f n"
  unfolding appends_def by blast

lemma appends_Some: "(\<And>b m. pb_length b = n \<Longrightarrow> f (b, m) = Some ((buffer_write b t, m), r)) \<Longrightarrow> appends f n"
  by (rule appends_store [where d = Map.empty]) simp_all

lemma appends_emits:
  assumes "emits F" "\<And>b m. f (b, m) = map_option (\<lambda>b. ((b, m), r)) (F b)"
  shows "appends f n"
proof -
  obtain t where "\<And>b. F b = map_option (buffer_write b) t" using assms(1) by (auto simp: emits_def)
  with assms(2) show ?thesis by (cases t) (auto intro: appends_None appends_Some)
qed

lemma store_n_overlay:
  "store_n m p s = (if dom (mem_put Map.empty p s) \<subseteq> dom m then Some (m ++ mem_put Map.empty p s) else None)"
proof -
  have "mapped m p (length s) \<longleftrightarrow> dom (mem_put Map.empty p s) \<subseteq> dom m"
  proof -
    have "dom (mem_put Map.empty p s) = {p..<p + length s}"
      by (auto simp: mem_put_def split: if_splits)
    moreover have "{p..<p + length s} \<subseteq> dom m \<longleftrightarrow> (\<forall>i<length s. p + i \<in> dom m)"
    proof
      assume all: "\<forall>i<length s. p + i \<in> dom m"
      show "{p..<p + length s} \<subseteq> dom m"
      proof
        fix a assume "a \<in> {p..<p + length s}"
        then show "a \<in> dom m" using all [rule_format, of "a - p"] by (simp add: less_diff_conv2)
      qed
    next
      assume "{p..<p + length s} \<subseteq> dom m"
      then show "\<forall>i<length s. p + i \<in> dom m" by (simp add: subset_iff del: domIff)
    qed
    ultimately show ?thesis by (auto simp: mapped_iff domIff)
  qed
  moreover have "mem_put m p s = m ++ mem_put Map.empty p s"
    by (auto simp: mem_put_def map_add_def fun_eq_iff)
  ultimately show ?thesis by (simp add: store_n_def)
qed

lemma buffer_length_write: "pb_length (buffer_write b t) = pb_length b + length t"
  by (induction t arbitrary: b) (auto simp: buffer_putc_def Let_def)

lemma convert_spec_float:
  assumes "c \<in> set ''fFeEgGaA''"
  shows "convert_spec env c spec args = (\<lambda>(b, m). case args of
         ArgDouble d # args \<Rightarrow>
           if long_double_length spec then None
           else map_option (\<lambda>b. ((b, m), args)) (convert_float (localeconv env) double_arrays (double_value (floats env) d) c spec b)
       | ArgLongDouble d # args \<Rightarrow>
           if long_double_length spec
           then map_option (\<lambda>b. ((b, m), args))
             (convert_float (localeconv env) long_double_arrays (long_double_value (floats env) d) c spec b)
           else None
       | _ \<Rightarrow> None)"
proof -
  have "c \<notin> set ''csdiuoxXpnm''" using assms by auto
  then show ?thesis
    using assms by (intro ext, unfold convert_spec_def) (simp del: list.set split: prod.split, simp)
qed

lemma convert_spec_appends: "appends (convert_spec env c spec args) n"
proof -
  obtain wc where wc: "\<And>b wv. format_wide_char b spec wv = buffer_write b (wc wv)"
    using wide_char_text [of spec] by metis
  obtain ws where ws: "\<And>b v. format_wide_string (malloc_ok env) b spec v = buffer_write b (ws v)"
    using wide_string_text [of "malloc_ok env" spec] by metis
  note texts = wc ws write_formatted_text format_string_text
  consider "c = CHR ''c''" | "c = CHR ''s''" | "c = CHR ''d'' \<or> c = CHR ''i''"
    | "c = CHR ''u'' \<or> c = CHR ''o'' \<or> c = CHR ''x'' \<or> c = CHR ''X''" | "c = CHR ''p''" | "c = CHR ''n''"
    | "c = CHR ''m''" | "c \<in> set ''fFeEgGaA''" | "c \<notin> set ''csdiuoxXpnmfFeEgGaA''"
    by auto
  then show ?thesis
  proof cases
    case 1
    show ?thesis
    proof (cases "va_int args")
      case None
      with 1 show ?thesis by (auto simp: convert_spec_def intro: appends_None)
    next
      case (Some x)
      have "convert_spec env c spec args (b, m) = Some ((buffer_write b (if long_count spec > 0
          then wc (word_of_int (fst x)) else formatted_text spec [] [char_of (fst x)] False), m), snd x)" for b m
        using 1 Some by (cases x) (simp add: convert_spec_def texts)
      then show ?thesis by (rule appends_Some)
    qed
  next
    case 2
    show ?thesis
    proof (cases args)
      case Nil
      with 2 show ?thesis by (simp add: appends_None convert_spec_def)
    next
      case (Cons x rest)
      show ?thesis
        by (cases x; cases "0 < long_count spec";
            (rule appends_None, simp add: convert_spec_def 2 Cons; fail)?;
            rule appends_Some, simp add: convert_spec_def texts 2 Cons)
    qed
  next
    case 3
    show ?thesis
    proof (cases "va_signed spec args")
      case None
      with 3 show ?thesis by (auto simp: convert_spec_def intro: appends_None)
    next
      case (Some x)
      then have "convert_spec env c spec args (b, m) = map_option (\<lambda>b. ((b, m), snd x)) (format_integer (localeconv env) b spec
          (if fst x < 0 then nat (- (fst x + 1)) + 1 else nat (fst x)) True (fst x < 0) 10 False)" for b m
        using 3 by (cases x) (auto simp: convert_spec_def Let_def)
      then show ?thesis by (rule appends_emits [OF emits_integer])
    qed
  next
    case 4
    show ?thesis
    proof (cases "va_unsigned spec args")
      case None
      with 4 show ?thesis by (auto simp: convert_spec_def intro: appends_None)
    next
      case (Some x)
      then have "convert_spec env c spec args (b, m) = map_option (\<lambda>b. ((b, m), snd x)) (format_integer (localeconv env) b spec
          (fst x) False False (if c = CHR ''o'' then 8 else if c = CHR ''u'' then 10 else 16) (c = CHR ''X''))" for b m
        using 4 by (cases x) (auto simp: convert_spec_def Let_def)
      then show ?thesis by (rule appends_emits [OF emits_integer])
    qed
  next
    case 5
    show ?thesis
    proof (cases args)
      case Nil
      with 5 show ?thesis by (simp add: appends_None convert_spec_def)
    next
      case (Cons x rest)
      show ?thesis
        by (cases x; (rule appends_None, simp add: convert_spec_def 5 Cons; fail)?;
            rule appends_emits [OF emits_integer], simp add: convert_spec_def 5 Cons)
    qed
  next
    case 6
    show ?thesis
    proof (cases "\<exists>p rest. args = ArgStore p # rest")
      case False
      with 6 show ?thesis
        by (auto simp: convert_spec_def split: list.split printf_arg.split intro: appends_None)
    next
      case True
      then obtain p rest where args: "args = ArgStore p # rest" by blast
      have "convert_spec env c spec args (b, m) =
          (if dom (mem_put Map.empty p (store_count (count_size spec) n)) \<subseteq> dom m
           then Some ((buffer_write b [], m ++ mem_put Map.empty p (store_count (count_size spec) n)), rest)
           else None)" if "pb_length b = n" for b m
        using 6 args that by (simp add: convert_spec_def store_n_overlay)
      then show ?thesis by (rule appends_store)
    qed
  next
    case 7
    then show ?thesis by (auto simp: convert_spec_def texts intro: appends_Some)
  next
    case 8
    note conv = convert_spec_float [OF 8]
    show ?thesis
    proof (cases args)
      case Nil
      show ?thesis unfolding conv Nil by (rule appends_None) simp
    next
      case (Cons x rest)
      show ?thesis unfolding conv Cons
        by (cases x; cases "long_double_length spec"; (rule appends_None, simp; fail)?;
            rule appends_emits [OF emits_float], simp)
    qed
  next
    case 9
    then have "convert_spec env c spec args (b, m) = Some ((buffer_write b [CHR ''%'', c], m), args)" for b m
      by (simp add: convert_spec_def)
    then show ?thesis by (rule appends_Some)
  qed
qed

subsection \<open>The text of a call\<close>

lemma appends_cases:
  assumes "appends f n"
  obtains "\<And>b m. pb_length b = n \<Longrightarrow> f (b, m) = None"
  | t d r where "\<And>b m. pb_length b = n \<Longrightarrow>
      f (b, m) = (if dom d \<subseteq> dom m then Some ((buffer_write b t, m ++ d), r) else None)"
  using assms unfolding appends_def by blast

text \<open>Two calls that start with buffers of the same length append the same text and store the same
  counts, whatever the capacities of the buffers are.\<close>

definition writes_text :: "(printf_buffer \<times> mem \<Rightarrow> (printf_buffer \<times> mem) option) \<Rightarrow> nat \<Rightarrow> bool" where
  "writes_text f n \<longleftrightarrow> (\<forall>b m. pb_length b = n \<longrightarrow> f (b, m) = None) \<or>
     (\<exists>t d. \<forall>b m. pb_length b = n \<longrightarrow>
        f (b, m) = (if dom d \<subseteq> dom m then Some (buffer_write b t, m ++ d) else None))"

lemma writes_None: "(\<And>b m. pb_length b = n \<Longrightarrow> f (b, m) = None) \<Longrightarrow> writes_text f n"
  by (simp add: writes_text_def)

lemma writes_store:
  "(\<And>b m. pb_length b = n \<Longrightarrow> f (b, m) = (if dom d \<subseteq> dom m then Some (buffer_write b t, m ++ d) else None)) \<Longrightarrow>
    writes_text f n"
  unfolding writes_text_def by blast

lemma writes_Some: "(\<And>b m. pb_length b = n \<Longrightarrow> f (b, m) = Some (buffer_write b t, m)) \<Longrightarrow> writes_text f n"
  by (rule writes_store [where d = Map.empty]) simp_all

lemma writes_cases:
  assumes "writes_text f n"
  obtains "\<And>b m. pb_length b = n \<Longrightarrow> f (b, m) = None"
  | t d where "\<And>b m. pb_length b = n \<Longrightarrow>
      f (b, m) = (if dom d \<subseteq> dom m then Some (buffer_write b t, m ++ d) else None)"
  using assms unfolding writes_text_def by blast

lemma writes_prefix:
  assumes "writes_text g (n + length s)"
    and "\<And>b m. pb_length b = n \<Longrightarrow> f (b, m) = (if dom e \<subseteq> dom m then g (buffer_write b s, m ++ e) else None)"
  shows "writes_text f n"
  using assms(1)
proof (cases rule: writes_cases)
  case 1
  then show ?thesis by (intro writes_None) (simp add: assms(2) buffer_length_write)
next
  case (2 t d)
  have "f (b, m) = (if dom (e ++ d) \<subseteq> dom m then Some (buffer_write b (s @ t), m ++ (e ++ d)) else None)"
    if "pb_length b = n" for b m
    using that by (auto simp: assms(2) 2 buffer_length_write buffer_write_append)
  then show ?thesis by (rule writes_store)
qed

lemma writes_char:
  assumes "writes_text g (n + length s)" and "\<And>b m. f (b, m) = g (buffer_write b s, m)"
  shows "writes_text f n"
  by (rule writes_prefix [OF assms(1), where e = Map.empty]) (simp add: assms(2))

lemma writes_after:
  assumes "appends f n"
    and "\<And>(t :: string) r. writes_text (g r) (n + length t)"
    and "\<And>b m. pb_length b = n \<Longrightarrow> h (b, m) = (case f (b, m) of None \<Rightarrow> None | Some (st, r) \<Rightarrow> g r st)"
  shows "writes_text h n"
  using assms(1)
proof (cases rule: appends_cases)
  case 1
  then show ?thesis by (intro writes_None) (simp add: assms(3))
next
  case (2 t d r)
  show ?thesis
    by (rule writes_prefix [OF assms(2) [where t = t and r = r], where e = d]) (simp add: assms(3) 2)
qed

lemma vsnprintf_loop_writes: "writes_text (vsnprintf_loop env fmt args) n"
proof (induction "length fmt" arbitrary: fmt args n rule: less_induct)
  case (less fmt args n)
  have IH: "length f < length fmt \<Longrightarrow> writes_text (vsnprintf_loop env f args) n" for f args n
    by (rule less)
  show ?case
  proof (cases fmt)
    case Nil
    show ?thesis by (rule writes_Some [where t = "[]"]) (simp add: Nil)
  next
    case (Cons c f)
    consider "c \<noteq> CHR ''%''" | "c = CHR ''%''" "starts_with (CHR ''%'') f"
      | "c = CHR ''%''" "\<not> starts_with (CHR ''%'') f" by blast
    then show ?thesis
    proof cases
      case 1
      show ?thesis
        by (rule writes_char [of "vsnprintf_loop env f args" _ "[c]", OF IH]) (simp_all add: Cons 1)
    next
      case 2
      show ?thesis
        by (rule writes_char [of "vsnprintf_loop env (tl f) args" _ "[CHR ''%'']", OF IH])
          (simp_all add: Cons 2)
    next
      case 3
      show ?thesis
      proof (cases "parse_spec f args")
        case None
        with 3 show ?thesis by (intro writes_None) (simp add: Cons)
      next
        case (Some x)
        obtain f' args' spec where x: "x = (f', args', spec)" by (cases x)
        show ?thesis
        proof (cases f')
          case Nil
          show ?thesis
            by (rule writes_Some [where t = "[CHR ''%'']"]) (simp add: Cons 3 Some x Nil)
        next
          case (Cons y rest)
          have "length rest < length fmt"
            using parse_spec_shorter [OF Some [unfolded x]] \<open>fmt = c # f\<close> Cons by simp
          then have rest: "writes_text (vsnprintf_loop env rest r) k" for r k by (rule IH)
          show ?thesis
          proof (rule writes_after [OF convert_spec_appends [of env y spec args' n],
              where g = "\<lambda>r st. vsnprintf_loop env rest r st"], rule rest)
            show "vsnprintf_loop env fmt args (b, m) = (case convert_spec env y spec args' (b, m) of
                None \<Rightarrow> None | Some (st, r) \<Rightarrow> vsnprintf_loop env rest r st)" for b m
              unfolding \<open>fmt = c # f\<close> using 3 by (simp add: Some x Cons)
          qed
        qed
      qed
    qed
  qed
qed

text \<open>What is stored of a text: the part that leaves room for the terminator.\<close>

lemma buffer_capacity_write [simp]: "pb_capacity (buffer_write b t) = pb_capacity b"
  by (induction t arbitrary: b) (auto simp: buffer_putc_def Let_def)

lemma buffer_data_write:
  "pb_data (buffer_write b t) = (\<lambda>i. if pb_length b \<le> i \<and> i < pb_length b + length t \<and> i + 1 < pb_capacity b
     then Some (t ! (i - pb_length b)) else pb_data b i)"
proof (induction t arbitrary: b)
  case (Cons c t)
  have b: "pb_length (buffer_putc b c) = pb_length b + 1" "pb_capacity (buffer_putc b c) = pb_capacity b"
    "pb_data (buffer_putc b c) = (if pb_length b + 1 < pb_capacity b then (pb_data b)(pb_length b \<mapsto> c) else pb_data b)"
    by (auto simp: buffer_putc_def Let_def)
  show ?case
    by (rule ext) (auto simp: Cons b nth_Cons' not_less_eq_eq)
qed (auto simp: fun_eq_iff)

lemma put_terminator_text:
  "put_terminator n (buffer_write (new_buffer n) t) = (if n = 0 then Map.empty else mem_of 0 (take (n - 1) t @ [NUL]))"
proof (cases "n = 0")
  case True
  then show ?thesis by (simp add: put_terminator_def new_buffer_def buffer_data_write)
next
  case False
  then show ?thesis
    by (intro ext)
      (auto simp: put_terminator_def new_buffer_def buffer_data_write buffer_length_write mem_of_def mem_put_def
         nth_append min_def)
qed

end
