(* ===== verification/CRT_Snprintf.thy ===== *)
theory CRT_Snprintf
  imports CRT_Printf
begin

text \<open>
  The entry points of \<^verbatim>\<open>libc/src/printf.c\<close>: formats with positional arguments, and
  \<^verbatim>\<open>vsnprintf\<close>, which chooses between the two kinds of format, with the functions that
  allocate their output or write it to a descriptor. The error number is not tracked here. A position in a
  format is an \<open>int\<close> of the source; a format with positions beyond it is undefined there.
\<close>

subsection \<open>Positional arguments\<close>

definition PRINTF_MAX_POSITIONAL_ARGS :: nat where "PRINTF_MAX_POSITIONAL_ARGS = 64"

datatype printf_arg_type = PRINTF_ARG_NONE | PRINTF_ARG_INT | PRINTF_ARG_UINT | PRINTF_ARG_LONG
  | PRINTF_ARG_ULONG | PRINTF_ARG_LLONG | PRINTF_ARG_ULLONG | PRINTF_ARG_SIZE | PRINTF_ARG_SSIZE
  | PRINTF_ARG_PTRDIFF | PRINTF_ARG_DOUBLE | PRINTF_ARG_LONG_DOUBLE | PRINTF_ARG_POINTER
  | PRINTF_ARG_STRING | PRINTF_ARG_WSTRING | PRINTF_ARG_INT_PTR | PRINTF_ARG_SCHAR_PTR
  | PRINTF_ARG_SHORT_PTR | PRINTF_ARG_LONG_PTR | PRINTF_ARG_LLONG_PTR | PRINTF_ARG_SSIZE_PTR
  | PRINTF_ARG_PTRDIFF_PTR | PRINTF_ARG_WINT

text \<open>Digits with a dollar sign behind them.\<close>

definition indexed :: "string \<Rightarrow> bool" where
  "indexed p \<longleftrightarrow> p \<noteq> [] \<and> is_digit (hd p) \<and> starts_with (CHR 0x24) (fst (parse_decimal p))"

definition flag_char :: "char \<Rightarrow> bool" where
  "flag_char c \<longleftrightarrow> c = CHR ''-'' \<or> c = CHR ''0'' \<or> c = CHR ''+'' \<or> c = CHR '' '' \<or> c = CHR ''#'' \<or> c = CHR 0x27"

lemma starts_with_tl [dest]: "starts_with c p \<Longrightarrow> length (tl p) < length p"
  by (auto simp: starts_with_def)

lemma dropWhile_shorter: "length (dropWhile P p) \<le> length p"
  by (simp add: length_dropWhile_le)

function printf_has_positional_args :: "string \<Rightarrow> bool" where
  "printf_has_positional_args [] = False"
| "printf_has_positional_args (c # p) =
     (if c \<noteq> CHR ''%'' then printf_has_positional_args p
      else if starts_with (CHR ''%'') p then printf_has_positional_args (tl p)
      else if indexed p then True
      else
        let p = dropWhile flag_char p in
        if starts_with (CHR ''*'') p \<and> indexed (tl p) then True
        else
          let p = (if starts_with (CHR ''*'') p then tl p else dropWhile is_digit p) in
          if starts_with (CHR ''.'') p then
            if starts_with (CHR ''*'') (tl p) then
              indexed (tl (tl p)) \<or> printf_has_positional_args (tl (tl p))
            else printf_has_positional_args (dropWhile is_digit (tl p))
          else printf_has_positional_args p)"
  by pat_completeness auto
termination
proof (relation "measure length", goal_cases)
  case (4 c p p1 p2)
  have "length p1 \<le> length p" using 4 by (simp add: dropWhile_shorter)
  moreover have "length p2 \<le> length p1" using 4 dropWhile_shorter [of is_digit p1] by auto
  ultimately show ?case by simp
next
  case (5 c p p1 p2)
  have "length p1 \<le> length p" using 5 by (simp add: dropWhile_shorter)
  moreover have "length p2 \<le> length p1" using 5 dropWhile_shorter [of is_digit p1] by auto
  moreover have "length (dropWhile is_digit (tl p2)) \<le> length p2"
    using dropWhile_shorter [of is_digit "tl p2"] by simp
  ultimately show ?case by simp
next
  case (6 c p p1 p2)
  have "length p1 \<le> length p" using 6 by (simp add: dropWhile_shorter)
  moreover have "length p2 \<le> length p1" using 6 dropWhile_shorter [of is_digit p1] by auto
  ultimately show ?case by simp
qed auto

text \<open>The argument types that the conversions ask for.\<close>

definition printf_integer_arg_type :: "printf_spec \<Rightarrow> bool \<Rightarrow> printf_arg_type" where
  "printf_integer_arg_type spec is_signed =
     (if intmax_length spec \<or> long_count spec \<ge> 2 then if is_signed then PRINTF_ARG_LLONG else PRINTF_ARG_ULLONG
      else if ptrdiff_length spec then PRINTF_ARG_PTRDIFF
      else if size_length spec then if is_signed then PRINTF_ARG_SSIZE else PRINTF_ARG_SIZE
      else if long_count spec = 1 then if is_signed then PRINTF_ARG_LONG else PRINTF_ARG_ULONG
      else if is_signed then PRINTF_ARG_INT else PRINTF_ARG_UINT)"

definition printf_n_arg_type :: "printf_spec \<Rightarrow> printf_arg_type" where
  "printf_n_arg_type spec =
     (if short_count spec \<ge> 2 then PRINTF_ARG_SCHAR_PTR
      else if short_count spec = 1 then PRINTF_ARG_SHORT_PTR
      else if long_count spec \<ge> 2 then PRINTF_ARG_LLONG_PTR
      else if long_count spec = 1 then PRINTF_ARG_LONG_PTR
      else if size_length spec then PRINTF_ARG_SSIZE_PTR
      else if ptrdiff_length spec then PRINTF_ARG_PTRDIFF_PTR
      else PRINTF_ARG_INT_PTR)"

definition printf_conversion_arg_type :: "char \<Rightarrow> printf_spec \<Rightarrow> printf_arg_type" where
  "printf_conversion_arg_type c spec =
     (if c = CHR ''c'' then if long_count spec > 0 then PRINTF_ARG_WINT else PRINTF_ARG_INT
      else if c = CHR ''s'' then if long_count spec > 0 then PRINTF_ARG_WSTRING else PRINTF_ARG_STRING
      else if c = CHR ''d'' \<or> c = CHR ''i'' then printf_integer_arg_type spec True
      else if c = CHR ''u'' \<or> c = CHR ''o'' \<or> c = CHR ''x'' \<or> c = CHR ''X'' then printf_integer_arg_type spec False
      else if c = CHR ''p'' then PRINTF_ARG_POINTER
      else if c = CHR ''n'' then printf_n_arg_type spec
      else if c \<in> set ''fFeEgGaA'' then if long_double_length spec then PRINTF_ARG_LONG_DOUBLE else PRINTF_ARG_DOUBLE
      else PRINTF_ARG_NONE)"

definition printf_note_arg :: "printf_arg_type list \<Rightarrow> int \<Rightarrow> printf_arg_type \<Rightarrow> printf_arg_type list" where
  "printf_note_arg types index t =
     (if index \<le> 0 \<or> index > int PRINTF_MAX_POSITIONAL_ARGS \<or> t = PRINTF_ARG_NONE then types
      else if types ! nat index = PRINTF_ARG_NONE then types[nat index := t] else types)"

text \<open>The conversion's own position, or 0, and the format behind it. A star takes the position
  written behind it or the next argument.\<close>

definition take_index :: "string \<Rightarrow> string \<times> int" where
  "take_index p = (if indexed p then (tl (fst (parse_decimal p)), snd (parse_decimal p)) else (p, 0))"

definition star_index :: "string \<Rightarrow> int \<Rightarrow> string \<times> int \<times> int" where
  "star_index p next_arg = (case take_index (tl p) of (p, i) \<Rightarrow>
     if i = 0 then (p, next_arg, next_arg + 1) else (p, i, next_arg))"

definition positional_width :: "string \<Rightarrow> printf_spec \<Rightarrow> int \<Rightarrow> string \<times> printf_spec \<times> int" where
  "positional_width p spec next_arg =
     (if starts_with (CHR ''*'') p then
        case star_index p next_arg of (p, i, next_arg) \<Rightarrow> (p, spec\<lparr>width_index := i\<rparr>, next_arg)
      else case parse_decimal p of (p, w) \<Rightarrow> (p, spec\<lparr>width := w\<rparr>, next_arg))"

definition positional_precision :: "string \<Rightarrow> printf_spec \<Rightarrow> int \<Rightarrow> string \<times> printf_spec \<times> int" where
  "positional_precision p spec next_arg =
     (if starts_with (CHR ''.'') p then
        let p = tl p; spec = spec\<lparr>precision_set := True\<rparr> in
        if starts_with (CHR ''*'') p then
          case star_index p next_arg of (p, i, next_arg) \<Rightarrow> (p, spec\<lparr>precision_index := i\<rparr>, next_arg)
        else case parse_decimal p of (p, w) \<Rightarrow> (p, spec\<lparr>precision := w\<rparr>, next_arg)
      else (p, spec, next_arg))"

definition first_char :: "string \<Rightarrow> char" where
  "first_char p = (case p of [] \<Rightarrow> NUL | c # _ \<Rightarrow> c)"

definition printf_parse_spec :: "string \<Rightarrow> int \<Rightarrow> string \<times> printf_spec \<times> int" where
  "printf_parse_spec format next_arg =
     (let (p, i) = take_index format;
          (p, spec) = parse_flags p (empty_spec\<lparr>value_index := i\<rparr>);
          (p, spec, next_arg) = positional_width p spec next_arg;
          (p, spec, next_arg) = positional_precision p spec next_arg;
          (p, spec) = parse_length p spec
      in if value_index spec = 0 \<and> printf_conversion_arg_type (first_char p) spec \<noteq> PRINTF_ARG_NONE
         then (p, spec\<lparr>value_index := next_arg\<rparr>, next_arg + 1) else (p, spec, next_arg))"

lemma take_index_shorter: "length (fst (take_index p)) \<le> length p"
proof -
  have "length (fst (parse_decimal p)) \<le> length p"
    using parse_decimal_shorter [of p] by (metis prod.collapse)
  then show ?thesis by (auto simp: take_index_def)
qed

lemma star_index_shorter: "length (fst (star_index p n)) \<le> length p"
  using take_index_shorter [of "tl p"] by (auto simp: star_index_def split: prod.splits)

lemma positional_width_shorter: "length (fst (positional_width p spec n)) \<le> length p"
  using star_index_shorter [of p n]
  by (auto simp: positional_width_def split: prod.splits dest: parse_decimal_shorter)

lemma positional_precision_shorter: "length (fst (positional_precision p spec n)) \<le> length p"
  using star_index_shorter [of "tl p" n]
  by (auto simp: positional_precision_def Let_def split: prod.splits dest!: parse_decimal_shorter)

lemma parse_length_shorter: "length (fst (parse_length p spec)) \<le> length p"
  by (auto simp: parse_length_def Let_def split: if_splits prod.splits dest!: count_prefix_shorter)

lemma printf_parse_spec_shorter: "length (fst (printf_parse_spec p n)) \<le> length p"
proof -
  obtain p1 i where 1: "take_index p = (p1, i)" by fastforce
  obtain p2 s2 where 2: "parse_flags p1 (empty_spec\<lparr>value_index := i\<rparr>) = (p2, s2)" by fastforce
  obtain p3 s3 n3 where 3: "positional_width p2 s2 n = (p3, s3, n3)" by (metis prod_cases3)
  obtain p4 s4 n4 where 4: "positional_precision p3 s3 n3 = (p4, s4, n4)" by (metis prod_cases3)
  have "length p1 \<le> length p" "length p2 \<le> length p1" "length p3 \<le> length p2" "length p4 \<le> length p3"
    using take_index_shorter [of p] parse_flags_shorter [OF 2] positional_width_shorter [of p2 s2 n]
      positional_precision_shorter [of p3 s3 n3] by (simp_all add: 1 3 4)
  with parse_length_shorter [of p4 s4] show ?thesis
    by (auto simp: printf_parse_spec_def 1 2 3 4 split: prod.splits)
qed

lemma printf_parse_spec_le: "(p', spec, n') = printf_parse_spec p n \<Longrightarrow> length p' \<le> length p"
  using printf_parse_spec_shorter [of p n] by (metis fst_conv)

text \<open>The first pass: the types of the arguments, and the last position used or -1.\<close>

function collect_loop :: "string \<Rightarrow> printf_arg_type list \<Rightarrow> int \<Rightarrow> int \<Rightarrow> printf_arg_type list \<times> int" where
  "collect_loop [] types max_index next_arg = (types, max_index)"
| "collect_loop (c # p) types max_index next_arg =
     (if c \<noteq> CHR ''%'' then collect_loop p types max_index next_arg
      else if starts_with (CHR ''%'') p then collect_loop (tl p) types max_index next_arg
      else case printf_parse_spec p next_arg of (p, spec, next_arg) \<Rightarrow>
        let types = printf_note_arg types (width_index spec) PRINTF_ARG_INT;
            types = printf_note_arg types (precision_index spec) PRINTF_ARG_INT;
            types = printf_note_arg types (value_index spec) (printf_conversion_arg_type (first_char p) spec);
            max_index = max max_index (width_index spec);
            max_index = max max_index (precision_index spec);
            max_index = max max_index (value_index spec)
        in collect_loop (tl p) types max_index next_arg)"
  by pat_completeness auto
termination
by (relation "measure (\<lambda>(p, _). length p)") (auto simp: less_Suc_eq_le dest!: printf_parse_spec_le)

definition printf_collect_positional_args :: "string \<Rightarrow> printf_arg_type list \<times> int" where
  "printf_collect_positional_args format =
     (case collect_loop format (replicate (PRINTF_MAX_POSITIONAL_ARGS + 1) PRINTF_ARG_NONE) 0 1 of
        (types, max_index) \<Rightarrow>
          (types, if max_index \<le> int PRINTF_MAX_POSITIONAL_ARGS then max_index else -1))"

text \<open>The values of the arguments, by position. \<^term>\<open>None\<close> stands for the zero bytes of a position
  that the format does not use.\<close>

fun arg_matches :: "printf_arg_type \<Rightarrow> 'd printf_arg \<Rightarrow> bool" where
  "arg_matches t (ArgInt v) \<longleftrightarrow> t \<in> {PRINTF_ARG_INT, PRINTF_ARG_UINT, PRINTF_ARG_WINT}"
| "arg_matches t (ArgLong v) \<longleftrightarrow> t \<in> {PRINTF_ARG_LONG, PRINTF_ARG_ULONG, PRINTF_ARG_LLONG,
     PRINTF_ARG_ULLONG, PRINTF_ARG_SIZE, PRINTF_ARG_SSIZE, PRINTF_ARG_PTRDIFF}"
| "arg_matches t (ArgPointer v) \<longleftrightarrow> t = PRINTF_ARG_POINTER"
| "arg_matches t (ArgString s) \<longleftrightarrow> t = PRINTF_ARG_STRING"
| "arg_matches t (ArgWide s) \<longleftrightarrow> t = PRINTF_ARG_WSTRING"
| "arg_matches t (ArgDouble d) \<longleftrightarrow> t = PRINTF_ARG_DOUBLE"
| "arg_matches t (ArgLongDouble d) \<longleftrightarrow> t = PRINTF_ARG_LONG_DOUBLE"
| "arg_matches t (ArgStore p) \<longleftrightarrow> t \<in> {PRINTF_ARG_INT_PTR, PRINTF_ARG_SCHAR_PTR, PRINTF_ARG_SHORT_PTR,
     PRINTF_ARG_LONG_PTR, PRINTF_ARG_LLONG_PTR, PRINTF_ARG_SSIZE_PTR, PRINTF_ARG_PTRDIFF_PTR}"

fun printf_read_positional_args :: "printf_arg_type list \<Rightarrow> 'd printf_arg list \<Rightarrow> 'd printf_arg option list option" where
  "printf_read_positional_args [] args = Some []"
| "printf_read_positional_args (t # types) args =
     (if t = PRINTF_ARG_NONE then do { vals \<leftarrow> printf_read_positional_args types args; Some (None # vals) }
      else case args of [] \<Rightarrow> None
        | a # args \<Rightarrow>
            if arg_matches t a then do { vals \<leftarrow> printf_read_positional_args types args; Some (Some a # vals) }
            else None)"

text \<open>The element of an array at an index; one outside of the array is undefined.\<close>

definition array_at :: "'a list \<Rightarrow> int \<Rightarrow> 'a option" where
  "array_at xs i = (if 0 \<le> i \<and> nat i < length xs then Some (xs ! nat i) else None)"

text \<open>The member \<open>i\<close> of the union, on a little-endian machine the low half of a \<open>long\<close>.\<close>

fun union_int :: "'d printf_arg option \<Rightarrow> i32 option" where
  "union_int None = Some 0"
| "union_int (Some (ArgInt v)) = Some v"
| "union_int (Some (ArgLong v)) = Some (ucast v)"
| "union_int (Some (ArgPointer v)) = Some (ucast v)"
| "union_int _ = None"

definition positional_signed :: "printf_arg_type \<Rightarrow> 'd printf_arg option \<Rightarrow> int option" where
  "positional_signed t val =
     (if t \<in> {PRINTF_ARG_LONG, PRINTF_ARG_LLONG, PRINTF_ARG_SSIZE, PRINTF_ARG_PTRDIFF}
      then (case val of Some (ArgLong v) \<Rightarrow> Some (sint v) | _ \<Rightarrow> None)
      else map_option sint (union_int val))"

definition positional_unsigned :: "printf_arg_type \<Rightarrow> 'd printf_arg option \<Rightarrow> nat option" where
  "positional_unsigned t val =
     (if t \<in> {PRINTF_ARG_ULONG, PRINTF_ARG_ULLONG, PRINTF_ARG_SIZE, PRINTF_ARG_PTRDIFF}
      then (case val of Some (ArgLong v) \<Rightarrow> Some (unat v) | _ \<Rightarrow> None)
      else map_option unat (union_int val))"

definition positional_count_size :: "printf_arg_type \<Rightarrow> nat" where
  "positional_count_size t =
     (if t = PRINTF_ARG_SCHAR_PTR then 1 else if t = PRINTF_ARG_SHORT_PTR then 2
      else if t \<in> {PRINTF_ARG_LONG_PTR, PRINTF_ARG_LLONG_PTR, PRINTF_ARG_SSIZE_PTR, PRINTF_ARG_PTRDIFF_PTR}
      then 8 else 4)"

text \<open>Width and precision from their positions.\<close>

definition resolve_spec :: "'d printf_arg option list \<Rightarrow> printf_spec \<Rightarrow> printf_spec option" where
  "resolve_spec vals spec = do {
     spec \<leftarrow> (if width_index spec > 0 then do {
         v \<leftarrow> array_at vals (width_index spec);
         w \<leftarrow> map_option sint (union_int v);
         Some (if w < 0 then spec\<lparr>left := True, width := wrap_int (- w)\<rparr> else spec\<lparr>width := w\<rparr>) }
       else Some spec);
     if precision_index spec > 0 then do {
         v \<leftarrow> array_at vals (precision_index spec);
         p \<leftarrow> map_option sint (union_int v);
         Some (if p < 0 then spec\<lparr>precision_set := False, precision := 0\<rparr> else spec\<lparr>precision := p\<rparr>) }
     else Some spec }"

text \<open>One conversion. The conversions of characters, strings, \<open>errno\<close> and floating-point numbers
  are those of \<^const>\<open>convert_spec\<close> on the value at the position.\<close>

definition convert_value :: "'d printf_env \<Rightarrow> char \<Rightarrow> printf_spec \<Rightarrow> printf_arg_type \<Rightarrow>
    'd printf_arg option \<Rightarrow> printf_buffer \<times> mem \<Rightarrow> ((printf_buffer \<times> mem) \<times> 'd printf_arg list) option" where
  "convert_value env c spec t val st =
     (if c = CHR ''c'' then do { v \<leftarrow> union_int val; convert_spec env c spec [ArgInt v] st }
      else if c = CHR ''d'' \<or> c = CHR ''i'' then do {
        v \<leftarrow> positional_signed t val;
        let magnitude = (if v < 0 then nat (- (v + 1)) + 1 else nat v);
        map_option (\<lambda>b. ((b, snd st), [])) (format_integer (localeconv env) (fst st) spec magnitude True (v < 0) 10 False) }
      else if c = CHR ''u'' \<or> c = CHR ''o'' \<or> c = CHR ''x'' \<or> c = CHR ''X'' then do {
        v \<leftarrow> positional_unsigned t val;
        let base = (if c = CHR ''o'' then 8 else if c = CHR ''u'' then 10 else 16);
        map_option (\<lambda>b. ((b, snd st), [])) (format_integer (localeconv env) (fst st) spec v False False base (c = CHR ''X'')) }
      else if c = CHR ''n'' then (case val of
          Some (ArgStore p) \<Rightarrow> do {
            m \<leftarrow> store_n (snd st) p (store_count (positional_count_size t) (pb_length (fst st)));
            Some ((fst st, m), []) }
        | _ \<Rightarrow> None)
      else (case val of Some a \<Rightarrow> convert_spec env c spec [a] st | None \<Rightarrow> None))"

definition convert_positional :: "'d printf_env \<Rightarrow> char \<Rightarrow> printf_spec \<Rightarrow> printf_arg_type list \<Rightarrow>
    'd printf_arg option list \<Rightarrow> printf_buffer \<times> mem \<Rightarrow> ((printf_buffer \<times> mem) \<times> 'd printf_arg list) option" where
  "convert_positional env c spec types vals st =
     (if printf_conversion_arg_type c spec = PRINTF_ARG_NONE then convert_spec env c spec [] st
      else do {
        t \<leftarrow> array_at types (value_index spec);
        val \<leftarrow> array_at vals (value_index spec);
        convert_value env c spec t val st })"

function positional_loop :: "'d printf_env \<Rightarrow> string \<Rightarrow> printf_arg_type list \<Rightarrow> 'd printf_arg option list \<Rightarrow> int \<Rightarrow>
    printf_buffer \<times> mem \<Rightarrow> (printf_buffer \<times> mem) option" where
  "positional_loop env [] types vals next_arg st = Some st"
| "positional_loop env (c # fmt) types vals next_arg st =
     (if c \<noteq> CHR ''%'' then positional_loop env fmt types vals next_arg (buffer_putc (fst st) c, snd st)
      else if starts_with (CHR ''%'') fmt
      then positional_loop env (tl fmt) types vals next_arg (buffer_putc (fst st) (CHR ''%''), snd st)
      else case printf_parse_spec fmt next_arg of (fmt', spec, next_arg) \<Rightarrow>
        (case resolve_spec vals spec of
           None \<Rightarrow> None
         | Some spec \<Rightarrow>
             (case fmt' of
                [] \<Rightarrow> Some (buffer_putc (fst st) (CHR ''%''), snd st)
              | x # rest \<Rightarrow>
                  (case convert_positional env x spec types vals st of
                     None \<Rightarrow> None
                   | Some (st, _) \<Rightarrow> positional_loop env rest types vals next_arg st))))"
  by pat_completeness auto
termination
by (relation "measure (\<lambda>(env, fmt, _). length fmt)") (auto dest!: printf_parse_spec_le)

definition vsnprintf_positional :: "'d printf_env \<Rightarrow> nat \<Rightarrow> string \<Rightarrow> 'd printf_arg list \<Rightarrow> mem \<Rightarrow>
    ((nat \<rightharpoonup> char) \<times> mem \<times> int) option" where
  "vsnprintf_positional env n fmt args m =
     (case printf_collect_positional_args fmt of (types, max_index) \<Rightarrow>
        if max_index < 0 then Some (if n \<noteq> 0 then [0 \<mapsto> NUL] else Map.empty, m, -1)
        else do {
          vals \<leftarrow> printf_read_positional_args (take (nat max_index) (tl types)) args;
          (b, m) \<leftarrow> positional_loop env fmt types (None # vals) 1 (new_buffer n, m);
          Some (put_terminator n b, m, int_of_size (pb_length b)) })"

text \<open>The stores to the buffer, the memory that \<open>%n\<close> writes to, and the result.\<close>

definition vsnprintf :: "'d printf_env \<Rightarrow> nat \<Rightarrow> string \<Rightarrow> 'd printf_arg list \<Rightarrow> mem \<Rightarrow>
    ((nat \<rightharpoonup> char) \<times> mem \<times> int) option" where
  "vsnprintf env n fmt args m =
     (if printf_has_positional_args fmt then vsnprintf_positional env n fmt args m
      else do {
        (b, m) \<leftarrow> vsnprintf_loop env fmt args (new_buffer n, m);
        Some (put_terminator n b, m, int_of_size (pb_length b)) })"

subsection \<open>Output to a new block, a descriptor and a stream\<close>

text \<open>\<open>vasprintf\<close> gives the block that it stores at \<open>strp\<close>, \<^term>\<open>None\<close> where it stores a null pointer.
  Freeing a block has no effect here.\<close>

definition vasprintf :: "'d printf_env \<Rightarrow> 'w host \<Rightarrow> 'w \<Rightarrow> addr \<Rightarrow> string \<Rightarrow> 'd printf_arg list \<Rightarrow> mem \<Rightarrow>
    ('w \<times> (addr \<times> (nat \<rightharpoonup> char)) option \<times> mem \<times> int) option" where
  "vasprintf env h w strp fmt args m =
     (if strp = 0 then Some (w, None, m, -1)
      else do {
        (_, m, len) \<leftarrow> vsnprintf env 0 fmt args m;
        if len < 0 then Some (w, None, m, -1)
        else case sys_malloc h w (nat len + 1) of
          (w, None) \<Rightarrow> Some (w, None, m, -1)
        | (w, Some (p, _)) \<Rightarrow> do {
            (stores, m, result) \<leftarrow> vsnprintf env (nat len + 1) fmt args m;
            if result < 0 then Some (w, None, m, -1) else Some (w, Some (p, stores), m, result) } })"

definition vdprintf :: "'d printf_env \<Rightarrow> 'w host \<Rightarrow> 'w \<Rightarrow> int \<Rightarrow> string \<Rightarrow> 'd printf_arg list \<Rightarrow> mem \<Rightarrow>
    ('w \<times> mem \<times> int) option" where
  "vdprintf env h w fd fmt args m = do {
     (w, block, m, result) \<leftarrow> vasprintf env h w 1 fmt args m;
     if result < 0 then Some (w, m, -1)
     else case block of None \<Rightarrow> None
       | Some (_, stores) \<Rightarrow> do {
           s \<leftarrow> load_n stores 0 (nat result);
           Some (case sys_write h w fd s of
               (w, Inl e) \<Rightarrow> (w, m, -1)
             | (w, Inr written) \<Rightarrow> (w, m, if int written \<noteq> result then -1 else result)) } }"

definition vfprintf :: "'d printf_env \<Rightarrow> 'w host \<Rightarrow> 'w FILE \<Rightarrow> string \<Rightarrow> 'd printf_arg list \<Rightarrow> mem \<Rightarrow>
    ('w FILE \<times> mem \<times> int) option" where
  "vfprintf env h f fmt args m = do {
     (stores, m, result) \<leftarrow> vsnprintf env 1024 fmt args m;
     if result < 0 then Some (f, m, result)
     else if result \<ge> 1024 then
       (case sys_malloc h (fp_os f) (nat result + 1) of
          (w, None) \<Rightarrow> Some (f\<lparr>fp_os := w\<rparr>, m, EOF)
        | (w, Some _) \<Rightarrow> do {
            (stores, m, result) \<leftarrow> vsnprintf env (nat result + 1) fmt args m;
            if result < 0 then Some (f\<lparr>fp_os := w\<rparr>, m, result)
            else do {
              s \<leftarrow> load_n stores 0 (nat result);
              Some (case fwrite_unlocked_impl h s 1 (nat result) (f\<lparr>fp_os := w\<rparr>) of (f, k) \<Rightarrow>
                (f, m, if int k \<noteq> result then EOF else result)) } })
     else do {
       s \<leftarrow> load_n stores 0 (nat result);
       Some (case fwrite_unlocked_impl h s 1 (nat result) f of (f, k) \<Rightarrow>
         (f, m, if int k \<noteq> result then EOF else result)) } }"

subsection \<open>The text of a call\<close>

lemma appends_fix:
  assumes "appends f n" and "\<And>b m. pb_length b = n \<Longrightarrow> g (b, m) = f (b, m)"
  shows "appends g n"
  using assms unfolding appends_def by (elim disjE) auto

lemma convert_value_appends: "appends (convert_value env c spec t val) n"
proof -
  note conv = convert_value_def
  consider "c = CHR ''c''" | "c = CHR ''d'' \<or> c = CHR ''i''"
    | "c = CHR ''u'' \<or> c = CHR ''o'' \<or> c = CHR ''x'' \<or> c = CHR ''X''" | "c = CHR ''n''"
    | "c \<notin> set ''cdiuoxXn''" by auto
  then show ?thesis
  proof cases
    case 1
    show ?thesis
    proof (cases "union_int val")
      case None
      with 1 show ?thesis by (intro appends_None) (simp add: conv)
    next
      case (Some v)
      show ?thesis by (rule appends_fix [OF convert_spec_appends]) (simp add: conv 1 Some)
    qed
  next
    case 2
    then have c: "c \<noteq> CHR ''c''" by auto
    show ?thesis
    proof (cases "positional_signed t val")
      case None
      with 2 c show ?thesis by (intro appends_None) (simp add: conv)
    next
      case (Some v)
      have "convert_value env c spec t val (b, m) = map_option (\<lambda>b. ((b, m), [])) (format_integer (localeconv env) b spec
          (if v < 0 then nat (- (v + 1)) + 1 else nat v) True (v < 0) 10 False)" for b m
        using 2 c Some by (simp add: conv Let_def)
      then show ?thesis by (rule appends_emits [OF emits_integer])
    qed
  next
    case 3
    then have c: "c \<noteq> CHR ''c''" "\<not> (c = CHR ''d'' \<or> c = CHR ''i'')" by auto
    show ?thesis
    proof (cases "positional_unsigned t val")
      case None
      with 3 c show ?thesis by (intro appends_None) (simp add: conv)
    next
      case (Some v)
      have "convert_value env c spec t val (b, m) = map_option (\<lambda>b. ((b, m), [])) (format_integer (localeconv env) b spec
          v False False (if c = CHR ''o'' then 8 else if c = CHR ''u'' then 10 else 16) (c = CHR ''X''))" for b m
        using 3 c Some by (simp add: conv Let_def)
      then show ?thesis by (rule appends_emits [OF emits_integer])
    qed
  next
    case 4
    show ?thesis
    proof (cases "\<exists>p. val = Some (ArgStore p)")
      case False
      with 4 show ?thesis
        by (intro appends_None) (simp add: conv split: option.split printf_arg.split)
    next
      case True
      then obtain p where p: "val = Some (ArgStore p)" by blast
      have "convert_value env c spec t val (b, m) =
        (if dom (mem_put Map.empty p (store_count (positional_count_size t) n)) \<subseteq> dom m
         then Some ((buffer_write b [], m ++ mem_put Map.empty p (store_count (positional_count_size t) n)), [])
         else None)" if "pb_length b = n" for b m
        using that by (simp add: conv 4 p store_n_overlay)
      then show ?thesis by (rule appends_store)
    qed
  next
    case 5
    then have c: "c \<noteq> CHR ''c''" "\<not> (c = CHR ''d'' \<or> c = CHR ''i'')"
      "\<not> (c = CHR ''u'' \<or> c = CHR ''o'' \<or> c = CHR ''x'' \<or> c = CHR ''X'')" "c \<noteq> CHR ''n''" by auto
    show ?thesis
    proof (cases val)
      case None
      show ?thesis unfolding conv by (rule appends_None) (simp only: c None if_False option.case)
    next
      case (Some a)
      show ?thesis
        by (rule appends_fix [OF convert_spec_appends]) (simp only: conv c Some if_False option.case)
    qed
  qed
qed

lemma convert_positional_appends: "appends (convert_positional env c spec types vals) n"
proof (cases "printf_conversion_arg_type c spec = PRINTF_ARG_NONE")
  case True
  show ?thesis by (rule appends_fix [OF convert_spec_appends]) (simp add: convert_positional_def True)
next
  case False
  show ?thesis
  proof (cases "array_at types (value_index spec)"; cases "array_at vals (value_index spec)")
    fix t val assume "array_at types (value_index spec) = Some t" "array_at vals (value_index spec) = Some val"
    with False show ?thesis
      by (intro appends_fix [OF convert_value_appends]) (simp add: convert_positional_def)
  qed (use False in \<open>auto simp: convert_positional_def intro!: appends_None\<close>)
qed

lemma positional_loop_writes: "writes_text (positional_loop env fmt types vals next_arg) n"
proof (induction "length fmt" arbitrary: fmt next_arg n rule: less_induct)
  case (less fmt next_arg n)
  have IH: "length f < length fmt \<Longrightarrow> writes_text (positional_loop env f types vals na) n" for f na n
    by (rule less)
  show ?case
  proof (cases fmt)
    case Nil
    show ?thesis by (rule writes_Some [where t = "[]"]) (simp add: Nil)
  next
    case (Cons c f)
    consider "c \<noteq> CHR ''%''" | "c = CHR ''%''" "starts_with (CHR ''%'') f"
      | "c = CHR ''%''" "\<not> starts_with (CHR ''%'') f" by blast
    then show ?thesis
    proof cases
      case 1
      show ?thesis
        by (rule writes_char [of "positional_loop env f types vals next_arg" _ "[c]", OF IH])
          (simp_all add: Cons 1)
    next
      case 2
      show ?thesis
        by (rule writes_char [of "positional_loop env (tl f) types vals next_arg" _ "[CHR ''%'']", OF IH])
          (simp_all add: Cons 2)
    next
      case 3
      obtain f' spec na where p: "printf_parse_spec f next_arg = (f', spec, na)" by (metis prod_cases3)
      show ?thesis
      proof (cases "resolve_spec vals spec")
        case None
        with 3 p show ?thesis by (intro writes_None) (simp add: Cons)
      next
        case (Some spec')
        show ?thesis
        proof (cases f')
          case Nil
          show ?thesis
            by (rule writes_Some [where t = "[CHR ''%'']"]) (simp add: Cons 3 p Some Nil)
        next
          case (Cons y rest)
          have "length rest < length fmt"
            using printf_parse_spec_le [OF p [symmetric]] \<open>fmt = c # f\<close> Cons by simp
          then have rest: "writes_text (positional_loop env rest types vals na) k" for k by (rule IH)
          show ?thesis
          proof (rule writes_after [OF convert_positional_appends [of env y spec' types vals n],
              where g = "\<lambda>r st. positional_loop env rest types vals na st"], rule rest)
            show "positional_loop env fmt types vals next_arg (b, m) =
                (case convert_positional env y spec' types vals (b, m) of
                   None \<Rightarrow> None | Some (st, r) \<Rightarrow> positional_loop env rest types vals na st)" for b m
              unfolding \<open>fmt = c # f\<close> using 3 by (simp add: p Some Cons)
          qed
        qed
      qed
    qed
  qed
qed

text \<open>The text, the stores of \<open>%n\<close> and the result of a call do not depend on the buffer: it gets as
  much of the text as leaves room for the terminator. The result is the length of the text, or -1
  for a format with positions over 64.\<close>

definition shown :: "nat \<Rightarrow> string \<Rightarrow> (nat \<rightharpoonup> char)" where
  "shown n t = (if n = 0 then Map.empty else mem_of 0 (take (n - 1) t @ [NUL]))"

definition prints :: "'d printf_env \<Rightarrow> string \<Rightarrow> 'd printf_arg list \<Rightarrow> string \<Rightarrow> mem \<Rightarrow> int \<Rightarrow> bool" where
  "prints env fmt args t d r \<longleftrightarrow> (r = int_of_size (length t) \<or> t = [] \<and> d = Map.empty \<and> r = -1) \<and>
     (\<forall>n m. vsnprintf env n fmt args m =
        (if dom d \<subseteq> dom m then Some (shown n t, m ++ d, r) else None))"

lemma loop_prints:
  assumes "writes_text f 0"
    and "\<And>n m. vsnprintf env n fmt args m = (case f (new_buffer n, m) of None \<Rightarrow> None
      | Some (b, m) \<Rightarrow> Some (put_terminator n b, m, int_of_size (pb_length b)))"
  shows "(\<forall>n m. vsnprintf env n fmt args m = None) \<or> (\<exists>t d r. prints env fmt args t d r)"
proof -
  have len: "pb_length (new_buffer n) = 0" for n by (simp add: new_buffer_def)
  from assms(1) show ?thesis
  proof (cases rule: writes_cases)
    case 1
    then show ?thesis by (simp add: assms(2) len)
  next
    case (2 t d)
    have "vsnprintf env n fmt args m = (if dom d \<subseteq> dom m then Some (shown n t, m ++ d, int_of_size (length t)) else None)"
      for n m
      using 2 [of "new_buffer n" m] len
      by (simp add: assms(2) put_terminator_text shown_def buffer_length_write)
    then show ?thesis unfolding prints_def by blast
  qed
qed

lemma vsnprintf_prints:
  "(\<forall>n m. vsnprintf env n fmt args m = None) \<or> (\<exists>t d r. prints env fmt args t d r)"
proof (cases "printf_has_positional_args fmt")
  case False
  show ?thesis
    by (rule loop_prints [OF vsnprintf_loop_writes [of env fmt args]])
      (simp add: vsnprintf_def False split: option.split)
next
  case True
  obtain types k where collect: "printf_collect_positional_args fmt = (types, k)" by fastforce
  note vs = vsnprintf_def vsnprintf_positional_def True collect
  consider "k < 0" | "0 \<le> k" "printf_read_positional_args (take (nat k) (tl types)) args = None"
    | vals where "0 \<le> k" "printf_read_positional_args (take (nat k) (tl types)) args = Some vals"
    by (cases "printf_read_positional_args (take (nat k) (tl types)) args") force+
  then show ?thesis
  proof cases
    case 1
    have "mem_of 0 [NUL] = [0 \<mapsto> NUL]" by (simp add: mem_of_def mem_put_def fun_eq_iff)
    then have "prints env fmt args [] Map.empty (-1)"
      using 1 by (simp add: prints_def vs shown_def)
    then show ?thesis by blast
  next
    case 2
    then show ?thesis by (simp add: vs)
  next
    case 3
    then show ?thesis
      by (intro loop_prints [OF positional_loop_writes [of env fmt types "None # vals" 1]])
        (simp add: vs split: option.split)
  qed
qed

end
