(* ===== verification/CRT_Time.thy ===== *)
theory CRT_Time
  imports CRT_Mem "HOL-Library.Signed_Division"
begin

text \<open>
  Calendar time: \<^verbatim>\<open>libc/src/time.c\<close>. Times, days and the fields of \<open>struct tm\<close> are
  integers; \<open>/\<close> and \<open>%\<close> are the truncating \<open>sdiv\<close> and \<open>smod\<close>. A year that leaves the range of \<open>int\<close>
  and a read outside of the month table are \<open>None\<close>. \<open>strftime\<close> stores into the caller's buffer and
  keeps the space that remains in it; a store outside of the mapped memory is \<open>None\<close>. The system calls
  are parameters.
\<close>

subsection \<open>The calendar\<close>

definition is_leap_year :: "int \<Rightarrow> bool" where
  "is_leap_year year \<longleftrightarrow> (year smod 4 = 0 \<and> year smod 100 \<noteq> 0) \<or> year smod 400 = 0"

definition days_in_year :: "int \<Rightarrow> int" where
  "days_in_year year = (if is_leap_year year then 366 else 365)"

definition month_days :: "int list" where
  "month_days = [31, 28, 31, 30, 31, 30, 31, 31, 30, 31, 30, 31]"

definition days_in_month :: "int \<Rightarrow> nat \<Rightarrow> int option" where
  "days_in_month year month =
     (if month = 1 \<and> is_leap_year year then Some 29
      else if month < length month_days then Some (month_days ! month) else None)"

record tm =
  tm_sec :: int
  tm_min :: int
  tm_hour :: int
  tm_mday :: int
  tm_mon :: int
  tm_year :: int
  tm_wday :: int
  tm_yday :: int
  tm_isdst :: int

function year_down :: "int \<Rightarrow> int \<Rightarrow> int \<times> int" where
  "year_down days year =
     (if days < 0 then (let year = year - 1 in year_down (days + days_in_year year) year)
      else (days, year))"
  by pat_completeness auto
termination by (relation "measure (\<lambda>(days, year). nat (- days))") (auto simp: days_in_year_def)

function year_up :: "int \<Rightarrow> int \<Rightarrow> int \<times> int" where
  "year_up days year =
     (if days \<ge> days_in_year year then year_up (days - days_in_year year) (year + 1)
      else (days, year))"
  by pat_completeness auto
termination
  by (relation "measure (\<lambda>(days, year). nat days)") (auto simp: days_in_year_def split: if_splits)

text \<open>The month loop: from \<open>month\<close> on, while \<open>days\<close> reaches into the next month.\<close>

function month_up :: "int \<Rightarrow> int \<Rightarrow> nat \<Rightarrow> (int \<times> nat) option" where
  "month_up year days month =
     (case days_in_month year month of
        None \<Rightarrow> None
      | Some n \<Rightarrow> if days \<ge> n then month_up year (days - n) (month + 1) else Some (days, month))"
  by pat_completeness auto
termination
  by (relation "measure (\<lambda>(year, days, month). 12 - month)")
    (auto simp: days_in_month_def month_days_def split: if_splits)

declare year_down.simps [simp del] year_up.simps [simp del] month_up.simps [simp del]

definition fits_int :: "int \<Rightarrow> bool" where
  "fits_int i \<longleftrightarrow> - (2 ^ 31) \<le> i \<and> i < 2 ^ 31"

definition time_to_tm :: "int \<Rightarrow> tm option" where
  "time_to_tm seconds = do {
     let days = seconds sdiv 86400;
     let rem = seconds smod 86400;
     let (days, rem) = (if rem < 0 then (days - 1, rem + 86400) else (days, rem));
     let (days, year) = year_down days 1970;
     let (days, year) = year_up days year;
     if \<not> fits_int year \<or> \<not> fits_int (year - 1900) then None else do {
     (mday, month) \<leftarrow> month_up year days 0;
     let wday = (seconds sdiv 86400 + 4) smod 7;
     Some \<lparr>tm_sec = rem smod 60, tm_min = (rem sdiv 60) smod 60, tm_hour = rem sdiv 3600,
       tm_mday = mday + 1, tm_mon = int month, tm_year = year - 1900,
       tm_wday = (if wday < 0 then wday + 7 else wday), tm_yday = days, tm_isdst = 0\<rparr> } }"

function month_raise :: "int \<Rightarrow> int \<Rightarrow> int \<times> int" where
  "month_raise month year = (if month < 0 then month_raise (month + 12) (year - 1) else (month, year))"
  by pat_completeness auto
termination by (relation "measure (\<lambda>(month, year). nat (- month))") auto

function month_lower :: "int \<Rightarrow> int \<Rightarrow> int \<times> int" where
  "month_lower month year = (if month \<ge> 12 then month_lower (month - 12) (year + 1) else (month, year))"
  by pat_completeness auto
termination by (relation "measure (\<lambda>(month, year). nat month)") auto

function add_years :: "int \<Rightarrow> int \<Rightarrow> int \<Rightarrow> int" where
  "add_years i year days = (if i < year then add_years (i + 1) year (days + days_in_year i) else days)"
  by pat_completeness auto
termination by (relation "measure (\<lambda>(i, year, days). nat (year - i))") auto

function sub_years :: "int \<Rightarrow> int \<Rightarrow> int \<Rightarrow> int" where
  "sub_years i lim days = (if i < lim then sub_years (i + 1) lim (days - days_in_year i) else days)"
  by pat_completeness auto
termination by (relation "measure (\<lambda>(i, lim, days). nat (lim - i))") auto

function add_months :: "int \<Rightarrow> nat \<Rightarrow> nat \<Rightarrow> int \<Rightarrow> int option" where
  "add_months year i month days =
     (if i < month then
        case days_in_month year i of None \<Rightarrow> None | Some n \<Rightarrow> add_months year (i + 1) month (days + n)
      else Some days)"
  by pat_completeness auto
termination by (relation "measure (\<lambda>(year, i, month, days). month - i)") auto

declare month_raise.simps [simp del] month_lower.simps [simp del] add_years.simps [simp del]
  sub_years.simps [simp del] add_months.simps [simp del]

definition tm_to_time :: "tm \<Rightarrow> int option" where
  "tm_to_time t = do {
     let (month, year) = month_raise (tm_mon t) (tm_year t + 1900);
     let (month, year) = month_lower month year;
     if \<not> fits_int (tm_year t + 1900) \<or> \<not> fits_int year then None else do {
     let days = (if year \<ge> 1970 then add_years 1970 year 0 else sub_years year 1970 0);
     days \<leftarrow> add_months year 0 (nat month) days;
     let days = days + (tm_mday t - 1);
     Some (days * 86400 + tm_hour t * 3600 + tm_min t * 60 + tm_sec t) } }"

text \<open>\<open>gmtime_r\<close>, \<open>localtime_r\<close> (there is no time zone database) and \<open>mktime\<close>; a null argument is \<open>None\<close>.\<close>

datatype 'a outcome = Fault | Fail int | Done 'a

definition gmtime_r :: "int option \<Rightarrow> bool \<Rightarrow> tm outcome" where
  "gmtime_r timep result_nonnull =
     (if timep = None \<or> \<not> result_nonnull then Fail EINVAL
      else case time_to_tm (the timep) of None \<Rightarrow> Fault | Some t \<Rightarrow> Done t)"

definition localtime_r :: "int option \<Rightarrow> bool \<Rightarrow> tm outcome" where
  "localtime_r timep result_nonnull = gmtime_r timep result_nonnull"

definition mktime :: "tm option \<Rightarrow> (int \<times> tm) outcome" where
  "mktime t = (case t of None \<Rightarrow> Fail EINVAL
     | Some t \<Rightarrow> (case tm_to_time t of None \<Rightarrow> Fault
       | Some result \<Rightarrow> (case time_to_tm result of None \<Rightarrow> Fault | Some t \<Rightarrow> Done (result, t))))"

subsection \<open>strftime\<close>

text \<open>The memory, the place of the next byte and the space that remains. A function gives the new state
  and whether it succeeded; the calls of a chain stop at the first failure.\<close>

type_synonym out = "mem \<times> addr \<times> nat"

definition append_chars :: "out \<Rightarrow> string \<Rightarrow> (out \<times> bool) option" where
  "append_chars st src =
     (case st of (m, dst, remaining) \<Rightarrow>
        if remaining \<le> length src then Some (st, False)
        else do { m \<leftarrow> store_n m dst src; Some ((m, dst + length src, remaining - length src), True) })"

definition append_string :: "out \<Rightarrow> string \<Rightarrow> (out \<times> bool) option" where
  "append_string st src = append_chars st src"

definition and_then :: "(out \<times> bool) option \<Rightarrow> (out \<Rightarrow> (out \<times> bool) option) \<Rightarrow> (out \<times> bool) option" where
  "and_then r f = (case r of None \<Rightarrow> None | Some (st, ok) \<Rightarrow> if ok then f st else Some (st, False))"

text \<open>The digits of \<open>n\<close>, last one first, at most 16 of them.\<close>

function rev_digits :: "nat \<Rightarrow> nat \<Rightarrow> string" where
  "rev_digits len n = char_of (48 + n mod 10) #
     (if n div 10 \<noteq> 0 \<and> len + 1 < 16 then rev_digits (len + 1) (n div 10) else [])"
  by pat_completeness auto
termination by (relation "measure (\<lambda>(len, n). n)") auto

declare rev_digits.simps [simp del]

definition append_number :: "out \<Rightarrow> int \<Rightarrow> int \<Rightarrow> (out \<times> bool) option" where
  "append_number st val width =
     (let negative = val < 0;
          reversed = rev_digits 0 (nat \<bar>val\<bar>);
          sign = (if negative then ''-'' else []);
          pad = min (nat (width - int (length reversed))) (15 - length sign);
          buf = sign @ replicate pad CHR ''0''
      in append_string st (buf @ take (15 - length buf) (rev reversed)))"

definition weekdays_full :: "string list" where
  "weekdays_full = [''Sunday'', ''Monday'', ''Tuesday'', ''Wednesday'', ''Thursday'', ''Friday'', ''Saturday'']"
definition weekdays :: "string list" where
  "weekdays = [''Sun'', ''Mon'', ''Tue'', ''Wed'', ''Thu'', ''Fri'', ''Sat'']"
definition months_full :: "string list" where
  "months_full = [''January'', ''February'', ''March'', ''April'', ''May'', ''June'',
     ''July'', ''August'', ''September'', ''October'', ''November'', ''December'']"
definition months :: "string list" where
  "months = [''Jan'', ''Feb'', ''Mar'', ''Apr'', ''May'', ''Jun'',
     ''Jul'', ''Aug'', ''Sep'', ''Oct'', ''Nov'', ''Dec'']"

definition strftime_item :: "tm \<Rightarrow> char \<Rightarrow> out \<Rightarrow> (out \<times> bool) option" where
  "strftime_item t c st =
     (if c = CHR 0x25 then append_chars st [CHR 0x25]
      else if c = CHR ''Y'' then append_number st (tm_year t + 1900) 4
      else if c = CHR ''m'' then append_number st (tm_mon t + 1) 2
      else if c = CHR ''d'' then append_number st (tm_mday t) 2
      else if c = CHR ''H'' then append_number st (tm_hour t) 2
      else if c = CHR ''M'' then append_number st (tm_min t) 2
      else if c = CHR ''S'' then append_number st (tm_sec t) 2
      else if c = CHR ''a'' then append_string st (weekdays ! nat (tm_wday t))
      else if c = CHR ''A'' then append_string st (weekdays_full ! nat (tm_wday t))
      else if c = CHR ''b'' \<or> c = CHR ''h'' then append_string st (months ! nat (tm_mon t))
      else if c = CHR ''B'' then append_string st (months_full ! nat (tm_mon t))
      else if c = CHR ''F'' then
        and_then (append_number st (tm_year t + 1900) 4) (\<lambda>st.
        and_then (append_chars st ''-'') (\<lambda>st.
        and_then (append_number st (tm_mon t + 1) 2) (\<lambda>st.
        and_then (append_chars st ''-'') (\<lambda>st.
        append_number st (tm_mday t) 2))))
      else if c = CHR ''T'' then
        and_then (append_number st (tm_hour t) 2) (\<lambda>st.
        and_then (append_chars st '':'') (\<lambda>st.
        and_then (append_number st (tm_min t) 2) (\<lambda>st.
        and_then (append_chars st '':'') (\<lambda>st.
        append_number st (tm_sec t) 2))))
      else and_then (append_chars st [CHR 0x25]) (\<lambda>st. append_chars st [c]))"

text \<open>A lone \<open>%\<close> at the end of the format is copied.\<close>

fun strftime_loop :: "tm \<Rightarrow> string \<Rightarrow> out \<Rightarrow> (out \<times> bool) option" where
  "strftime_loop t [] st = Some (st, True)"
| "strftime_loop t [c] st = append_chars st [c]"
| "strftime_loop t (c # d # fmt) st =
     (if c \<noteq> CHR 0x25 then and_then (append_chars st [c]) (\<lambda>st. strftime_loop t (d # fmt) st)
      else and_then (strftime_item t d st) (\<lambda>st. strftime_loop t fmt st))"

text \<open>The memory afterwards and the result.\<close>

definition strftime :: "mem \<Rightarrow> addr \<Rightarrow> nat \<Rightarrow> string option \<Rightarrow> tm option \<Rightarrow> (mem \<times> nat) option" where
  "strftime m s max_size format t =
     (case (format, t) of
        (Some fmt, Some t) \<Rightarrow>
          if s = null \<or> max_size = 0 \<or> tm_wday t < 0 \<or> tm_wday t > 6 \<or> tm_mon t < 0 \<or> tm_mon t > 11
          then Some (m, 0)
          else case strftime_loop t fmt (m, s, max_size) of
              None \<Rightarrow> None
            | Some ((m, dst, _), ok) \<Rightarrow> if ok then do { m \<leftarrow> store m dst NUL; Some (m, dst - s) } else Some (m, 0)
      | _ \<Rightarrow> Some (m, 0))"

subsection \<open>The calendar in closed form\<close>

text \<open>Days from 1970-01-01 to the first of January of a year, by the Gregorian rule.\<close>

definition year_start :: "int \<Rightarrow> int" where
  "year_start y = 365 * (y - 1970) + (y - 1) div 4 - (y - 1) div 100 + (y - 1) div 400 - 477"

definition month_start :: "int \<Rightarrow> nat \<Rightarrow> int" where
  "month_start y m = [0, 31, 59, 90, 120, 151, 181, 212, 243, 273, 304, 334, 365] ! m +
     (if 2 \<le> m \<and> is_leap_year y then 1 else 0)"

lemma smod_pos: "0 < b \<Longrightarrow> a smod b = (if 0 \<le> a \<or> b dvd a then a mod b else a mod b - b)" for a b :: int
  by (auto simp: signed_modulo_int_eq_modulo_int sgn_if)

lemma sdiv_pos: "0 < b \<Longrightarrow> a sdiv b = (if 0 \<le> a \<or> b dvd a then a div b else a div b + 1)" for a b :: int
  by (auto simp: signed_divide_int_eq_divide_int sgn_if)

lemma smod_eq_0: "0 < b \<Longrightarrow> a smod b = 0 \<longleftrightarrow> b dvd a" for a b :: int
proof -
  assume "0 < b"
  then have "a mod b \<noteq> b" using pos_mod_bound [of b a] by linarith
  with \<open>0 < b\<close> show ?thesis by (auto simp: smod_pos dvd_eq_mod_eq_0)
qed

lemma is_leap_year_iff: "is_leap_year y \<longleftrightarrow> (4 dvd y \<and> \<not> 100 dvd y) \<or> 400 dvd y"
  by (simp add: is_leap_year_def smod_eq_0)

lemma div_step: "0 < k \<Longrightarrow> y div k = (y - 1) div k + (if k dvd y then 1 else 0)" for k y :: int
proof -
  assume k: "0 < k"
  have y: "y = k * (y div k) + y mod k" "0 \<le> y mod k" "y mod k < k" using k by simp_all
  show ?thesis
  proof (cases "k dvd y")
    case True
    then have "y - 1 = k * (y div k - 1) + (k - 1)" using y(1) by (simp add: algebra_simps)
    then have "(y - 1) div k = y div k - 1" by (rule int_div_pos_eq) (use k in auto)
    with True show ?thesis by simp
  next
    case False
    then have "y mod k \<noteq> 0" by (simp add: dvd_eq_mod_eq_0)
    then have "0 \<le> y mod k - 1" "y mod k - 1 < k" using y(2,3) by linarith+
    moreover have "y - 1 = k * (y div k) + (y mod k - 1)" using y(1) by linarith
    ultimately have "(y - 1) div k = y div k" by (intro int_div_pos_eq)
    with False show ?thesis by simp
  qed
qed

lemma dvd_chain: "400 dvd y \<Longrightarrow> 100 dvd y" "100 dvd y \<Longrightarrow> 4 dvd y" for y :: int
  by (auto elim: dvd_trans [rotated])

lemma year_start_step: "year_start (y + 1) = year_start y + days_in_year y"
  unfolding year_start_def days_in_year_def is_leap_year_iff
  using div_step [of 4 y] div_step [of 100 y] div_step [of 400 y] dvd_chain [of y] by auto

lemma year_start_1970 [simp]: "year_start 1970 = 0"
  by (simp add: year_start_def)

lemma days_in_year_bounds: "365 \<le> days_in_year y \<and> days_in_year y \<le> 366"
  by (simp add: days_in_year_def)

lemma month_cases: "m < 12 \<Longrightarrow> m = 0 \<or> m = 1 \<or> m = 2 \<or> m = 3 \<or> m = 4 \<or> m = 5 \<or> m = 6 \<or> m = 7 \<or>
    m = 8 \<or> m = 9 \<or> m = 10 \<or> m = (11 :: nat)"
  by presburger

lemma month_start_step:
  "m < 12 \<Longrightarrow> \<exists>n. days_in_month y m = Some n \<and> 28 \<le> n \<and> n \<le> 31 \<and> month_start y (m + 1) = month_start y m + n"
  by (drule month_cases, elim disjE) (auto simp: days_in_month_def month_days_def month_start_def)

lemma month_start_ends [simp]: "month_start y 0 = 0" "month_start y 12 = days_in_year y"
  by (simp_all add: month_start_def days_in_year_def)

lemma year_down_spec:
  "year_down d y = (d', y') \<Longrightarrow> 0 \<le> d' \<and> d' + year_start y' = d + year_start y"
proof (induction d y rule: year_down.induct)
  case (1 d y)
  show ?case
  proof (cases "d < 0")
    case True
    then have "year_down (d + days_in_year (y - 1)) (y - 1) = (d', y')"
      using 1(2) by (subst (asm) year_down.simps) (simp add: Let_def)
    from 1(1) [OF True refl this] show ?thesis using year_start_step [of "y - 1"] by simp
  next
    case False
    then show ?thesis using 1(2) by (subst (asm) year_down.simps) auto
  qed
qed

lemma year_up_spec:
  "year_up d y = (d', y') \<Longrightarrow> 0 \<le> d \<Longrightarrow>
    0 \<le> d' \<and> d' < days_in_year y' \<and> d' + year_start y' = d + year_start y"
proof (induction d y rule: year_up.induct)
  case (1 d y)
  show ?case
  proof (cases "d \<ge> days_in_year y")
    case True
    then have "year_up (d - days_in_year y) (y + 1) = (d', y')"
      using 1(2) by (subst (asm) year_up.simps) simp
    from 1(1) [OF True this] show ?thesis using True year_start_step [of y] by simp
  next
    case False
    then show ?thesis using 1(2,3) by (subst (asm) year_up.simps) auto
  qed
qed

lemma month_up_spec:
  "0 \<le> d \<Longrightarrow> m < 12 \<Longrightarrow> d + month_start y m < days_in_year y \<Longrightarrow>
    \<exists>d' m' n. month_up y d m = Some (d', m') \<and> m' < 12 \<and> days_in_month y m' = Some n \<and>
      0 \<le> d' \<and> d' < n \<and> d' + month_start y m' = d + month_start y m"
proof (induction y d m rule: month_up.induct)
  case (1 y d m)
  obtain n where n: "days_in_month y m = Some n" "month_start y (m + 1) = month_start y m + n"
    using month_start_step [OF 1(3)] by blast
  show ?case
  proof (cases "d \<ge> n")
    case True
    have "m + 1 < 12"
    proof (rule ccontr)
      assume "\<not> m + 1 < 12"
      then have "m + 1 = 12" using 1(3) by simp
      with n(2) True 1(4) show False by simp
    qed
    with 1(1) [OF n(1) True] True n 1(4)
    show ?thesis by (subst month_up.simps) (simp add: algebra_simps)
  next
    case False
    with n(1) 1(2,3) show ?thesis by (subst month_up.simps) auto
  qed
qed

subsection \<open>What the conversions compute\<close>

text \<open>The fields of a broken-down time, all in their ranges.\<close>

definition tm_ok :: "tm \<Rightarrow> bool" where
  "tm_ok t \<longleftrightarrow> 0 \<le> tm_sec t \<and> tm_sec t < 60 \<and> 0 \<le> tm_min t \<and> tm_min t < 60 \<and>
     0 \<le> tm_hour t \<and> tm_hour t < 24 \<and> 0 \<le> tm_mon t \<and> tm_mon t < 12 \<and> 1 \<le> tm_mday t \<and>
     (case days_in_month (tm_year t + 1900) (nat (tm_mon t)) of None \<Rightarrow> False | Some n \<Rightarrow> tm_mday t \<le> n)"

text \<open>The day number and the second in the day that the fields denote.\<close>

definition tm_day :: "tm \<Rightarrow> int" where
  "tm_day t = year_start (tm_year t + 1900 + tm_mon t div 12) +
     month_start (tm_year t + 1900 + tm_mon t div 12) (nat (tm_mon t mod 12)) + tm_mday t - 1"

definition tm_clock :: "tm \<Rightarrow> int" where
  "tm_clock t = tm_hour t * 3600 + tm_min t * 60 + tm_sec t"

lemma split_seconds:
  "(if t smod 86400 < 0 then (t sdiv 86400 - 1, t smod 86400 + 86400) else (t sdiv 86400, t smod 86400)) =
    (t div 86400, t mod (86400 :: int))"
proof -
  have "t mod 86400 < 86400" "0 \<le> t mod 86400" by simp_all
  moreover have "86400 dvd t \<Longrightarrow> t mod 86400 = 0" by simp
  ultimately show ?thesis by (auto simp: smod_pos sdiv_pos simp del: dvd_imp_mod_0 pos_mod_bound)
qed

lemma clock_split:
  assumes "0 \<le> r" "r < (86400 :: int)"
  shows "r sdiv 3600 * 3600 + (r sdiv 60) smod 60 * 60 + r smod 60 = r" and "0 \<le> r smod 60 \<and> r smod 60 < 60"
    and "0 \<le> (r sdiv 60) smod 60 \<and> (r sdiv 60) smod 60 < 60" and "0 \<le> r sdiv 3600 \<and> r sdiv 3600 < 24"
proof -
  have s: "r sdiv 3600 = r div 3600" "r sdiv 60 = r div 60" "r smod 60 = r mod 60" "(r div 60) smod 60 = (r div 60) mod 60"
    using assms by (simp_all add: sdiv_pos smod_pos pos_imp_zdiv_nonneg_iff)
  have "r div 3600 = r div 60 div 60" by (simp add: zdiv_zmult2_eq [symmetric])
  then have "r div 3600 * 3600 + (r div 60) mod 60 * 60 = r div 60 * 60"
    using div_mult_mod_eq [of "r div 60" 60] by linarith
  then show "r sdiv 3600 * 3600 + (r sdiv 60) smod 60 * 60 + r smod 60 = r"
    unfolding s using div_mult_mod_eq [of r 60] by linarith
  show "0 \<le> r smod 60 \<and> r smod 60 < 60" "0 \<le> (r sdiv 60) smod 60 \<and> (r sdiv 60) smod 60 < 60"
    unfolding s by simp_all
  show "0 \<le> r sdiv 3600 \<and> r sdiv 3600 < 24"
    unfolding s using assms by (simp add: pos_imp_zdiv_nonneg_iff div_int_pos_iff zdiv_mono1 order.strict_trans1)
qed

lemma time_to_tm_Some:
  assumes fits: "\<And>y. 0 \<le> s div 86400 - year_start y \<Longrightarrow> s div 86400 - year_start y < days_in_year y \<Longrightarrow>
    fits_int y \<and> fits_int (y - 1900)"
  obtains t where "time_to_tm s = Some t" "tm_ok t" "tm_day t = s div 86400" "tm_clock t = s mod 86400"
    "tm_yday t = s div 86400 - year_start (tm_year t + 1900)" "0 \<le> tm_yday t"
    "tm_yday t < days_in_year (tm_year t + 1900)" "tm_isdst t = 0"
    "tm_wday t = (if 0 \<le> s \<or> 86400 dvd s then (s div 86400 + 4) mod 7 else (s div 86400 + 5) mod 7)"
proof -
  obtain d1 y1 where d1: "year_down (s div 86400) 1970 = (d1, y1)" by fastforce
  obtain d y where d: "year_up d1 y1 = (d, y)" by fastforce
  from year_down_spec [OF d1] have 1: "0 \<le> d1" "d1 + year_start y1 = s div 86400" by simp_all
  from year_up_spec [OF d 1(1)] have 2: "0 \<le> d" "d < days_in_year y" "d + year_start y = s div 86400"
    using 1(2) by simp_all
  obtain k m n where m: "month_up y d 0 = Some (k, m)" "m < 12" "days_in_month y m = Some n"
    "0 \<le> k" "k < n" "k + month_start y m = d"
    using month_up_spec [of d 0 y] 2 by auto
  define wd where "wd = (s sdiv 86400 + 4) smod 7"
  define r where "r = s mod 86400"
  have r: "0 \<le> r" "r < 86400" by (simp_all add: r_def)
  let ?t = "\<lparr>tm_sec = r smod 60, tm_min = (r sdiv 60) smod 60, tm_hour = r sdiv 3600,
       tm_mday = k + 1, tm_mon = int m, tm_year = y - 1900,
       tm_wday = (if wd < 0 then wd + 7 else wd), tm_yday = d, tm_isdst = 0\<rparr>"
  have "fits_int y \<and> fits_int (y - 1900)" using fits [of y] 2 by simp
  then have "time_to_tm s = Some ?t"
    unfolding time_to_tm_def Let_def split_seconds by (simp add: d1 d m wd_def r_def)
  moreover have "tm_ok ?t" using m clock_split(2-4) [OF r] by (simp add: tm_ok_def)
  moreover have "tm_day ?t = s div 86400" using m 2(3) by (simp add: tm_day_def)
  moreover have "tm_clock ?t = s mod 86400" using clock_split(1) [OF r] by (simp add: tm_clock_def r_def)
  moreover have "tm_wday ?t = (if 0 \<le> s \<or> 86400 dvd s then (s div 86400 + 4) mod 7 else (s div 86400 + 5) mod 7)"
  proof -
    have q: "s sdiv 86400 + 4 = (if 0 \<le> s \<or> 86400 dvd s then s div 86400 + 4 else s div 86400 + 5)"
      by (simp add: sdiv_pos)
    have "(if a smod 7 < 0 then a smod 7 + 7 else a smod 7) = a mod 7" for a :: int
    proof -
      have "a mod 7 < 7" "0 \<le> a mod 7" by simp_all
      then show ?thesis by (auto simp: smod_pos simp del: pos_mod_bound)
    qed
    then have "(if wd < 0 then wd + 7 else wd) = (s sdiv 86400 + 4) mod 7" unfolding wd_def .
    then show ?thesis by (simp add: q)
  qed
  ultimately show thesis using 2 by (intro that [of ?t]) simp_all
qed

lemma month_raise_spec: "month_raise m y = (m', y') \<Longrightarrow>
    y' * 12 + m' = y * 12 + m \<and> 0 \<le> m' \<and> (0 \<le> m \<longrightarrow> m' = m) \<and> (m < 0 \<longrightarrow> m' < 12)"
proof (induction m y rule: month_raise.induct)
  case (1 m y)
  show ?case
  proof (cases "m < 0")
    case True
    then have "month_raise (m + 12) (y - 1) = (m', y')"
      using 1(2) by (subst (asm) month_raise.simps) simp
    from 1(1) [OF True this] True show ?thesis by (auto simp: algebra_simps)
  qed (use 1(2) in \<open>subst (asm) month_raise.simps, auto\<close>)
qed

lemma month_lower_spec: "month_lower m y = (m', y') \<Longrightarrow> 0 \<le> m \<Longrightarrow>
    y' * 12 + m' = y * 12 + m \<and> 0 \<le> m' \<and> m' < 12"
proof (induction m y rule: month_lower.induct)
  case (1 m y)
  show ?case
  proof (cases "m \<ge> 12")
    case True
    then have "month_lower (m - 12) (y + 1) = (m', y')"
      using 1(2) by (subst (asm) month_lower.simps) simp
    from 1(1) [OF True this] True show ?thesis by (auto simp: algebra_simps)
  qed (use 1(2,3) in \<open>subst (asm) month_lower.simps, auto\<close>)
qed

lemma month_norm:
  assumes "month_raise m y = (m1, y1)" "month_lower m1 y1 = (m2, y2)"
  shows "m2 = m mod 12 \<and> y2 = y + m div 12"
proof -
  from month_raise_spec [OF assms(1)] have 1: "y1 * 12 + m1 = y * 12 + m" "0 \<le> m1" by auto
  from month_lower_spec [OF assms(2) 1(2)] have 2: "y2 * 12 + m2 = y * 12 + m" "0 \<le> m2" "m2 < 12"
    using 1(1) by auto
  then have "m = 12 * (y2 - y) + m2" by (simp add: algebra_simps)
  then have "m div 12 = y2 - y" by (rule int_div_pos_eq) (use 2 in auto)
  moreover have "m = m div 12 * 12 + m mod 12" by simp
  ultimately show ?thesis using 2(1) by linarith
qed

lemma add_years_eq: "i \<le> y \<Longrightarrow> add_years i y d = d + year_start y - year_start i"
proof (induction i y d rule: add_years.induct)
  case (1 i y d)
  then show ?case by (subst add_years.simps) (auto simp: year_start_step)
qed

lemma sub_years_eq: "i \<le> l \<Longrightarrow> sub_years i l d = d - (year_start l - year_start i)"
proof (induction i l d rule: sub_years.induct)
  case (1 i y d)
  then show ?case by (subst sub_years.simps) (auto simp: year_start_step)
qed

lemma add_months_eq: "i \<le> m \<Longrightarrow> m \<le> 12 \<Longrightarrow> add_months y i m d = Some (d + month_start y m - month_start y i)"
proof (induction y i m d rule: add_months.induct)
  case (1 y i m d)
  show ?case
  proof (cases "i < m")
    case True
    obtain n where n: "days_in_month y i = Some n" "month_start y (i + 1) = month_start y i + n"
      using month_start_step [of i y] True 1(3) by auto
    with 1(1) [OF True n(1)] True 1(3) show ?thesis by (subst add_months.simps) simp
  qed (use 1(2) in \<open>subst add_months.simps, simp\<close>)
qed

text \<open>\<open>tm_to_time\<close> accepts any fields, as long as the year fits, and reads the month table within its bounds.\<close>

lemma tm_to_time_Some:
  assumes "fits_int (tm_year t + 1900)" "fits_int (tm_year t + 1900 + tm_mon t div 12)"
  shows "tm_to_time t = Some (tm_day t * 86400 + tm_clock t)"
proof -
  obtain m1 y1 m2 y2 where m: "month_raise (tm_mon t) (tm_year t + 1900) = (m1, y1)"
    "month_lower m1 y1 = (m2, y2)" by (metis surj_pair)
  from month_norm [OF this] have e: "m2 = tm_mon t mod 12" "y2 = tm_year t + 1900 + tm_mon t div 12" by simp_all
  have y: "(if y2 \<ge> 1970 then add_years 1970 y2 0 else sub_years y2 1970 0) = year_start y2"
    by (simp add: add_years_eq sub_years_eq)
  have "nat m2 \<le> 12" using e(1) pos_mod_bound [of 12 "tm_mon t"] by linarith
  then have "add_months y2 0 (nat m2) (year_start y2) = Some (year_start y2 + month_start y2 (nat m2))"
    by (simp add: add_months_eq)
  then show ?thesis
    unfolding tm_to_time_def Let_def using assms by (simp add: m y e(2) [symmetric]) (simp add: tm_day_def tm_clock_def e algebra_simps)
qed

text \<open>
  For times up to \<open>2 ^ 55\<close> seconds from the epoch (more than a thousand million years) the year fits a
  32-bit \<open>int\<close>, so no field of the code overflows there.
\<close>

lemma year_start_bounds: "\<bar>year_start y\<bar> \<ge> 365 * \<bar>y - 1970\<bar> - 366"
proof -
  have q: "4 * ((y - 1) div 4) \<le> y - 1" "y - 1 < 4 * ((y - 1) div 4) + 4"
    "100 * ((y - 1) div 100) \<le> y - 1" "y - 1 < 100 * ((y - 1) div 100) + 100"
    "400 * ((y - 1) div 400) \<le> y - 1" "y - 1 < 400 * ((y - 1) div 400) + 400" by linarith+
  have "\<bar>365 * (y - 1970) + a - b + c - 477\<bar> \<ge> 365 * \<bar>y - 1970\<bar> - 366"
    if "4 * a \<le> y - 1" "y - 1 < 4 * a + 4" "100 * b \<le> y - 1" "y - 1 < 100 * b + 100"
      "400 * c \<le> y - 1" "y - 1 < 400 * c + 400" for a b c
    using that by (cases "1970 \<le> y") (simp_all add: abs_if)
  from this [OF q] show ?thesis unfolding year_start_def .
qed

lemma year_fits:
  assumes "\<bar>s\<bar> \<le> 2 ^ 55" "0 \<le> s div 86400 - year_start y" "s div 86400 - year_start y < days_in_year y"
  shows "\<bar>y - 1900\<bar> < 2 ^ 31 \<and> fits_int y \<and> fits_int (y - 1900)"
proof -
  have "\<bar>s div 86400\<bar> \<le> 417000000000" using assms(1) by simp
  then have "\<bar>year_start y\<bar> \<le> 417000000000 + 366" using assms(2,3) days_in_year_bounds [of y] by linarith
  then have "365 * \<bar>y - 1970\<bar> \<le> 417000000000 + 732" using year_start_bounds [of y] by linarith
  then show ?thesis by (auto simp: abs_if fits_int_def split: if_splits)
qed

text \<open>The two conversions are inverse to each other.\<close>

lemma time_round_trip:
  assumes "\<bar>s\<bar> \<le> 2 ^ 55"
  shows "\<exists>t. time_to_tm s = Some t \<and> tm_ok t \<and> \<bar>tm_year t\<bar> < 2 ^ 31 \<and> tm_to_time t = Some s"
proof -
  obtain t where t: "time_to_tm s = Some t" "tm_ok t" "tm_day t = s div 86400" "tm_clock t = s mod 86400"
    "tm_yday t = s div 86400 - year_start (tm_year t + 1900)" "0 \<le> tm_yday t" "tm_yday t < days_in_year (tm_year t + 1900)"
    by (rule time_to_tm_Some [of s]) (use year_fits [OF assms] in blast)
  have y: "\<bar>tm_year t + 1900 - 1900\<bar> < 2 ^ 31 \<and> fits_int (tm_year t + 1900) \<and> fits_int (tm_year t + 1900 - 1900)"
    by (rule year_fits [OF assms]) (use t(5-7) in simp_all)
  have "tm_mon t div 12 = 0" using t(2) by (simp add: tm_ok_def)
  then have "tm_to_time t = Some s" using tm_to_time_Some [of t] y t(3,4) by simp
  with t(1,2) y show ?thesis by auto
qed

text \<open>Normalised fields determine the time and conversely.\<close>

lemma year_start_mono: "a \<le> b \<Longrightarrow> year_start a \<le> year_start b"
proof (induction "nat (b - a)" arbitrary: b)
  case (Suc n)
  then have "year_start a \<le> year_start (b - 1)" by (intro Suc.hyps) auto
  then show ?case using year_start_step [of "b - 1"] days_in_year_bounds [of "b - 1"] by simp
qed simp

lemma month_start_mono: "a \<le> b \<Longrightarrow> b \<le> 12 \<Longrightarrow> month_start y a \<le> month_start y b"
proof (induction b)
  case (Suc b)
  then show ?case using month_start_step [of b y] by (cases "a = Suc b") auto
qed simp

lemma year_unique:
  assumes "0 \<le> d" "d < days_in_year y" "0 \<le> d'" "d' < days_in_year y'" "year_start y + d = year_start y' + d'"
  shows "y = y'"
proof (rule ccontr)
  assume "y \<noteq> y'"
  then consider "y + 1 \<le> y'" | "y' + 1 \<le> y" by linarith
  then show False
    using assms year_start_mono [of "y + 1" y'] year_start_mono [of "y' + 1" y]
      year_start_step [of y] year_start_step [of y'] by cases auto
qed

lemma month_unique:
  assumes "m < 12" "m' < 12" "days_in_month y m = Some n" "days_in_month y m' = Some n'"
    and "0 \<le> d" "d < n" "0 \<le> d'" "d' < n'" "month_start y m + d = month_start y m' + d'"
  shows "m = m'"
proof (rule ccontr)
  assume "m \<noteq> m'"
  then consider "m + 1 \<le> m'" | "m' + 1 \<le> m" by linarith
  then show False
    using assms month_start_mono [of "m + 1" m' y] month_start_mono [of "m' + 1" m y]
      month_start_step [OF assms(1), of y] month_start_step [OF assms(2), of y] by cases auto
qed

lemma tm_ok_day:
  assumes "tm_ok t"
  shows "\<exists>m n. tm_mon t = int m \<and> m < 12 \<and> days_in_month (tm_year t + 1900) m = Some n \<and>
    0 \<le> tm_mday t - 1 \<and> tm_mday t - 1 < n \<and>
    tm_day t = year_start (tm_year t + 1900) + (month_start (tm_year t + 1900) m + (tm_mday t - 1)) \<and>
    0 \<le> month_start (tm_year t + 1900) m + (tm_mday t - 1) \<and>
    month_start (tm_year t + 1900) m + (tm_mday t - 1) < days_in_year (tm_year t + 1900)"
proof -
  let ?y = "tm_year t + 1900"
  obtain n where n: "days_in_month ?y (nat (tm_mon t)) = Some n" "tm_mday t \<le> n" "1 \<le> tm_mday t"
    "0 \<le> tm_mon t" "tm_mon t < 12" using assms by (auto simp: tm_ok_def split: option.splits)
  define m where "m = nat (tm_mon t)"
  have m: "m < 12" "tm_mon t = int m" using n by (simp_all add: m_def)
  have "month_start ?y (m + 1) \<le> days_in_year ?y" using month_start_mono [of "m + 1" 12 ?y] m by simp
  moreover have "0 \<le> month_start ?y m" using month_start_mono [of 0 m ?y] m by simp
  moreover have "month_start ?y (m + 1) = month_start ?y m + n"
    using month_start_step [OF m(1), of ?y] n(1) by (auto simp: m_def)
  ultimately show ?thesis using m n
    by (intro exI [of _ m] exI [of _ n]) (simp add: m_def [symmetric] tm_day_def)
qed

lemma clock_unique:
  fixes h :: int
  assumes "0 \<le> s" "s < 60" "0 \<le> m" "m < 60" "0 \<le> s'" "s' < 60" "0 \<le> m'" "m' < 60"
    and "h * 3600 + m * 60 + s = h' * 3600 + m' * 60 + s'"
  shows "h = h' \<and> m = m' \<and> s = s'"
proof -
  have unique: "a = b \<and> r = r'" if "a * 60 + r = b * 60 + r'" "0 \<le> r" "r < 60" "0 \<le> r'" "r' < 60"
    for a b r r' :: int
  proof -
    have "(a * 60 + r) div 60 = a" "(b * 60 + r') div 60 = b" using that(2-5) by simp_all
    with that(1) show ?thesis by simp
  qed
  have "(h * 60 + m) * 60 + s = (h' * 60 + m') * 60 + s'" using assms(9) by simp
  from unique [OF this] assms have "h * 60 + m = h' * 60 + m'" "s = s'" by simp_all
  with unique [of h m h' m'] assms show ?thesis by simp
qed

lemma clock_bounds: "tm_ok t \<Longrightarrow> 0 \<le> tm_clock t \<and> tm_clock t < 86400"
  by (auto simp: tm_ok_def tm_clock_def)

lemma tm_round_trip:
  assumes t: "tm_ok t" and y: "fits_int (tm_year t)" "fits_int (tm_year t + 1900)"
    and s: "s = tm_day t * 86400 + tm_clock t"
  obtains t' where "time_to_tm s = Some t'" "tm_sec t' = tm_sec t" "tm_min t' = tm_min t" "tm_hour t' = tm_hour t"
    "tm_mday t' = tm_mday t" "tm_mon t' = tm_mon t" "tm_year t' = tm_year t"
proof -
  have day: "s div 86400 = tm_day t" "s mod 86400 = tm_clock t"
    unfolding s using clock_bounds [OF t] by simp_all
  obtain m n where 1: "tm_mon t = int m" "m < 12" "days_in_month (tm_year t + 1900) m = Some n"
    "0 \<le> tm_mday t - 1" "tm_mday t - 1 < n"
    "tm_day t = year_start (tm_year t + 1900) + (month_start (tm_year t + 1900) m + (tm_mday t - 1))"
    "0 \<le> month_start (tm_year t + 1900) m + (tm_mday t - 1)"
    "month_start (tm_year t + 1900) m + (tm_mday t - 1) < days_in_year (tm_year t + 1900)"
    using tm_ok_day [OF t] by blast
  obtain t' where t': "time_to_tm s = Some t'" "tm_ok t'" "tm_day t' = s div 86400" "tm_clock t' = s mod 86400"
  proof (rule time_to_tm_Some [of s])
    fix z assume z: "0 \<le> s div 86400 - year_start z" "s div 86400 - year_start z < days_in_year z"
    have "z = tm_year t + 1900"
      by (rule year_unique [OF z 1(7,8)]) (simp add: day 1(6))
    then show "fits_int z \<and> fits_int (z - 1900)" using y by simp
  qed
  have d: "tm_day t' = tm_day t" "tm_clock t' = tm_clock t" by (simp_all add: t'(3,4) day)
  obtain m' n' where 2: "tm_mon t' = int m'" "m' < 12" "days_in_month (tm_year t' + 1900) m' = Some n'"
    "0 \<le> tm_mday t' - 1" "tm_mday t' - 1 < n'"
    "tm_day t' = year_start (tm_year t' + 1900) + (month_start (tm_year t' + 1900) m' + (tm_mday t' - 1))"
    "0 \<le> month_start (tm_year t' + 1900) m' + (tm_mday t' - 1)"
    "month_start (tm_year t' + 1900) m' + (tm_mday t' - 1) < days_in_year (tm_year t' + 1900)"
    using tm_ok_day [OF t'(2)] by blast
  have y': "tm_year t' + 1900 = tm_year t + 1900"
    using year_unique [OF 2(7,8) 1(7,8)] 1(6) 2(6) d(1) by simp
  then have mm: "month_start (tm_year t + 1900) m' + (tm_mday t' - 1) = month_start (tm_year t + 1900) m + (tm_mday t - 1)"
    using 1(6) 2(6) d(1) by simp
  have m: "m' = m" using month_unique [OF 2(2) 1(2) 2(3) [unfolded y'] 1(3) 2(4,5) 1(4,5) mm] .
  have "tm_hour t' = tm_hour t \<and> tm_min t' = tm_min t \<and> tm_sec t' = tm_sec t"
    by (rule clock_unique) (use t t'(2) d(2) in \<open>auto simp: tm_ok_def tm_clock_def\<close>)
  with t'(1) y' m mm 1(1) 2(1) show thesis by (intro that [of t']) auto
qed

subsection \<open>What strftime writes\<close>

fun dec :: "nat \<Rightarrow> string" where
  "dec n = (if n < 10 then [char_of (48 + n)] else dec (n div 10) @ [char_of (48 + n mod 10)])"

declare dec.simps [simp del]

definition number_text :: "int \<Rightarrow> nat \<Rightarrow> string" where
  "number_text v w = (if v < 0 then ''-'' else []) @
     replicate (w - length (dec (nat \<bar>v\<bar>))) CHR ''0'' @ dec (nat \<bar>v\<bar>)"

lemma rev_digits_dec: "n < 10 ^ (16 - len) \<Longrightarrow> len < 16 \<Longrightarrow> rev (rev_digits len n) = dec n"
proof (induction len n rule: rev_digits.induct)
  case (1 len n)
  show ?case
  proof (cases "n < 10")
    case True
    then show ?thesis by (subst rev_digits.simps, subst dec.simps) simp
  next
    case False
    have "len + 1 < 16"
    proof (rule ccontr)
      assume "\<not> len + 1 < 16"
      with 1(3) have "len = 15" by simp
      with 1(2) False show False by simp
    qed
    moreover have "n div 10 < 10 ^ (16 - (len + 1))"
    proof -
      have "16 - len = Suc (16 - (len + 1))" using \<open>len + 1 < 16\<close> by simp
      then have "n < 10 * 10 ^ (16 - (len + 1))" using 1(2) by (metis power_Suc)
      then show ?thesis by (simp add: div_less_iff_less_mult mult.commute)
    qed
    ultimately have "rev (rev_digits (len + 1) (n div 10)) = dec (n div 10)"
      using False by (intro 1(1)) auto
    moreover have "n div 10 \<noteq> 0" using False by (simp add: div_eq_0_iff)
    ultimately show ?thesis using False \<open>len + 1 < 16\<close> by (subst rev_digits.simps, subst dec.simps) simp
  qed
qed

lemma length_dec: "n < 10 ^ k \<Longrightarrow> 0 < k \<Longrightarrow> length (dec n) \<le> k"
proof (induction n arbitrary: k rule: dec.induct)
  case (1 n)
  show ?case
  proof (cases "n < 10")
    case False
    have k: "k = Suc (k - 1)" "0 < k - 1"
      using 1(2,3) False by (cases k; cases "k - 1"; simp)+
    then have "n < 10 * 10 ^ (k - 1)" using 1(2) by (metis power_Suc)
    then have "n div 10 < 10 ^ (k - 1)" by (simp add: div_less_iff_less_mult mult.commute)
    with 1(1) [OF False, of "k - 1"] k False show ?thesis by (subst dec.simps) simp
  qed (subst dec.simps, use 1(3) in simp)
qed

lemma append_number_text:
  assumes "\<bar>v\<bar> < 10 ^ 10" "w \<le> 4"
  shows "append_number st v (int w) = append_chars st (number_text v w)"
proof -
  let ?n = "nat \<bar>v\<bar>"
  have "?n < nat (10 ^ 10)" using assms(1) by linarith
  then have n: "?n < 10 ^ 10" by simp
  then have n16: "?n < 10 ^ (16 - 0)" by simp
  have rd: "rev (rev_digits 0 ?n) = dec ?n" by (rule rev_digits_dec [OF n16]) simp
  then have len: "length (rev_digits 0 ?n) = length (dec ?n)" by (metis length_rev)
  have l: "length (dec ?n) \<le> 10" using length_dec [OF n] by simp
  have pad: "min (nat (int w - int (length (dec ?n)))) 15 = w - length (dec ?n)"
    "min (nat (int w - int (length (dec ?n)))) 14 = w - length (dec ?n)"
    using assms(2) by linarith+
  have tk: "take (15 - (w - length (dec ?n))) (dec ?n) = dec ?n"
    "take (14 - (w - length (dec ?n))) (dec ?n) = dec ?n"
    using l assms(2) by (intro take_all; linarith)+
  show ?thesis
    using tk pad unfolding append_number_def Let_def rd len append_string_def number_text_def
    by (cases "v < 0") simp_all
qed

text \<open>A function appends a text: into a mapped space it stores all of it if a byte is left behind it, and
  otherwise fails, having stored a part that leaves a byte free.\<close>

definition appends_text :: "(out \<Rightarrow> (out \<times> bool) option) \<Rightarrow> string \<Rightarrow> bool" where
  "appends_text f x \<longleftrightarrow> (\<forall>m p r. 0 < r \<longrightarrow> mapped m p r \<longrightarrow>
     (if length x < r then f (m, p, r) = Some ((mem_put m p x, p + length x, r - length x), True)
      else \<exists>k. k < r \<and> f (m, p, r) = Some ((mem_put m p (take k x), p + k, r - k), False)))"

lemma appends_text_chars: "appends_text (\<lambda>st. append_chars st x) x"
  unfolding appends_text_def
proof (intro allI impI)
  fix m :: mem and p r assume r: "0 < r" "mapped m p r"
  show "if length x < r then append_chars (m, p, r) x = Some ((mem_put m p x, p + length x, r - length x), True)
    else \<exists>k. k < r \<and> append_chars (m, p, r) x = Some ((mem_put m p (take k x), p + k, r - k), False)"
  proof (cases "length x < r")
    case True
    then have "store_n m p x = Some (mem_put m p x)" using mapped_mono [OF r(2)] by (intro store_n_Some) simp
    with True show ?thesis by (simp add: append_chars_def)
  next
    case False
    then show ?thesis using r(1) by (auto simp: append_chars_def intro!: exI [of _ 0])
  qed
qed

lemma appends_text_then:
  assumes f: "appends_text f x" and g: "appends_text g y"
  shows "appends_text (\<lambda>st. and_then (f st) g) (x @ y)"
  unfolding appends_text_def
proof (intro allI impI)
  fix m :: mem and p r assume r: "0 < r" "mapped m p r"
  show "if length (x @ y) < r
    then and_then (f (m, p, r)) g = Some ((mem_put m p (x @ y), p + length (x @ y), r - length (x @ y)), True)
    else \<exists>k. k < r \<and> and_then (f (m, p, r)) g = Some ((mem_put m p (take k (x @ y)), p + k, r - k), False)"
  proof (cases "length x < r")
    case True
    let ?m = "mem_put m p x" and ?p = "p + length x" and ?r = "r - length x"
    have "mapped m p (length x + ?r)" using r(2) True by simp
    then have "mapped m ?p ?r" by (simp only: mapped_add)
    then have map: "mapped ?m ?p ?r" "0 < ?r" using True by simp_all
    have fx: "f (m, p, r) = Some ((?m, ?p, ?r), True)" using f r True by (simp add: appends_text_def)
    show ?thesis
    proof (cases "length y < ?r")
      case True
      then have "g (?m, ?p, ?r) = Some ((mem_put ?m ?p y, ?p + length y, ?r - length y), True)"
        using g map by (simp add: appends_text_def)
      moreover have "length (x @ y) < r" using True by simp
      ultimately show ?thesis using fx by (simp add: and_then_def mem_put_append add.assoc)
    next
      case False
      then obtain k where "k < ?r" "g (?m, ?p, ?r) = Some ((mem_put ?m ?p (take k y), ?p + k, ?r - k), False)"
        using g [unfolded appends_text_def, rule_format, OF map(2,1)] by auto
      moreover have "\<not> length (x @ y) < r" using False by simp
      ultimately show ?thesis using fx
        by (auto simp: and_then_def mem_put_append intro!: exI [of _ "length x + k"])
    qed
  next
    case False
    then obtain k where "k < r" "f (m, p, r) = Some ((mem_put m p (take k x), p + k, r - k), False)"
      using f [unfolded appends_text_def, rule_format, OF r] by auto
    then show ?thesis using False by (auto simp: and_then_def intro!: exI [of _ k])
  qed
qed

definition item_text :: "tm \<Rightarrow> char \<Rightarrow> string" where
  "item_text t c =
     (if c = CHR 0x25 then [CHR 0x25]
      else if c = CHR ''Y'' then number_text (tm_year t + 1900) 4
      else if c = CHR ''m'' then number_text (tm_mon t + 1) 2
      else if c = CHR ''d'' then number_text (tm_mday t) 2
      else if c = CHR ''H'' then number_text (tm_hour t) 2
      else if c = CHR ''M'' then number_text (tm_min t) 2
      else if c = CHR ''S'' then number_text (tm_sec t) 2
      else if c = CHR ''a'' then weekdays ! nat (tm_wday t)
      else if c = CHR ''A'' then weekdays_full ! nat (tm_wday t)
      else if c = CHR ''b'' \<or> c = CHR ''h'' then months ! nat (tm_mon t)
      else if c = CHR ''B'' then months_full ! nat (tm_mon t)
      else if c = CHR ''F'' then number_text (tm_year t + 1900) 4 @ ''-'' @ number_text (tm_mon t + 1) 2 @
        ''-'' @ number_text (tm_mday t) 2
      else if c = CHR ''T'' then number_text (tm_hour t) 2 @ '':'' @ number_text (tm_min t) 2 @
        '':'' @ number_text (tm_sec t) 2
      else [CHR 0x25, c])"

fun render :: "tm \<Rightarrow> string \<Rightarrow> string" where
  "render t [] = []"
| "render t [c] = [c]"
| "render t (c # d # fmt) =
     (if c \<noteq> CHR 0x25 then c # render t (d # fmt) else item_text t d @ render t fmt)"

text \<open>The number fields fit an \<open>int\<close>.\<close>

definition tm_small :: "tm \<Rightarrow> bool" where
  "tm_small t \<longleftrightarrow> (\<forall>v \<in> {tm_year t + 1900, tm_mon t + 1, tm_mday t, tm_hour t, tm_min t, tm_sec t}. \<bar>v\<bar> < 2 ^ 31)"

lemma strftime_item_text:
  assumes "tm_small t" shows "appends_text (strftime_item t c) (item_text t c)"
proof -
  have n: "\<bar>v\<bar> < 2 ^ 31 \<Longrightarrow> append_number st v 4 = append_chars st (number_text v 4)"
    "\<bar>v\<bar> < 2 ^ 31 \<Longrightarrow> append_number st v 2 = append_chars st (number_text v 2)" for st v
    using append_number_text [of v 4 st] append_number_text [of v 2 st] by simp_all
  have b: "\<bar>tm_year t + 1900\<bar> < 2 ^ 31" "\<bar>tm_mon t + 1\<bar> < 2 ^ 31" "\<bar>tm_mday t\<bar> < 2 ^ 31"
    "\<bar>tm_hour t\<bar> < 2 ^ 31" "\<bar>tm_min t\<bar> < 2 ^ 31" "\<bar>tm_sec t\<bar> < 2 ^ 31"
    using assms unfolding tm_small_def by blast+
  have two: "[CHR 0x25, c] = [CHR 0x25] @ [c]" by simp
  have if_text: "appends_text (\<lambda>st. if P then f st else g st) (if P then x else y)"
    if "appends_text f x" "appends_text g y" for P f g x y using that by simp
  show ?thesis
    unfolding strftime_item_def item_text_def append_string_def two
    by (simp only: n [OF b(1)] n [OF b(2)] n [OF b(3)] n [OF b(4)] n [OF b(5)] n [OF b(6)])
      (intro if_text appends_text_then appends_text_chars)
qed

lemma strftime_loop_text: "tm_small t \<Longrightarrow> appends_text (strftime_loop t fmt) (render t fmt)"
proof (induction t fmt rule: render.induct)
  case (1 t)
  then show ?case by (simp add: appends_text_def)
next
  case (2 t c)
  then show ?case using appends_text_chars [of "[c]"] by simp
next
  case (3 t c d fmt)
  show ?case
  proof (cases "c = CHR 0x25")
    case True
    with 3 show ?thesis using appends_text_then [OF strftime_item_text [OF 3(3), of d], of "strftime_loop t fmt"] by simp
  next
    case False
    with 3 show ?thesis using appends_text_then [OF appends_text_chars [of "[c]"], of "strftime_loop t (d # fmt)"] by simp
  qed
qed

lemma strftime_Some:
  assumes "mapped m s n" "s \<noteq> null" "tm_small t" "0 \<le> tm_wday t" "tm_wday t \<le> 6" "0 \<le> tm_mon t" "tm_mon t \<le> 11"
  shows "if length (render t fmt) < n
    then strftime m s n (Some fmt) (Some t) = Some (mem_put m s (render t fmt @ [NUL]), length (render t fmt))
    else \<exists>k. k \<le> n - 1 \<and> strftime m s n (Some fmt) (Some t) = Some (mem_put m s (take k (render t fmt)), 0)"
proof (cases "n = 0")
  case True
  then show ?thesis by (auto simp: strftime_def intro!: exI [of _ 0])
next
  case False
  note loop = strftime_loop_text [OF assms(3), of fmt, unfolded appends_text_def, rule_format, OF _ assms(1)]
  show ?thesis
  proof (cases "length (render t fmt) < n")
    case True
    have "mem_put m s (render t fmt) (s + length (render t fmt)) \<noteq> None"
      using assms(1) True by (simp add: mapped_iff)
    then show ?thesis using loop True False assms by (simp add: strftime_def mem_put_snoc)
  next
    case F: False
    then obtain k where "k < n" "strftime_loop t fmt (m, s, n) = Some ((mem_put m s (take k (render t fmt)), s + k, n - k), False)"
      using loop False by auto
    then show ?thesis using F False assms by (auto simp: strftime_def intro!: exI [of _ k])
  qed
qed

subsection \<open>Clocks and sleeping\<close>

text \<open>
  A \<open>struct timespec\<close> or \<open>timeval\<close> is a pair of seconds and nano- or microseconds. The result of a
  system call is a parameter; the wrappers are those of the Linux configuration.
\<close>

type_synonym timespec = "int \<times> int"

definition ENOTSUP :: int where "ENOTSUP = 95"
definition UTIME_NOW :: int where "UTIME_NOW = 1073741823"
definition UTIME_OMIT :: int where "UTIME_OMIT = 1073741822"
definition CLOCKS_PER_SEC :: int where "CLOCKS_PER_SEC = 1000000"
definition TIME_UTC :: int where "TIME_UTC = 1"

definition normalize_syscall_result :: "int \<Rightarrow> int outcome" where
  "normalize_syscall_result r =
     (if r < 0 \<and> r \<ge> -4095 then Fail (- r) else Done (sint (of_int r :: i32)))"

definition valid_timespec :: "timespec option \<Rightarrow> bool" where
  "valid_timespec ts = (case ts of None \<Rightarrow> False
     | Some (sec, nsec) \<Rightarrow> sec \<ge> 0 \<and> nsec \<ge> 0 \<and> nsec < 1000000000)"

definition timeval_pair :: "(timespec \<times> timespec) option \<Rightarrow> (timespec \<times> timespec) option outcome" where
  "timeval_pair tms = (case tms of None \<Rightarrow> Done None
     | Some ((s0, u0), (s1, u1)) \<Rightarrow>
        if u0 < 0 \<or> u0 \<ge> 1000000 \<or> u1 < 0 \<or> u1 \<ge> 1000000 then Fail EINVAL
        else Done (Some ((s0, u0 * 1000), (s1, u1 * 1000))))"

definition utimes :: "((timespec \<times> timespec) option \<Rightarrow> int) \<Rightarrow> bool \<Rightarrow> (timespec \<times> timespec) option \<Rightarrow> int outcome" where
  "utimes sys path_nonnull tms =
     (if \<not> path_nonnull then Fail EINVAL
      else case timeval_pair tms of Fault \<Rightarrow> Fault | Fail e \<Rightarrow> Fail e
        | Done ts \<Rightarrow> normalize_syscall_result (sys ts))"

definition futimes :: "((timespec \<times> timespec) option \<Rightarrow> int) \<Rightarrow> (timespec \<times> timespec) option \<Rightarrow> int outcome" where
  "futimes sys tms =
     (case timeval_pair tms of Fault \<Rightarrow> Fault | Fail e \<Rightarrow> Fail e
      | Done ts \<Rightarrow> normalize_syscall_result (sys ts))"

definition bad_nsec :: "int \<Rightarrow> bool" where
  "bad_nsec nsec \<longleftrightarrow> (nsec < 0 \<or> nsec \<ge> 1000000000) \<and> nsec \<noteq> UTIME_NOW \<and> nsec \<noteq> UTIME_OMIT"

definition utimensat :: "((timespec \<times> timespec) option \<Rightarrow> int) \<Rightarrow> bool \<Rightarrow> (timespec \<times> timespec) option \<Rightarrow> int outcome" where
  "utimensat sys path_nonnull tms =
     (if \<not> path_nonnull then Fail EINVAL
      else if (case tms of None \<Rightarrow> False | Some (a, _) \<Rightarrow> bad_nsec (snd a)) then Fail EINVAL
      else if (case tms of None \<Rightarrow> False | Some (_, b) \<Rightarrow> bad_nsec (snd b)) then Fail EINVAL
      else normalize_syscall_result (sys tms))"

text \<open>\<open>sys\<close> returns the result of the call and the time it stores.\<close>

definition clock_gettime :: "(int \<Rightarrow> int \<times> timespec) \<Rightarrow> int \<Rightarrow> bool \<Rightarrow> timespec outcome" where
  "clock_gettime sys clock_id tp_nonnull =
     (if \<not> tp_nonnull then Fail EINVAL
      else case normalize_syscall_result (fst (sys clock_id)) of
        Fault \<Rightarrow> Fault | Fail e \<Rightarrow> Fail e | Done _ \<Rightarrow> Done (snd (sys clock_id)))"

definition clock :: "timespec outcome \<Rightarrow> int" where
  "clock monotonic = (case monotonic of Done (sec, nsec) \<Rightarrow> sec * CLOCKS_PER_SEC + nsec sdiv 1000 | _ \<Rightarrow> -1)"

definition time_now :: "timespec outcome \<Rightarrow> int" where
  "time_now realtime = (case realtime of Done (sec, _) \<Rightarrow> sec | _ \<Rightarrow> -1)"

definition timespec_get :: "timespec outcome \<Rightarrow> bool \<Rightarrow> int \<Rightarrow> int \<times> timespec option" where
  "timespec_get realtime ts_nonnull base =
     (if base \<noteq> TIME_UTC \<or> \<not> ts_nonnull then (0, None)
      else case realtime of Done ts \<Rightarrow> (base, Some ts) | _ \<Rightarrow> (0, None))"

definition nanosleep :: "(timespec \<Rightarrow> int) \<Rightarrow> timespec option \<Rightarrow> int outcome" where
  "nanosleep sys req =
     (if \<not> valid_timespec req then Fail EINVAL else normalize_syscall_result (sys (the req)))"

text \<open>The macOS configuration sleeps for whole milliseconds, rounded up.\<close>

definition nanosleep_macos :: "(int \<Rightarrow> int) \<Rightarrow> timespec option \<Rightarrow> int outcome" where
  "nanosleep_macos sleep_ms req =
     (if \<not> valid_timespec req then Fail EINVAL
      else case the req of (sec, nsec) \<Rightarrow>
        if sec > (2 ^ 64 - 1) div 1000 then Fail EINVAL
        else let ms = uint (of_int sec * 1000 + (of_int nsec + 999999) div 1000000 :: u64)
          in if ms > 0x7fffffff then Fail EINVAL else normalize_syscall_result (sleep_ms ms))"

definition usleep :: "(timespec \<Rightarrow> int) \<Rightarrow> i32 \<Rightarrow> int outcome" where
  "usleep sys microseconds =
     nanosleep sys (Some (uint (microseconds div 1000000), uint (microseconds mod 1000000) * 1000))"

definition clock_nanosleep :: "(timespec \<Rightarrow> int) \<Rightarrow> int \<Rightarrow> timespec option \<Rightarrow> int" where
  "clock_nanosleep sys flags req =
     (if flags \<noteq> 0 then ENOTSUP else case nanosleep sys req of Fail e \<Rightarrow> e | _ \<Rightarrow> 0)"

lemma usleep_valid:
  "valid_timespec (Some (uint (us div 1000000), uint (us mod 1000000 :: i32) * 1000))"
proof -
  have "uint (us mod 1000000) = uint us mod 1000000" by (simp add: uint_mod_distrib)
  moreover have "uint us mod 1000000 < 1000000" "0 \<le> uint us mod 1000000" by simp_all
  ultimately show ?thesis unfolding valid_timespec_def by simp
qed

text \<open>The number of milliseconds is exact: never less than the requested time, and less than 1 ms more.\<close>

lemma macos_milliseconds:
  assumes "valid_timespec (Some (sec, nsec))"
  shows "uint (of_int sec * 1000 + (of_int nsec + 999999) div 1000000 :: u64) =
    (sec * 1000 + (nsec + 999999) div 1000000) mod 2 ^ 64"
proof -
  have b: "0 \<le> nsec" "nsec < 1000000000" using assms by (auto simp: valid_timespec_def)
  have "(of_int nsec + 999999 :: u64) = of_int (nsec + 999999)" by simp
  moreover have "uint (of_int (nsec + 999999) :: u64) = nsec + 999999"
    unfolding uint_word_of_int using b by simp
  ultimately have "uint ((of_int nsec + 999999) div 1000000 :: u64) = (nsec + 999999) div 1000000"
    by (simp add: uint_div_distrib)
  then have "((of_int nsec + 999999) div 1000000 :: u64) = of_int ((nsec + 999999) div 1000000)"
    by (metis word_of_int_uint)
  then have "(of_int sec * 1000 + (of_int nsec + 999999) div 1000000 :: u64) =
      of_int (sec * 1000 + (nsec + 999999) div 1000000)" by simp
  then show ?thesis by (simp only: uint_word_of_int) simp
qed

end
