(* ===== verification/CRT_Decimal.thy ===== *)
theory CRT_Decimal
  imports CRT_Strtol CRT_Time
begin

text \<open>
  Decimal texts: what \<^verbatim>\<open>append_number\<close> of \<^verbatim>\<open>libc/src/time.c\<close> writes, \<^verbatim>\<open>strtol\<close> of
  \<^verbatim>\<open>libc/src/strtol.c\<close> reads back.
\<close>

lemma strto_digit_dec: "d < 10 \<Longrightarrow> strto_digit (char_of (48 + d)) = Some (int d)"
proof -
  have "list_all (\<lambda>d. strto_digit (char_of (48 + d)) = Some (int d)) [0..<10]" by code_simp
  then show "d < 10 \<Longrightarrow> strto_digit (char_of (48 + d)) = Some (int d)" by (simp add: list_all_iff)
qed

definition decimal_char :: "char \<Rightarrow> bool" where
  "decimal_char c \<longleftrightarrow> (\<exists>d<10. c = char_of (48 + d :: nat))"

lemma decimal_charI [intro]: "d < 10 \<Longrightarrow> decimal_char (char_of (48 + d :: nat))"
  by (auto simp: decimal_char_def)

lemma decimal_zero [simp]: "decimal_char (CHR ''0'')"
  using decimal_charI [of 0] by (simp add: char_of_def bit_Suc_0_iff)

lemma decimal_cases:
  assumes "decimal_char c"
  shows "\<not> is_space_char c" "c \<noteq> CHR ''-''" "c \<noteq> CHR ''+''" "\<exists>d. strto_digit c = Some d \<and> d < 10"
proof -
  obtain d where d: "c = char_of (48 + d :: nat)" "d < 10" using assms by (auto simp: decimal_char_def)
  have "list_all (\<lambda>d. \<not> is_space_char (char_of (48 + d)) \<and> char_of (48 + d) \<noteq> CHR ''-'' \<and> char_of (48 + d) \<noteq> CHR ''+'') [0..<10]"
    by code_simp
  then show "\<not> is_space_char c" "c \<noteq> CHR ''-''" "c \<noteq> CHR ''+''" using d by (simp_all add: list_all_iff)
  show "\<exists>d. strto_digit c = Some d \<and> d < 10" using strto_digit_dec [OF d(2)] d by simp
qed

lemma decimal_dec: "list_all decimal_char (dec n) \<and> dec n \<noteq> []"
proof (induction n rule: dec.induct)
  case (1 n)
  then show ?case by (subst (1 2) dec.simps) (auto intro: decimal_charI)
qed

lemma decimal_padded: "list_all decimal_char (replicate k (CHR ''0'') @ dec n)"
  using decimal_dec [of n] by (auto simp: list_all_iff)

lemma scan_digits_append: "list_all decimal_char s \<Longrightarrow> scan_digits 10 (s @ t) = scan_digits 10 s @ scan_digits 10 t"
  by (induction s) (auto dest!: decimal_cases(4))

lemma length_scan_decimal: "list_all decimal_char s \<Longrightarrow> length (scan_digits 10 s) = length s"
  by (induction s) (auto dest!: decimal_cases(4))

lemma numeral_value_append: "numeral_value b (xs @ ys) = foldl (\<lambda>a d. a * b + d) (numeral_value b xs) ys"
  by (simp add: numeral_value_def)

text \<open>Leading zeros do not change the value.\<close>

lemma value_dec: "numeral_value 10 (scan_digits 10 (replicate k (CHR ''0'') @ dec n)) = int n"
proof (induction n rule: dec.induct)
  case (1 n)
  have k: "list_all decimal_char (replicate k (CHR ''0''))" by (simp add: list_all_iff)
  have z: "strto_digit (CHR ''0'') = Some 0" by code_simp
  have v0: "numeral_value 10 (scan_digits 10 (replicate k (CHR ''0''))) = 0"
    by (induction k) (simp_all add: z numeral_value_def)
  show ?case
  proof (cases "n < 10")
    case True
    then show ?thesis using k v0
      by (subst dec.simps) (simp add: scan_digits_append strto_digit_dec numeral_value_append)
  next
    case False
    let ?t = "replicate k (CHR ''0'') @ dec (n div 10)"
    have "numeral_value 10 (scan_digits 10 ?t) = int (n div 10)" using 1 False by simp
    moreover have "list_all decimal_char ?t" by (rule decimal_padded)
    moreover have "strto_digit (char_of (48 + n mod 10)) = Some (int (n mod 10))" by (rule strto_digit_dec) simp
    ultimately have "numeral_value 10 (scan_digits 10 (?t @ [char_of (48 + n mod 10)])) = int (n div 10) * 10 + int (n mod 10)"
      by (simp only: scan_digits_append numeral_value_append) simp
    then show ?thesis using False by (subst dec.simps) (simp add: zdiv_int zmod_int)
  qed
qed

lemma scan_number_text:
  "scan_number 10 (number_text v w) = \<lparr>negative = v < 0, base_of = 10, skipped = (if v < 0 then 1 else 0),
    digits = scan_digits 10 (replicate (w - length (dec (nat \<bar>v\<bar>))) (CHR ''0'') @ dec (nat \<bar>v\<bar>))\<rparr>"
proof -
  define t where "t = replicate (w - length (dec (nat \<bar>v\<bar>))) (CHR ''0'') @ dec (nat \<bar>v\<bar>)"
  have "list_all decimal_char t" "t \<noteq> []" using decimal_dec decimal_padded unfolding t_def by simp_all
  then obtain c u where t: "t = c # u" "decimal_char c" by (cases t) auto
  have m: "\<not> is_space_char (CHR ''-'')" by code_simp
  show ?thesis unfolding number_text_def t_def [symmetric] scan_number_def
    using t(1) decimal_cases(1-3) [OF t(2)] m by (simp add: scan_sign_def scan_base_def)
qed

lemma strtol_number_text:
  assumes "\<bar>v\<bar> < 2 ^ 63" and "cstr m p (number_text v w)"
  shows "strtol TYPE(64) m p 10 err = Some (v, err, p + length (number_text v w))"
proof -
  let ?ds = "replicate (w - length (dec (nat \<bar>v\<bar>))) (CHR ''0'') @ dec (nat \<bar>v\<bar>)"
  have d: "list_all decimal_char ?ds" by (rule decimal_padded)
  have n: "scan_digits 10 ?ds \<noteq> []" using length_scan_decimal [OF d] decimal_dec by auto
  have b: "- (2 ^ 63) \<le> v" "v \<le> 2 ^ 63 - 1" using assms(1) by simp_all
  have val: "scan_value (scan_number 10 (number_text v w)) = v"
    by (simp add: scan_number_text scan_value_def value_dec Let_def)
  have e: "scan_end p (scan_number 10 (number_text v w)) = p + length (number_text v w)"
    unfolding scan_number_text scan_end_def using n length_scan_decimal [OF d] by (simp add: number_text_def)
  have ba: "base_of (scan_number 10 (number_text v w)) = 10" by (simp add: scan_number_text)
  show ?thesis
    using strtol_Some [OF assms(2) _ refl, where 'l = 64, of 10 err] b unfolding val e ba
    by (simp add: LONG_MAX_def LONG_MIN_def)
qed

end
