(* ===== verification/CRT_Fprintf.thy ===== *)
theory CRT_Fprintf
  imports CRT_Lines CRT_Snprintf CRT_Decimal
begin

text \<open>
  What the functions of \<^verbatim>\<open>libc/src/printf.c\<close> do with the text of a call: \<^verbatim>\<open>vasprintf\<close> and
  \<^verbatim>\<open>vfprintf\<close> print the text that \<^verbatim>\<open>vsnprintf\<close> prints, and the decimal texts of \<open>%ld\<close> are those
  that \<^verbatim>\<open>strtol\<close> reads.
\<close>

subsection \<open>Blocks and streams\<close>

lemma load_shown: "length t < n \<Longrightarrow> load_n (shown n t) 0 (length t) = Some t"
  unfolding shown_def mem_of_def using bytes_at_mem_put [of Map.empty 0 "t @ [NUL]"]
  by (intro load_n_Some) (simp_all add: bytes_at_append)

lemma shown_all: "length t < n \<Longrightarrow> shown n t = mem_of 0 (t @ [NUL])"
  by (simp add: shown_def)

lemma prints_vsnprintf:
  assumes "prints env fmt args t d r" "dom d \<subseteq> dom m"
  shows "vsnprintf env n fmt args m = Some (shown n t, m ++ d, r)"
    "vsnprintf env n fmt args (m ++ d) = Some (shown n t, m ++ d, r)"
proof -
  have "dom d \<subseteq> dom (m ++ d)" by simp
  moreover have "(m ++ d) ++ d = m ++ d" by (auto simp: map_add_def fun_eq_iff split: option.split)
  ultimately show "vsnprintf env n fmt args m = Some (shown n t, m ++ d, r)"
    "vsnprintf env n fmt args (m ++ d) = Some (shown n t, m ++ d, r)"
    using assms by (simp_all add: prints_def)
qed

lemma vasprintf_prints:
  assumes "prints env fmt args t d r" "dom d \<subseteq> dom m" "0 \<le> r" "length t < 2 ^ 31"
    and "sys_malloc h w (length t + 1) = (w', Some (p, b))" "strp \<noteq> 0"
  shows "vasprintf env h w strp fmt args m = Some (w', Some (p, mem_of 0 (t @ [NUL])), m ++ d, int (length t))"
proof -
  have r: "r = int (length t)" using assms(1,3,4) by (auto simp: prints_def)
  show ?thesis
    using assms(5,6) by (simp add: vasprintf_def prints_vsnprintf [OF assms(1,2)] r shown_all)
qed

text \<open>The result of a call whose text is longer than an \<open>int\<close> can count may still be positive; the
  stream then gets as many bytes as the result says.\<close>

lemma int_of_size_le: "0 \<le> int_of_size n \<Longrightarrow> nat (int_of_size n) \<le> n"
proof -
  assume "0 \<le> int_of_size n"
  then have "int_of_size n = uint (word_of_nat n :: i32)"
    using sint_lt [of "word_of_nat n :: i32"] by (simp add: int_of_size_def uint_sint take_bit_int_eq_self)
  also have "\<dots> = int (n mod 2 ^ 32)" by (simp add: unsigned_of_nat take_bit_nat_def)
  also have "\<dots> \<le> int n" by simp
  finally show ?thesis by simp
qed

lemma load_shown_part: "k \<le> length t \<Longrightarrow> k < n \<Longrightarrow> load_n (shown n t) 0 k = Some (take k t)"
  unfolding shown_def mem_of_def
  by (intro load_n_Some) (auto simp: bytes_at_iff mem_put_def nth_append)

lemma putc_written:
  assumes "a_pos a \<le> length (a_data a)" "b = fold (\<lambda>c a. fst (a_putc c a)) s a"
  shows "a_pos b = a_pos a + length s \<and> a_pos b \<le> length (a_data b) \<and> a_written b = a_written a @ s"
  using assms
proof (induction s arbitrary: a)
  case (Cons c s)
  let ?a = "fst (a_putc c a)"
  have "a_pos ?a = Suc (a_pos a)" "a_pos ?a \<le> length (a_data ?a)" "a_written ?a = a_written a @ [c]"
    using Cons.prems(1) by (simp_all add: a_putc_def a_written_def put_at_def)
  then show ?case using Cons.IH [of ?a] Cons.prems(2) by simp
qed simp

lemma putc_at_end:
  "a_pos a = length (a_data a) \<Longrightarrow> a_pos (fold (\<lambda>c a. fst (a_putc c a)) s a) = length (a_data (fold (\<lambda>c a. fst (a_putc c a)) s a))"
  by (induction s arbitrary: a) (simp_all add: a_putc_def put_at_def)

lemma fwrite_bytes_sim:
  assumes "regular_file h fd view" "sim fd view f a" "ck_writable f" "snd fd \<longrightarrow> a_pos a = length (a_data a)"
    and "length s \<le> SIZE_MAX"
  shows "\<exists>f'. fwrite_unlocked_impl h s 1 (length s) f = (f', length s) \<and>
    sim fd view f' (fold (\<lambda>c a. fst (a_putc c a)) s a) \<and> same_stream f f'"
  using put_loop_sim [OF assms(1-4), of s] assms(2,5) by (cases "s = []") (auto simp: fwrite_unlocked_impl_def)

text \<open>The stream gets the text as if it were put into it byte by byte.\<close>

lemma vfprintf_sim:
  assumes p: "prints env fmt args t d r" "dom d \<subseteq> dom m" "0 \<le> r"
    and f: "regular_file h fd view" "sim fd view f a" "ck_writable f" "snd fd \<longrightarrow> a_pos a = length (a_data a)"
  shows "\<exists>f'. vfprintf env h f fmt args m = Some (f', m ++ d, r) \<and>
    sim fd view f' (fold (\<lambda>c a. fst (a_putc c a)) (take (nat r) t) a) \<and> same_stream f f'"
proof -
  let ?s = "take (nat r) t"
  have le: "nat r \<le> length t" using p(1,3) int_of_size_le [of "length t"] by (auto simp: prints_def)
  have "r < 2 ^ 31" using p(1) sint_lt [of "word_of_nat (length t) :: i32"] by (auto simp: prints_def int_of_size_def)
  then have size: "length ?s \<le> SIZE_MAX" using le by (simp add: SIZE_MAX_def)
  have len: "length ?s = nat r" using le by simp
  show ?thesis
  proof (cases "r < 1024")
    case True
    moreover have "nat r < 1024" using True by simp
    ultimately show ?thesis using p(3) le fwrite_bytes_sim [OF f size]
      by (auto simp: vfprintf_def prints_vsnprintf [OF p(1,2)] load_shown_part len)
  next
    case False
    obtain w a' b where w: "sys_malloc h (fp_os f) (nat r + 1) = (w, Some (a', b))" "view w = view (fp_os f)"
      by (rule regular_malloc [OF f(1), where n = "nat r + 1" and w = "fp_os f"])
    have "sim fd view (f\<lparr>fp_os := w\<rparr>) a" "ck_writable (f\<lparr>fp_os := w\<rparr>)" using f(2,3) w(2) by (simp_all add: sim_os)
    from fwrite_bytes_sim [OF f(1) this f(4) size] obtain f' where
      "fwrite_unlocked_impl h ?s 1 (nat r) (f\<lparr>fp_os := w\<rparr>) = (f', nat r)"
      "sim fd view f' (fold (\<lambda>c a. fst (a_putc c a)) ?s a)" "same_stream f f'"
      unfolding len by (auto simp: same_stream_def)
    with False w(1) p(3) le show ?thesis
      by (simp add: vfprintf_def prints_vsnprintf [OF p(1,2)] load_shown_part)
  qed
qed

lemma vfprintf_file:
  assumes p: "prints env fmt args t d r" "dom d \<subseteq> dom m" "0 \<le> r"
    and f: "file_sink h fd view n f"
  shows "\<exists>f'. vfprintf env h f fmt args m = Some (f', m ++ d, r) \<and>
    a_written (file_of view f') = a_written (file_of view f) @ take (nat r) t \<and> file_sink h fd view n f'"
proof -
  let ?b = "fold (\<lambda>c a. fst (a_putc c a)) (take (nat r) t) (file_of view f)"
  have f': "regular_file h fd view" "sim fd view f (file_of view f)" "ck_writable f"
    "snd fd \<longrightarrow> a_pos (file_of view f) = length (a_data (file_of view f))"
    "a_pos (file_of view f) \<le> length (a_data (file_of view f))" using f by (simp_all add: file_sink_def)
  obtain f' where "vfprintf env h f fmt args m = Some (f', m ++ d, r)" "sim fd view f' ?b" "same_stream f f'"
    using vfprintf_sim [OF p f'(1-4)] by blast
  moreover from this have "file_of view f' = ?b" using sim_file_of by metis
  moreover have "a_pos ?b \<le> length (a_data ?b)" "a_written ?b = a_written (file_of view f) @ take (nat r) t"
    using putc_written [OF f'(5) refl] by blast+
  moreover have "snd fd \<longrightarrow> a_pos ?b = length (a_data ?b)" using f'(4) putc_at_end by blast
  ultimately show ?thesis using f'(1,3) by (simp add: file_sink_def same_stream_def)
qed

subsection \<open>Decimal numbers\<close>

lemma convert_loop_dec: "0 < n \<Longrightarrow> rev (convert_loop (digit_table up) n 10) = dec n"
proof (induction n rule: dec.induct)
  case (1 n)
  have table: "digit_table up ! k = char_of (48 + k)" if "k < 10" for k
  proof -
    have "list_all (\<lambda>k. digit_table True ! k = char_of (48 + k)) [0..<10]"
      "list_all (\<lambda>k. digit_table False ! k = char_of (48 + k)) [0..<10]" by code_simp+
    then show ?thesis using that by (cases up) (simp_all add: list_all_iff)
  qed
  show ?case
  proof (cases "n < 10")
    case True
    then show ?thesis using 1(2) table [of n]
      by (subst convert_loop.simps, subst dec.simps) (simp add: convert_loop.simps)
  next
    case False
    then have "rev (convert_loop (digit_table up) (n div 10) 10) = dec (n div 10)" using 1(1) by simp
    moreover have "digit_table up ! (n mod 10) = char_of (48 + n mod 10)" by (rule table) simp
    ultimately show ?thesis using False 1(2) by (subst convert_loop.simps, subst dec.simps) simp
  qed
qed

lemma convert_unsigned_dec: "convert_unsigned n 10 up = dec n"
proof (cases "n = 0")
  case True
  have "dec 0 = [char_of (48 :: nat)]" by (subst dec.simps) simp
  then show ?thesis using True by (simp add: convert_unsigned_def char_of_def bit_Suc_0_iff)
qed (simp add: convert_unsigned_def convert_loop_dec)

text \<open>The call \<open>snprintf(s, n, "%.*ld", k, v)\<close>.\<close>

definition long_format :: string where "long_format = ''%.*ld''"

definition long_args :: "nat \<Rightarrow> int \<Rightarrow> 'd printf_arg list" where
  "long_args k v = [ArgInt (word_of_nat k), ArgLong (word_of_int v)]"

lemma parse_long:
  assumes "k < 2 ^ 31"
  shows "parse_spec ''.*ld'' (long_args k v) = Some (''d'', [ArgLong (word_of_int v)],
    empty_spec\<lparr>precision_set := True, precision := int k, short_count := 0, long_count := 1\<rparr>)"
proof -
  have "sint (word_of_nat k :: i32) = int k"
    using int_of_size [of k] assms by (simp add: int_of_size_def)
  then have v: "va_int (long_args k v) = Some (int k, [ArgLong (word_of_int v)])"
    by (simp add: va_int_def long_args_def)
  have n: "\<not> is_digit (CHR ''.'')" by code_simp
  show ?thesis
    by (simp add: parse_spec_def parse_width_def parse_precision_def parse_length_def starts_with_def
        parse_decimal_def n v empty_spec_def)
qed

lemma wrapped_pad: "0 \<le> x \<Longrightarrow> x \<le> 2 ^ 31 \<Longrightarrow> wrap_int x < 0 \<Longrightarrow> nat (wrap_int (- wrap_int x)) = 0"
proof -
  assume x: "0 \<le> x" "x \<le> 2 ^ 31" "wrap_int x < 0"
  have "\<not> x < 2 ^ 31"
  proof
    assume "x < 2 ^ 31"
    then have "wrap_int x = x" using x(1) by (intro wrap_int) simp_all
    then show False using x(1,3) by simp
  qed
  then have "x = 2 ^ 31" using x(2) by simp
  moreover have "nat (wrap_int (- wrap_int (2 ^ 31))) = 0" by (simp add: wrap_int_def)
  ultimately show ?thesis by simp
qed

text \<open>Without a width the digits get a prefix and as many zeros as the precision asks for.\<close>

lemma formatted_number:
  assumes "width spec = 0" "\<not> left spec" "int_of_size (length ds) = int (length ds)" "length prefix \<le> 1"
    and "precision_set spec \<longrightarrow> 0 < precision spec \<and> precision spec < 2 ^ 31" "length ds < 2 ^ 31 - 1"
  shows "formatted_text spec prefix ds z =
    prefix @ replicate ((if precision_set spec then nat (precision spec) else 0) - length ds) (CHR ''0'') @ ds"
proof -
  have prefix: "int_of_size (length prefix) = int (length prefix)" using assms(4) by (intro int_of_size) simp
  define zeros where "zeros = (if precision_set spec \<and> precision spec > int (length ds) then precision spec - int (length ds) else 0)"
  have z: "(if precision_set spec \<and> precision spec > int (length ds) then wrap_int (precision spec - int (length ds)) else 0) = zeros"
    using assms(5) by (auto simp: zeros_def intro!: wrap_int)
  have digits: "(if z \<and> precision_set spec \<and> precision spec = 0 then [] else ds) = ds" using assms(5) by auto
  have "0 \<le> int (length prefix) + zeros + int (length ds)" "int (length prefix) + zeros + int (length ds) \<le> 2 ^ 31"
    using assms(4-6) by (auto simp: zeros_def)
  from wrapped_pad [OF this] have pad: "(if wrap_int (int (length prefix) + zeros + int (length ds)) < 0
      then nat (wrap_int (0 - wrap_int (int (length prefix) + zeros + int (length ds)))) else 0) = 0" by simp
  have "nat zeros = (if precision_set spec then nat (precision spec) else 0) - length ds"
    by (auto simp: zeros_def)
  then show ?thesis
    unfolding formatted_text_def Let_def assms(1,3) digits z prefix pad using assms(2) by simp
qed

lemma vsnprintf_long:
  assumes "0 < k" "k < 2 ^ 31" "- (2 ^ 63) \<le> v" "v < 2 ^ 63"
  shows "vsnprintf_loop env long_format (long_args k v) (b, m) = Some (buffer_write b (number_text v k), m)"
proof -
  define spec where "spec = empty_spec\<lparr>precision_set := True, precision := int k, short_count := 0, long_count := 1\<rparr>"
  have v: "sint (word_of_int v :: u64) = v"
    using assms(3,4) by (simp add: signed_of_int signed_take_bit_int_eq_self)
  have mag: "(if v < 0 then nat (- (v + 1)) + 1 else nat v) = nat \<bar>v\<bar>" by auto
  have "convert_spec env (CHR ''d'') spec [ArgLong (word_of_int v)] (b, m) =
      map_option (\<lambda>b. ((b, m), [])) (format_integer (localeconv env) b spec (nat \<bar>v\<bar>) True (v < 0) 10 False)"
    by (simp add: convert_spec_def va_signed_def wide_integer_def spec_def v mag [symmetric] Let_def)
  moreover have "nat \<bar>v\<bar> < 10 ^ 20" using assms(3,4) by simp
  then have len: "length (dec (nat \<bar>v\<bar>)) < 2 ^ 31 - 1" using length_dec [of "nat \<bar>v\<bar>" 20] by simp
  then have "length (dec (nat \<bar>v\<bar>)) < 2 ^ 31" by simp
  then have size: "int_of_size (length (dec (nat \<bar>v\<bar>))) = int (length (dec (nat \<bar>v\<bar>)))" by (rule int_of_size)
  then have "integer_text (localeconv env) spec (nat \<bar>v\<bar>) True (v < 0) 10 False = Some (number_text v k)"
    using assms(1,2) len by (simp add: formatted_number integer_text_def convert_unsigned_dec printf_grouping_enabled_def
        spec_def empty_spec_def number_text_def integer_prefix_def Let_def)
  ultimately show ?thesis
    by (simp add: long_format_def starts_with_def parse_long [OF assms(2)] spec_def format_integer_text)
qed

lemma prints_long:
  assumes "0 < k" "k < 2 ^ 31" "- (2 ^ 63) \<le> v" "v < 2 ^ 63"
  shows "prints env long_format (long_args k v) (number_text v k) Map.empty (int_of_size (length (number_text v k)))"
proof -
  have "\<not> is_digit (CHR ''.'')" "\<not> is_digit (CHR ''l'')" by code_simp+
  then have "\<not> printf_has_positional_args long_format"
    by (simp add: long_format_def starts_with_def indexed_def flag_char_def)
  then have "vsnprintf env n long_format (long_args k v) m =
      Some (shown n (number_text v k), m, int_of_size (length (number_text v k)))" for n m
    by (simp add: vsnprintf_def vsnprintf_long [OF assms] put_terminator_text shown_def buffer_length_write)
      (simp add: new_buffer_def)
  then show ?thesis by (simp add: prints_def)
qed

text \<open>A buffer at \<open>p\<close> that got the whole text holds it as a string.\<close>

lemma shown_cstr:
  assumes "length t < n" "NUL \<notin> set t" "\<And>i c. shown n t i = Some c \<Longrightarrow> m (p + i) = Some c"
  shows "cstr m p t"
proof -
  have "m (p + i) = Some ((t @ [NUL]) ! i)" if "i < length (t @ [NUL])" for i
    using that assms(3) [of i] by (simp add: shown_all [OF assms(1)] mem_of_def mem_put_def)
  then have "bytes_at m p (t @ [NUL])" by (simp add: bytes_at_iff)
  then show ?thesis using assms(2) by (simp add: cstr_def)
qed

lemma number_text_NUL: "NUL \<notin> set (number_text v k)"
proof -
  have z: "\<not> decimal_char NUL"
  proof
    assume "decimal_char NUL"
    then obtain d :: nat where "d < 10" "NUL = char_of (48 + d)" by (auto simp: decimal_char_def)
    then have "of_char NUL = (48 + d) mod 256" using of_char_of [of "48 + d"] by metis
    then show False using \<open>d < 10\<close> by simp
  qed
  have "list_all decimal_char (replicate i (CHR ''0'') @ dec n)" for i n by (rule decimal_padded)
  then have "NUL \<notin> set (replicate i (CHR ''0'') @ dec n)" for i n using z by (auto simp: list_all_iff)
  then show ?thesis by (simp add: number_text_def)
qed

end
