(* ===== verification/CRT_Fnmatch.thy ===== *)
theory CRT_Fnmatch
  imports CRT_Ctype
begin

text \<open>
  Pattern matching, \<^verbatim>\<open>libc/src/fnmatch.c\<close>. The pointers into the pattern are the rest of the
  pattern, the end of the string being the empty list; a pointer into the string is the rest of the
  string with the character before it, \<^term>\<open>None\<close> where the pointer is the argument \<^verbatim>\<open>string\<close> of
  the current call.

  The specification splits the pattern into items and says which strings a list of items matches.
\<close>

record fnm_flags =
  FNM_NOESCAPE :: bool
  FNM_PATHNAME :: bool
  FNM_PERIOD :: bool
  FNM_LEADING_DIR :: bool
  FNM_CASEFOLD :: bool

definition fold_char :: "char \<Rightarrow> fnm_flags \<Rightarrow> int" where
  "fold_char ch flags = (if FNM_CASEFOLD flags then sint (tolower (uch32 ch)) else uchar ch)"

definition unescape :: "fnm_flags \<Rightarrow> string \<Rightarrow> string" where
  "unescape flags p = (if hd p = CHR 0x5C \<and> \<not> FNM_NOESCAPE flags \<and> tl p \<noteq> [] then tl p else p)"

text \<open>Whether the pattern goes on with a hyphen and the end of a range.\<close>

definition range_next :: "string \<Rightarrow> bool" where
  "range_next p \<longleftrightarrow> (case p of _ # c # d # _ \<Rightarrow> c = CHR ''-'' \<and> d \<noteq> CHR '']'' | _ \<Rightarrow> False)"

lemma unescape_shorter: "length (unescape flags p) \<le> length p" "p \<noteq> [] \<Longrightarrow> unescape flags p \<noteq> []"
  by (auto simp: unescape_def)

lemma range_next_length: "range_next p \<Longrightarrow> 3 \<le> length p"
  by (auto simp: range_next_def split: list.splits)

text \<open>A member of a bracket expression: the ends of its range and the rest of the pattern.\<close>

definition bracket_item :: "fnm_flags \<Rightarrow> string \<Rightarrow> int \<times> int \<times> string" where
  "bracket_item flags p =
     (let p = unescape flags p;
          start = fold_char (hd p) flags
      in if range_next p then
           let p = unescape flags (drop 2 p) in (start, fold_char (hd p) flags, tl p)
         else (start, start, tl p))"

lemma bracket_item_shorter: "p \<noteq> [] \<Longrightarrow> bracket_item flags p = (start, stop, p') \<Longrightarrow> length p' < length p"
proof -
  assume p: "p \<noteq> []" and item: "bracket_item flags p = (start, stop, p')"
  define q where "q = unescape flags p"
  have q: "length q \<le> length p" "q \<noteq> []" using unescape_shorter(1) [of flags p] unescape_shorter(2) [OF p] by (simp_all add: q_def)
  show ?thesis
  proof (cases "range_next q")
    case True
    then have "length (unescape flags (drop 2 q)) < length q"
      using unescape_shorter(1) [of flags "drop 2 q"] range_next_length [OF True] by simp
    with True item q show ?thesis by (auto simp: bracket_item_def Let_def simp flip: q_def)
  next
    case False
    with item q show ?thesis by (cases q) (auto simp: bracket_item_def Let_def simp flip: q_def)
  qed
qed

text \<open>The rest of the pattern behind the members and whether one of them matched.\<close>

function bracket_loop :: "fnm_flags \<Rightarrow> string \<Rightarrow> int \<Rightarrow> bool \<Rightarrow> bool \<Rightarrow> string \<times> bool" where
  "bracket_loop flags p ch first matched =
     (if p \<noteq> [] \<and> (hd p \<noteq> CHR '']'' \<or> first) then
        case bracket_item flags p of (start, stop, p') \<Rightarrow>
          bracket_loop flags p' ch False (if start \<le> ch \<and> ch \<le> stop then True else matched)
      else (p, matched))"
  by pat_completeness auto
termination
  by (relation "measure (\<lambda>(flags, p, _). length p)") (auto dest: bracket_item_shorter [OF _ sym])

declare bracket_loop.simps [simp del]

text \<open>The pattern behind the bracket and the result, or \<^term>\<open>None\<close> for -1.\<close>

definition match_bracket :: "string \<Rightarrow> char \<Rightarrow> fnm_flags \<Rightarrow> (string \<times> bool) option" where
  "match_bracket pattern ch flags =
     (let negate = (pattern \<noteq> [] \<and> (hd pattern = CHR ''!'' \<or> hd pattern = CHR ''^''));
          p = (if negate then tl pattern else pattern);
          (p, matched) = bracket_loop flags p (fold_char ch flags) True False
      in if p = [] then None else Some (tl p, if negate then \<not> matched else matched))"

lemma bracket_loop_shorter: "length (fst (bracket_loop flags p ch first matched)) \<le> length p"
proof (induction "length p" arbitrary: p first matched rule: less_induct)
  case less
  show ?case
  proof (cases "p \<noteq> [] \<and> (hd p \<noteq> CHR '']'' \<or> first)")
    case True
    obtain start stop p' where item: "bracket_item flags p = (start, stop, p')" by (metis prod_cases3)
    have "length p' < length p" using True bracket_item_shorter [OF _ item] by blast
    from less [OF this, of False "if start \<le> ch \<and> ch \<le> stop then True else matched"] this True item
    show ?thesis by (subst bracket_loop.simps) simp
  next
    case False
    then show ?thesis by (subst bracket_loop.simps) (simp only: if_False fst_conv order_refl)
  qed
qed

lemma match_bracket_shorter: "match_bracket p ch flags = Some (p', b) \<Longrightarrow> length p' \<le> length p"
proof -
  have "length (fst (bracket_loop flags (tl p) c True False)) \<le> length p"
    "length (fst (bracket_loop flags p c True False)) \<le> length p" for c
    using bracket_loop_shorter [of flags "tl p" c True False] bracket_loop_shorter [of flags p c True False] by simp_all
  then show "match_bracket p ch flags = Some (p', b) \<Longrightarrow> length p' \<le> length p"
    by (auto simp: match_bracket_def Let_def split: prod.splits if_splits) (metis fst_conv le_diff_conv trans_le_add1)+
qed

text \<open>A leading period, which has to be matched by a period where \<open>FNM_PERIOD\<close> is given.\<close>

definition leading_period :: "fnm_flags \<Rightarrow> char option \<Rightarrow> string \<Rightarrow> bool" where
  "leading_period flags prev s \<longleftrightarrow> FNM_PERIOD flags \<and> s \<noteq> [] \<and> hd s = CHR ''.'' \<and>
     (prev = None \<or> FNM_PATHNAME flags \<and> prev = Some (CHR ''/''))"

lemma dropWhile_le: "length (dropWhile P xs) \<le> length xs"
  by (rule length_dropWhile_le)

lemma unescape_tl_shorter: "length (unescape flags (c # p)) - Suc 0 \<le> length p"
  by (auto simp: unescape_def)

text \<open>\<open>match_here\<close> gives whether the result is 0; \<open>star_loop\<close> is its loop over the string.\<close>

function (sequential) match_here :: "fnm_flags \<Rightarrow> string \<Rightarrow> char option \<Rightarrow> string \<Rightarrow> bool"
  and star_loop :: "fnm_flags \<Rightarrow> string \<Rightarrow> string \<Rightarrow> bool" where
  "match_here flags [] prev s = (s = [] \<or> FNM_LEADING_DIR flags \<and> hd s = CHR ''/'')"
| "match_here flags (c # p) prev s =
     (if c = CHR ''*'' then
        let p = dropWhile (\<lambda>c. c = CHR ''*'') p in
        if leading_period flags prev s then False
        else if p = [] then \<not> (FNM_PATHNAME flags \<and> CHR ''/'' \<in> set s)
        else star_loop flags p s
      else if s = [] then False
      else if FNM_PATHNAME flags \<and> hd s = CHR ''/'' \<and> c \<noteq> CHR ''/'' then False
      else if leading_period flags prev s \<and> c \<noteq> CHR ''.'' then False
      else if c = CHR ''?'' then match_here flags p (Some (hd s)) (tl s)
      else if c = CHR ''['' then
        (case match_bracket p (hd s) flags of
           None \<Rightarrow> False
         | Some (p, bracket) \<Rightarrow> if \<not> bracket then False else match_here flags p (Some (hd s)) (tl s))
      else
        let p' = unescape flags (c # p) in
        if fold_char (hd p') flags \<noteq> fold_char (hd s) flags then False
        else match_here flags (tl p') (Some (hd s)) (tl s))"
| "star_loop flags p [] = match_here flags p None []"
| "star_loop flags p (c # s) =
     (if FNM_PATHNAME flags \<and> c = CHR ''/'' then match_here flags p None (c # s)
      else if match_here flags p None (c # s) then True
      else star_loop flags p s)"
  by pat_completeness auto

termination
  by (relation "measures [case_sum (\<lambda>(_, p, _). length p) (\<lambda>(_, p, _). length p),
      case_sum (\<lambda>(_, p, _, s). length s) (\<lambda>(_, p, s). length s), case_sum (\<lambda>_. 0) (\<lambda>_. 1)]")
    (auto simp: less_Suc_eq_le dropWhile_le unescape_tl_shorter dest: match_bracket_shorter)

text \<open>The result of \<open>fnmatch\<close>: 0 or \<open>FNM_NOMATCH\<close>.\<close>

definition FNM_NOMATCH :: int where "FNM_NOMATCH = 1"

definition fnmatch :: "string option \<Rightarrow> string option \<Rightarrow> fnm_flags \<Rightarrow> int" where
  "fnmatch pattern s flags = (case (pattern, s) of
     (Some p, Some s) \<Rightarrow> if match_here flags p None s then 0 else FNM_NOMATCH
   | _ \<Rightarrow> FNM_NOMATCH)"

subsection \<open>What a pattern means\<close>

text \<open>The items of a pattern. A literal carries whether a backslash stands before it: where
  \<open>FNM_PATHNAME\<close> is given, the code lets only a plain slash match a slash. An unterminated bracket
  expression matches nothing.\<close>

datatype fnm_item = Star | Any | Literal bool char | Bracket "char \<Rightarrow> bool" | Never

lemma bracket_loop_rest: "fst (bracket_loop flags p ch first m) = fst (bracket_loop flags p ch' first m')"
proof (induction "length p" arbitrary: p first m m' rule: less_induct)
  case less
  show ?case
  proof (cases "p \<noteq> [] \<and> (hd p \<noteq> CHR '']'' \<or> first)")
    case True
    obtain start stop p' where item: "bracket_item flags p = (start, stop, p')" by (metis prod_cases3)
    have "length p' < length p" using True bracket_item_shorter [OF _ item] by blast
    note IH = less [OF this, of False]
    have "bracket_loop flags p k first m = bracket_loop flags p' k False (if start \<le> k \<and> k \<le> stop then True else m)"
      for k m using True item by (subst bracket_loop.simps) simp
    then show ?thesis by (simp only: IH)
  next
    case False
    then show ?thesis by (subst (1 2) bracket_loop.simps) (simp only: if_False fst_conv)
  qed
qed

text \<open>Where a bracket expression ends does not depend on the character.\<close>

lemma match_bracket_rest: "map_option fst (match_bracket p x flags) = map_option fst (match_bracket p y flags)"
proof -
  define q where "q = (if p \<noteq> [] \<and> (hd p = CHR ''!'' \<or> hd p = CHR ''^'') then tl p else p)"
  have "fst (bracket_loop flags q (fold_char x flags) True False) = fst (bracket_loop flags q (fold_char y flags) True False)"
    by (rule bracket_loop_rest)
  then show ?thesis
    unfolding match_bracket_def Let_def q_def [symmetric] by (auto split: prod.splits)
qed

definition bracket_set :: "fnm_flags \<Rightarrow> string \<Rightarrow> char \<Rightarrow> bool" where
  "bracket_set flags p x \<longleftrightarrow> (case match_bracket p x flags of None \<Rightarrow> False | Some (_, b) \<Rightarrow> b)"

function (sequential) items :: "fnm_flags \<Rightarrow> string \<Rightarrow> fnm_item list" where
  "items flags [] = []"
| "items flags (c # p) =
     (if c = CHR ''*'' then Star # items flags (dropWhile (\<lambda>c. c = CHR ''*'') p)
      else if c = CHR ''?'' then Any # items flags p
      else if c = CHR ''['' then
        (case match_bracket p NUL flags of None \<Rightarrow> [Never]
         | Some (p', _) \<Rightarrow> Bracket (bracket_set flags p) # items flags p')
      else Literal (unescape flags (c # p) \<noteq> c # p) (hd (unescape flags (c # p))) # items flags (tl (unescape flags (c # p))))"
  by pat_completeness auto
termination
  by (relation "measure (\<lambda>(flags, p). length p)")
    (auto simp: less_Suc_eq_le dropWhile_le unescape_tl_shorter dest: match_bracket_shorter)

definition item_matches :: "fnm_flags \<Rightarrow> fnm_item \<Rightarrow> char \<Rightarrow> bool" where
  "item_matches flags i x \<longleftrightarrow>
     (FNM_PATHNAME flags \<and> x = CHR ''/'' \<longrightarrow> i = Literal False (CHR ''/'')) \<and>
     (case i of Any \<Rightarrow> True | Literal _ a \<Rightarrow> fold_char a flags = fold_char x flags | Bracket P \<Rightarrow> P x | _ \<Rightarrow> False)"

primrec matches :: "fnm_flags \<Rightarrow> fnm_item list \<Rightarrow> string \<Rightarrow> bool" where
  "matches flags [] s \<longleftrightarrow> s = [] \<or> FNM_LEADING_DIR flags \<and> hd s = CHR ''/''"
| "matches flags (i # is) s \<longleftrightarrow>
     (if i = Star
      then \<exists>u v. s = u @ v \<and> (FNM_PATHNAME flags \<longrightarrow> CHR ''/'' \<notin> set u) \<and> matches flags is v
      else s \<noteq> [] \<and> item_matches flags i (hd s) \<and> matches flags is (tl s))"

lemma fold_char_plain: "hd (unescape flags (c # p)) = (if unescape flags (c # p) = c # p then c else hd p)"
  by (auto simp: unescape_def)

lemma match_here_items:
  assumes "\<not> FNM_PERIOD flags" "\<not> (FNM_PATHNAME flags \<and> FNM_LEADING_DIR flags)"
  shows "match_here flags p prev s = matches flags (items flags p) s"
    and "p \<noteq> [] \<Longrightarrow> star_loop flags p s = (\<exists>u v. s = u @ v \<and> (FNM_PATHNAME flags \<longrightarrow> CHR ''/'' \<notin> set u) \<and>
      matches flags (items flags p) v)"
  using assms
proof (induction flags p prev s and flags p s rule: match_here_star_loop.induct)
  case (1 flags prev s)
  then show ?case by simp
next
  case (2 flags c p prev s)
  have np: "\<not> leading_period flags prev s" using 2(5) by (simp add: leading_period_def)
  show ?case
  proof (cases "c = CHR ''*''")
    case True
    define p' where "p' = dropWhile (\<lambda>c. c = CHR ''*'') p"
    have it: "items flags (c # p) = Star # items flags p'" by (simp add: True p'_def)
    have mh: "match_here flags (c # p) prev s =
        (if p' = [] then \<not> (FNM_PATHNAME flags \<and> CHR ''/'' \<in> set s) else star_loop flags p' s)"
      using np by (simp only: match_here.simps True p'_def Let_def simp_thms if_True if_False)
    show ?thesis
    proof (cases "p' = []")
      case Nil: True
      have "(\<not> (FNM_PATHNAME flags \<and> CHR ''/'' \<in> set s)) = matches flags [Star] s"
        using 2(6) by auto
      then show ?thesis unfolding it mh Nil by simp
    next
      case False
      have "star_loop flags p' s = matches flags (Star # items flags p') s"
        using 2(1) [OF True p'_def np False] False 2(5,6) by simp
      with False show ?thesis unfolding it mh by simp
    qed
  next
    case c: False
    show ?thesis
    proof (cases "s = [] \<or> FNM_PATHNAME flags \<and> hd s = CHR ''/'' \<and> c \<noteq> CHR ''/''")
      case True
      have "\<not> matches flags (items flags (c # p)) s"
        using True c by (auto simp: item_matches_def unescape_def split: option.split)
      with True c show ?thesis by auto
    next
      case False
      then have s: "s \<noteq> []" "\<not> (FNM_PATHNAME flags \<and> hd s = CHR ''/'' \<and> c \<noteq> CHR ''/'')"
        "FNM_PATHNAME flags \<and> hd s = CHR ''/'' \<Longrightarrow> c = CHR ''/''" by auto
      consider "c = CHR ''?''" | "c = CHR ''[''" | "c \<noteq> CHR ''?''" "c \<noteq> CHR ''[''" by blast
      then show ?thesis
      proof cases
        case 1
        have "match_here flags p (Some (hd s)) (tl s) = matches flags (items flags p) (tl s)"
          using 2(2) [OF c s(1,2)] np 1 2(5,6) by blast
        with 1 s np show ?thesis by (auto simp: item_matches_def)
      next
        case br: 2
        show ?thesis
        proof (cases "match_bracket p (hd s) flags")
          case None
          then have "match_bracket p NUL flags = None"
            using match_bracket_rest [of p NUL flags "hd s"] by simp
          with None br s np show ?thesis by (simp add: item_matches_def)
        next
          case (Some x)
          obtain p' b where x: "x = (p', b)" by (cases x)
          obtain b' where nul: "match_bracket p NUL flags = Some (p', b')"
            using match_bracket_rest [of p NUL flags "hd s"] Some x by auto
          have "b \<Longrightarrow> match_here flags p' (Some (hd s)) (tl s) = matches flags (items flags p') (tl s)"
            using 2(3) [OF c s(1,2) _ _ br Some x [symmetric]] np br 2(5,6) by simp
          with br s np Some x nul show ?thesis by (auto simp: item_matches_def bracket_set_def)
        qed
      next
        case 3
        define q where "q = unescape flags (c # p)"
        have "fold_char (hd q) flags = fold_char (hd s) flags \<Longrightarrow>
            match_here flags (tl q) (Some (hd s)) (tl s) = matches flags (items flags (tl q)) (tl s)"
          using 2(4) [OF c s(1,2) _ 3 q_def] np 2(5,6) by blast
        moreover have "c = CHR ''/'' \<Longrightarrow> q = c # p" by (auto simp: q_def unescape_def)
        ultimately show ?thesis using 3 c s np by (auto simp: item_matches_def simp flip: q_def)
      qed
    qed
  qed
next
  case (3 flags p)
  then show ?case by simp
next
  case (4 flags p c s)
  have eq: "(\<exists>u v. c # s = u @ v \<and> P u \<and> Q v) \<longleftrightarrow> P [] \<and> Q (c # s) \<or> (\<exists>u v. s = u @ v \<and> P (c # u) \<and> Q v)" for P Q
    by (auto simp: Cons_eq_append_conv)
  show ?case
  proof (cases "FNM_PATHNAME flags \<and> c = CHR ''/''")
    case True
    with 4 show ?thesis by (subst eq) simp
  next
    case False
    with 4 show ?thesis by (subst eq) auto
  qed
qed

end
