(* ===== verification/CRT_Getopt.thy ===== *)
theory CRT_Getopt
  imports CRT_Prelude "HOL-Library.Multiset"
begin

text \<open>
  Option parsing, \<^verbatim>\<open>libc/src/getopt.c\<close>: \<^verbatim>\<open>getopt\<close>, \<^verbatim>\<open>getopt_long\<close> and
  \<^verbatim>\<open>getopt_long_only\<close>. The state has the global variables, the rest of the word that a group of
  short options is read from (\<^term>\<open>None\<close> for the null pointer), the words of the command line, the
  variable behind \<open>longindex\<close> and those behind the \<open>flag\<close> pointers of the long options. The table of
  long options has no terminating entry here and is \<^term>\<open>None\<close> for a null pointer. The messages on
  \<open>stderr\<close> are not modelled.
\<close>

record long_option =
  lo_name :: string
  lo_has_arg :: int
  lo_flag :: "addr option"
  lo_val :: int

definition no_argument :: int where "no_argument = 0"
definition required_argument :: int where "required_argument = 1"

record getopt_state =
  optarg :: "string option"
  optind :: int
  optopt :: int
  getopt_next :: "string option"
  argv :: "string list"
  longindex :: int
  option_flags :: "addr \<rightharpoonup> int"

abbreviation argc :: "getopt_state \<Rightarrow> int" where "argc st \<equiv> int (length (argv st))"
abbreviation arg_at :: "getopt_state \<Rightarrow> int \<Rightarrow> string" where "arg_at st i \<equiv> argv st ! nat i"

definition starts_char :: "char \<Rightarrow> string \<Rightarrow> bool" where
  "starts_char c s \<longleftrightarrow> s \<noteq> [] \<and> hd s = c"

definition short_options_start :: "string \<Rightarrow> string" where
  "short_options_start optstring = dropWhile (\<lambda>c. c = CHR ''+'' \<or> c = CHR ''-'' \<or> c = CHR '':'') optstring"

text \<open>The rest of the option string from the option's letter on.\<close>

primrec find_letter :: "int \<Rightarrow> string \<Rightarrow> string option" where
  "find_letter opt [] = None"
| "find_letter opt (c # p) =
     (if c = CHR '':'' then find_letter opt p
      else if uchar c = opt then Some (c # p) else find_letter opt p)"

definition find_short_option :: "int \<Rightarrow> string \<Rightarrow> string option" where
  "find_short_option opt optstring = find_letter opt (short_options_start optstring)"

text \<open>The result of the two functions that print a message.\<close>

definition option_error :: int where "option_error = uchar (CHR ''?'')"

text \<open>The entry that a name of \<open>name_len\<close> characters stands for, or -1, and whether it is ambiguous.\<close>

fun match_long_loop :: "long_option list \<Rightarrow> string \<Rightarrow> int \<Rightarrow> int \<Rightarrow> bool \<Rightarrow> int \<times> bool" where
  "match_long_loop [] name i found ambiguous = (if ambiguous then -1 else found, ambiguous)"
| "match_long_loop (o1 # os) name i found ambiguous =
     (if take (length name) (lo_name o1) = name then
        if length (lo_name o1) = length name then (i, False)
        else match_long_loop os name (i + 1) i (if found \<ge> 0 then True else ambiguous)
      else match_long_loop os name (i + 1) found ambiguous)"

definition match_long_option :: "long_option list option \<Rightarrow> string \<Rightarrow> int \<times> bool" where
  "match_long_option longopts name = (case longopts of None \<Rightarrow> (-1, False)
     | Some os \<Rightarrow> match_long_loop os name 0 (-1) False)"

text \<open>A long option's word without the hyphens: its name and the value behind an equals sign.\<close>

definition option_name :: "string \<Rightarrow> string" where
  "option_name w = takeWhile (\<lambda>c. c \<noteq> CHR ''='') w"

definition option_value :: "string \<Rightarrow> string option" where
  "option_value w = (case dropWhile (\<lambda>c. c \<noteq> CHR ''='') w of [] \<Rightarrow> None | _ # v \<Rightarrow> Some v)"

definition finish_long_option :: "long_option \<Rightarrow> getopt_state \<Rightarrow> getopt_state \<times> int" where
  "finish_long_option opt st =
     (let st = st\<lparr>optind := optind st + 1, getopt_next := None\<rparr> in
      case lo_flag opt of
        Some p \<Rightarrow> (st\<lparr>option_flags := (option_flags st)(p \<mapsto> lo_val opt)\<rparr>, 0)
      | None \<Rightarrow> (st, lo_val opt))"

definition parse_long_option :: "string \<Rightarrow> long_option list option \<Rightarrow> bool \<Rightarrow> string \<Rightarrow> getopt_state \<Rightarrow>
    getopt_state \<times> int" where
  "parse_long_option optstring longopts has_index name st =
     (case match_long_option longopts (option_name name) of (index, ambiguous) \<Rightarrow>
        if ambiguous then (st\<lparr>optind := optind st + 1\<rparr>, option_error)
        else if index < 0 then (st\<lparr>optind := optind st + 1\<rparr>, option_error)
        else
          let opt = the longopts ! nat index;
              st = (if has_index then st\<lparr>longindex := index\<rparr> else st);
              st = st\<lparr>optarg := None\<rparr>
          in case option_value name of
               Some v \<Rightarrow>
                 if lo_has_arg opt = no_argument then (st\<lparr>optind := optind st + 1\<rparr>, option_error)
                 else finish_long_option opt (st\<lparr>optarg := Some v\<rparr>)
             | None \<Rightarrow>
                 if lo_has_arg opt = required_argument then
                   if optind st + 1 \<ge> argc st then
                     (st\<lparr>optind := optind st + 1, optopt := lo_val opt\<rparr>,
                      if starts_char (CHR '':'') optstring then uchar (CHR '':'') else option_error)
                   else finish_long_option opt
                     (st\<lparr>optind := optind st + 1, optarg := Some (arg_at st (optind st + 1))\<rparr>)
                 else finish_long_option opt st)"

definition should_try_long_only :: "string \<Rightarrow> string \<Rightarrow> long_option list option \<Rightarrow> bool" where
  "should_try_long_only arg optstring longopts \<longleftrightarrow>
     longopts \<noteq> None \<and> starts_char (CHR ''-'') arg \<and> \<not> starts_char (CHR ''-'') (tl arg) \<and> tl arg \<noteq> [] \<and>
     \<not> (find_short_option (uchar (hd (tl arg))) optstring \<noteq> None \<and> tl (tl arg) = []) \<and>
     (case match_long_option longopts (option_name (tl arg)) of (index, ambiguous) \<Rightarrow> index \<ge> 0 \<and> \<not> ambiguous)"

definition long_option_requires_separate_arg :: "string \<Rightarrow> long_option list option \<Rightarrow> bool" where
  "long_option_requires_separate_arg name longopts \<longleftrightarrow> option_value name = None \<and>
     (case match_long_option longopts (option_name name) of (index, ambiguous) \<Rightarrow>
        index \<ge> 0 \<and> \<not> ambiguous \<and> lo_has_arg (the longopts ! nat index) = required_argument)"

definition short_option_requires_separate_arg :: "string \<Rightarrow> string \<Rightarrow> bool" where
  "short_option_requires_separate_arg arg optstring \<longleftrightarrow>
     starts_char (CHR ''-'') arg \<and> \<not> starts_char (CHR ''-'') (tl arg) \<and> tl arg \<noteq> [] \<and>
     (case find_short_option (uchar (hd (tl arg))) optstring of
        None \<Rightarrow> False
      | Some p \<Rightarrow> starts_char (CHR '':'') (tl p) \<and> \<not> starts_char (CHR '':'') (tl (tl p)) \<and> tl (tl arg) = [])"

definition option_group_length :: "getopt_state \<Rightarrow> int \<Rightarrow> string \<Rightarrow> long_option list option \<Rightarrow> bool \<Rightarrow> nat" where
  "option_group_length st index optstring longopts long_only =
     (let arg = arg_at st index in
      if arg = ''--'' then 1
      else if starts_char (CHR ''-'') arg \<and> starts_char (CHR ''-'') (tl arg) \<and> longopts \<noteq> None then
        if long_option_requires_separate_arg (tl (tl arg)) longopts \<and> index + 1 < argc st then 2 else 1
      else if long_only \<and> should_try_long_only arg optstring longopts then
        if long_option_requires_separate_arg (tl arg) longopts \<and> index + 1 < argc st then 2 else 1
      else if short_option_requires_separate_arg arg optstring \<and> index + 1 < argc st then 2 else 1)"

text \<open>A word that is an operand: it has no hyphen in front or is a hyphen.\<close>

definition operand :: "string \<Rightarrow> bool" where
  "operand arg \<longleftrightarrow> \<not> starts_char (CHR ''-'') arg \<or> tl arg = []"

text \<open>The next group of words that is an option moves in front of the operands.\<close>

definition move_group :: "nat \<Rightarrow> nat \<Rightarrow> nat \<Rightarrow> string list \<Rightarrow> string list" where
  "move_group start scan n ws =
     take start ws @ take n (drop scan ws) @ take (scan - start) (drop start ws) @ drop (scan + n) ws"

function permute_scan :: "string \<Rightarrow> long_option list option \<Rightarrow> bool \<Rightarrow> int \<Rightarrow> getopt_state \<Rightarrow> getopt_state \<times> bool" where
  "permute_scan optstring longopts long_only scan st =
     (if scan < argc st then
        let arg = arg_at st scan in
        if operand arg then permute_scan optstring longopts long_only (scan + 1) st
        else if arg = ''--'' \<or> starts_char (CHR ''-'') (tl arg) \<or> long_only \<or>
            find_short_option (uchar (hd (tl arg))) optstring \<noteq> None
        then (st\<lparr>argv := move_group (nat (optind st)) (nat scan)
                  (option_group_length st scan optstring longopts long_only) (argv st)\<rparr>, True)
        else permute_scan optstring longopts long_only (scan + 1) st
      else (st, False))"
  by pat_completeness auto
termination by (relation "measure (\<lambda>(_, _, _, scan, st). nat (argc st - scan))") auto

declare permute_scan.simps [simp del]

definition permute_next_option :: "string \<Rightarrow> long_option list option \<Rightarrow> bool \<Rightarrow> getopt_state \<Rightarrow> getopt_state \<times> bool" where
  "permute_next_option optstring longopts long_only st =
     (if starts_char (CHR ''+'') optstring then (st, False)
      else permute_scan optstring longopts long_only (optind st + 1) st)"

text \<open>The next short option of the current word.\<close>

definition short_step :: "string \<Rightarrow> getopt_state \<Rightarrow> getopt_state \<times> int" where
  "short_step optstring st =
     (let opt = uchar (hd (the (getopt_next st)));
          rest = tl (the (getopt_next st));
          st = st\<lparr>getopt_next := Some rest\<rparr>;
          next_word = st\<lparr>optind := optind st + 1, getopt_next := None\<rparr>
      in case find_short_option opt optstring of
           None \<Rightarrow> ((if rest = [] then next_word else st)\<lparr>optopt := opt\<rparr>, option_error)
         | Some p \<Rightarrow>
             if starts_char (CHR '':'') (tl p) then
               if rest \<noteq> [] then (next_word\<lparr>optarg := Some rest\<rparr>, opt)
               else if starts_char (CHR '':'') (tl (tl p)) then (next_word\<lparr>optarg := None\<rparr>, opt)
               else if optind st + 1 < argc st then
                 (st\<lparr>optarg := Some (arg_at st (optind st + 1)), optind := optind st + 2, getopt_next := None\<rparr>, opt)
               else (next_word\<lparr>optopt := opt\<rparr>,
                     if starts_char (CHR '':'') optstring then uchar (CHR '':'') else option_error)
             else if rest = [] then (next_word, opt) else (st, opt))"

definition getopt_internal :: "string option \<Rightarrow> long_option list option \<Rightarrow> bool \<Rightarrow> bool \<Rightarrow> getopt_state \<Rightarrow>
    getopt_state \<times> int" where
  "getopt_internal optstring longopts has_index long_only st =
     (let st = (if optind st \<le> 0 then st\<lparr>optind := 1, getopt_next := None\<rparr> else st);
          st = st\<lparr>optarg := None\<rparr>;
          optstring = (case optstring of None \<Rightarrow> [] | Some s \<Rightarrow> s)
      in if getopt_next st = None \<or> getopt_next st = Some [] then
           if optind st \<ge> argc st then (st, -1)
           else
             let (st, found) = (if operand (arg_at st (optind st))
                                then permute_next_option optstring longopts long_only st else (st, True))
             in if \<not> found then (st, -1)
                else
                  let arg = arg_at st (optind st) in
                  if arg = ''--'' then (st\<lparr>optind := optind st + 1\<rparr>, -1)
                  else if starts_char (CHR ''-'') (tl arg) \<and> longopts \<noteq> None
                  then parse_long_option optstring longopts has_index (tl (tl arg)) st
                  else if long_only \<and> should_try_long_only arg optstring longopts
                  then parse_long_option optstring longopts has_index (tl arg) st
                  else short_step optstring (st\<lparr>getopt_next := Some (tl arg)\<rparr>)
         else short_step optstring st)"

definition getopt :: "string option \<Rightarrow> getopt_state \<Rightarrow> getopt_state \<times> int" where
  "getopt optstring st = getopt_internal optstring None False False st"

definition getopt_long :: "string option \<Rightarrow> long_option list option \<Rightarrow> bool \<Rightarrow> getopt_state \<Rightarrow> getopt_state \<times> int" where
  "getopt_long optstring longopts has_index st = getopt_internal optstring longopts has_index False st"

definition getopt_long_only :: "string option \<Rightarrow> long_option list option \<Rightarrow> bool \<Rightarrow> getopt_state \<Rightarrow> getopt_state \<times> int" where
  "getopt_long_only optstring longopts has_index st = getopt_internal optstring longopts has_index True st"

subsection \<open>Command lines\<close>

text \<open>A command line is a list of options, with or without an argument, and operands in any order.
  \<open>item_ok\<close> says that the option string declares an option as it is used. An argument is attached
  to the letter or the next word.\<close>

datatype cmd_item = Flag char | Attached char string | Separate char string | Operand string

primrec item_words :: "cmd_item \<Rightarrow> string list" where
  "item_words (Flag c) = [[CHR ''-'', c]]"
| "item_words (Attached c v) = [CHR ''-'' # c # v]"
| "item_words (Separate c v) = [[CHR ''-'', c], v]"
| "item_words (Operand w) = [w]"

definition declared :: "string \<Rightarrow> char \<Rightarrow> bool \<Rightarrow> bool \<Rightarrow> bool" where
  "declared optstring c colon two \<longleftrightarrow> c \<noteq> CHR ''-'' \<and> (case find_short_option (uchar c) optstring of
     None \<Rightarrow> False
   | Some p \<Rightarrow> starts_char (CHR '':'') (tl p) = colon \<and> (colon \<longrightarrow> starts_char (CHR '':'') (tl (tl p)) = two))"

primrec item_ok :: "string \<Rightarrow> cmd_item \<Rightarrow> bool" where
  "item_ok optstring (Flag c) \<longleftrightarrow> declared optstring c False False \<or> declared optstring c True True"
| "item_ok optstring (Attached c v) \<longleftrightarrow> v \<noteq> [] \<and> (declared optstring c True False \<or> declared optstring c True True)"
| "item_ok optstring (Separate c v) \<longleftrightarrow> declared optstring c True False"
| "item_ok optstring (Operand w) \<longleftrightarrow> operand w"

primrec is_operand :: "cmd_item \<Rightarrow> bool" where
  "is_operand (Flag c) = False"
| "is_operand (Attached c v) = False"
| "is_operand (Separate c v) = False"
| "is_operand (Operand w) = True"

primrec item_result :: "cmd_item \<Rightarrow> int \<times> string option" where
  "item_result (Flag c) = (uchar c, None)"
| "item_result (Attached c v) = (uchar c, Some v)"
| "item_result (Separate c v) = (uchar c, Some v)"
| "item_result (Operand w) = (-1, None)"

lemma starts_char_simps [simp]: "\<not> starts_char c []" "starts_char c (d # s) \<longleftrightarrow> d = c"
  by (auto simp: starts_char_def)

lemma declaredE:
  assumes "declared optstring c colon two"
  obtains p where "find_short_option (uchar c) optstring = Some p" "c \<noteq> CHR ''-''"
    "starts_char (CHR '':'') (tl p) = colon" "colon \<Longrightarrow> starts_char (CHR '':'') (tl (tl p)) = two"
  using assms by (auto simp: declared_def split: option.splits)

text \<open>The first word of an option and the step that reads it.\<close>

lemma option_word:
  assumes "item_ok optstring i" "\<not> is_operand i"
  obtains c u ws where "item_words i = (CHR ''-'' # c # u) # ws" "c \<noteq> CHR ''-''"
    "find_short_option (uchar c) optstring \<noteq> None"
    "short_option_requires_separate_arg (CHR ''-'' # c # u) optstring \<longleftrightarrow> ws \<noteq> []" "length ws \<le> 1"
proof (cases i)
  case (Flag c)
  with assms show ?thesis
    by (intro that [of c "[]" "[]"]) (auto simp: short_option_requires_separate_arg_def elim!: declaredE)
next
  case (Attached c v)
  with assms show ?thesis
    by (intro that [of c v "[]"]) (auto simp: short_option_requires_separate_arg_def elim!: declaredE)
next
  case (Separate c v)
  with assms show ?thesis
    by (intro that [of c "[]" "[v]"]) (auto simp: short_option_requires_separate_arg_def elim!: declaredE)
qed (use assms in simp)

lemma arg_at_append [simp]: "n = int (length pre) \<Longrightarrow> (pre @ w # rest) ! nat n = w"
  by simp

lemma short_step_item:
  assumes "item_ok optstring i" "\<not> is_operand i" "item_words i = (CHR ''-'' # w) # ws"
    and "argv st = pre @ item_words i @ rest" "optind st = int (length pre)" "optarg st = None"
  shows "\<exists>st'. short_step optstring (st\<lparr>getopt_next := Some w\<rparr>) = (st', fst (item_result i)) \<and>
    optarg st' = snd (item_result i) \<and> argv st' = argv st \<and> optind st' = int (length (pre @ item_words i)) \<and>
    getopt_next st' = None"
proof (cases i)
  case (Flag c)
  with assms show ?thesis by (auto simp: short_step_def Let_def elim!: declaredE)
next
  case (Attached c v)
  with assms show ?thesis by (auto simp: short_step_def Let_def elim!: declaredE)
next
  case (Separate c v)
  then have ws: "ws = [v]" "w = [c]" and argv: "argv st = pre @ [CHR ''-'', c] # v # rest" and ok: "declared optstring c True False"
    using assms by auto
  have nth: "argv st ! nat (int (length pre) + 1) = v" by (simp add: argv nth_append nat_add_distrib)
  from ok obtain p where "find_short_option (uchar c) optstring = Some p"
    "starts_char (CHR '':'') (tl p)" "\<not> starts_char (CHR '':'') (tl (tl p))" by (auto elim!: declaredE)
  then show ?thesis using nth by (simp add: Separate ws short_step_def Let_def assms(5) argv)
qed (use assms in simp)

lemma permute_scan_skip:
  "argv st = xs @ ops @ ys \<Longrightarrow> scan = int (length xs) \<Longrightarrow> \<forall>w\<in>set ops. operand w \<Longrightarrow>
   permute_scan optstring longopts long_only scan st =
   permute_scan optstring longopts long_only (scan + int (length ops)) st"
proof (induction ops arbitrary: xs scan)
  case (Cons w ops)
  have "permute_scan optstring longopts long_only scan st = permute_scan optstring longopts long_only (scan + 1) st"
    using Cons.prems by (subst permute_scan.simps) simp
  also have "\<dots> = permute_scan optstring longopts long_only (scan + 1 + int (length ops)) st"
    using Cons.prems by (intro Cons.IH [of "xs @ [w]"]) auto
  finally show ?case by (simp add: algebra_simps)
qed simp

lemma move_group_eq:
  "move_group (length pre) (length pre + length ops) (length ws) (pre @ ops @ ws @ rest) = pre @ ws @ ops @ rest"
  by (simp add: move_group_def)

lemma operand_simps [simp]: "operand []" "operand (c # s) \<longleftrightarrow> c \<noteq> CHR ''-'' \<or> s = []"
  by (auto simp: operand_def)

text \<open>The words of a group are found behind the operands and moved in front of them.\<close>

lemma permute_scan_group:
  assumes "argv st = pre @ ops @ (CHR ''-'' # c # u) # ws @ rest" "optind st = int (length pre)"
    and "ops = [] \<longrightarrow> scan = int (length pre)" "ops \<noteq> [] \<longrightarrow> scan = int (length pre) + 1"
    and "\<forall>w\<in>set ops. operand w" "c = CHR ''-'' \<and> u = [] \<or> find_short_option (uchar c) optstring \<noteq> None"
    and "option_group_length st (int (length pre + length ops)) optstring None False = Suc (length ws)"
  shows "permute_scan optstring None False scan st =
    (st\<lparr>argv := pre @ ((CHR ''-'' # c # u) # ws) @ ops @ rest\<rparr>, True)"
proof -
  let ?n = "int (length pre + length ops)"
  have scan: "permute_scan optstring None False scan st = permute_scan optstring None False ?n st"
  proof (cases ops)
    case (Cons o1 os)
    then show ?thesis
      using permute_scan_skip [of st "pre @ [o1]" os _ scan optstring None False] assms by (simp add: algebra_simps)
  qed (use assms in simp)
  have "move_group (nat (optind st)) (nat ?n) (Suc (length ws)) (argv st) = pre @ ((CHR ''-'' # c # u) # ws) @ ops @ rest"
    using move_group_eq [of pre ops "(CHR ''-'' # c # u) # ws" rest] assms by (simp del: of_nat_add)
  moreover have "arg_at st ?n = CHR ''-'' # c # u" "?n < argc st"
    using assms(1) by (simp_all add: nth_append del: of_nat_add)
  ultimately show ?thesis unfolding scan using assms(6,7) by (subst permute_scan.simps) (auto simp: Let_def)
qed

text \<open>One call: the operands in front of the option's words end up behind them.\<close>

lemma getopt_group:
  assumes "argv st = pre @ ops @ (CHR ''-'' # c # u) # ws @ rest" "optind st = int (length pre)" "pre \<noteq> []"
    and "getopt_next st = None" "\<not> starts_char (CHR ''+'') optstring" "\<forall>w\<in>set ops. operand w"
    and "c = CHR ''-'' \<and> u = [] \<or> find_short_option (uchar c) optstring \<noteq> None"
    and "option_group_length st (int (length pre + length ops)) optstring None False = Suc (length ws)"
  shows "getopt (Some optstring) st =
    (let st = st\<lparr>optarg := None, argv := pre @ ((CHR ''-'' # c # u) # ws) @ ops @ rest\<rparr> in
     if c = CHR ''-'' \<and> u = [] then (st\<lparr>optind := optind st + 1\<rparr>, -1)
     else short_step optstring (st\<lparr>getopt_next := Some (c # u)\<rparr>))"
proof (cases ops)
  case Nil
  have "arg_at st (optind st) = CHR ''-'' # c # u" using assms(1,2) Nil by simp
  then have "getopt (Some optstring) st =
    (if c = CHR ''-'' \<and> u = [] then (st\<lparr>optarg := None, optind := optind st + 1\<rparr>, -1)
     else short_step optstring (st\<lparr>optarg := None, getopt_next := Some (c # u)\<rparr>))"
    using assms by (auto simp: getopt_def getopt_internal_def Let_def)
  moreover have "st\<lparr>optarg := None, argv := pre @ ((CHR ''-'' # c # u) # ws) @ ops @ rest\<rparr> = st\<lparr>optarg := None\<rparr>"
    using assms(1) Nil by (cases st) simp
  ultimately show ?thesis unfolding Let_def by (simp only: getopt_state.select_convs) simp
next
  case (Cons o1 os)
  let ?st = "st\<lparr>optarg := None\<rparr>"
  have group: "option_group_length ?st (int (length pre + length ops)) optstring None False = Suc (length ws)"
    using assms(8) by (simp add: option_group_length_def Let_def cong: if_cong)
  have "permute_scan optstring None False (optind st + 1) ?st =
      (?st\<lparr>argv := pre @ ((CHR ''-'' # c # u) # ws) @ ops @ rest\<rparr>, True)"
    by (rule permute_scan_group) (use assms(1,2,6,7) group Cons in auto)
  moreover have "arg_at ?st (optind st) = o1" "operand o1" using assms(1,2,6) Cons by simp_all
  ultimately show ?thesis using assms
    by (auto simp: getopt_def getopt_internal_def Let_def permute_next_option_def)
qed

lemma getopt_item:
  assumes "item_ok optstring i" "\<not> is_operand i" "argv st = pre @ ops @ item_words i @ rest"
    and "optind st = int (length pre)" "pre \<noteq> []" "getopt_next st = None"
    and "\<not> starts_char (CHR ''+'') optstring" "\<forall>w\<in>set ops. operand w"
  shows "\<exists>st'. getopt (Some optstring) st = (st', fst (item_result i)) \<and> optarg st' = snd (item_result i) \<and>
    argv st' = pre @ item_words i @ ops @ rest \<and> optind st' = int (length (pre @ item_words i)) \<and>
    getopt_next st' = None"
proof -
  obtain c u ws where w: "item_words i = (CHR ''-'' # c # u) # ws" "c \<noteq> CHR ''-''"
    "find_short_option (uchar c) optstring \<noteq> None"
    "short_option_requires_separate_arg (CHR ''-'' # c # u) optstring \<longleftrightarrow> ws \<noteq> []" "length ws \<le> 1"
    using option_word [OF assms(1,2)] .
  have "option_group_length st (int (length pre + length ops)) optstring None False = Suc (length ws)"
    using w(2,4,5) assms(3) by (cases ws) (auto simp: option_group_length_def nth_append w(1) Let_def simp del: of_nat_add)
  then have "getopt (Some optstring) st =
    short_step optstring (st\<lparr>optarg := None, argv := pre @ item_words i @ ops @ rest, getopt_next := Some (c # u)\<rparr>)"
    using getopt_group [of st pre ops c u ws rest optstring] assms w by (auto simp: Let_def)
  then show ?thesis
    using short_step_item [OF assms(1,2) w(1), of "st\<lparr>optarg := None, argv := pre @ item_words i @ ops @ rest\<rparr>" pre "ops @ rest"]
      assms(4) by simp
qed

text \<open>The end of the options: no words are left but operands, or a word of two hyphens.\<close>

lemma getopt_end:
  assumes "argv st = pre @ ops" "optind st = int (length pre)" "pre \<noteq> []" "getopt_next st = None"
    and "\<not> starts_char (CHR ''+'') optstring" "\<forall>w\<in>set ops. operand w"
  shows "getopt (Some optstring) st = (st\<lparr>optarg := None\<rparr>, -1)"
proof (cases ops)
  case (Cons o1 os)
  let ?st = "st\<lparr>optarg := None\<rparr>"
  have "permute_scan optstring None False (optind st + 1) ?st =
      permute_scan optstring None False (optind st + 1 + int (length os)) ?st"
    using assms Cons by (intro permute_scan_skip [of _ "pre @ [o1]" os "[]"]) auto
  also have "\<dots> = (?st, False)" using assms(1,2) Cons by (subst permute_scan.simps) simp
  finally have "permute_scan optstring None False (optind st + 1) ?st = (?st, False)" .
  then show ?thesis using assms Cons
    by (simp add: getopt_def getopt_internal_def Let_def permute_next_option_def)
qed (use assms in \<open>simp add: getopt_def getopt_internal_def Let_def\<close>)

lemma getopt_dashes:
  assumes "argv st = pre @ ops @ ''--'' # rest" "optind st = int (length pre)" "pre \<noteq> []" "getopt_next st = None"
    and "\<not> starts_char (CHR ''+'') optstring" "\<forall>w\<in>set ops. operand w"
  shows "getopt (Some optstring) st =
    (st\<lparr>optarg := None, argv := pre @ ''--'' # ops @ rest, optind := int (length pre) + 1\<rparr>, -1)"
proof -
  have "option_group_length st (int (length pre + length ops)) optstring None False = Suc 0"
    using assms(1) by (simp add: option_group_length_def nth_append del: of_nat_add)
  then show ?thesis
    using getopt_group [of st pre ops "CHR ''-''" "[]" "[]" rest optstring] assms by (simp add: Let_def)
qed

subsection \<open>The loop of a program\<close>

text \<open>A program calls \<^verbatim>\<open>getopt\<close> until it returns -1. The result has the values of the calls before, each
  with its \<^verbatim>\<open>optarg\<close>.\<close>

partial_function (option) option_loop :: "(getopt_state \<Rightarrow> getopt_state \<times> int) \<Rightarrow> getopt_state \<Rightarrow>
    (getopt_state \<times> (int \<times> string option) list) option" where
  "option_loop next st =
     (if snd (next st) = -1 then Some (fst (next st), [])
      else Option.bind (option_loop next (fst (next st)))
             (\<lambda>x. Some (fst x, (snd (next st), optarg (fst (next st))) # snd x)))"

text \<open>The words behind the items: nothing, or two hyphens and any words.\<close>

definition end_words :: "string list option \<Rightarrow> string list" where
  "end_words tail = (case tail of None \<Rightarrow> [] | Some ws \<Rightarrow> ''--'' # ws)"

definition words_of :: "cmd_item list \<Rightarrow> string list" where
  "words_of items = concat (map item_words items)"

definition options_of :: "cmd_item list \<Rightarrow> cmd_item list" where "options_of items = [i \<leftarrow> items. \<not> is_operand i]"
definition operands_of :: "cmd_item list \<Rightarrow> cmd_item list" where "operands_of items = [i \<leftarrow> items. is_operand i]"

lemma words_of_simps [simp]: "words_of [] = []" "words_of (i # is) = item_words i @ words_of is"
  by (simp_all add: words_of_def)

lemma options_of_simps [simp]: "options_of [] = []" "operands_of [] = []"
  "options_of (i # is) = (if is_operand i then options_of is else i # options_of is)"
  "operands_of (i # is) = (if is_operand i then i # operands_of is else operands_of is)"
  by (simp_all add: options_of_def operands_of_def)

lemma item_result_nonneg: "\<not> is_operand i \<Longrightarrow> fst (item_result i) \<noteq> -1"
proof -
  have "uchar c \<noteq> -1" for c :: char using uchar_bounds(1) [of c] by linarith
  then show "\<not> is_operand i \<Longrightarrow> fst (item_result i) \<noteq> -1" by (cases i) auto
qed

text \<open>The operands seen so far stand in front of the items that are left.\<close>

lemma option_loop_items:
  assumes "\<forall>i\<in>set items. item_ok optstring i" "\<not> starts_char (CHR ''+'') optstring"
    and "argv st = pre @ ops @ words_of items @ end_words tail" "optind st = int (length pre)" "pre \<noteq> []"
    and "getopt_next st = None" "\<forall>w\<in>set ops. operand w"
  shows "\<exists>st'. option_loop (getopt (Some optstring)) st = Some (st', map item_result (options_of items)) \<and>
    argv st' = pre @ words_of (options_of items) @ take 1 (end_words tail) @ ops @ words_of (operands_of items) @
      drop 1 (end_words tail) \<and>
    optind st' = int (length (pre @ words_of (options_of items) @ take 1 (end_words tail)))"
  using assms
proof (induction items arbitrary: st pre ops)
  case Nil
  show ?case
  proof (cases tail)
    case None
    then have "getopt (Some optstring) st = (st\<lparr>optarg := None\<rparr>, -1)"
      using Nil.prems by (intro getopt_end [of st pre ops]) (simp_all add: end_words_def)
    then show ?thesis using None Nil.prems by (subst option_loop.simps) (simp add: end_words_def)
  next
    case (Some ws)
    then have "getopt (Some optstring) st =
        (st\<lparr>optarg := None, argv := pre @ ''--'' # ops @ ws, optind := int (length pre) + 1\<rparr>, -1)"
      using Nil.prems by (intro getopt_dashes) (simp_all add: end_words_def)
    then show ?thesis using Some Nil.prems by (subst option_loop.simps) (simp add: end_words_def)
  qed
next
  case (Cons i items)
  show ?case
  proof (cases "is_operand i")
    case True
    then obtain w where w: "i = Operand w" by (cases i) simp_all
    then show ?thesis using Cons.IH [of st pre "ops @ [w]"] Cons.prems by simp
  next
    case False
    obtain st' where st': "getopt (Some optstring) st = (st', fst (item_result i))" "optarg st' = snd (item_result i)"
      "argv st' = (pre @ item_words i) @ ops @ words_of items @ end_words tail"
      "optind st' = int (length (pre @ item_words i))" "getopt_next st' = None"
      using getopt_item [of optstring i st pre ops "words_of items @ end_words tail"] False Cons.prems by auto
    obtain st'' where "option_loop (getopt (Some optstring)) st' = Some (st'', map item_result (options_of items))"
      "argv st'' = (pre @ item_words i) @ words_of (options_of items) @ take 1 (end_words tail) @ ops @
        words_of (operands_of items) @ drop 1 (end_words tail)"
      "optind st'' = int (length ((pre @ item_words i) @ words_of (options_of items) @ take 1 (end_words tail)))"
      using Cons.IH [OF _ _ st'(3,4) _ st'(5)] Cons.prems by auto
    then show ?thesis
      using st' False item_result_nonneg [OF False] by (subst option_loop.simps) simp
  qed
qed

subsection \<open>Every loop over the options ends\<close>

text \<open>What a call keeps: the index is in the command line, and the rest of a group of short options is
  in a word of it. \<open>unread\<close> counts the characters that are left.\<close>

definition getopt_inv :: "getopt_state \<Rightarrow> bool" where
  "getopt_inv st \<longleftrightarrow> 0 < optind st \<and> optind st \<le> argc st \<and>
     (getopt_next st \<noteq> None \<and> getopt_next st \<noteq> Some [] \<longrightarrow> optind st < argc st)"

definition word_chars :: "int \<Rightarrow> string list \<Rightarrow> nat" where
  "word_chars n ws = sum_list (map (\<lambda>w. Suc (length w)) (drop (nat n) ws))"

definition unread :: "getopt_state \<Rightarrow> nat" where
  "unread st = (case getopt_next st of Some (c # r) \<Rightarrow> length (c # r) + word_chars (optind st + 1) (argv st)
     | _ \<Rightarrow> word_chars (optind st) (argv st))"

lemma word_chars_step: "0 \<le> n \<Longrightarrow> n < int (length ws) \<Longrightarrow>
  word_chars n ws = Suc (length (ws ! nat n)) + word_chars (n + 1) ws"
  by (simp add: word_chars_def Cons_nth_drop_Suc [symmetric] nat_add_distrib)

lemma word_chars_mono: "0 \<le> n \<Longrightarrow> word_chars (n + 1) ws \<le> word_chars n ws"
  by (cases "n < int (length ws)") (simp_all add: word_chars_step, simp add: word_chars_def)

lemma word_chars_mono2: "0 \<le> n \<Longrightarrow> word_chars (n + 2) ws \<le> word_chars (n + 1) ws"
  using word_chars_mono [of "n + 1" ws] by (simp add: add.commute)

lemma word_chars_perm: "mset (drop (nat n) us) = mset (drop (nat n) ws) \<Longrightarrow> word_chars n us = word_chars n ws"
  by (simp add: word_chars_def flip: sum_mset_sum_list)

lemma short_step_left:
  assumes "getopt_next st = Some (c # r)" "0 < optind st" "optind st < argc st" "short_step optstring st = (st', v)"
  shows "getopt_inv st' \<and> argv st' = argv st \<and> unread st' < unread st"
proof -
  have "word_chars (optind st + 2) (argv st) \<le> word_chars (optind st + 1) (argv st)"
    using assms(2) by (simp add: word_chars_mono2)
  then show ?thesis
    using assms by (auto simp: short_step_def Let_def getopt_inv_def unread_def split: option.splits if_splits list.splits)
qed

text \<open>A long option is read from one word or two.\<close>

lemma finish_long_option_simps [simp]:
  "argv (fst (finish_long_option opt st)) = argv st" "optind (fst (finish_long_option opt st)) = optind st + 1"
  "getopt_next (fst (finish_long_option opt st)) = None"
  by (simp_all add: finish_long_option_def Let_def split: option.splits)

lemma parse_long_option_words:
  "argv (fst (parse_long_option optstring longopts has_index name st)) = argv st"
  "getopt_next (fst (parse_long_option optstring longopts has_index name st)) \<in> {None, getopt_next st}"
  "optind (fst (parse_long_option optstring longopts has_index name st)) = optind st + 1 \<or>
   optind (fst (parse_long_option optstring longopts has_index name st)) = optind st + 2 \<and> optind st + 1 < argc st"
  by (simp_all add: parse_long_option_def Let_def split: option.split prod.split)

lemma parse_long_option_left:
  assumes "getopt_next st = None \<or> getopt_next st = Some []" "0 < optind st" "optind st < argc st"
    and "parse_long_option optstring longopts has_index name st = (st', v)"
  shows "getopt_inv st' \<and> argv st' = argv st \<and> unread st' < unread st"
proof -
  have "word_chars (optind st + 2) (argv st) \<le> word_chars (optind st + 1) (argv st)"
    "word_chars (optind st + 1) (argv st) < word_chars (optind st) (argv st)"
    using assms(2,3) by (simp_all add: word_chars_mono2 word_chars_step)
  then show ?thesis
    using assms(1-3) parse_long_option_words [of optstring longopts has_index name st]
    unfolding assms(4) by (auto simp: getopt_inv_def unread_def)
qed

lemma option_group_length_bound:
  "0 \<le> i \<Longrightarrow> i < argc st \<Longrightarrow> nat i + option_group_length st i optstring longopts long_only \<le> length (argv st)"
  by (auto simp: option_group_length_def Let_def)

lemma option_group_length_pos: "0 < option_group_length st i optstring longopts long_only"
  by (auto simp: option_group_length_def Let_def)

lemma move_group_perm:
  assumes "start \<le> scan" "scan + n \<le> length ws" "0 < n"
  shows "take start (move_group start scan n ws) = take start ws"
    "mset (drop start (move_group start scan n ws)) = mset (drop start ws)"
    "move_group start scan n ws ! start = ws ! scan"
proof -
  have "ws = take start ws @ drop start ws" by simp
  also have "drop start ws = take (scan - start) (drop start ws) @ drop scan ws"
    using assms(1) by (metis append_take_drop_id drop_drop le_add_diff_inverse2)
  also have "drop scan ws = take n (drop scan ws) @ drop (scan + n) ws" by (metis add.commute append_take_drop_id drop_drop)
  finally have "ws = take start ws @ take (scan - start) (drop start ws) @ take n (drop scan ws) @ drop (scan + n) ws" .
  moreover have "length (take start ws) = start" "length (take (scan - start) (drop start ws)) = scan - start"
    "length (take n (drop scan ws)) = n" using assms by auto
  ultimately obtain us vs xs ys where "ws = us @ vs @ xs @ ys" "length us = start" "length vs = scan - start" "length xs = n"
    by blast
  then show "take start (move_group start scan n ws) = take start ws"
    "mset (drop start (move_group start scan n ws)) = mset (drop start ws)"
    "move_group start scan n ws ! start = ws ! scan"
    using assms by (auto simp: move_group_def nth_append)
qed

lemma permute_scan_found:
  "permute_scan optstring longopts long_only scan st = (st', True) \<Longrightarrow> 0 \<le> optind st \<Longrightarrow> optind st \<le> scan \<Longrightarrow>
   \<exists>ws. st' = st\<lparr>argv := ws\<rparr> \<and> take (nat (optind st)) ws = take (nat (optind st)) (argv st) \<and>
     mset (drop (nat (optind st)) ws) = mset (drop (nat (optind st)) (argv st)) \<and> \<not> operand (ws ! nat (optind st))"
proof (induction optstring longopts long_only scan st rule: permute_scan.induct)
  case (1 optstring longopts long_only scan st)
  let ?n = "option_group_length st scan optstring longopts long_only"
  show ?case
  proof (cases "scan < argc st")
    case True
    have "nat scan + ?n \<le> length (argv st)" using 1 True by (intro option_group_length_bound) auto
    from move_group_perm [OF _ this option_group_length_pos, of "nat (optind st)"] show ?thesis
      using 1 True by (subst (asm) permute_scan.simps) (auto simp: Let_def split: if_splits)
  qed (use 1 in \<open>simp add: permute_scan.simps\<close>)
qed

lemma mset_of_parts: "take n us = take n ws \<Longrightarrow> mset (drop n us) = mset (drop n ws) \<Longrightarrow> mset us = mset ws"
  by (metis append_take_drop_id mset_append)

lemma unread_next [simp]:
  "getopt_next st = None \<Longrightarrow> unread st = word_chars (optind st) (argv st)"
  "getopt_next st = Some [] \<Longrightarrow> unread st = word_chars (optind st) (argv st)"
  "getopt_next st = Some (c # r) \<Longrightarrow> unread st = length (c # r) + word_chars (optind st + 1) (argv st)"
  by (simp_all add: unread_def)

text \<open>After the search for an option word the index is at one, or the state is as before.\<close>

definition at_option :: "getopt_state \<Rightarrow> getopt_state \<Rightarrow> bool" where
  "at_option st st' \<longleftrightarrow> optind st' = optind st \<and> getopt_next st' = getopt_next st \<and> mset (argv st') = mset (argv st) \<and>
     unread st' = unread st \<and> \<not> operand (arg_at st' (optind st'))"

lemma permute_next_option_found:
  assumes "permute_next_option optstring longopts long_only st = (st', True)" "0 < optind st"
    and "getopt_next st = None \<or> getopt_next st = Some []"
  shows "at_option st st'"
proof -
  obtain ws where "st' = st\<lparr>argv := ws\<rparr>" "take (nat (optind st)) ws = take (nat (optind st)) (argv st)"
    "mset (drop (nat (optind st)) ws) = mset (drop (nat (optind st)) (argv st))" "\<not> operand (ws ! nat (optind st))"
    using assms permute_scan_found [of optstring longopts long_only "optind st + 1" st st']
    by (auto simp: permute_next_option_def split: if_splits)
  moreover from this have "mset ws = mset (argv st)" "word_chars (optind st) ws = word_chars (optind st) (argv st)"
    by (auto intro: mset_of_parts word_chars_perm)
  ultimately show ?thesis using assms(3) by (auto simp: at_option_def unread_next)
qed

lemma permute_scan_not_found:
  "permute_scan optstring longopts long_only scan st = (st', False) \<Longrightarrow> st' = st"
proof (induction optstring longopts long_only scan st rule: permute_scan.induct)
  case (1 optstring longopts long_only scan st)
  then show ?case by (subst (asm) permute_scan.simps) (auto simp: Let_def split: if_splits)
qed

lemma permute_next_option_not_found:
  "permute_next_option optstring longopts long_only st = (st', False) \<Longrightarrow> st' = st"
  using permute_scan_not_found by (auto simp: permute_next_option_def split: if_splits)

lemma read_option_left:
  assumes "\<not> operand (arg_at st (optind st))" "0 < optind st" "optind st < argc st"
    and "getopt_next st = None \<or> getopt_next st = Some []"
    and "(let arg = arg_at st (optind st) in
      if arg = ''--'' then (st\<lparr>optind := optind st + 1\<rparr>, -1)
      else if starts_char (CHR ''-'') (tl arg) \<and> longopts \<noteq> None
      then parse_long_option optstring longopts has_index (tl (tl arg)) st
      else if long_only \<and> should_try_long_only arg optstring longopts
      then parse_long_option optstring longopts has_index (tl arg) st
      else short_step optstring (st\<lparr>getopt_next := Some (tl arg)\<rparr>)) = (st', v)"
  shows "getopt_inv st' \<and> argv st' = argv st \<and> (v \<noteq> -1 \<longrightarrow> unread st' < unread st)"
proof -
  from assms(1) obtain c r where arg: "arg_at st (optind st) = CHR ''-'' # c # r"
    by (cases "arg_at st (optind st)"; cases "tl (arg_at st (optind st))") (auto simp: operand_def)
  have short: "getopt_inv st' \<and> argv st' = argv st \<and> unread st' < unread st"
    if "short_step optstring (st\<lparr>getopt_next := Some (c # r)\<rparr>) = (st', v)"
    using short_step_left [OF _ _ _ that] assms(2-4) word_chars_step [of "optind st" "argv st"] arg by auto
  have long: "getopt_inv st' \<and> argv st' = argv st \<and> unread st' < unread st"
    if "parse_long_option optstring longopts has_index name st = (st', v)" for name
    using parse_long_option_left [OF assms(4) assms(2) assms(3) that] .
  show ?thesis
  proof (cases "CHR ''-'' # c # r = ''--''")
    case True
    then have "st' = st\<lparr>optind := optind st + 1\<rparr>" "v = -1" using assms(5) unfolding arg Let_def by simp_all
    then show ?thesis using assms(2-4) by (auto simp: getopt_inv_def)
  next
    case False
    with assms(5) have "(\<exists>name. parse_long_option optstring longopts has_index name st = (st', v)) \<or>
        short_step optstring (st\<lparr>getopt_next := Some (c # r)\<rparr>) = (st', v)"
      unfolding arg Let_def by (metis list.sel(3))
    then show ?thesis using short long by blast
  qed
qed

lemma getopt_internal_left:
  assumes "getopt_inv st" "getopt_internal optstring longopts has_index long_only st = (st', v)"
  shows "getopt_inv st' \<and> mset (argv st') = mset (argv st) \<and> (v \<noteq> -1 \<longrightarrow> unread st' < unread st)"
proof -
  let ?s = "case optstring of None \<Rightarrow> [] | Some s \<Rightarrow> s" and ?st = "st\<lparr>optarg := None\<rparr>"
  have optind: "0 < optind st" and same: "unread ?st = unread st"
    using assms(1) by (auto simp: getopt_inv_def unread_def cong: option.case_cong list.case_cong)
  consider c r where "getopt_next st = Some (c # r)"
    | "getopt_next st = None \<or> getopt_next st = Some []" "\<not> optind st < argc st"
    | "getopt_next st = None \<or> getopt_next st = Some []" "optind st < argc st"
    by (metis neq_Nil_conv option.exhaust)
  then show ?thesis
  proof cases
    case 1
    then show ?thesis
      using short_step_left [of ?st _ _ ?s st' v] assms optind same
      by (auto simp: getopt_internal_def Let_def getopt_inv_def)
  next
    case 2
    then show ?thesis using assms optind by (auto simp: getopt_internal_def Let_def getopt_inv_def)
  next
    case 3
    obtain st2 found where st2: "(if operand (arg_at st (optind st)) then permute_next_option ?s longopts long_only ?st
      else (?st, True)) = (st2, found)" by force
    show ?thesis
    proof (cases found)
      case False
      then have "st2 = ?st" using st2 permute_next_option_not_found by (auto split: if_splits)
      then show ?thesis using False st2 3 assms optind
        by (auto simp: getopt_internal_def Let_def getopt_inv_def)
    next
      case True
      have option: "at_option ?st st2"
        using st2 True 3 optind permute_next_option_found [of ?s longopts long_only ?st st2]
        by (auto simp: at_option_def split: if_splits)
      then have "argc st2 = argc st" using mset_eq_length by (fastforce simp: at_option_def)
      moreover have "getopt_internal optstring longopts has_index long_only st =
        (let arg = arg_at st2 (optind st2) in
         if arg = ''--'' then (st2\<lparr>optind := optind st2 + 1\<rparr>, -1)
         else if starts_char (CHR ''-'') (tl arg) \<and> longopts \<noteq> None
         then parse_long_option ?s longopts has_index (tl (tl arg)) st2
         else if long_only \<and> should_try_long_only arg ?s longopts
         then parse_long_option ?s longopts has_index (tl arg) st2
         else short_step ?s (st2\<lparr>getopt_next := Some (tl arg)\<rparr>))"
        using st2 True 3 optind by (auto simp: getopt_internal_def Let_def)
      ultimately show ?thesis
        using read_option_left [of st2 longopts ?s has_index long_only st' v] option 3 assms(2) optind same
        by (auto simp: at_option_def)
    qed
  qed
qed

text \<open>So a loop over the options ends, and the words of the command line are only reordered.\<close>

lemma option_loop_ends:
  assumes "getopt_inv st"
  shows "\<exists>st' rs. option_loop (getopt_internal optstring longopts has_index long_only) st = Some (st', rs) \<and>
    getopt_inv st' \<and> mset (argv st') = mset (argv st)"
  using assms
proof (induction "unread st" arbitrary: st rule: less_induct)
  case less
  obtain st1 v where st1: "getopt_internal optstring longopts has_index long_only st = (st1, v)" by force
  note left = getopt_internal_left [OF less.prems st1]
  show ?case
  proof (cases "v = -1")
    case True
    then show ?thesis using st1 left by (subst option_loop.simps) simp
  next
    case False
    then obtain st' rs where "option_loop (getopt_internal optstring longopts has_index long_only) st1 = Some (st', rs)"
      "getopt_inv st'" "mset (argv st') = mset (argv st1)" using less.hyps [of st1] left by auto
    then show ?thesis using st1 left False by (subst option_loop.simps) simp
  qed
qed

end
