(* ===== verification/CRT_Scanf.thy ===== *)
theory CRT_Scanf
  imports CRT_Fprintf CRT_Utf8
begin

text \<open>
  Formatted input, \<^verbatim>\<open>libc/src/scanf.c\<close>, on the LP64 hosts. A source is a string or a stream; the
  pointers of the argument list are taken in order, and what a call ss_stores through them is the list
  \<open>ss_stores\<close>. The buffers of the callers have room for what \<open>%s\<close>, \<open>%[\<close> and \<open>%c\<close> write.
  The texts and values of floating-point numbers, which need the vendored \<open>gdtoa\<close>, are parameters,
  as are the sizes that \<open>malloc\<close> has memory for. A loop over the source may wait for a stream that
  never ends, so it is a partial function. \<^term>\<open>None\<close> is also an access outside of an object: the
  table of a scan set has 256 entries, and a block that was released is not used again.
\<close>

subsection \<open>Sources\<close>

datatype scan_length = SCAN_LENGTH_NONE | SCAN_LENGTH_HH | SCAN_LENGTH_H | SCAN_LENGTH_L
  | SCAN_LENGTH_CAPITAL_L | SCAN_LENGTH_LL | SCAN_LENGTH_Z | SCAN_LENGTH_J | SCAN_LENGTH_T
  | SCAN_LENGTH_POINTER

text \<open>A number is stored with the type of the pointer; \<open>StoreString\<close> has every byte that is
  stored, with the terminator where there is one.
  \<open>StoreBlock\<close> and \<open>StoreWideBlock\<close> store a pointer to a new block with these contents.\<close>

datatype 'f scan_store = StoreSigned scan_length int | StoreUnsigned scan_length int
  | StoreFloat scan_length 'f | StoreString string | StoreBlock string
  | StoreWide "wchar list" | StoreWideBlock "wchar list"

record ('w, 'f) scan_source =
  ss_string :: string
  ss_stream :: "'w FILE option"
  string_mode :: bool
  ss_pos :: nat
  ss_consumed :: nat
  ss_stores :: "'f scan_store list"
  scan_errno :: int

text \<open>\<open>sc_strtod\<close> gives the value of a text and the number of characters it was read from.\<close>

record 'f scan_env =
  sc_malloc_ok :: "nat \<Rightarrow> bool"
  sc_strtod :: "string \<Rightarrow> 'f \<times> nat"
  sc_strtold :: "string \<Rightarrow> 'f \<times> nat"

definition source_getc :: "'w host \<Rightarrow> ('w, 'f) scan_source \<Rightarrow> ('w, 'f) scan_source \<times> int" where
  "source_getc h s =
     (if string_mode s then
        let ch = (if ss_pos s < length (ss_string s) then uchar (ss_string s ! ss_pos s) else 0) in
        if ch = 0 then (s, CRT_Stdio.EOF)
        else (s\<lparr>ss_pos := ss_pos s + 1, ss_consumed := ss_consumed s + 1\<rparr>, ch)
      else case ss_stream s of
             None \<Rightarrow> (s, CRT_Stdio.EOF)
           | Some f \<Rightarrow>
               (case fgetc_unlocked_impl h f of (f, ch) \<Rightarrow>
                  if ch = CRT_Stdio.EOF then (s\<lparr>ss_stream := Some f\<rparr>, CRT_Stdio.EOF)
                  else (s\<lparr>ss_stream := Some f, ss_consumed := ss_consumed s + 1\<rparr>, ch)))"

definition source_ungetc :: "'w host \<Rightarrow> ('w, 'f) scan_source \<Rightarrow> int \<Rightarrow> ('w, 'f) scan_source" where
  "source_ungetc h s ch =
     (if ch = CRT_Stdio.EOF then s
      else let s = (if string_mode s then s\<lparr>ss_pos := ss_pos s - 1\<rparr>
                    else s\<lparr>ss_stream := map_option (\<lambda>f. fst (ungetc h ch f)) (ss_stream s)\<rparr>)
           in s\<lparr>ss_consumed := ss_consumed s - 1\<rparr>)"

definition source_peekc :: "'w host \<Rightarrow> ('w, 'f) scan_source \<Rightarrow> ('w, 'f) scan_source \<times> int" where
  "source_peekc h s = (case source_getc h s of (s, ch) \<Rightarrow> (source_ungetc h s ch, ch))"

definition scan_isspace :: "int \<Rightarrow> bool" where
  "scan_isspace ch = isspace (uch32 (char_of ch))"

partial_function (option) source_skip_space :: "'w host \<Rightarrow> ('w, 'f) scan_source \<Rightarrow> ('w, 'f) scan_source option" where
  "source_skip_space h s =
     (if snd (source_getc h s) \<noteq> CRT_Stdio.EOF \<and> scan_isspace (snd (source_getc h s))
      then source_skip_space h (fst (source_getc h s))
      else Some (source_ungetc h (fst (source_getc h s)) (snd (source_getc h s))))"

text \<open>A character in UTF-8, of at most four bytes; \<open>WEOF\<close> is the end or an illegal sequence.\<close>

primrec getwc_loop :: "nat \<Rightarrow> 'w host \<Rightarrow> mbstate \<Rightarrow> ('w, 'f) scan_source \<Rightarrow> (('w, 'f) scan_source \<times> u32) option" where
  "getwc_loop 0 h state s = Some (s, WEOF)"
| "getwc_loop (Suc n) h state s =
     (case source_getc h s of (s, ch) \<Rightarrow>
        if ch = CRT_Stdio.EOF then Some (s, WEOF)
        else do {
          (result, wc, state) \<leftarrow> mbrtowc (mem_of 1 [char_of ch]) 1 1 state;
          if result = Illegal then Some (s, WEOF)
          else if result \<noteq> Partial then (case wc of None \<Rightarrow> None | Some wc \<Rightarrow> Some (s, wc))
          else getwc_loop n h state s })"

definition source_getwc_utf8 :: "'w host \<Rightarrow> ('w, 'f) scan_source \<Rightarrow> (('w, 'f) scan_source \<times> u32) option" where
  "source_getwc_utf8 h s = getwc_loop 4 h \<lparr>codepoint = 0, expected = 0, seen = 0\<rparr> s"

subsection \<open>Lengths and ss_stores\<close>

definition scan_isdigit :: "char \<Rightarrow> bool" where "scan_isdigit c = isdigit (uch32 c)"

fun parse_width_from :: "int \<Rightarrow> string \<Rightarrow> string \<times> int" where
  "parse_width_from wd [] = ([], wd)"
| "parse_width_from wd (c # fmt) =
     (if scan_isdigit c then parse_width_from (wrap_int (wd * 10 + (uchar c - 48))) fmt else (c # fmt, wd))"

definition scan_parse_width :: "string \<Rightarrow> string \<times> int" where
  "scan_parse_width fmt = parse_width_from 0 fmt"

definition scan_w_to_length :: "int \<Rightarrow> bool \<Rightarrow> scan_length" where
  "scan_w_to_length bits fast =
     (if bits = 8 then SCAN_LENGTH_HH
      else if bits = 16 then (if fast then SCAN_LENGTH_LL else SCAN_LENGTH_H)
      else if bits = 32 then (if fast then SCAN_LENGTH_LL else SCAN_LENGTH_NONE)
      else if bits = 64 then SCAN_LENGTH_LL
      else SCAN_LENGTH_NONE)"

definition scan_parse_length :: "string \<Rightarrow> string \<times> scan_length" where
  "scan_parse_length fmt =
     (if take 2 fmt = ''hh'' then (drop 2 fmt, SCAN_LENGTH_HH)
      else if take 2 fmt = ''ll'' then (drop 2 fmt, SCAN_LENGTH_LL)
      else if starts_with (CHR ''h'') fmt then (tl fmt, SCAN_LENGTH_H)
      else if starts_with (CHR ''l'') fmt then (tl fmt, SCAN_LENGTH_L)
      else if starts_with (CHR ''L'') fmt then (tl fmt, SCAN_LENGTH_CAPITAL_L)
      else if starts_with (CHR ''z'') fmt then (tl fmt, SCAN_LENGTH_Z)
      else if starts_with (CHR ''j'') fmt then (tl fmt, SCAN_LENGTH_J)
      else if starts_with (CHR ''t'') fmt then (tl fmt, SCAN_LENGTH_T)
      else (fmt, SCAN_LENGTH_NONE))"

definition put_store :: "'f scan_store \<Rightarrow> ('w, 'f) scan_source \<Rightarrow> ('w, 'f) scan_source" where
  "put_store x s = s\<lparr>ss_stores := ss_stores s @ [x]\<rparr>"

definition assign_signed :: "scan_length \<Rightarrow> int \<Rightarrow> ('w, 'f) scan_source \<Rightarrow> ('w, 'f) scan_source" where
  "assign_signed len v s =
     (case len of
        SCAN_LENGTH_HH \<Rightarrow> put_store (StoreSigned len (sint (of_int v :: 8 word))) s
      | SCAN_LENGTH_H \<Rightarrow> put_store (StoreSigned len (sint (of_int v :: 16 word))) s
      | SCAN_LENGTH_L \<Rightarrow> put_store (StoreSigned len (sint (of_int v :: 64 word))) s
      | SCAN_LENGTH_LL \<Rightarrow> put_store (StoreSigned len v) s
      | SCAN_LENGTH_J \<Rightarrow> put_store (StoreSigned len v) s
      | SCAN_LENGTH_Z \<Rightarrow> put_store (StoreSigned len (sint (of_int v :: 64 word))) s
      | SCAN_LENGTH_T \<Rightarrow> put_store (StoreSigned len (sint (of_int v :: 64 word))) s
      | _ \<Rightarrow> put_store (StoreSigned SCAN_LENGTH_NONE (sint (of_int v :: 32 word))) s)"

definition assign_unsigned :: "scan_length \<Rightarrow> u64 \<Rightarrow> ('w, 'f) scan_source \<Rightarrow> ('w, 'f) scan_source" where
  "assign_unsigned len v s =
     (case len of
        SCAN_LENGTH_POINTER \<Rightarrow> put_store (StoreUnsigned len (uint v)) s
      | SCAN_LENGTH_HH \<Rightarrow> put_store (StoreUnsigned len (uint (ucast v :: 8 word))) s
      | SCAN_LENGTH_H \<Rightarrow> put_store (StoreUnsigned len (uint (ucast v :: 16 word))) s
      | SCAN_LENGTH_L \<Rightarrow> put_store (StoreUnsigned len (uint v)) s
      | SCAN_LENGTH_LL \<Rightarrow> put_store (StoreUnsigned len (uint v)) s
      | SCAN_LENGTH_J \<Rightarrow> put_store (StoreUnsigned len (uint v)) s
      | SCAN_LENGTH_Z \<Rightarrow> put_store (StoreUnsigned len (uint v)) s
      | SCAN_LENGTH_T \<Rightarrow> put_store (StoreSigned len (sint v)) s
      | _ \<Rightarrow> put_store (StoreUnsigned SCAN_LENGTH_NONE (uint (ucast v :: 32 word))) s)"

subsection \<open>Integers\<close>

record token_flags =
  SIGNOK :: bool
  HAVESIGN :: bool
  NDIGITS :: bool
  PFXOK :: bool
  PFBOK :: bool
  NZDIGITS :: bool

definition scan_integer_digit_value :: "int \<Rightarrow> int" where
  "scan_integer_digit_value ch =
     (if 48 \<le> ch \<and> ch \<le> 57 then ch - 48
      else if 65 \<le> ch \<and> ch \<le> 90 then ch - 65 + 10
      else if 97 \<le> ch \<and> ch \<le> 122 then ch - 97 + 10
      else -1)"

definition digit_seen :: "token_flags \<Rightarrow> token_flags" where
  "digit_seen fl = fl\<lparr>SIGNOK := False, PFBOK := False, PFXOK := False, NDIGITS := False\<rparr>"

definition token_digit :: "int \<Rightarrow> int \<Rightarrow> token_flags \<Rightarrow> bool \<times> int \<times> token_flags" where
  "token_digit ch base fl =
     (let digit = scan_integer_digit_value ch;
          base = (if base = 0 then 10 else base)
      in if digit < 0 \<or> digit \<ge> base then (False, base, fl) else (True, base, digit_seen fl))"

text \<open>One character, with \<open>n\<close> in front of it: whether the token goes on, the base and the flags.\<close>

definition token_step :: "int \<Rightarrow> nat \<Rightarrow> int \<Rightarrow> token_flags \<Rightarrow> bool \<times> int \<times> token_flags" where
  "token_step ch n base fl =
     (let second = (n = 1 + (if HAVESIGN fl then 1 else 0)) in
      if ch = uchar (CHR ''0'') then
        let (base, fl) = (if base = 0 then (8, fl\<lparr>PFBOK := True, PFXOK := True\<rparr>) else (base, fl)) in
        (True, base, if NZDIGITS fl then fl\<lparr>SIGNOK := False, NZDIGITS := False, NDIGITS := False\<rparr> else digit_seen fl)
      else if ch = uchar (CHR ''b'') \<or> ch = uchar (CHR ''B'') then
        if PFBOK fl \<and> second then (True, 2, fl\<lparr>PFBOK := False\<rparr>) else token_digit ch base fl
      else if ch = uchar (CHR ''x'') \<or> ch = uchar (CHR ''X'') then
        if PFXOK fl \<and> second then (True, 16, fl\<lparr>PFXOK := False\<rparr>) else token_digit ch base fl
      else if ch = uchar (CHR ''+'') \<or> ch = uchar (CHR ''-'') then
        if SIGNOK fl then (True, base, fl\<lparr>SIGNOK := False, HAVESIGN := True\<rparr>) else (False, base, fl)
      else token_digit ch base fl)"

primrec token_loop :: "nat \<Rightarrow> 'w host \<Rightarrow> ('w, 'f) scan_source \<Rightarrow> string \<Rightarrow> int \<Rightarrow> token_flags \<Rightarrow>
    ('w, 'f) scan_source \<times> string \<times> int \<times> token_flags" where
  "token_loop 0 h s token base fl = (s, token, base, fl)"
| "token_loop (Suc n) h s token base fl =
     (case source_getc h s of (s, ch) \<Rightarrow>
        if ch = CRT_Stdio.EOF then (s, token, base, fl)
        else case token_step ch (length token) base fl of (goes_on, base, fl) \<Rightarrow>
          if goes_on then token_loop n h s (token @ [char_of ch]) base fl
          else (source_ungetc h s ch, token, base, fl))"

text \<open>The token and its base, or \<^term>\<open>None\<close> for -1.\<close>

definition scan_integer_token :: "'w host \<Rightarrow> ('w, 'f) scan_source \<Rightarrow> int \<Rightarrow> int \<Rightarrow>
    ('w, 'f) scan_source \<times> (string \<times> int) option" where
  "scan_integer_token h s wd base =
     (let remaining = (if wd = 0 \<or> wd < 0 \<or> wd > 255 then 255 else nat wd);
          fl = \<lparr>SIGNOK = True, HAVESIGN = False, NDIGITS = True, PFXOK = (base = 0 \<or> base = 16),
            PFBOK = (base = 0 \<or> base = 2), NZDIGITS = True\<rparr>;
          (s, token, base, fl) = token_loop remaining h s [] base fl;
          base = (if base = 0 then 10 else base)
      in if NDIGITS fl then
           (if token \<noteq> [] then source_ungetc h s (uchar (last token)) else s, None)
         else if token \<noteq> [] \<and> (base = 2 \<and> (last token = CHR ''b'' \<or> last token = CHR ''B'') \<or>
             last token = CHR ''x'' \<or> last token = CHR ''X'')
         then (source_ungetc h s (uchar (last token)), Some (butlast token, base))
         else (s, Some (token, base)))"

text \<open>A token of base 2 without its prefix.\<close>

definition binary_token :: "string \<Rightarrow> string" where
  "binary_token token =
     (let sign = (if token \<noteq> [] \<and> (hd token = CHR ''+'' \<or> hd token = CHR ''-'') then 1 else 0);
          rest = drop sign token
      in take sign token @ (if take 2 rest = ''0b'' \<or> take 2 rest = ''0B'' then drop 2 rest else rest))"

definition scan_integer :: "'w host \<Rightarrow> ('w, 'f) scan_source \<Rightarrow> int \<Rightarrow> int \<Rightarrow> bool \<Rightarrow> scan_length \<Rightarrow> bool \<Rightarrow>
    (('w, 'f) scan_source \<times> int) option" where
  "scan_integer h s wd base is_signed len suppress = do {
     s \<leftarrow> source_skip_space h s;
     let (s, ch) = source_peekc h s;
     if ch = CRT_Stdio.EOF then Some (s, -2)
     else case scan_integer_token h s wd base of
            (s, None) \<Rightarrow> Some (s, -1)
          | (s, Some (token, final_base)) \<Rightarrow>
              if token = [] then Some (s, -2)
              else do {
                let parsed = (if final_base = 2 then binary_token token else token);
                let m = mem_of 1 (parsed @ [NUL]);
                if is_signed then do {
                  (v, err, _) \<leftarrow> strtoimax m 1 final_base (scan_errno s);
                  let s = s\<lparr>scan_errno := err\<rparr>;
                  Some (if suppress then (s, 0) else (assign_signed len v s, 1)) }
                else do {
                  (v, err, _) \<leftarrow> strtoumax m 1 final_base (scan_errno s);
                  let s = s\<lparr>scan_errno := err\<rparr>;
                  Some (if suppress then (s, 0) else (assign_unsigned len v s, 1)) } } }"

subsection \<open>Floating-point numbers\<close>

primrec read_token_loop :: "nat \<Rightarrow> 'w host \<Rightarrow> ('w, 'f) scan_source \<Rightarrow> string \<Rightarrow> ('w, 'f) scan_source \<times> string" where
  "read_token_loop 0 h s token = (s, token)"
| "read_token_loop (Suc n) h s token =
     (case source_getc h s of (s, ch) \<Rightarrow>
        if ch = CRT_Stdio.EOF then (s, token)
        else if scan_isspace ch then (source_ungetc h s ch, token)
        else read_token_loop n h s (token @ [char_of ch]))"

definition read_token :: "'w host \<Rightarrow> ('w, 'f) scan_source \<Rightarrow> nat \<Rightarrow> int \<Rightarrow> bool \<Rightarrow>
    (('w, 'f) scan_source \<times> string) option" where
  "read_token h s token_size wd skip_ws = do {
     s \<leftarrow> (if skip_ws then source_skip_space h s else Some s);
     Some (read_token_loop (if wd = 0 then token_size - 1 else min (token_size - 1) (nat wd)) h s []) }"

definition scan_float :: "'f scan_env \<Rightarrow> 'w host \<Rightarrow> ('w, 'f) scan_source \<Rightarrow> int \<Rightarrow> scan_length \<Rightarrow> bool \<Rightarrow>
    (('w, 'f) scan_source \<times> int) option" where
  "scan_float env h s wd len suppress = do {
     (s, token) \<leftarrow> read_token h s 256 wd True;
     if token = [] then Some (s, -2)
     else
       let (v, used) = (if len = SCAN_LENGTH_CAPITAL_L then sc_strtold env token else sc_strtod env token) in
       if used = 0 then Some (s, -1)
       else
         let s = fold (\<lambda>c s. source_ungetc h s (uchar c)) (rev (drop used token)) s in
         Some (if suppress then (s, 0)
               else (put_store (StoreFloat (if len = SCAN_LENGTH_CAPITAL_L \<or> len = SCAN_LENGTH_L then len
                                        else SCAN_LENGTH_NONE) v) s, 1)) }"

subsection \<open>Strings, characters and scan sets\<close>

text \<open>The bytes up to one that stops, in a buffer that grows where it is allocated: the result has
  the bytes and whether they are in a heap block, or \<^term>\<open>None\<close> where memory ran out.\<close>

partial_function (option) text_loop :: "'f scan_env \<Rightarrow> 'w host \<Rightarrow> (int \<Rightarrow> bool) \<Rightarrow> int \<Rightarrow> bool \<Rightarrow> nat \<Rightarrow> bool \<Rightarrow> string \<Rightarrow>
    ('w, 'f) scan_source \<Rightarrow> (('w, 'f) scan_source \<times> (string \<times> bool) option) option" where
  "text_loop env h stops wd grow cap heap txt s =
     (if \<not> (wd = 0 \<or> int (length txt) < wd) then Some (s, Some (txt, heap))
      else if snd (source_getc h s) = CRT_Stdio.EOF then Some (fst (source_getc h s), Some (txt, heap))
      else if stops (snd (source_getc h s))
      then Some (source_ungetc h (fst (source_getc h s)) (snd (source_getc h s)), Some (txt, heap))
      else if grow \<and> length txt + 2 > cap \<and> \<not> sc_malloc_ok env (cap * 2)
      then Some (fst (source_getc h s)\<lparr>scan_errno := ENOMEM\<rparr>, None)
      else text_loop env h stops wd grow (if grow \<and> length txt + 2 > cap then cap * 2 else cap)
             (heap \<or> grow \<and> length txt + 2 > cap) (txt @ [char_of (snd (source_getc h s))]) (fst (source_getc h s)))"

text \<open>What happens to the bytes that were read.\<close>

definition finish_text :: "'f scan_env \<Rightarrow> bool \<Rightarrow> bool \<Rightarrow> ('w, 'f) scan_source \<times> (string \<times> bool) option \<Rightarrow>
    ('w, 'f) scan_source \<times> int" where
  "finish_text env suppress allocate r = (case r of
     (s, None) \<Rightarrow> (s, -1)
   | (s, Some (txt, heap)) \<Rightarrow>
       if txt = [] then (s, -1)
       else if suppress then (s, 0)
       else if \<not> allocate then (put_store (StoreString (txt @ [NUL])) s, 1)
       else if \<not> heap \<and> \<not> sc_malloc_ok env (length txt + 1) then (s\<lparr>scan_errno := ENOMEM\<rparr>, -1)
       else (put_store (StoreBlock (txt @ [NUL])) s, 1))"

definition scan_string :: "'f scan_env \<Rightarrow> 'w host \<Rightarrow> ('w, 'f) scan_source \<Rightarrow> int \<Rightarrow> bool \<Rightarrow> bool \<Rightarrow>
    (('w, 'f) scan_source \<times> int) option" where
  "scan_string env h s wd suppress allocate = do {
     s \<leftarrow> source_skip_space h s;
     let (s, ch) = source_peekc h s;
     if ch = CRT_Stdio.EOF then Some (s, -2)
     else map_option (finish_text env suppress allocate)
            (text_loop env h scan_isspace wd (\<not> suppress \<and> allocate) 256 False [] s) }"

text \<open>The table of a scan set: the entries from \<open>c + 1\<close> to \<open>n\<close>, at least one, get the entry's value.\<close>

definition sccl_range :: "bool \<Rightarrow> nat \<Rightarrow> nat \<Rightarrow> bool list \<Rightarrow> (bool list \<times> nat) option" where
  "sccl_range val c n table =
     (let last = max n (c + 1) in
      if last < length table
      then Some (fold (\<lambda>i table. table[i := val]) [c + 1..<last + 1] table, last) else None)"

fun sccl_switch :: "bool \<Rightarrow> nat \<Rightarrow> bool list \<Rightarrow> string \<Rightarrow> (bool list \<times> string) option" where
  "sccl_switch val c table [] = Some (table, [])"
| "sccl_switch val c table (x # fmt) =
     (if x = CHR ''-'' then
        (case fmt of
           [] \<Rightarrow> sccl_switch val 45 (table[45 := val]) fmt
         | n # fmt' \<Rightarrow>
             if n = CHR '']'' \<or> of_char n < c then sccl_switch val 45 (table[45 := val]) fmt
             else do { (table, c) \<leftarrow> sccl_range val c (of_char n) table; sccl_switch val c table fmt' })
      else if x = CHR '']'' then Some (table, fmt)
      else sccl_switch val (of_char x) (table[of_char x := val]) fmt)"

definition scan_sccl :: "string \<Rightarrow> (bool list \<times> string) option" where
  "scan_sccl fmt =
     (let negated = starts_with (CHR ''^'') fmt;
          fmt = (if negated then tl fmt else fmt);
          table = replicate 256 negated
      in case fmt of
           [] \<Rightarrow> Some (table, [])
         | c # fmt \<Rightarrow> sccl_switch (\<not> negated) (of_char c) (table[of_char c := \<not> negated]) fmt)"

definition scan_set :: "'f scan_env \<Rightarrow> 'w host \<Rightarrow> ('w, 'f) scan_source \<Rightarrow> string \<Rightarrow> int \<Rightarrow> bool \<Rightarrow> bool \<Rightarrow>
    (('w, 'f) scan_source \<times> string \<times> int) option" where
  "scan_set env h s fmt wd suppress allocate = do {
     (table, fmt) \<leftarrow> scan_sccl fmt;
     let (s, ch) = source_peekc h s;
     if ch = CRT_Stdio.EOF then Some (s, fmt, -2)
     else do {
       r \<leftarrow> text_loop env h (\<lambda>ch. \<not> table ! nat ch) wd (\<not> suppress \<and> allocate) 256 False [] s;
       Some (case finish_text env suppress allocate r of (s, result) \<Rightarrow> (s, fmt, result)) } }"

text \<open>\<open>%c\<close>: the bytes, and whether the source ended before.\<close>

primrec chars_loop :: "nat \<Rightarrow> 'w host \<Rightarrow> string \<Rightarrow> ('w, 'f) scan_source \<Rightarrow> ('w, 'f) scan_source \<times> string \<times> bool" where
  "chars_loop 0 h txt s = (s, txt, False)"
| "chars_loop (Suc n) h txt s =
     (case source_getc h s of (s, ch) \<Rightarrow>
        if ch = CRT_Stdio.EOF then (s, txt, True) else chars_loop n h (txt @ [char_of ch]) s)"

definition scan_chars :: "'f scan_env \<Rightarrow> 'w host \<Rightarrow> ('w, 'f) scan_source \<Rightarrow> int \<Rightarrow> bool \<Rightarrow> bool \<Rightarrow>
    (('w, 'f) scan_source \<times> int) option" where
  "scan_chars env h s wd suppress allocate =
     (let wd = (if wd = 0 then 1 else wd);
          block = (\<not> suppress \<and> allocate \<and> wd \<ge> 256)
      in if block \<and> \<not> sc_malloc_ok env (nat wd + 1) then Some (s\<lparr>scan_errno := ENOMEM\<rparr>, -1)
         else case chars_loop (nat wd) h [] s of (s, txt, ended) \<Rightarrow>
           if ended \<and> txt = [] then Some (s, -2)
           else if suppress then Some (s, 0)
           else if \<not> allocate then Some (put_store (StoreString txt) s, 1)
           else if block then
             if ended then None else Some (put_store (StoreBlock (txt @ [NUL])) s, 1)
           else if \<not> sc_malloc_ok env (length txt + 1) then Some (s\<lparr>scan_errno := ENOMEM\<rparr>, -1)
           else Some (put_store (StoreBlock (txt @ [NUL])) s, 1))"

subsection \<open>Wide strings\<close>

text \<open>A wide character that stops is put back as a byte where it is below \<open>limit\<close>.\<close>

partial_function (option) wide_loop :: "'f scan_env \<Rightarrow> 'w host \<Rightarrow> (u32 \<Rightarrow> bool) \<Rightarrow> u32 \<Rightarrow> int \<Rightarrow> bool \<Rightarrow> nat \<Rightarrow> bool \<Rightarrow> wchar list \<Rightarrow>
    ('w, 'f) scan_source \<Rightarrow> (('w, 'f) scan_source \<times> (wchar list \<times> bool) option) option" where
  "wide_loop env h stops limit wd grow cap heap txt s =
     (if \<not> (wd = 0 \<or> int (length txt) < wd) then Some (s, Some (txt, heap))
      else Option.bind (source_getwc_utf8 h s) (\<lambda>r.
        if snd r = WEOF then Some (fst r, Some (txt, heap))
        else if stops (snd r)
        then Some (if snd r < limit then source_ungetc h (fst r) (uint (snd r)) else fst r, Some (txt, heap))
        else if grow \<and> length txt + 2 > cap \<and> \<not> sc_malloc_ok env (cap * 2 * 4)
        then Some (fst r\<lparr>scan_errno := ENOMEM\<rparr>, None)
        else wide_loop env h stops limit wd grow (if grow \<and> length txt + 2 > cap then cap * 2 else cap)
               (heap \<or> grow \<and> length txt + 2 > cap) (txt @ [snd r]) (fst r)))"

definition finish_wide :: "'f scan_env \<Rightarrow> bool \<Rightarrow> bool \<Rightarrow> ('w, 'f) scan_source \<times> (wchar list \<times> bool) option \<Rightarrow>
    ('w, 'f) scan_source \<times> int" where
  "finish_wide env suppress allocate r = (case r of
     (s, None) \<Rightarrow> (s, -1)
   | (s, Some (txt, heap)) \<Rightarrow>
       if txt = [] then (s, -1)
       else if suppress then (s, 0)
       else if \<not> allocate then (put_store (StoreWide (txt @ [0])) s, 1)
       else if \<not> heap \<and> \<not> sc_malloc_ok env ((length txt + 1) * 4) then (s\<lparr>scan_errno := ENOMEM\<rparr>, -1)
       else (put_store (StoreWideBlock (txt @ [0])) s, 1))"

definition scan_wide_string :: "'f scan_env \<Rightarrow> 'w host \<Rightarrow> ('w, 'f) scan_source \<Rightarrow> int \<Rightarrow> bool \<Rightarrow> bool \<Rightarrow>
    (('w, 'f) scan_source \<times> int) option" where
  "scan_wide_string env h s wd suppress allocate = do {
     s \<leftarrow> source_skip_space h s;
     let (s, ch) = source_peekc h s;
     if ch = CRT_Stdio.EOF then Some (s, -2)
     else map_option (finish_wide env suppress allocate)
            (wide_loop env h (\<lambda>wc. wc \<le> 0x7f \<and> scan_isspace (uint wc)) 0x80 wd (\<not> suppress \<and> allocate) 128 False [] s) }"

definition scan_wide_set :: "'f scan_env \<Rightarrow> 'w host \<Rightarrow> ('w, 'f) scan_source \<Rightarrow> string \<Rightarrow> int \<Rightarrow> bool \<Rightarrow> bool \<Rightarrow>
    (('w, 'f) scan_source \<times> string \<times> int) option" where
  "scan_wide_set env h s fmt wd suppress allocate = do {
     (table, fmt) \<leftarrow> scan_sccl fmt;
     let (s, ch) = source_peekc h s;
     if ch = CRT_Stdio.EOF then Some (s, fmt, -2)
     else do {
       r \<leftarrow> wide_loop env h (\<lambda>wc. wc > 255 \<or> \<not> table ! unat wc) 256 wd (\<not> suppress \<and> allocate) 128 False [] s;
       Some (case finish_wide env suppress allocate r of (s, result) \<Rightarrow> (s, fmt, result)) } }"

primrec wide_chars_loop :: "nat \<Rightarrow> 'w host \<Rightarrow> wchar list \<Rightarrow> ('w, 'f) scan_source \<Rightarrow>
    (('w, 'f) scan_source \<times> wchar list \<times> bool) option" where
  "wide_chars_loop 0 h txt s = Some (s, txt, False)"
| "wide_chars_loop (Suc n) h txt s = do {
     (s, wc) \<leftarrow> source_getwc_utf8 h s;
     if wc = WEOF then Some (s, txt, True) else wide_chars_loop n h (txt @ [wc]) s }"

definition scan_wide_chars :: "'f scan_env \<Rightarrow> 'w host \<Rightarrow> ('w, 'f) scan_source \<Rightarrow> int \<Rightarrow> bool \<Rightarrow> bool \<Rightarrow>
    (('w, 'f) scan_source \<times> int) option" where
  "scan_wide_chars env h s wd suppress allocate =
     (let wd = (if wd = 0 then 1 else wd);
          block = (\<not> suppress \<and> allocate \<and> wd \<ge> 128)
      in if block \<and> \<not> sc_malloc_ok env ((nat wd + 1) * 4) then Some (s\<lparr>scan_errno := ENOMEM\<rparr>, -1)
         else do {
           (s, txt, ended) \<leftarrow> wide_chars_loop (nat wd) h [] s;
           if ended \<and> txt = [] then Some (s, -2)
           else if suppress then Some (s, 0)
           else if \<not> allocate then Some (put_store (StoreWide txt) s, 1)
           else if block then
             if ended then None else Some (put_store (StoreWideBlock (txt @ [0])) s, 1)
           else if \<not> sc_malloc_ok env ((length txt + 1) * 4) then Some (s\<lparr>scan_errno := ENOMEM\<rparr>, -1)
           else Some (put_store (StoreWideBlock (txt @ [0])) s, 1) })"

subsection \<open>The format\<close>

text \<open>What stands between the percent sign and the letter.\<close>

record directive =
  d_suppress :: bool
  d_allocate :: bool
  d_width :: int
  d_length :: scan_length

definition alloc_letter :: "string \<Rightarrow> bool" where
  "alloc_letter fmt \<longleftrightarrow> starts_with (CHR ''a'') fmt \<and>
     (starts_with (CHR ''s'') (tl fmt) \<or> starts_with (CHR ''c'') (tl fmt) \<or> starts_with (CHR ''['') (tl fmt))"

lemma parse_width_from_shorter: "length (fst (parse_width_from wd fmt)) \<le> length fmt"
  by (induction wd fmt rule: parse_width_from.induct) auto

lemma scan_parse_width_shorter: "length (fst (scan_parse_width fmt)) \<le> length fmt"
  by (simp add: scan_parse_width_def parse_width_from_shorter)

lemma scan_parse_width_digit: "scan_isdigit c \<Longrightarrow> length (fst (scan_parse_width (c # fmt))) < length (c # fmt)"
  using parse_width_from_shorter [of "wrap_int (uchar c - 48)" fmt] by (simp add: scan_parse_width_def)

lemma scan_parse_length_shorter: "snd (scan_parse_length fmt) \<noteq> SCAN_LENGTH_NONE \<Longrightarrow>
  length (fst (scan_parse_length fmt)) < length fmt"
  by (cases fmt) (auto simp: scan_parse_length_def starts_with_def split: if_splits)

text \<open>\<^term>\<open>None\<close> where the format ends.\<close>

function modifiers_loop :: "string \<Rightarrow> directive \<Rightarrow> (string \<times> directive) option" where
  "modifiers_loop fmt d =
     (case fmt of
        [] \<Rightarrow> None
      | c # fmt' \<Rightarrow>
          if scan_isdigit c
          then modifiers_loop (fst (scan_parse_width fmt)) (d\<lparr>d_width := snd (scan_parse_width fmt)\<rparr>)
          else if \<not> d_suppress d \<and> c = CHR ''m'' then modifiers_loop fmt' (d\<lparr>d_allocate := True\<rparr>)
          else if \<not> d_suppress d \<and> alloc_letter fmt then modifiers_loop fmt' (d\<lparr>d_allocate := True\<rparr>)
          else if c = CHR ''q'' then modifiers_loop fmt' (d\<lparr>d_length := SCAN_LENGTH_LL\<rparr>)
          else if c = CHR ''w'' then
            let fast = starts_with (CHR ''f'') fmt';
                fmt' = (if fast then tl fmt' else fmt')
            in modifiers_loop (fst (scan_parse_width fmt'))
                 (d\<lparr>d_length := scan_w_to_length (snd (scan_parse_width fmt')) fast\<rparr>)
          else if snd (scan_parse_length fmt) \<noteq> SCAN_LENGTH_NONE
          then modifiers_loop (fst (scan_parse_length fmt)) (d\<lparr>d_length := snd (scan_parse_length fmt)\<rparr>)
          else Some (fmt, d))"
  by pat_completeness auto
termination
  by (relation "measure (\<lambda>(fmt, d). length fmt)")
    (auto simp: less_Suc_eq_le intro: le_trans [OF scan_parse_width_shorter]
      dest: scan_parse_width_digit scan_parse_length_shorter)

declare modifiers_loop.simps [simp del]

definition parse_directive :: "string \<Rightarrow> (string \<times> directive) option" where
  "parse_directive fmt =
     (let suppress = starts_with (CHR ''*'') fmt;
          fmt = (if suppress then tl fmt else fmt);
          allocate = (\<not> suppress \<and> (starts_with (CHR ''m'') fmt \<or> alloc_letter fmt));
          fmt = (if allocate then tl fmt else fmt)
      in modifiers_loop fmt
           \<lparr>d_suppress = suppress, d_allocate = allocate, d_width = 0, d_length = SCAN_LENGTH_NONE\<rparr>)"

text \<open>One conversion, with the format behind its letter: the source, the format behind the conversion
  and the result; the inner \<^term>\<open>None\<close> is a letter that is no conversion.\<close>

definition scan_conversion :: "'f scan_env \<Rightarrow> 'w host \<Rightarrow> char \<Rightarrow> directive \<Rightarrow> string \<Rightarrow> ('w, 'f) scan_source \<Rightarrow>
    (('w, 'f) scan_source \<times> string \<times> int) option option" where
  "scan_conversion env h spec d fmt s =
     (let wd = d_width d; suppress = d_suppress d; len = d_length d; allocate = d_allocate d;
          conv = map_option (\<lambda>(s, result). Some (s, fmt, result))
      in if spec = CHR ''D'' then conv (scan_integer h s wd 10 True SCAN_LENGTH_L suppress)
         else if spec = CHR ''d'' then conv (scan_integer h s wd 10 True len suppress)
         else if spec = CHR ''i'' then conv (scan_integer h s wd 0 True len suppress)
         else if spec = CHR ''b'' then conv (scan_integer h s wd 2 False len suppress)
         else if spec = CHR ''U'' then conv (scan_integer h s wd 10 False SCAN_LENGTH_L suppress)
         else if spec = CHR ''u'' then conv (scan_integer h s wd 10 False len suppress)
         else if spec = CHR ''x'' \<or> spec = CHR ''X'' \<or> spec = CHR ''p''
         then conv (scan_integer h s wd 16 False (if spec = CHR ''p'' then SCAN_LENGTH_POINTER else len) suppress)
         else if spec = CHR ''O'' then conv (scan_integer h s wd 8 False SCAN_LENGTH_L suppress)
         else if spec = CHR ''o'' then conv (scan_integer h s wd 8 False len suppress)
         else if spec \<in> set ''aAeEfFgG'' then conv (scan_float env h s wd len suppress)
         else if spec = CHR ''s'' then
           conv (if len = SCAN_LENGTH_L then scan_wide_string env h s wd suppress allocate
                 else scan_string env h s wd suppress allocate)
         else if spec = CHR ''c'' then
           conv (if len = SCAN_LENGTH_L then scan_wide_chars env h s wd suppress allocate
                 else scan_chars env h s wd suppress allocate)
         else if spec = CHR ''['' then
           map_option Some (if len = SCAN_LENGTH_L then scan_wide_set env h s fmt wd suppress allocate
                            else scan_set env h s fmt wd suppress allocate)
         else if spec = CHR ''n'' then
           Some (Some (if suppress then s else assign_signed len (sint (of_nat (ss_consumed s) :: u64)) s, fmt, 0))
         else Some None)"

text \<open>The result of a call that ends early: \<open>EOF\<close> where nothing was assigned.\<close>

definition scan_ended :: "int \<Rightarrow> int" where
  "scan_ended assigned = (if assigned = 0 then CRT_Stdio.EOF else assigned)"

partial_function (option) vscan_core :: "'f scan_env \<Rightarrow> 'w host \<Rightarrow> string \<Rightarrow> int \<Rightarrow> ('w, 'f) scan_source \<Rightarrow>
    (('w, 'f) scan_source \<times> int) option" where
  "vscan_core env h fmt assigned s =
     (if fmt = [] then Some (s, assigned)
      else if scan_isspace (uchar (hd fmt))
      then Option.bind (source_skip_space h s)
             (vscan_core env h (dropWhile (\<lambda>c. scan_isspace (uchar c)) fmt) assigned)
      else if hd fmt \<noteq> CHR ''%'' \<or> starts_with (CHR ''%'') (tl fmt)
      then if snd (source_getc h s) \<noteq> uchar (hd fmt)
           then Some (source_ungetc h (fst (source_getc h s)) (snd (source_getc h s)), assigned)
           else vscan_core env h (if hd fmt = CHR ''%'' then tl (tl fmt) else tl fmt) assigned (fst (source_getc h s))
      else case parse_directive (tl fmt) of
             None \<Rightarrow> Some (s, scan_ended assigned)
           | Some x \<Rightarrow>
               Option.bind (scan_conversion env h (hd (fst x)) (snd x) (tl (fst x)) s) (\<lambda>r.
                 case r of
                   None \<Rightarrow> Some (s, assigned)
                 | Some y \<Rightarrow>
                     if snd (snd y) = -2 then Some (fst y, scan_ended assigned)
                     else if snd (snd y) < 0 then Some (fst y, assigned)
                     else vscan_core env h (fst (snd y)) (assigned + snd (snd y)) (fst y)))"

definition vfscanf :: "'f scan_env \<Rightarrow> 'w host \<Rightarrow> 'w FILE \<Rightarrow> string \<Rightarrow> int \<Rightarrow> (('w, 'f) scan_source \<times> int) option" where
  "vfscanf env h f fmt err = vscan_core env h fmt 0
     \<lparr>ss_string = [], ss_stream = Some f, string_mode = False, ss_pos = 0, ss_consumed = 0, ss_stores = [], scan_errno = err\<rparr>"

definition vsscanf :: "'f scan_env \<Rightarrow> 'w host \<Rightarrow> string \<Rightarrow> string \<Rightarrow> int \<Rightarrow> (('w, 'f) scan_source \<times> int) option" where
  "vsscanf env h s fmt err = vscan_core env h fmt 0
     \<lparr>ss_string = s, ss_stream = None, string_mode = True, ss_pos = 0, ss_consumed = 0, ss_stores = [], scan_errno = err\<rparr>"

end
