(* ===== verification/CRT_Scan.thy ===== *)
theory CRT_Scan
  imports CRT_Scanf
begin

text \<open>
  What \<^verbatim>\<open>libc/src/scanf.c\<close> reads. The conversions are proved once in the locale \<open>scan_input\<close>, over
  any source that gives the bytes of a text one after the other and takes the last one back; strings
  and streams over a regular file are such sources. What \<open>printf\<close> writes with a format, \<open>scanf\<close> reads
  with the same format.
\<close>

subsection \<open>The interface of a source\<close>

lemma uchar_neq_EOF: "uchar c \<noteq> CRT_Stdio.EOF"
  using uchar_bounds [of c] by (simp add: CRT_Stdio.EOF_def)

lemma scan_isspace_char [simp]: "scan_isspace (uchar c) \<longleftrightarrow> is_space_char c"
  by (simp add: scan_isspace_def is_space_char_def)

text \<open>Reading and putting back touch neither what was stored nor the error number.\<close>

definition scan_frame :: "('w, 'f) scan_source \<Rightarrow> ('w, 'f) scan_source \<Rightarrow> bool" where
  "scan_frame s s' \<longleftrightarrow> ss_stores s' = ss_stores s \<and> scan_errno s' = scan_errno s"

lemma scan_frame_refl [simp]: "scan_frame s s" and scan_frame_trans: "scan_frame s t \<Longrightarrow> scan_frame t u \<Longrightarrow> scan_frame s u"
  by (simp_all add: scan_frame_def)

lemma scan_frame_getc: "scan_frame s (fst (source_getc h s))"
  by (simp add: scan_frame_def source_getc_def Let_def split: option.split prod.split)

lemma scan_frame_ungetc: "scan_frame s (source_ungetc h s ch)"
  by (simp add: scan_frame_def source_ungetc_def Let_def)

lemma scan_frame_read:
  assumes "source_getc h s = (s', ch)"
  shows "scan_frame s s'" "scan_frame s (source_ungetc h s' ch')"
proof -
  show "scan_frame s s'" using scan_frame_getc [of s h] assms by simp
  then show "scan_frame s (source_ungetc h s' ch')" using scan_frame_ungetc scan_frame_trans by blast
qed

lemma token_step_space:
  assumes "is_space_char c"
  shows "token_step (uchar c) n 10 fl = (False, 10, fl)"
proof -
  have "uint (uch32 c) = 32 \<or> 9 \<le> uint (uch32 c) \<and> uint (uch32 c) \<le> 13"
    using assms unfolding is_space_char_def isspace_iff word_le_def by (auto dest: arg_cong [where f = uint])
  then have "scan_integer_digit_value (uchar c) = -1"
    and "uchar c \<noteq> 48" "uchar c \<noteq> 98" "uchar c \<noteq> 66" "uchar c \<noteq> 120" "uchar c \<noteq> 88" "uchar c \<noteq> 43" "uchar c \<noteq> 45"
    unfolding scan_integer_digit_value_def uint_uch32 by presburger+
  then show ?thesis by (simp add: token_step_def token_digit_def Let_def)
qed

lemma token_step_digit:
  assumes "decimal_char c" "\<not> PFXOK fl" "\<not> PFBOK fl"
  shows "\<exists>fl'. token_step (uchar c) n 10 fl = (True, 10, fl') \<and> \<not> NDIGITS fl' \<and> \<not> PFXOK fl' \<and> \<not> PFBOK fl'"
proof -
  obtain d where d: "c = char_of (48 + d :: nat)" "d < 10" using assms(1) by (auto simp: decimal_char_def)
  then have "uchar c = 48 + int d" by (simp add: of_nat_of_char [symmetric, where 'a = int])
  then show ?thesis using d(2) assms(2,3)
    by (auto simp: token_step_def token_digit_def scan_integer_digit_value_def digit_seen_def Let_def)
qed

lemma decimal_letters:
  assumes "decimal_char c"
  shows "c \<notin> {CHR ''b'', CHR ''B'', CHR ''x'', CHR ''X''}"
proof -
  have "strto_digit (CHR ''b'') = Some 11" "strto_digit (CHR ''B'') = Some 11"
    "strto_digit (CHR ''x'') = Some 33" "strto_digit (CHR ''X'') = Some 33" by code_simp+
  then show ?thesis using decimal_cases(4) [OF assms] by auto
qed

text \<open>What \<open>%ld\<close> prints.\<close>

definition long_text :: "int \<Rightarrow> string" where "long_text v = number_text v 1"

lemma long_text_start: obtains c cs where "long_text v = c # cs" "\<not> is_space_char c"
proof -
  obtain d ds where d: "dec (nat \<bar>v\<bar>) = d # ds" using decimal_dec [of "nat \<bar>v\<bar>"] by (cases "dec (nat \<bar>v\<bar>)") auto
  then have "\<not> is_space_char d" using decimal_dec [of "nat \<bar>v\<bar>"] decimal_cases(1) by simp
  moreover have "\<not> is_space_char (CHR ''-'')" by code_simp
  ultimately show ?thesis using that d by (cases "v < 0") (auto simp: long_text_def number_text_def)
qed

text \<open>Numbers and words, each with a space behind it: the format that prints and reads them, the
  arguments of \<open>printf\<close>, the text, and what \<open>scanf\<close> ss_stores.\<close>

datatype io_item = IoLong int | IoWord string

primrec io_item_format :: "io_item \<Rightarrow> string" where
  "io_item_format (IoLong v) = ''%ld ''"
| "io_item_format (IoWord w) = ''%s ''"

primrec io_item_arg :: "io_item \<Rightarrow> 'd printf_arg" where
  "io_item_arg (IoLong v) = ArgLong (word_of_int v)"
| "io_item_arg (IoWord w) = ArgString (Some w)"

primrec io_item_text :: "io_item \<Rightarrow> string" where
  "io_item_text (IoLong v) = long_text v"
| "io_item_text (IoWord w) = w"

primrec io_item_store :: "io_item \<Rightarrow> 'f scan_store" where
  "io_item_store (IoLong v) = StoreSigned SCAN_LENGTH_L v"
| "io_item_store (IoWord w) = StoreString (w @ [NUL])"

primrec io_item_ok :: "io_item \<Rightarrow> bool" where
  "io_item_ok (IoLong v) \<longleftrightarrow> \<bar>v\<bar> < 2 ^ 63"
| "io_item_ok (IoWord w) \<longleftrightarrow> w \<noteq> [] \<and> list_all (\<lambda>c. \<not> is_space_char c \<and> c \<noteq> NUL) w \<and> length w < 2 ^ 31"

definition io_format :: "io_item list \<Rightarrow> string" where "io_format ios = concat (map io_item_format ios)"
definition io_text :: "io_item list \<Rightarrow> string" where "io_text ios = concat (map (\<lambda>i. io_item_text i @ '' '') ios)"

lemma io_simps [simp]:
  "io_format [] = []" "io_format (i # ios) = io_item_format i @ io_format ios"
  "io_text [] = []" "io_text (i # ios) = io_item_text i @ '' '' @ io_text ios"
  by (simp_all add: io_format_def io_text_def)

lemma item_text_start: "io_item_ok i \<Longrightarrow> \<exists>c cs. io_item_text i = c # cs \<and> \<not> is_space_char c"
  by (cases i) (auto simp: neq_Nil_conv intro: long_text_start)

lemma io_text_start: "list_all io_item_ok ios \<Longrightarrow> io_text ios = [] \<or> \<not> is_space_char (hd (io_text ios))"
  by (cases ios) (auto dest: item_text_start)

lemma io_format_start: "io_format ios = [] \<or> hd (io_format ios) = CHR ''%''"
  by (cases ios; cases "hd ios") auto

text \<open>The directives of the format.\<close>

lemma scan_chars_kinds:
  "\<not> is_space_char (CHR ''%'')" "is_space_char (CHR '' '')" "\<not> scan_isspace 37" "scan_isspace 32"
  "\<not> scan_isdigit (CHR ''l'')" "\<not> scan_isdigit (CHR ''d'')" "\<not> scan_isdigit (CHR ''s'')"
  by code_simp+

lemma parse_directive_long: "parse_directive (CHR ''l'' # CHR ''d'' # fmt) =
  Some (CHR ''d'' # fmt, \<lparr>d_suppress = False, d_allocate = False, d_width = 0, d_length = SCAN_LENGTH_L\<rparr>)"
proof -
  have "modifiers_loop (CHR ''d'' # fmt) d = Some (CHR ''d'' # fmt, d)" for d
    by (subst modifiers_loop.simps) (simp add: scan_chars_kinds alloc_letter_def scan_parse_length_def starts_with_def numeral_2_eq_2)
  then show ?thesis
    unfolding parse_directive_def
    by (subst modifiers_loop.simps) (simp add: scan_chars_kinds alloc_letter_def scan_parse_length_def starts_with_def numeral_2_eq_2)
qed

lemma parse_directive_string: "parse_directive (CHR ''s'' # fmt) =
  Some (CHR ''s'' # fmt, \<lparr>d_suppress = False, d_allocate = False, d_width = 0, d_length = SCAN_LENGTH_NONE\<rparr>)"
  unfolding parse_directive_def
  by (subst modifiers_loop.simps) (simp add: scan_chars_kinds alloc_letter_def scan_parse_length_def starts_with_def numeral_2_eq_2)

locale scan_input =
  fixes h :: "'w host" and scan_text :: "('w, 'f) scan_source \<Rightarrow> string" and scan_ok :: "('w, 'f) scan_source \<Rightarrow> bool"
  assumes read_byte: "scan_ok s \<Longrightarrow> scan_text s = c # cs \<Longrightarrow> \<exists>s'. source_getc h s = (s', uchar c) \<and>
      scan_ok s' \<and> scan_text s' = cs \<and> scan_ok (source_ungetc h s' (uchar c)) \<and>
      scan_text (source_ungetc h s' (uchar c)) = c # cs"
    and read_end: "scan_ok s \<Longrightarrow> scan_text s = [] \<Longrightarrow>
      \<exists>s'. source_getc h s = (s', CRT_Stdio.EOF) \<and> scan_ok s' \<and> scan_text s' = []"
    and store_ok: "scan_ok s \<Longrightarrow> scan_ok (s\<lparr>ss_stores := xs\<rparr>)"
      "scan_text (s\<lparr>ss_stores := xs\<rparr>) = scan_text s"
begin

text \<open>A source with the text \<open>t\<close> left.\<close>

definition at_text :: "('w, 'f) scan_source \<Rightarrow> string \<Rightarrow> ('w, 'f) scan_source \<Rightarrow> bool" where
  "at_text s t s' \<longleftrightarrow> scan_ok s' \<and> scan_text s' = t \<and> scan_frame s s'"

lemma at_text_trans: "at_text s t s' \<Longrightarrow> at_text s' u s'' \<Longrightarrow> at_text s u s''"
  by (auto simp: at_text_def intro: scan_frame_trans)

lemma read_byteE:
  assumes "scan_ok s" "scan_text s = c # cs"
  obtains s' where "source_getc h s = (s', uchar c)" "uchar c \<noteq> CRT_Stdio.EOF" "at_text s cs s'"
    "at_text s (c # cs) (source_ungetc h s' (uchar c))"
proof -
  obtain s' where "source_getc h s = (s', uchar c)" "scan_ok s'" "scan_text s' = cs"
    "scan_ok (source_ungetc h s' (uchar c))" "scan_text (source_ungetc h s' (uchar c)) = c # cs"
    using read_byte [OF assms] by blast
  moreover have "uchar c \<noteq> CRT_Stdio.EOF" using uchar_bounds [of c] by (simp add: CRT_Stdio.EOF_def)
  ultimately show ?thesis using that [of s'] scan_frame_read [of h s s' "uchar c"] by (simp add: at_text_def)
qed

lemma read_endE:
  assumes "scan_ok s" "scan_text s = []"
  obtains s' where "source_getc h s = (s', CRT_Stdio.EOF)" "at_text s [] s'"
    "source_ungetc h s' CRT_Stdio.EOF = s'"
proof -
  obtain s' where "source_getc h s = (s', CRT_Stdio.EOF)" "scan_ok s'" "scan_text s' = []"
    using read_end [OF assms] by blast
  then show ?thesis
    using that [of s'] scan_frame_read(1) [of h s s' "CRT_Stdio.EOF"] by (simp add: at_text_def source_ungetc_def)
qed

lemma skip_space:
  "scan_ok s \<Longrightarrow> \<exists>s'. source_skip_space h s = Some s' \<and> at_text s (dropWhile is_space_char (scan_text s)) s'"
proof (induction "scan_text s" arbitrary: s)
  case Nil
  then obtain s' where "source_getc h s = (s', CRT_Stdio.EOF)" "at_text s [] s'"
    "source_ungetc h s' CRT_Stdio.EOF = s'" using read_endE [OF Nil.prems] by metis
  then show ?case using Nil by (subst source_skip_space.simps) simp
next
  case (Cons c cs)
  from Cons.hyps(2) obtain s' where s': "source_getc h s = (s', uchar c)" "uchar c \<noteq> CRT_Stdio.EOF" "at_text s cs s'"
    "at_text s (c # cs) (source_ungetc h s' (uchar c))" using read_byteE [OF Cons.prems] by metis
  show ?case
  proof (cases "is_space_char c")
    case True
    have "\<exists>s''. source_skip_space h s' = Some s'' \<and> at_text s' (dropWhile is_space_char cs) s''"
      using Cons.hyps(1) [of s'] s'(3) by (simp add: at_text_def)
    then show ?thesis using s' True Cons.hyps(2) [symmetric] at_text_trans [OF s'(3)]
      by (subst source_skip_space.simps) auto
  next
    case False
    then show ?thesis using s' Cons.hyps(2) [symmetric] by (subst source_skip_space.simps) simp
  qed
qed

lemma peek_byte:
  assumes "scan_ok s" "scan_text s = c # cs"
  shows "\<exists>s'. source_peekc h s = (s', uchar c) \<and> uchar c \<noteq> CRT_Stdio.EOF \<and> at_text s (c # cs) s'"
  by (rule read_byteE [OF assms]) (simp add: source_peekc_def)

text \<open>The bytes up to one that stops.\<close>

lemma text_loop_reads:
  assumes "scan_ok s" "scan_text s = u @ v" "list_all (\<lambda>c. \<not> stops (uchar c)) u" "v \<noteq> [] \<Longrightarrow> stops (uchar (hd v))"
  shows "\<exists>s'. text_loop env h stops 0 False cap heap acc s = Some (s', Some (acc @ u, heap)) \<and> at_text s v s'"
  using assms
proof (induction u arbitrary: s acc)
  case Nil
  show ?case
  proof (cases v)
    case Nil
    then have t: "scan_text s = []" using Nil.prems(2) by simp
    obtain s' where "source_getc h s = (s', CRT_Stdio.EOF)" "at_text s [] s'" by (rule read_endE [OF Nil.prems(1) t])
    then show ?thesis using \<open>v = []\<close> by (subst text_loop.simps) simp
  next
    case (Cons c cs)
    obtain s' where "source_getc h s = (s', uchar c)" "uchar c \<noteq> CRT_Stdio.EOF"
      "at_text s (c # cs) (source_ungetc h s' (uchar c))"
      using read_byteE [OF Nil.prems(1)] Nil.prems(2) Cons by auto
    then show ?thesis using Nil.prems(4) Cons by (subst text_loop.simps) simp
  qed
next
  case (Cons c u)
  obtain s' where s': "source_getc h s = (s', uchar c)" "uchar c \<noteq> CRT_Stdio.EOF" "at_text s (u @ v) s'"
    using read_byteE [OF Cons.prems(1)] Cons.prems(2) by auto
  have ok: "scan_ok s'" "scan_text s' = u @ v" using s'(3) by (simp_all add: at_text_def)
  show ?case
    using Cons.IH [OF ok, of "acc @ [c]"] s' Cons.prems(3,4) at_text_trans [OF s'(3)]
    by (subst text_loop.simps) auto
qed

lemma scan_string_reads:
  assumes "scan_ok s" "scan_text s = sp @ u @ v" "list_all is_space_char sp"
    and "u \<noteq> []" "list_all (\<lambda>c. \<not> is_space_char c) u" "v \<noteq> [] \<Longrightarrow> is_space_char (hd v)"
  shows "\<exists>s'. scan_string env h s 0 False False = Some (put_store (StoreString (u @ [NUL])) s', 1) \<and> at_text s v s'"
proof -
  obtain c cs where u: "u = c # cs" "\<not> is_space_char c" using assms(4,5) by (cases u) auto
  have "dropWhile is_space_char (scan_text s) = u @ v"
    using assms(3) u by (auto simp: assms(2) list_all_iff dropWhile_append)
  then obtain s1 where s1: "source_skip_space h s = Some s1" "at_text s (u @ v) s1" using skip_space [OF assms(1)] by auto
  then obtain s2 where s2: "source_peekc h s1 = (s2, uchar c)" "uchar c \<noteq> CRT_Stdio.EOF" "at_text s1 (u @ v) s2"
    using peek_byte [of s1 c "cs @ v"] u by (auto simp: at_text_def)
  have "list_all (\<lambda>c. \<not> scan_isspace (uchar c)) u" "v \<noteq> [] \<Longrightarrow> scan_isspace (uchar (hd v))" using assms(5,6) by simp_all
  then obtain s3 where "text_loop env h scan_isspace 0 False 256 False [] s2 = Some (s3, Some (u, False))" "at_text s2 v s3"
    using text_loop_reads [of s2 u v scan_isspace env 256 False "[]"] s2(3) by (auto simp: at_text_def)
  moreover from this s1(2) s2(3) have "at_text s v s3" by (blast intro: at_text_trans)
  ultimately show ?thesis
    using s1(1) s2(1,2) u by (intro exI [of _ s3]) (simp add: scan_string_def finish_text_def)
qed

text \<open>A decimal number: its digits, up to a space or the end.\<close>

lemma token_loop_digits:
  assumes "scan_ok s" "scan_text s = ds @ v" "list_all decimal_char ds" "v \<noteq> [] \<Longrightarrow> is_space_char (hd v)"
    and "length ds \<le> n" "ds = [] \<longrightarrow> \<not> NDIGITS fl" "\<not> PFXOK fl" "\<not> PFBOK fl"
  shows "\<exists>s' fl'. token_loop n h s token 10 fl = (s', token @ ds, 10, fl') \<and> \<not> NDIGITS fl' \<and> at_text s v s'"
  using assms
proof (induction ds arbitrary: s n token fl)
  case Nil
  show ?case
  proof (cases n)
    case 0
    then show ?thesis using Nil.prems by (simp add: at_text_def)
  next
    case (Suc k)
    show ?thesis
    proof (cases v)
      case Nil
      then have t: "scan_text s = []" using Nil.prems(2) by simp
      obtain s' where "source_getc h s = (s', CRT_Stdio.EOF)" "at_text s [] s'" by (rule read_endE [OF Nil.prems(1) t])
      then show ?thesis using Suc Nil Nil.prems(6) by simp
    next
      case (Cons c cs)
      then obtain s' where "source_getc h s = (s', uchar c)" "uchar c \<noteq> CRT_Stdio.EOF"
        "at_text s (c # cs) (source_ungetc h s' (uchar c))"
        using read_byteE [OF Nil.prems(1)] Nil.prems(2) by auto
      moreover have "token_step (uchar c) (length token) 10 fl = (False, 10, fl)"
        using Nil.prems(4) Cons by (intro token_step_space) simp
      ultimately show ?thesis using Suc Cons Nil.prems(6) by simp
    qed
  qed
next
  case (Cons c ds)
  obtain k where k: "n = Suc k" using Cons.prems(5) by (cases n) auto
  obtain s' where s': "source_getc h s = (s', uchar c)" "uchar c \<noteq> CRT_Stdio.EOF" "at_text s (ds @ v) s'"
    using read_byteE [OF Cons.prems(1)] Cons.prems(2) by auto
  obtain fl1 where fl1: "token_step (uchar c) (length token) 10 fl = (True, 10, fl1)" "\<not> NDIGITS fl1" "\<not> PFXOK fl1" "\<not> PFBOK fl1"
    using token_step_digit [of c fl "length token"] Cons.prems(3,7,8) by auto
  have ok: "scan_ok s'" "scan_text s' = ds @ v" using s'(3) by (simp_all add: at_text_def)
  obtain s'' fl' where "token_loop k h s' (token @ [c]) 10 fl1 = (s'', (token @ [c]) @ ds, 10, fl')" "\<not> NDIGITS fl'"
    "at_text s' v s''"
    using Cons.IH [OF ok, of k fl1 "token @ [c]"] Cons.prems k fl1 by auto
  with s' k fl1(1) at_text_trans [OF s'(3)] show ?case by auto
qed

lemma scan_integer_token_reads:
  assumes "scan_ok s" "scan_text s = long_text v @ w" "w \<noteq> [] \<Longrightarrow> is_space_char (hd w)" "\<bar>v\<bar> < 2 ^ 63"
  shows "\<exists>s'. scan_integer_token h s 0 10 = (s', Some (long_text v, 10)) \<and> at_text s w s'"
proof -
  define sg where "sg = (if v < 0 then ''-'' else [])"
  define ds where "ds = dec (nat \<bar>v\<bar>)"
  have t: "long_text v = sg @ ds"
    using decimal_dec [of "nat \<bar>v\<bar>"] by (cases "dec (nat \<bar>v\<bar>)") (auto simp: long_text_def number_text_def sg_def ds_def)
  have ds: "list_all decimal_char ds" "ds \<noteq> []" using decimal_dec by (simp_all add: ds_def)
  have "nat \<bar>v\<bar> < 10 ^ 20" using assms(4) by simp
  then have len: "length ds \<le> 254" using length_dec [of "nat \<bar>v\<bar>" 20] by (simp add: ds_def)
  define fl where "fl = \<lparr>SIGNOK = True, HAVESIGN = False, NDIGITS = True, PFXOK = False, PFBOK = False, NZDIGITS = True\<rparr>"
  obtain s' fl' where loop: "token_loop 255 h s [] 10 fl = (s', sg @ ds, 10, fl')" "\<not> NDIGITS fl'" "at_text s w s'"
  proof (cases "v < 0")
    case False
    then have "sg = []" by (simp add: sg_def)
    then show ?thesis
      using that token_loop_digits [OF assms(1) _ ds(1) assms(3), of 255 fl "[]"] assms(2) ds(2) len by (auto simp: t fl_def)
  next
    case True
    then have sg: "sg = ''-''" by (simp add: sg_def)
    then have "scan_text s = CHR ''-'' # ds @ w" using assms(2) t by simp
    then obtain s1 where s1: "source_getc h s = (s1, uchar (CHR ''-''))" "uchar (CHR ''-'') \<noteq> CRT_Stdio.EOF" "at_text s (ds @ w) s1"
      by (rule read_byteE [OF assms(1)])
    have step: "token_step (uchar (CHR ''-'')) 0 10 fl = (True, 10, fl\<lparr>SIGNOK := False, HAVESIGN := True\<rparr>)"
      by (simp add: token_step_def fl_def)
    have n: "255 = Suc 254" by simp
    have "token_loop 255 h s [] 10 fl = token_loop 254 h s1 ''-'' 10 (fl\<lparr>SIGNOK := False, HAVESIGN := True\<rparr>)"
      unfolding n token_loop.simps using s1(1,2) step by (simp add: char_of_def bit_Suc_0_iff numeral_eq_Suc)
    moreover obtain s' fl' where "token_loop 254 h s1 ''-'' 10 (fl\<lparr>SIGNOK := False, HAVESIGN := True\<rparr>) =
        (s', ''-'' @ ds, 10, fl')" "\<not> NDIGITS fl'" "at_text s1 w s'"
      using token_loop_digits [of s1 ds w 254 "fl\<lparr>SIGNOK := False, HAVESIGN := True\<rparr>" "''-''"] s1(3) ds assms(3) len
      by (auto simp: at_text_def fl_def)
    ultimately show ?thesis using that at_text_trans [OF s1(3)] sg by auto
  qed
  have "decimal_char (last ds)" using ds by (simp add: list_all_iff)
  then have last: "last (sg @ ds) \<notin> {CHR ''b'', CHR ''B'', CHR ''x'', CHR ''X''}"
    using ds(2) decimal_letters by auto
  show ?thesis
    using loop last ds(2) by (auto simp: scan_integer_token_def t fl_def)
qed

lemma scan_long_reads:
  assumes "scan_ok s" "scan_text s = sp @ long_text v @ w" "list_all is_space_char sp"
    and "w \<noteq> [] \<Longrightarrow> is_space_char (hd w)" "\<bar>v\<bar> < 2 ^ 63"
  shows "\<exists>s'. scan_integer h s 0 10 True SCAN_LENGTH_L False = Some (put_store (StoreSigned SCAN_LENGTH_L v) s', 1) \<and> at_text s w s'"
proof -
  let ?t = "long_text v"
  obtain c cs where c: "?t = c # cs" "\<not> is_space_char c" by (rule long_text_start)
  have "dropWhile is_space_char (scan_text s) = ?t @ w"
    using assms(3) c by (auto simp: assms(2) list_all_iff dropWhile_append)
  then obtain s1 where s1: "source_skip_space h s = Some s1" "at_text s (?t @ w) s1" using skip_space [OF assms(1)] by auto
  then obtain s2 where s2: "source_peekc h s1 = (s2, uchar c)" "uchar c \<noteq> CRT_Stdio.EOF" "at_text s1 (?t @ w) s2"
    using peek_byte [of s1 c "cs @ w"] c by (auto simp: at_text_def)
  obtain s3 where s3: "scan_integer_token h s2 0 10 = (s3, Some (?t, 10))" "at_text s2 w s3"
    using scan_integer_token_reads [of s2 v w] s2(3) assms(4,5) by (auto simp: at_text_def)
  have "at_text s w s3" using s1(2) s2(3) s3(2) by (blast intro: at_text_trans)
  moreover have "cstr (mem_of 1 (?t @ [NUL])) 1 ?t" using number_text_NUL by (intro cstr_mem_of) (simp add: long_text_def)
  then have "strtoimax (mem_of 1 (?t @ [NUL])) 1 10 e = Some (v, e, 1 + length ?t)" for e
    using strtol_number_text [OF assms(5)] by (simp add: strtoimax_def strtoll_def long_text_def)
  moreover have "sint (of_int v :: 64 word) = v" using assms(5) by (simp add: signed_of_int signed_take_bit_int_eq_self)
  moreover have "s3\<lparr>scan_errno := scan_errno s3\<rparr> = s3" by (cases s3) simp
  ultimately show ?thesis
    using s1(1) s2(1,2) s3(1) c(1)
    by (intro exI [of _ s3]) (simp add: scan_integer_def assign_signed_def del: of_int_of_nat_eq)
qed

text \<open>One item of the format, and all of them.\<close>

lemma scan_item:
  assumes "scan_ok s" "scan_text s = io_item_text i @ '' '' @ w" "io_item_ok i" "w = [] \<or> \<not> is_space_char (hd w)"
    and "fmt = [] \<or> hd fmt = CHR ''%''"
  shows "\<exists>s'. vscan_core env h (io_item_format i @ fmt) n s = vscan_core env h fmt (n + 1) s' \<and> scan_ok s' \<and>
    scan_text s' = w \<and> ss_stores s' = ss_stores s @ [io_item_store i] \<and> scan_errno s' = scan_errno s"
proof -
  obtain c fmt' d where c: "io_item_format i = CHR ''%'' # fmt'" "fmt' \<noteq> []" "hd fmt' \<noteq> CHR ''%''" "parse_directive (fmt' @ fmt) = Some (c # '' '' @ fmt, d)"
    and conv: "\<exists>s1. scan_conversion env h c d ('' '' @ fmt) s = Some (Some (put_store (io_item_store i) s1, '' '' @ fmt, 1)) \<and>
      at_text s ('' '' @ w) s1"
  proof (cases i)
    case (IoLong v)
    show ?thesis
      by (rule that [of "''ld ''" "CHR ''d''"], insert scan_long_reads [of s "[]" v "'' '' @ w"] assms(1-3) IoLong)
        (auto simp: parse_directive_long scan_conversion_def scan_chars_kinds)
  next
    case (IoWord u)
    have "\<exists>s'. scan_string env h s 0 False False = Some (put_store (StoreString (u @ [NUL])) s', 1) \<and> at_text s ('' '' @ w) s'"
      using scan_string_reads [of s "[]" u "'' '' @ w"] assms(1-3) IoWord by (auto simp: list_all_iff scan_chars_kinds)
    then show ?thesis
      by (intro that [of "''s ''" "CHR ''s''"]) (auto simp: IoWord parse_directive_string scan_conversion_def)
  qed
  obtain s1 where s1: "scan_conversion env h c d ('' '' @ fmt) s = Some (Some (put_store (io_item_store i) s1, '' '' @ fmt, 1))"
    "at_text s ('' '' @ w) s1" using conv by blast
  let ?s1 = "put_store (io_item_store i) s1"
  have ok: "scan_ok ?s1" "scan_text ?s1 = '' '' @ w" using s1(2) store_ok by (auto simp: at_text_def put_store_def)
  have "dropWhile is_space_char ('' '' @ w) = w" using assms(4) by (cases w) (auto simp: scan_chars_kinds)
  then obtain s2 where s2: "source_skip_space h ?s1 = Some s2" "at_text ?s1 w s2" using skip_space [OF ok(1)] ok(2) by auto
  have f: "dropWhile (\<lambda>c. scan_isspace (uchar c)) ('' '' @ fmt) = fmt"
    using assms(5) by (cases fmt) (auto simp: scan_chars_kinds)
  have "vscan_core env h (io_item_format i @ fmt) n s = vscan_core env h ('' '' @ fmt) (n + 1) ?s1"
    using c s1(1) by (subst vscan_core.simps) (simp add: scan_chars_kinds starts_with_def)
  also have "\<dots> = vscan_core env h fmt (n + 1) s2"
    using s2(1) f by (subst vscan_core.simps) (simp add: scan_chars_kinds)
  finally show ?thesis using s1(2) s2(2) by (auto simp: at_text_def scan_frame_def put_store_def)
qed

lemma scan_items:
  assumes "scan_ok s" "scan_text s = io_text ios @ w" "list_all io_item_ok ios" "w = [] \<or> \<not> is_space_char (hd w)"
  shows "\<exists>s'. vscan_core env h (io_format ios) n s = Some (s', n + int (length ios)) \<and> scan_ok s' \<and> scan_text s' = w \<and>
    ss_stores s' = ss_stores s @ map io_item_store ios \<and> scan_errno s' = scan_errno s"
  using assms
proof (induction ios arbitrary: s n)
  case Nil
  then show ?case by (subst vscan_core.simps) simp
next
  case (Cons i ios)
  have "io_text ios @ w = [] \<or> \<not> is_space_char (hd (io_text ios @ w))"
    using io_text_start [of ios] Cons.prems(3,4) by (cases "io_text ios") auto
  then obtain s1 where s1: "vscan_core env h (io_item_format i @ io_format ios) n s = vscan_core env h (io_format ios) (n + 1) s1"
    "scan_ok s1" "scan_text s1 = io_text ios @ w" "ss_stores s1 = ss_stores s @ [io_item_store i]" "scan_errno s1 = scan_errno s"
    using scan_item [OF Cons.prems(1), of i "io_text ios @ w" "io_format ios" env n] Cons.prems io_format_start by auto
  then show ?case using Cons.IH [OF s1(2,3), of "n + 1"] Cons.prems(3,4) by auto
qed

end

subsection \<open>Strings and files\<close>

definition string_ok :: "('w, 'f) scan_source \<Rightarrow> bool" where
  "string_ok s \<longleftrightarrow> string_mode s \<and> NUL \<notin> set (ss_string s)"

definition string_left :: "('w, 'f) scan_source \<Rightarrow> string" where
  "string_left s = drop (ss_pos s) (ss_string s)"

interpretation string_source: scan_input h string_left string_ok for h :: "'w host"
proof
  fix s :: "('w, 'f) scan_source" and c cs
  assume s: "string_ok s" and t: "string_left s = c # cs"
  then have "ss_pos s < length (ss_string s)" by (metis drop_all list.distinct(1) not_le string_left_def)
  moreover have "ss_string s ! ss_pos s = c" using t by (simp add: string_left_def nth_via_drop)
  moreover from this have "c \<noteq> NUL" using s calculation(1) nth_mem unfolding string_ok_def by metis
  then have "uchar c \<noteq> 0" using of_char_eq_iff [of c NUL, where ?'a = int] by simp
  moreover have "drop (Suc (ss_pos s)) (ss_string s) = cs" using t by (metis drop_Suc list.sel(3) string_left_def tl_drop)
  ultimately show "\<exists>s'. source_getc h s = (s', uchar c) \<and> string_ok s' \<and> string_left s' = cs \<and>
      string_ok (source_ungetc h s' (uchar c)) \<and> string_left (source_ungetc h s' (uchar c)) = c # cs"
    using s t uchar_neq_EOF [of c] by (simp add: source_getc_def source_ungetc_def string_ok_def string_left_def Let_def)
next
  fix s :: "('w, 'f) scan_source"
  assume "string_ok s" "string_left s = []"
  then show "\<exists>s'. source_getc h s = (s', CRT_Stdio.EOF) \<and> string_ok s' \<and> string_left s' = []"
    by (simp add: source_getc_def string_ok_def string_left_def Let_def)
qed (simp_all add: string_ok_def string_left_def)

definition stream_ok :: "'w host \<Rightarrow> descriptor \<Rightarrow> ('w \<Rightarrow> string \<times> nat) \<Rightarrow> ('w, 'f) scan_source \<Rightarrow> bool" where
  "stream_ok h fd view s \<longleftrightarrow> \<not> string_mode s \<and> (\<exists>f. ss_stream s = Some f \<and> file_source h fd view f)"

definition stream_left :: "('w \<Rightarrow> string \<times> nat) \<Rightarrow> ('w, 'f) scan_source \<Rightarrow> string" where
  "stream_left view s = a_rest (file_of view (the (ss_stream s)))"

lemma fgetc_ungetc_file:
  assumes "file_source h fd view f" "a_rest (file_of view f) = c # cs"
  shows "\<exists>f'. fgetc_unlocked_impl h f = (f', uchar c) \<and> file_source h fd view f' \<and> a_rest (file_of view f') = cs \<and>
    file_source h fd view (fst (ungetc h (uchar c) f')) \<and> a_rest (file_of view (fst (ungetc h (uchar c) f'))) = c # cs"
proof -
  let ?a = "file_of view f"
  have reg: "regular_file h fd view" using assms(1) by (simp add: file_source_def)
  obtain f' where f': "fgetc_unlocked_impl h f = (f', uchar c)" "a_rest (file_of view f') = cs" "file_source h fd view f'"
    using file_reader.get_byte [OF assms] by auto
  then have sim: "sim fd view f' (file_of view f')" "ck_readable f'" by (simp_all add: file_source_def)
  obtain g where "fgetc_unlocked_impl h f = (g, snd (a_getc ?a))" "sim fd view g (fst (a_getc ?a))"
    using fgetc_sim [OF reg, of f ?a] assms(1) by (auto simp: file_source_def)
  then have a': "file_of view f' = fst (a_getc ?a)" using f'(1) sim_file_of by (metis fst_conv)
  have "a_reading (fst (a_getc ?a))"
  proof (cases "fp_up f")
    case (Cons x xs)
    then have "stream_last_op f = STDIO_READ"
      using assms(1) by (cases "stream_last_op f") (auto simp: file_source_def sim_def file_state_def split: prod.splits)
    then show ?thesis by (simp add: file_of_def a_getc_def split: prod.splits list.splits)
  next
    case Nil
    then show ?thesis by (simp add: file_of_def a_getc_def split: prod.splits last_op.splits)
  qed
  moreover have pos: "0 < a_pos (file_of view f')"
    using assms(2) unfolding a' by (auto simp: a_getc_def a_rest_def split: list.splits)
  ultimately obtain f'' where f'': "ungetc h (uchar c) f' = (f'', snd (a_ungetc c (file_of view f')))"
    "sim fd view f'' (fst (a_ungetc c (file_of view f')))" "same_stream f' f''"
    using ungetc_sim [OF reg sim, of c] a' by auto
  have "file_of view f'' = fst (a_ungetc c (file_of view f'))" by (rule sim_file_of [OF f''(2), symmetric])
  then have "file_of view f'' = fst (a_ungetc c (file_of view f'))" "file_source h fd view f''"
    "fst (ungetc h (uchar c) f') = f''"
    using f'' sim(2) reg by (simp_all add: file_source_def same_stream_def)
  moreover have "a_rest (fst (a_ungetc c (file_of view f'))) = c # a_rest (file_of view f')"
    using pos by (simp add: a_ungetc_def a_rest_def)
  ultimately show ?thesis using f' by auto
qed

interpretation file_input: scan_input h "stream_left view" "stream_ok h fd view" for h :: "'w host" and fd view
proof
  fix s :: "('w, 'f) scan_source" and c cs
  assume s: "stream_ok h fd view s" and t: "stream_left view s = c # cs"
  then obtain f where f: "ss_stream s = Some f" "\<not> string_mode s" "file_source h fd view f" "a_rest (file_of view f) = c # cs"
    by (auto simp: stream_ok_def stream_left_def)
  obtain f' where f': "fgetc_unlocked_impl h f = (f', uchar c)" "file_source h fd view f'" "a_rest (file_of view f') = cs"
    "file_source h fd view (fst (ungetc h (uchar c) f'))" "a_rest (file_of view (fst (ungetc h (uchar c) f'))) = c # cs"
    using fgetc_ungetc_file [OF f(3,4)] by auto
  let ?s = "s\<lparr>ss_stream := Some f', ss_consumed := ss_consumed s + 1\<rparr>"
  have "source_getc h s = (?s, uchar c)" using f(1,2) f'(1) uchar_neq_EOF by (simp add: source_getc_def)
  then show "\<exists>s'. source_getc h s = (s', uchar c) \<and> stream_ok h fd view s' \<and>
      stream_left view s' = cs \<and> stream_ok h fd view (source_ungetc h s' (uchar c)) \<and>
      stream_left view (source_ungetc h s' (uchar c)) = c # cs"
    using f(2) f'(2-5) uchar_neq_EOF [of c]
    by (intro exI [of _ ?s]) (simp add: source_ungetc_def stream_ok_def stream_left_def Let_def)
next
  fix s :: "('w, 'f) scan_source"
  assume s: "stream_ok h fd view s" and t: "stream_left view s = []"
  then obtain f where f: "ss_stream s = Some f" "\<not> string_mode s" "file_source h fd view f" "a_rest (file_of view f) = []"
    by (auto simp: stream_ok_def stream_left_def)
  with file_reader.get_end [OF f(3,4)] show "\<exists>s'. source_getc h s = (s', CRT_Stdio.EOF) \<and> stream_ok h fd view s' \<and>
      stream_left view s' = []"
    by (auto simp: source_getc_def stream_ok_def stream_left_def)
qed (simp_all add: stream_ok_def stream_left_def)

subsection \<open>What printf writes, scanf reads\<close>

lemma io_text_NUL: "list_all io_item_ok ios \<Longrightarrow> NUL \<notin> set (io_text ios)"
proof -
  have "NUL \<notin> set (io_item_text i)" if "io_item_ok i" for i
    using that number_text_NUL by (cases i) (auto simp: long_text_def list_all_iff)
  then show "list_all io_item_ok ios \<Longrightarrow> NUL \<notin> set (io_text ios)" by (induction ios) auto
qed

lemma vsscanf_items:
  assumes "list_all io_item_ok ios"
  shows "\<exists>s'. vsscanf env h (io_text ios) (io_format ios) err = Some (s', int (length ios)) \<and>
    ss_stores s' = map io_item_store ios \<and> scan_errno s' = err"
proof -
  let ?s = "\<lparr>ss_string = io_text ios, ss_stream = None, string_mode = True, ss_pos = 0, ss_consumed = 0, ss_stores = [], scan_errno = err\<rparr>"
  have "string_ok ?s" "string_left ?s = io_text ios @ []"
    using io_text_NUL [OF assms] by (simp_all add: string_ok_def string_left_def)
  from string_source.scan_items [OF this assms, of env h 0] show ?thesis by (auto simp: vsscanf_def)
qed

lemma vfscanf_items:
  assumes "list_all io_item_ok ios" "file_source h fd view f" "a_rest (file_of view f) = io_text ios @ w"
    and "w = [] \<or> \<not> is_space_char (hd w)"
  shows "\<exists>s' f'. vfscanf env h f (io_format ios) err = Some (s', int (length ios)) \<and>
    ss_stores s' = map io_item_store ios \<and> scan_errno s' = err \<and> ss_stream s' = Some f' \<and>
    file_source h fd view f' \<and> a_rest (file_of view f') = w"
proof -
  let ?s = "\<lparr>ss_string = [], ss_stream = Some f, string_mode = False, ss_pos = 0, ss_consumed = 0, ss_stores = [], scan_errno = err\<rparr>"
  have "stream_ok h fd view ?s" "stream_left view ?s = io_text ios @ w"
    using assms(2,3) by (simp_all add: stream_ok_def stream_left_def)
  from file_input.scan_items [OF this assms(1,4), of env 0] show ?thesis
    by (auto simp: vfscanf_def stream_ok_def stream_left_def)
qed

text \<open>The items in the format of \<open>printf\<close>.\<close>

lemma printf_kinds: "\<not> is_digit (CHR ''l'')" "\<not> is_digit (CHR ''d'')" "\<not> is_digit (CHR ''s'')"
  by code_simp+

lemma parse_spec_long: "parse_spec (CHR ''l'' # CHR ''d'' # fmt) args = Some (CHR ''d'' # fmt, args, empty_spec\<lparr>long_count := 1\<rparr>)"
  by (simp add: parse_spec_def parse_width_def parse_precision_def parse_length_def starts_with_def
      parse_decimal_def printf_kinds empty_spec_def)

lemma parse_spec_string: "parse_spec (CHR ''s'' # fmt) args = Some (CHR ''s'' # fmt, args, empty_spec)"
  by (simp add: parse_spec_def parse_width_def parse_precision_def parse_length_def starts_with_def
      parse_decimal_def printf_kinds empty_spec_def)

lemma printf_long:
  assumes "\<bar>v\<bar> < 2 ^ 63"
  shows "vsnprintf_loop env (''%ld '' @ fmt) (ArgLong (word_of_int v) # args) (b, m) =
    vsnprintf_loop env fmt args (buffer_write b (long_text v @ '' ''), m)"
proof -
  let ?spec = "empty_spec\<lparr>long_count := 1\<rparr>"
  have v: "sint (word_of_int v :: u64) = v"
    using assms by (simp add: signed_of_int signed_take_bit_int_eq_self)
  have mag: "(if v < 0 then nat (- (v + 1)) + 1 else nat v) = nat \<bar>v\<bar>" by auto
  have "convert_spec env (CHR ''d'') ?spec (ArgLong (word_of_int v) # args) (b, m) =
      map_option (\<lambda>b. ((b, m), args)) (format_integer (localeconv env) b ?spec (nat \<bar>v\<bar>) True (v < 0) 10 False)"
    by (simp add: convert_spec_def va_signed_def wide_integer_def empty_spec_def v mag [symmetric] Let_def)
  moreover have "nat \<bar>v\<bar> < 10 ^ 20" using assms by simp
  then have len: "length (dec (nat \<bar>v\<bar>)) < 2 ^ 31 - 1" using length_dec [of "nat \<bar>v\<bar>" 20] by simp
  then have "length (dec (nat \<bar>v\<bar>)) < 2 ^ 31" by simp
  then have size: "int_of_size (length (dec (nat \<bar>v\<bar>))) = int (length (dec (nat \<bar>v\<bar>)))" by (rule int_of_size)
  have "dec (nat \<bar>v\<bar>) \<noteq> []" using decimal_dec by simp
  then have "integer_text (localeconv env) ?spec (nat \<bar>v\<bar>) True (v < 0) 10 False = Some (long_text v)"
    using size len by (cases "dec (nat \<bar>v\<bar>)")
      (simp_all add: formatted_number integer_text_def convert_unsigned_dec printf_grouping_enabled_def
        empty_spec_def integer_prefix_def long_text_def number_text_def Let_def)
  ultimately show ?thesis
    by (simp add: starts_with_def parse_spec_long format_integer_text buffer_write_append [symmetric])
qed

lemma printf_word:
  assumes "length w < 2 ^ 31"
  shows "vsnprintf_loop env (''%s '' @ fmt) (ArgString (Some w) # args) (b, m) =
    vsnprintf_loop env fmt args (buffer_write b (w @ '' ''), m)"
proof -
  have "int_of_size (length w) = int (length w)" using assms by (rule int_of_size)
  then have "format_string b empty_spec (Some w) = buffer_write b w"
    by (simp add: format_string_def empty_spec_def Let_def write_padding_write)
  then show ?thesis
    by (simp add: starts_with_def parse_spec_string convert_spec_def empty_spec_def buffer_write_append [symmetric])
qed

lemma printf_items:
  assumes "list_all io_item_ok ios"
  shows "vsnprintf_loop env (io_format ios) (map io_item_arg ios) (b, m) = Some (buffer_write b (io_text ios), m)"
  using assms
proof (induction ios arbitrary: b)
  case (Cons i ios)
  have "vsnprintf_loop env (io_item_format i @ io_format ios) (io_item_arg i # map io_item_arg ios) (b, m) =
    vsnprintf_loop env (io_format ios) (map io_item_arg ios) (buffer_write b (io_item_text i @ '' ''), m)"
  proof (cases i)
    case (IoLong v)
    then show ?thesis using printf_long [of v env "io_format ios" "map io_item_arg ios" b m] Cons.prems by simp
  next
    case (IoWord w)
    then show ?thesis using printf_word [of w env "io_format ios" "map io_item_arg ios" b m] Cons.prems by simp
  qed
  then show ?case using Cons by (simp add: buffer_write_append)
qed simp

lemma io_format_positional: "\<not> printf_has_positional_args (io_format ios)"
proof (induction ios)
  case (Cons i ios)
  then show ?case
    by (cases i) (simp_all add: starts_with_def indexed_def flag_char_def printf_kinds)
qed simp

lemma prints_items:
  assumes "list_all io_item_ok ios"
  shows "prints env (io_format ios) (map io_item_arg ios) (io_text ios) Map.empty (int_of_size (length (io_text ios)))"
proof -
  have "vsnprintf env n (io_format ios) (map io_item_arg ios) m =
      Some (shown n (io_text ios), m, int_of_size (length (io_text ios)))" for n m
    by (simp add: vsnprintf_def io_format_positional printf_items [OF assms] put_terminator_text shown_def buffer_length_write)
      (simp add: new_buffer_def)
  then show ?thesis by (simp add: prints_def)
qed

text \<open>On a stream over an empty file: \<open>fprintf\<close>, \<open>rewind\<close> and \<open>fscanf\<close>.\<close>

lemma fprintf_fscanf_items:
  assumes "list_all io_item_ok ios" "length (io_text ios) < 2 ^ 31" "regular_file h fd view"
    and "sim fd view f a" "a_data a = []" "a_pos a = 0" "ck_writable f" "ck_readable f"
  shows "\<exists>f' s'. vfprintf penv h f (io_format ios) (map io_item_arg ios) m = Some (f', m, int (length (io_text ios))) \<and>
    vfscanf env h (rewind h f') (io_format ios) err = Some (s', int (length ios)) \<and> ss_stores s' = map io_item_store ios"
proof -
  let ?b = "fold (\<lambda>c a. fst (a_putc c a)) (io_text ios) a"
  obtain f' where f': "vfprintf penv h f (io_format ios) (map io_item_arg ios) m = Some (f', m, int (length (io_text ios)))"
    "sim fd view f' ?b" "same_stream f f'"
    using vfprintf_sim [OF prints_items [OF assms(1), of penv] _ _ assms(3,4,7), of m] int_of_size [OF assms(2)] assms(5,6)
    by auto
  have "a_data ?b = io_text ios" using assms(5,6) by (simp add: putc_data put_at_def)
  moreover have "ck_readable f'" using f'(3) assms(8) by (simp add: same_stream_def)
  ultimately have "file_source h fd view (rewind h f')" "a_rest (file_of view (rewind h f')) = io_text ios @ []"
    using rewind_file [OF assms(3) f'(2)] by simp_all
  from vfscanf_items [OF assms(1) this, of env err] f'(1) show ?thesis by auto
qed

end
