(* ===== verification/CRT_Random.thy ===== *)
theory CRT_Random
  imports CRT_Stdio CRT_Mem
begin

text \<open>
  Random numbers, \<^verbatim>\<open>libc/src/random.c\<close>: the linear congruential generator behind \<^verbatim>\<open>rand\<close> and
  \<^verbatim>\<open>random\<close> with its exchangeable state buffers, and \<^verbatim>\<open>getrandom\<close> and \<^verbatim>\<open>getentropy\<close>, which read
  the random device of the host. The buffers of the caller and the internal one are in the memory.
\<close>

subsection \<open>The generator\<close>

record rng =
  random_state :: u64
  random_current :: addr
  rng_mem :: mem

definition srandom :: "i32 \<Rightarrow> rng \<Rightarrow> rng" where
  "srandom seed g = g\<lparr>random_state := ucast seed\<rparr>"

definition random_long :: "rng \<Rightarrow> rng \<times> int" where
  "random_long g =
     (let g = g\<lparr>random_state := (random_state g * 0x5DEECE66D + 0xB) AND 0xFFFFFFFFFFFF\<rparr>
      in (g, sint (drop_bit 17 (random_state g) AND 0x7fffffff)))"

definition random_save :: "addr \<Rightarrow> rng \<Rightarrow> rng option" where
  "random_save buffer g = do {
     m \<leftarrow> store_n (rng_mem g) buffer (map (\<lambda>i. char_of (unat (drop_bit (8 * i) (random_state g)))) [0..<8]);
     Some (g\<lparr>rng_mem := m\<rparr>) }"

definition random_load :: "addr \<Rightarrow> rng \<Rightarrow> rng option" where
  "random_load buffer g = do {
     bytes \<leftarrow> load_n (rng_mem g) buffer 8;
     Some (g\<lparr>random_state := fold (\<lambda>(i, c) st. st OR push_bit (8 * i) (of_char c)) (enumerate 0 bytes) 0\<rparr>) }"

definition initstate :: "i32 \<Rightarrow> addr \<Rightarrow> nat \<Rightarrow> rng \<Rightarrow> (rng \<times> addr) option" where
  "initstate seed state len g =
     (if state = null \<or> len < 8 then Some (g, null)
      else do {
        g' \<leftarrow> random_save (random_current g) g;
        g' \<leftarrow> random_save state (srandom seed (g'\<lparr>random_current := state\<rparr>));
        Some (g', random_current g) })"

definition setstate :: "addr \<Rightarrow> rng \<Rightarrow> (rng \<times> addr) option" where
  "setstate state g =
     (if state = null then Some (g, null)
      else do {
        g' \<leftarrow> random_save (random_current g) g;
        g' \<leftarrow> random_load state g';
        Some (g'\<lparr>random_current := state\<rparr>, random_current g) })"

definition srand :: "i32 \<Rightarrow> rng \<Rightarrow> rng" where "srand seed g = srandom seed g"

definition rand :: "rng \<Rightarrow> rng \<times> int" where
  "rand g = (case random_long g of (g, v) \<Rightarrow> (g, sint (of_int v :: i32)))"

lemma random_long_range: "random_long g = (g', v) \<Longrightarrow> 0 \<le> v \<and> v < 2 ^ 31"
proof -
  have "sint (x AND 0x7fffffff :: u64) = uint (x AND 0x7fffffff)" and "uint (x AND 0x7fffffff :: u64) < 2 ^ 31" for x :: u64
  proof -
    have "x AND 0x7fffffff = take_bit 31 x" using take_bit_eq_mask [of 31 x] by (simp add: mask_eq_exp_minus_1)
    moreover have "uint (take_bit 31 x) < 2 ^ 31" using take_bit_int_less_exp [of 31 "uint x"] by (simp add: unsigned_take_bit_eq)
    ultimately show *: "uint (x AND 0x7fffffff) < 2 ^ 31" by simp
    moreover have "- (2 ^ 63) \<le> uint (x AND 0x7fffffff)" by (rule order_trans [OF _ uint_ge_0]) simp
    ultimately have "- (2 ^ 63) \<le> uint (x AND 0x7fffffff)" "uint (x AND 0x7fffffff) < 2 ^ 63" by simp_all
    then show "sint (x AND 0x7fffffff) = uint (x AND 0x7fffffff)"
      by (simp add: sint_uint signed_take_bit_int_eq_self)
  qed
  then show "random_long g = (g', v) \<Longrightarrow> 0 \<le> v \<and> v < 2 ^ 31" by (auto simp: random_long_def Let_def)
qed

text \<open>\<open>rand\<close> is \<open>random\<close>: the conversion to \<open>int\<close> loses nothing.\<close>

lemma rand_random: "rand g = random_long g"
  using random_long_range [of g]
  by (cases "random_long g") (simp add: rand_def signed_of_int signed_take_bit_int_eq_self)

lemma of_nat_mod_256: "(of_nat (unat (y :: u64) mod 256) :: u64) = take_bit 8 y"
proof -
  have "unat (take_bit 8 y) = take_bit 8 (unat y)" by (rule unsigned_take_bit_eq)
  then have "unat y mod 256 = unat (take_bit 8 y)" by (simp only: take_bit_eq_mod) simp
  then show ?thesis by simp
qed

lemma load_bytes: "fold (\<lambda>(i, c) st. st OR push_bit (8 * i) (of_char c)) (map (\<lambda>i. (i, char_of (unat (drop_bit (8 * i) x)))) [0..<n]) 0 =
  take_bit (8 * n) (x :: u64)"
proof (induction n)
  case (Suc n)
  have "(of_char (char_of (unat (drop_bit (8 * n) x))) :: u64) = of_nat (unat (drop_bit (8 * n) x) mod 256)"
    by (metis of_char_of of_nat_of_char)
  also have "\<dots> = take_bit 8 (drop_bit (8 * n) x)"
    by (simp add: of_nat_mod_256)
  finally have "(of_char (char_of (unat (drop_bit (8 * n) x))) :: u64) = take_bit 8 (drop_bit (8 * n) x)" .
  then show ?case using Suc by (auto intro!: bit_eqI simp: bit_simps)
qed simp

text \<open>A generator that is set aside goes on where it stopped.\<close>

primrec draws :: "nat \<Rightarrow> rng \<Rightarrow> rng" where
  "draws 0 g = g"
| "draws (Suc n) g = draws n (fst (random_long g))"

lemma draws_mem [simp]: "rng_mem (draws n g) = rng_mem g" "random_current (draws n g) = random_current g"
  by (induction n arbitrary: g) (simp_all add: random_long_def Let_def)

lemma setstate_resumes:
  assumes "random_current g = p" "mapped (rng_mem g) p 8" "mapped (rng_mem g) q 8" "p + 8 \<le> q \<or> q + 8 \<le> p"
    and "p \<noteq> null" "q \<noteq> null"
  shows "\<exists>g1 g2. setstate q g = Some (g1, p) \<and> setstate p (draws n g1) = Some (g2, q) \<and> random_state g2 = random_state g"
proof -
  define bytes :: "rng \<Rightarrow> string" where
    "bytes g = map (\<lambda>i. char_of (unat (drop_bit (8 * i) (random_state g)))) [0..<8]" for g
  have len: "length (bytes g) = 8" for g by (simp add: bytes_def)
  have set: "setstate r k = Some (k\<lparr>rng_mem := mem_put (rng_mem k) (random_current k) (bytes k), random_current := r,
      random_state := fold (\<lambda>(i, c) st. st OR push_bit (8 * i) (of_char c)) (enumerate 0 cs) 0\<rparr>, random_current k)"
    if "r \<noteq> null" "mapped (rng_mem k) (random_current k) 8"
      "bytes_at (mem_put (rng_mem k) (random_current k) (bytes k)) r cs" "length cs = 8" for r k cs
    using that(1,2) load_n_Some [OF that(3)] store_n_Some [of "rng_mem k" "random_current k" "bytes k"] that(4) len
    by (simp add: setstate_def random_save_def random_load_def flip: bytes_def)
  obtain cs where cs: "bytes_at (rng_mem g) q cs" "length cs = 8" using mapped_bytes [OF assms(3)] by blast
  then have "bytes_at (mem_put (rng_mem g) p (bytes g)) q cs"
    using assms(4) len [of g] by (subst bytes_at_put_other) auto
  from set [of q g cs, OF assms(6)] this cs(2) assms(1,2) obtain g1 where g1: "setstate q g = Some (g1, p)"
    "rng_mem g1 = mem_put (rng_mem g) p (bytes g)" "random_current g1 = q" by auto
  let ?g = "draws n g1"
  have "bytes_at (mem_put (rng_mem ?g) (random_current ?g) (bytes ?g)) p (bytes g)"
    using g1(2,3) assms(4) len by (subst bytes_at_put_other) auto
  moreover have "mapped (rng_mem ?g) (random_current ?g) 8" using g1(2,3) assms(3) by simp
  moreover have "enumerate 0 (bytes g) = map (\<lambda>i. (i, char_of (unat (drop_bit (8 * i) (random_state g))))) [0..<8]"
    by (simp add: bytes_def enumerate_eq_zip zip_map2 zip_same_conv_map)
  then have "fold (\<lambda>(i, c) st. st OR push_bit (8 * i) (of_char c)) (enumerate 0 (bytes g)) 0 = random_state g"
    using load_bytes [of "random_state g" 8] take_bit_length_eq [of "random_state g"] by simp
  ultimately show ?thesis using set [of p ?g "bytes g"] assms(5) g1 len by auto
qed

subsection \<open>The random device\<close>

definition GRND_RANDOM :: i32 where "GRND_RANDOM = 2"
definition GRND_MASK :: i32 where "GRND_MASK = 0x7"

definition random_oflags :: oflags where
  "random_oflags = \<lparr>o_access = O_RDONLY, o_creat = False, o_trunc = False, o_append = False\<rparr>"

text \<open>The loop gives the host, the memory, the bytes read and the error of a failed \<open>read\<close>. A host that
  reads more than it was asked for writes behind the buffer.\<close>

function getrandom_loop :: "'w host \<Rightarrow> int \<Rightarrow> addr \<Rightarrow> nat \<Rightarrow> nat \<Rightarrow> 'w \<Rightarrow> mem \<Rightarrow> ('w \<times> mem \<times> nat \<times> int option) option" where
  "getrandom_loop h fd out buf_len finished w m =
     (if finished < buf_len then
        case sys_read h w fd (buf_len - finished) of
          (w, Inl e) \<Rightarrow> Some (w, m, finished, Some e)
        | (w, Inr bytes) \<Rightarrow>
            if bytes = [] then Some (w, m, finished, None)
            else (case store_n m (out + finished) bytes of
                    None \<Rightarrow> None
                  | Some m \<Rightarrow> getrandom_loop h fd out buf_len (finished + length bytes) w m)
      else Some (w, m, finished, None))"
  by pat_completeness auto
termination
  by (relation "measure (\<lambda>(h, fd, out, buf_len, finished, w, m). buf_len - finished)") (auto simp: neq_Nil_conv)

declare getrandom_loop.simps [simp del]

text \<open>The result is an error number or the number of bytes.\<close>

definition getrandom :: "'w host \<Rightarrow> addr \<Rightarrow> nat \<Rightarrow> i32 \<Rightarrow> 'w \<Rightarrow> mem \<Rightarrow> ('w \<times> mem \<times> (int + nat)) option" where
  "getrandom h buffer len flags w m =
     (if buffer = null \<and> len \<noteq> 0 then Some (w, m, Inl EFAULT)
      else if flags AND NOT GRND_MASK \<noteq> 0 then Some (w, m, Inl EINVAL)
      else case sys_open h w (if flags AND GRND_RANDOM \<noteq> 0 then ''/dev/random'' else ''/dev/urandom'') random_oflags of
             (w, Inl e) \<Rightarrow> Some (w, m, Inl e)
           | (w, Inr fd) \<Rightarrow> do {
               (w, m, finished, err) \<leftarrow> getrandom_loop h fd buffer len 0 w m;
               let w = fst (sys_close h w fd);
               Some (w, m, case err of Some e \<Rightarrow> if finished = 0 then Inl e else Inr finished | None \<Rightarrow> Inr finished) })"

function getentropy_loop :: "'w host \<Rightarrow> addr \<Rightarrow> nat \<Rightarrow> nat \<Rightarrow> 'w \<Rightarrow> mem \<Rightarrow> ('w \<times> mem \<times> int option) option" where
  "getentropy_loop h buffer buf_len finished w m =
     (if finished < buf_len then
        case getrandom h (buffer + finished) (buf_len - finished) 0 w m of
          None \<Rightarrow> None
        | Some (w, m, Inl e) \<Rightarrow> Some (w, m, Some e)
        | Some (w, m, Inr n) \<Rightarrow>
            if n = 0 then Some (w, m, Some EIO) else getentropy_loop h buffer buf_len (finished + n) w m
      else Some (w, m, None))"
  by pat_completeness auto
termination
  by (relation "measure (\<lambda>(h, buffer, buf_len, finished, w, m). buf_len - finished)") auto

declare getentropy_loop.simps [simp del]

definition getentropy :: "'w host \<Rightarrow> addr \<Rightarrow> nat \<Rightarrow> 'w \<Rightarrow> mem \<Rightarrow> ('w \<times> mem \<times> int option) option" where
  "getentropy h buffer len w m =
     (if len > 256 then Some (w, m, Some EIO) else getentropy_loop h buffer len 0 w m)"

end
