(* ===== verification/CRT_Libgen.thy ===== *)
theory CRT_Libgen
  imports CRT_String
begin

text \<open>
  Path names, \<^verbatim>\<open>libc/src/libgen.c\<close>: \<^verbatim>\<open>basename\<close> and \<^verbatim>\<open>dirname\<close>, which cut the path in the
  caller's buffer. A result is an address in the path or one of the constant strings of the code. The
  lemmas \<open>basename_name\<close>, \<open>dirname_no_slash\<close> and \<open>dirname_slash\<close> say for every path what the result holds.
\<close>

datatype path_result = At addr | Constant string

partial_function (option) basename_loop :: "mem \<Rightarrow> addr \<Rightarrow> addr \<Rightarrow> (mem \<times> path_result) option" where
  "basename_loop m path slash = do {
     c \<leftarrow> load m (slash + 1);
     if slash > path \<and> c = NUL then do {
       m \<leftarrow> store m slash NUL;
       slash \<leftarrow> strrchr m path (uch32 (CHR ''/''));
       if slash = null then Some (m, At path) else basename_loop m path slash }
     else Some (m, At (if c = NUL then slash else slash + 1)) }"

definition basename :: "mem \<Rightarrow> addr \<Rightarrow> (mem \<times> path_result) option" where
  "basename m path =
     (if path = null then Some (m, Constant ''.'')
      else do {
        c \<leftarrow> load m path;
        if c = NUL then Some (m, Constant ''.'')
        else do {
          slash \<leftarrow> strrchr m path (uch32 (CHR ''/''));
          if slash = null then Some (m, At path) else basename_loop m path slash } })"

partial_function (option) dirname_loop :: "mem \<Rightarrow> addr \<Rightarrow> addr \<Rightarrow> (mem \<times> addr) option" where
  "dirname_loop m path slash = do {
     c \<leftarrow> load m slash;
     if slash > path \<and> c = CHR ''/'' then do {
       m \<leftarrow> store m slash NUL;
       dirname_loop m path (slash - 1) }
     else Some (m, slash) }"

definition dirname :: "mem \<Rightarrow> addr \<Rightarrow> (mem \<times> path_result) option" where
  "dirname m path =
     (if path = null then Some (m, Constant ''.'')
      else do {
        c \<leftarrow> load m path;
        if c = NUL then Some (m, Constant ''.'')
        else do {
          slash \<leftarrow> strrchr m path (uch32 (CHR ''/''));
          if slash = null then Some (m, Constant ''.'')
          else do {
            (m, slash) \<leftarrow> dirname_loop m path slash;
            c \<leftarrow> load m path;
            if slash = path \<and> c = CHR ''/''
            then do { m \<leftarrow> store m (path + 1) NUL; Some (m, At path) }
            else Some (m, if c = NUL then Constant ''/'' else At path) } } })"

subsection \<open>The names\<close>

definition last_component :: "string \<Rightarrow> string" where
  "last_component s = rev (takeWhile (\<lambda>c. c \<noteq> CHR ''/'') (rev s))"

text \<open>A path without the slashes at its end.\<close>

definition no_end_slash :: "string \<Rightarrow> string" where
  "no_end_slash s = rev (dropWhile (\<lambda>c. c = CHR ''/'') (rev s))"

lemma no_end_slash_simps [simp]:
  "no_end_slash [] = []" "no_end_slash (s @ [c]) = (if c = CHR ''/'' then no_end_slash s else s @ [c])"
  by (simp_all add: no_end_slash_def)

lemma last_component_snoc [simp]:
  "last_component (s @ [c]) = (if c = CHR ''/'' then [] else last_component s @ [c])"
  by (simp add: last_component_def)

lemma last_component_append: "CHR ''/'' \<notin> set v \<Longrightarrow> last_component (u @ CHR ''/'' # v) = v"
proof (induction v rule: rev_induct)
  case (snoc c v)
  then show ?case using last_component_snoc [of "u @ CHR ''/'' # v" c] by auto
qed simp

lemma last_component_all: "CHR ''/'' \<notin> set v \<Longrightarrow> last_component v = v"
  by (induction v rule: rev_induct) (simp add: last_component_def, auto)

lemma last_slash:
  assumes "cstr m p s"
  shows "CHR ''/'' \<notin> set s \<Longrightarrow> strrchr m p (uch32 (CHR ''/'')) = Some null"
    and "s = u @ CHR ''/'' # v \<Longrightarrow> CHR ''/'' \<notin> set v \<Longrightarrow> strrchr m p (uch32 (CHR ''/'')) = Some (p + length u)"
proof -
  show "CHR ''/'' \<notin> set s \<Longrightarrow> strrchr m p (uch32 (CHR ''/'')) = Some null"
    using strrchr_Some [OF assms, of "CHR ''/''"] by simp
  assume "s = u @ CHR ''/'' # v" "CHR ''/'' \<notin> set v"
  moreover from this have "last_index (CHR ''/'') (s @ [NUL]) = length u"
    by (simp add: last_index_def takeWhile_append takeWhile_eq_all_conv [THEN iffD2])
  ultimately show "strrchr m p (uch32 (CHR ''/'')) = Some (p + length u)"
    using strrchr_Some [OF assms, of "CHR ''/''"] by simp
qed

text \<open>A string is cut by a null character in it.\<close>

lemma cstr_cut:
  assumes "cstr m p (s @ c # t)"
  shows "store m (p + length s) NUL = Some (m(p + length s \<mapsto> NUL))" "cstr (m(p + length s \<mapsto> NUL)) p s"
proof -
  have "bytes_at m p (s @ c # t)" using assms by (rule cstr_bytes)
  then have "m (p + length s) = Some c" "bytes_at m p s" by (simp_all add: bytes_at_append)
  moreover from this have "bytes_at (m(p + length s \<mapsto> NUL)) p s" by (auto simp: bytes_at_iff)
  ultimately show "store m (p + length s) NUL = Some (m(p + length s \<mapsto> NUL))" "cstr (m(p + length s \<mapsto> NUL)) p s"
    using assms by (auto simp: store_def cstr_def bytes_at_append)
qed

lemma split_last_slash:
  obtains "CHR ''/'' \<notin> set s" | u v where "s = u @ CHR ''/'' # v" "CHR ''/'' \<notin> set v"
  by (cases "CHR ''/'' \<in> set s") (auto dest: split_list_last)

text \<open>The name that \<open>basename\<close> gives: of a path of slashes, one slash.\<close>

definition base_name :: "string \<Rightarrow> string" where
  "base_name s = (if no_end_slash s = [] then ''/'' else last_component (no_end_slash s))"

lemma basename_loop_name:
  "cstr m p (u @ CHR ''/'' # v) \<Longrightarrow> CHR ''/'' \<notin> set v \<Longrightarrow> p \<noteq> null \<Longrightarrow>
   \<exists>m' q. basename_loop m p (p + length u) = Some (m', At q) \<and> cstr m' q (base_name (u @ CHR ''/'' # v))"
proof (induction "length u" arbitrary: m u v rule: less_induct)
  case less
  have behind: "cstr m (p + length u + 1) v"
    using cstr_drop [OF less.prems(1), of "length u + 1"] by simp
  show ?case
  proof (cases v)
    case (Cons c w)
    then have "load m (p + length u + 1) = Some c" "c \<noteq> NUL" using behind by (simp_all add: cstr_simps load_def)
    moreover have "base_name (u @ CHR ''/'' # v) = v"
    proof -
      obtain w' d where v: "v = w' @ [d]" using Cons by (metis list.distinct(1) rev_exhaust)
      then have "no_end_slash (u @ CHR ''/'' # v) = u @ CHR ''/'' # v"
        using less.prems(2) no_end_slash_simps(2) [of "u @ CHR ''/'' # w'" d] by auto
      then show ?thesis using v less.prems(2) by (simp add: base_name_def last_component_append)
    qed
    ultimately show ?thesis using behind by (subst basename_loop.simps) auto
  next
    case Nil
    then have nul: "load m (p + length u + 1) = Some NUL" using behind by (simp add: cstr_simps load_def)
    show ?thesis
    proof (cases "u = []")
      case True
      then show ?thesis using nul Nil less.prems(1) by (subst basename_loop.simps) (simp add: base_name_def no_end_slash_def)
    next
      case False
      define m1 where "m1 = m(p + length u \<mapsto> NUL)"
      note cut = cstr_cut [OF less.prems(1), folded m1_def]
      have name: "base_name (u @ CHR ''/'' # v) = base_name u" using Nil by (simp add: base_name_def)
      have step: "basename_loop m p (p + length u) = do {
          slash \<leftarrow> strrchr m1 p (uch32 (CHR ''/''));
          if slash = null then Some (m1, At p) else basename_loop m1 p slash }"
        using nul cut(1) False by (subst basename_loop.simps) simp
      show ?thesis
      proof (rule split_last_slash [of u])
        assume s: "CHR ''/'' \<notin> set u"
        then have "no_end_slash u = u" using False by (cases u rule: rev_cases) auto
        then have "base_name u = u" using s False by (simp add: base_name_def last_component_all)
        then show ?thesis using step name last_slash(1) [OF cut(2) s] cut(2) by simp
      next
        fix x y
        assume u: "u = x @ CHR ''/'' # y" "CHR ''/'' \<notin> set y"
        then have "strrchr m1 p (uch32 (CHR ''/'')) = Some (p + length x)" using last_slash(2) [OF cut(2)] by blast
        then show ?thesis using less.hyps [of x m1 y] u cut(2) less.prems(3) step name by simp
      qed
    qed
  qed
qed

lemma basename_name:
  assumes "cstr m p s" "s \<noteq> []" "p \<noteq> null"
  shows "\<exists>m' q. basename m p = Some (m', At q) \<and> cstr m' q (base_name s)"
proof -
  obtain c t where s: "s = c # t" using assms(2) by (cases s) auto
  then have c: "load m p = Some c" "c \<noteq> NUL" using assms(1) by (simp_all add: cstr_simps load_def)
  show ?thesis
  proof (rule split_last_slash [of s])
    assume n: "CHR ''/'' \<notin> set s"
    then have "no_end_slash s = s" using assms(2) by (cases s rule: rev_cases) auto
    then have "base_name s = s" using n assms(2) by (simp add: base_name_def last_component_all)
    then show ?thesis using c assms last_slash(1) [OF assms(1) n] by (simp add: basename_def)
  next
    fix u v
    assume "s = u @ CHR ''/'' # v" "CHR ''/'' \<notin> set v"
    then show ?thesis
      using c assms last_slash(2) [OF assms(1), of u v] basename_loop_name [of m p u v] by (simp add: basename_def)
  qed
qed

subsection \<open>The directory\<close>

text \<open>The directory that \<open>dirname\<close> gives: what is before the last slash, without the slashes at its end.\<close>

definition dir_part :: "string \<Rightarrow> string" where
  "dir_part u = (if no_end_slash u = [] then ''/'' else no_end_slash u)"

lemma dirname_loop_cut:
  "cstr m p (u @ CHR ''/'' # v) \<Longrightarrow>
   \<exists>m' t. dirname_loop m p (p + length u) = Some (m', p + (length (no_end_slash u) - 1)) \<and> cstr m' p t \<and>
     (if no_end_slash u = [] then \<exists>t'. t = CHR ''/'' # t' else t = no_end_slash u)"
proof (induction u arbitrary: m v rule: rev_induct)
  case Nil
  then have "load m p = Some (CHR ''/'')" by (simp add: cstr_simps load_def)
  then show ?case using Nil by (subst dirname_loop.simps) auto
next
  case (snoc c u)
  define m1 where "m1 = m(p + length (u @ [c]) \<mapsto> NUL)"
  note cut = cstr_cut [OF snoc.prems, folded m1_def]
  have "load m (p + length (u @ [c])) = Some (CHR ''/'')"
    using cstr_drop [OF snoc.prems, of "length (u @ [c])"] by (simp add: cstr_simps load_def)
  then have step: "dirname_loop m p (p + length (u @ [c])) = dirname_loop m1 p (p + length u)"
    using cut(1) by (subst dirname_loop.simps) simp
  show ?case
  proof (cases "c = CHR ''/''")
    case True
    have "no_end_slash (u @ [c]) = no_end_slash u" using True by simp
    moreover have "cstr m1 p (u @ ''/'')" using cut(2) True by simp
    ultimately show ?thesis using snoc.IH [of m1 "[]"] step by (simp only:)
  next
    case False
    then have "load m1 (p + length u) = Some c"
      using cstr_drop [OF cut(2), of "length u"] by (simp add: cstr_simps load_def)
    then have "dirname_loop m1 p (p + length u) = Some (m1, p + length u)"
      using False by (subst dirname_loop.simps) simp
    then show ?thesis using False step cut(2) by simp
  qed
qed

lemma dirname_no_slash:
  assumes "cstr m p s" "CHR ''/'' \<notin> set s"
  shows "dirname m p = Some (m, Constant ''.'')"
proof (cases s)
  case Nil
  then have "load m p = Some NUL" using assms(1) by (simp add: cstr_simps load_def)
  then show ?thesis by (simp add: dirname_def)
next
  case (Cons c t)
  then have "load m p = Some c" using assms(1) by (simp add: cstr_simps load_def)
  then show ?thesis using last_slash(1) [OF assms] by (simp add: dirname_def)
qed

lemma dirname_slash:
  assumes "cstr m p (u @ CHR ''/'' # v)" "CHR ''/'' \<notin> set v" "p \<noteq> null"
  shows "\<exists>m'. dirname m p = Some (m', At p) \<and> cstr m' p (dir_part u)"
proof -
  obtain c t where s: "u @ CHR ''/'' # v = c # t" by (cases u) auto
  have first: "load m p = Some c" "c \<noteq> NUL" using assms(1) unfolding s by (simp_all add: cstr_simps load_def)
  have slash: "strrchr m p (uch32 (CHR ''/'')) = Some (p + length u)"
    using last_slash(2) [OF assms(1) refl assms(2)] .
  obtain m' t where loop: "dirname_loop m p (p + length u) = Some (m', p + (length (no_end_slash u) - 1))"
    and t: "cstr m' p t" "if no_end_slash u = [] then \<exists>t'. t = CHR ''/'' # t' else t = no_end_slash u"
    using dirname_loop_cut [OF assms(1)] by blast
  show ?thesis
  proof (cases "no_end_slash u = []")
    case True
    then obtain t' where t': "t = CHR ''/'' # t'" using t(2) by auto
    then have c': "load m' p = Some (CHR ''/'')" using t(1) by (simp add: cstr_simps load_def)
    have "\<exists>m''. store m' (p + 1) NUL = Some m'' \<and> cstr m'' p ''/''"
    proof (cases t')
      case Nil
      then have "m' (p + 1) = Some NUL" using t(1) t' by (simp add: cstr_simps)
      then have "store m' (p + 1) NUL = Some (m'(p + 1 \<mapsto> NUL))" "m'(p + 1 \<mapsto> NUL) = m'"
        by (auto simp: store_def)
      then show ?thesis using t(1) t' Nil by simp
    next
      case (Cons d r)
      then show ?thesis using cstr_cut [of m' p "''/''" d r] t(1) t' by auto
    qed
    then show ?thesis using first slash loop True c' assms(3) by (auto simp: dirname_def dir_part_def)
  next
    case False
    then obtain d r where r: "t = d # r" "t = no_end_slash u" using t(2) by (cases t) auto
    then have d: "load m' p = Some d" "d \<noteq> NUL" using t(1) by (simp_all add: cstr_simps load_def)
    show ?thesis
    proof (cases "d = CHR ''/'' \<and> length (no_end_slash u) = 1")
      case True
      then have "no_end_slash u = ''/''" using r by (cases r) auto
      then show ?thesis by (simp add: no_end_slash_def rev_swap dropWhile_eq_Cons_conv)
    next
      case False
      have "length (no_end_slash u) - 1 \<noteq> 0 \<or> d \<noteq> CHR ''/''" using False r by (cases r) auto
      then show ?thesis using first slash loop d r t(1) assms(3) \<open>no_end_slash u \<noteq> []\<close>
        by (auto simp: dirname_def dir_part_def)
    qed
  qed
qed

text \<open>Slashes at the end of the path are not dropped before the last component is cut.\<close>

lemma dirname_trailing_slash:
  "cstr m p ''a/b/'' \<Longrightarrow> p \<noteq> null \<Longrightarrow> \<exists>m'. dirname m p = Some (m', At p) \<and> cstr m' p ''a/b''"
  using dirname_slash [of m p "''a/b''" "[]"] by (simp add: dir_part_def no_end_slash_def)

end
