(* ===== verification/Spec2Isabelle.thy ===== *)
theory Spec2Isabelle
  imports CRT_Sort CRT_Queue CRT_Env CRT_Wcs CRT_Alloc CRT_Fprintf CRT_Fnmatch CRT_Getopt CRT_Scan
    CRT_Random CRT_Libgen
begin

text \<open>
  The repository is a C runtime that gives programs one POSIX and Bionic shaped environment on Linux,
  macOS and Windows: a C library (\<^verbatim>\<open>libc/\<close>) on top of a thin layer of host system calls, media and
  user-interface libraries over it, and a tree of vendored shell tools. This development models the
  part of the C library that computes rather than asks the host, and the transport queue of the media
  library. Every definition follows one C function or one loop or branch of it, with its conditions,
  early returns and stores in the order of the source; where a C name would clash with a constant of
  the logic it has a suffix.

  \<^bold>\<open>Memory and errors.\<close> \<open>CRT_Prelude\<close> names the types: \<open>char\<close> is a byte, an \<open>int\<close> whose wrap-around
  matters is a word of 32 or 64 bits, an address is a natural number with 0 for the null pointer.
  \<open>CRT_Mem\<close> is a flat memory, a partial map from addresses to cells. A load or store where nothing is
  mapped is the value \<^term>\<open>None\<close>, so that a theorem whose conclusion is \<^term>\<open>Some\<close> says that the
  function stays inside of its buffers and returns. A store behind the end of a local array is
  \<^term>\<open>None\<close> too, and so is a year that leaves its type; arithmetic on the widths and precisions of a
  format wraps around. \<open>mem_put m p s\<close> is the memory after the block \<open>s\<close>
  has been written at \<open>p\<close>; a theorem that gives the final memory in this form says what is written and
  that nothing else is. C errors are values: an error number, \<open>Inl e\<close>, or the result that the C
  function returns with \<^verbatim>\<open>errno\<close> beside it.

  \<^bold>\<open>The components,\<close> from the lower to the upper ones:

  \<^item> \<open>CRT_Ctype\<close>: \<^verbatim>\<open>ctype.c\<close>, \<^verbatim>\<open>wctype.c\<close>. The range test by unsigned wrap-around is what the other
    components call for spaces, digits and letters.
  \<^item> \<open>CRT_Copy\<close>, \<open>CRT_String\<close>: the directory \<^verbatim>\<open>string/\<close>. \<^verbatim>\<open>bcopy.c\<close> is the body of \<open>memcpy\<close> and
    \<open>memmove\<close>, with its small, forward and backward paths and its alignment; scans for a terminator are
    partial functions with lemmas that they end on a string.
  \<^item> \<open>CRT_Strtol\<close>: \<^verbatim>\<open>strtol.c\<close> and its three siblings and the \<^verbatim>\<open>ato\<close> wrappers, at both widths of \<open>long\<close>,
    and the longest numeral of a text as the C standard has it, defined without the code.
  \<^item> \<open>CRT_Sort\<close>: \<^verbatim>\<open>qsort.c\<close>, heap sort and binary search over records in memory, for any comparison
    function; the locale \<open>comparator\<close> states what it has to promise, and \<open>memcmp\<close> is an instance.
  \<^item> \<open>CRT_Dll\<close>, \<open>CRT_Malloc\<close>, \<open>CRT_Heap\<close>, \<open>CRT_Alloc\<close>: \<^verbatim>\<open>malloc.c\<close> and \<^verbatim>\<open>reallocarray.c\<close>. \<open>CRT_Malloc\<close> has the
    allocator, its store split by the type of the object; \<open>CRT_Heap\<close> its invariant, that the blocks
    are disjoint and that every free block is in the bin of its size; \<open>CRT_Alloc\<close> the interface
    \<open>allocator\<close> over the set of regions that are handed out, interpreted on the model, and the
    states that a program can reach.
  \<^item> \<open>CRT_Env\<close>: \<^verbatim>\<open>env.c\<close>, the table behind \<open>getenv\<close>, \<open>setenv\<close>, \<open>putenv\<close> and \<open>unsetenv\<close>, and the bootstrap of
    the root file system.
  \<^item> \<open>CRT_Utf8\<close>, \<open>CRT_Wcs\<close>: \<^verbatim>\<open>wchar.c\<close> and \<^verbatim>\<open>uchar.c\<close>, the conversions between UTF-8, UTF-16 and code
    points with their conversion state, one character at a time and for whole strings, and the
    wide strings, on a memory whose cells are wide characters.
  \<^item> \<open>CRT_Time\<close>, \<open>CRT_Decimal\<close>: \<^verbatim>\<open>time.c\<close>, the calendar in both directions, \<open>strftime\<close> with its stores into
    the caller's buffer and the room that is left there, and the decimal texts that \<open>strtol\<close> reads back.
  \<^item> \<open>CRT_Stdio\<close>, \<open>CRT_Stream\<close>, \<open>CRT_Lines\<close>: \<^verbatim>\<open>stdio.c\<close>. \<open>CRT_Stdio\<close> has the streams, with one operation per C
    function, over system calls that are parameters; \<open>CRT_Stream\<close> the abstract file, a list of bytes
    with a position, and the relation of a stream to it through every operation, on a descriptor that
    writes at its offset or, opened for appending, at the end of the file; \<open>CRT_Lines\<close> the
    operations on blocks and lines, proved once in the locales \<open>byte_source\<close> and \<open>byte_sink\<close> and
    interpreted on the streams over files and over memory.
  \<^item> \<open>CRT_Printf\<close>, \<open>CRT_Snprintf\<close>, \<open>CRT_Fprintf\<close>: \<^verbatim>\<open>printf.c\<close>. The conversions, those of
    floating-point numbers included, append to a buffer that counts what does not fit; \<open>prints\<close> is the text of a format and its arguments, and \<open>vsnprintf\<close>, \<open>vasprintf\<close>
    and \<open>vfprintf\<close>, through the buffer on the stack or through an allocated one, all print it.
  \<^item> \<open>CRT_Scanf\<close>, \<open>CRT_Scan\<close>: \<^verbatim>\<open>scanf.c\<close>. \<open>CRT_Scanf\<close> has the sources, the conversions and the format;
    \<open>CRT_Scan\<close> proves what they read once in the locale \<open>scan_input\<close>, for any source that gives the bytes of a
    text and takes the last one back, and interprets it on strings and on streams over a file.
  \<^item> \<open>CRT_Fnmatch\<close>: \<^verbatim>\<open>fnmatch.c\<close>, the matcher and the meaning of a pattern as a list of items.
  \<^item> \<open>CRT_Getopt\<close>: \<^verbatim>\<open>getopt.c\<close>, the three option parsers with the reordering of the words, and the loop a
    program runs over them.
  \<^item> \<open>CRT_Random\<close>: \<^verbatim>\<open>random.c\<close>, the generator with its state buffers (a sequence that is set aside goes on
    where it stopped) and the loops that read the random device of the host.
  \<^item> \<open>CRT_Libgen\<close>: \<^verbatim>\<open>libgen.c\<close>, \<open>basename\<close> and \<open>dirname\<close> as cuts in the path, with their result for every path.
  \<^item> \<open>CRT_Queue\<close>: \<^verbatim>\<open>transport_queue.c\<close> of \<^verbatim>\<open>libcrtmedia\<close>, a bounded byte queue between two threads. A call is
    the sequence of its locked sections, from one wait to the next, and a read stores into the block of
    its caller; an inductive step relation
    interleaves the sections of a producer and a consumer with spurious wake-ups, time-outs, cancelling
    and the release of the queue.

  \<^bold>\<open>What the theorems show.\<close> The lemmas of a component give each operation's result on every branch,
  and an invariant that its operations preserve. The theorems of this file put them together. For
  copying, searching and sorting they give the exact final memory; for the allocator, that the
  regions of a program stay apart and keep their contents whatever it calls, as a refinement of the
  set of regions; for the queue, order, that no thread sleeps on a condition that holds already, and the end of
  the stream, in every state that can be reached. A stream refines a file, and what \<open>printf\<close> prints with a
  format is what \<open>scanf\<close> reads with it, through a string or a file. Characters,
  times and numbers go through both directions of their conversions. A pattern matches what its
  items mean, and the option loops take a command line apart into what it was put together from and
  end on every other one. Where the code does not do what its interface asks for, a theorem states what it
  does instead.

  \<^bold>\<open>Termination, bounds.\<close> No definition uses fuel. A loop with a bound is a total function, with its
  measure; a loop that may run off its buffer or wait for the host is a partial function, and
  that it ends is a part of the theorems. The bounds of the theorems are those of the C types: each
  request to the allocator is below 2^32 - 2^17 bytes (the size of a chunk is masked with 32 bits), the times are within
  2^55 seconds of the epoch or have a year that fits an \<open>int\<close>, a printed text and a stream's buffer are shorter than 2^31 bytes, a
  memory stream is shorter than 2^62.

  \<^bold>\<open>Parameters.\<close> The host's system calls are functions that the operations take. \<open>mmap\<close> gives an
  error or a fresh mapping; \<open>read\<close>, \<open>write\<close> and \<open>lseek\<close> transfer at least one byte where they can and at
  most what was asked for. In the model every allocation below streams and the environment may fail,
  and the functions return what the code does then. The theorems on streams over a file assume, in
  \<open>regular_file\<close>, that memory suffices; the one on memory streams assumes it for the growth of the block
  only, and that on the environment nowhere. A theorem with a hypothesis on the host has a witness
  on a concrete one, a file kept in memory.

  \<^bold>\<open>Not modelled.\<close> The wrappers of system calls (descriptors, processes, signals, sockets, threads,
  mappings of memory) and the layer below them for each host: what they do is what the host
  does. The vendored code: the shell and its tools, the regular expressions, \<open>gdtoa\<close>, and with it the
  digits that \<open>printf\<close> prints of a floating-point number and the value that \<open>strtod\<close> reads, which are parameters of the
  formatted input and output, as is the arithmetic of \<open>long double\<close>; what \<^verbatim>\<open>printf.c\<close> itself makes of the digits is
  modelled. Of \<^verbatim>\<open>stdio.c\<close>, pipes to processes, reopening, temporary files and the orientation of a stream;
  of \<^verbatim>\<open>env.c\<close>, the Windows branches; of \<^verbatim>\<open>time.c\<close>, \<open>strptime\<close> and the timers. The locks of the single
  threaded components are not modelled: each public call is one step.
\<close>

section \<open>Blocks and strings\<close>

text \<open>
  C1. \<open>memmove\<close> writes to the destination exactly the bytes the source held before the call,
  whatever the overlap and alignment of the two blocks, touches nothing else, faults on no address
  of the two blocks and returns the destination.
\<close>

theorem memmove_any_overlap:
  assumes "bytes_at m src s" and "mapped m dst (length s)"
  shows "memmove m dst src (length s) = Some (mem_put m dst s, dst)"
  by (rule memmove.copy_block [OF assms(1) refl assms(2)])

theorem memmove_any_overlap_witness:
  "memmove (mem_of 8 ''abcdefghijklmnopqrstuvwx'') 11 8 20 =
    Some (mem_put (mem_of 8 ''abcdefghijklmnopqrstuvwx'') 11 ''abcdefghijklmnopqrst'', 11)"
proof -
  let ?m = "mem_of 8 ''abcdefghijklmnopqrstuvwx''"
  have b: "bytes_at ?m 8 ''abcdefghijklmnopqrstuvwx''" by (simp only: mem_of_def bytes_at_mem_put)
  have s: "bytes_at ?m 8 ''abcdefghijklmnopqrst''"
    using bytes_at_take [OF b, of 20] by simp
  have d: "mapped ?m 11 (length ''abcdefghijklmnopqrst'')"
    using bytes_at_mapped [OF bytes_at_drop [OF b, of 3]] mapped_mono by fastforce
  show ?thesis using memmove_any_overlap [OF s d] by (simp add: numeral_eq_Suc)
qed

section \<open>Sorting and searching\<close>

text \<open>
  C2. For every comparison function that is a total preorder on records, \<open>qsort\<close> returns (no
  fault, no endless loop) and leaves in the array a sorted permutation of its records; no byte
  outside the array changes.
\<close>

theorem qsort_sorts_records:
  assumes "comparator compar sz cmp" and "recs m base sz xs" and "base \<noteq> null" and "sz \<noteq> 0"
  shows "\<exists>m' ys. qsort m base (length xs) sz (Some compar) = Some m' \<and> recs m' base sz ys \<and>
    mset ys = mset xs \<and> sorted_wrt (\<lambda>x y. cmp x y \<le> 0) ys \<and> same_outside base (length xs * sz) m m'"
  by (rule comparator.qsort_sorts [OF assms(1,2) refl assms(3,4)])

theorem qsort_sorts_records_witness:
  "\<exists>m' ys. qsort (mem_of 1 ''cabd'') 1 2 2 (Some (\<lambda>m p q. memcmp m p q 2)) = Some m' \<and>
    recs m' 1 2 ys \<and> mset ys = {#''ca'', ''bd''#} \<and> sorted_wrt (\<lambda>x y. cmp_blocks x y \<le> 0) ys \<and>
    same_outside 1 4 (mem_of 1 ''cabd'') m'"
proof -
  have "recs (mem_of 1 ''cabd'') 1 2 [''ca'', ''bd'']"
    by (simp add: recs_def mem_of_def mem_put_def upt_rec numeral_eq_Suc)
  from qsort_sorts_records [OF memcmp.comparator_axioms this] show ?thesis
    by (simp add: numeral_eq_Suc)
qed

text \<open>
  C3. On a sorted array \<open>bsearch\<close> returns the address of a record equal to the key when there is
  one, and null exactly when there is none.
\<close>

theorem bsearch_finds_record:
  assumes "comparator compar sz cmp" and "recs m base sz xs" and "sorted_wrt (\<lambda>x y. cmp x y \<le> 0) xs"
    and "bytes_at m key k" and "length k = sz" and "key \<noteq> null" and "base \<noteq> null" and "sz \<noteq> 0"
  shows "\<exists>p. bsearch m key base (length xs) sz (Some compar) = Some p \<and>
    ((\<exists>i<length xs. p = base + i * sz \<and> cmp k (xs ! i) = 0) \<or>
     (p = null \<and> (\<forall>x \<in> set xs. cmp k x \<noteq> 0)))"
  by (rule comparator.bsearch_finds [OF assms(1,2) refl assms(3-8)])

theorem bsearch_finds_record_witness:
  "\<exists>p. bsearch (mem_of 1 ''aabbcc'') 3 1 3 2 (Some (\<lambda>m p q. memcmp m p q 2)) = Some p \<and>
    ((\<exists>i<3. p = 1 + i * 2 \<and> cmp_blocks ''bb'' ([''aa'', ''bb'', ''cc''] ! i) = 0) \<or>
     (p = null \<and> (\<forall>x \<in> {''aa'', ''bb'', ''cc''}. cmp_blocks ''bb'' x \<noteq> 0)))"
proof -
  let ?m = "mem_of 1 ''aabbcc''" and ?xs = "[''aa'', ''bb'', ''cc'']"
  have r: "recs ?m 1 2 ?xs"
    by (simp add: recs_def mem_of_def mem_put_def upt_rec numeral_eq_Suc)
  have s: "sorted_wrt (\<lambda>x y. cmp_blocks x y \<le> 0) ?xs" by simp
  have k: "bytes_at ?m 3 ''bb''" by (simp add: mem_of_def mem_put_def numeral_eq_Suc)
  from bsearch_finds_record [OF memcmp.comparator_axioms r s k] show ?thesis
    by (simp add: numeral_eq_Suc)
qed

section \<open>The memory allocator\<close>

text \<open>A heap from which one region has been handed out; the system maps at 64 KiB.\<close>

lemma first_mapping:
  "malloc_ready (\<lambda>n. if n \<le> 2 ^ 32 then Inr 65536 else Inl 12) 100 heap_start"
  "\<not> malloc_full (\<lambda>n. if n \<le> 2 ^ 32 then Inr 65536 else Inl 12) 100 heap_start"
proof -
  have e: "align_size 100 = 112" by (subst align_size_eq) simp_all
  have "align_chunk_size (112 + HDR) = 65536" by (subst align_chunk_size_eq) (simp_all add: HDR_def)
  then show "\<not> malloc_full (\<lambda>n. if n \<le> 2 ^ 32 then Inr 65536 else Inl 12) 100 heap_start"
    by (simp add: malloc_full_def no_memory_def e CRT_MALLOC_MAX_OS_REGIONS_def) (simp add: heap_start_def)
  show "malloc_ready (\<lambda>n. if n \<le> 2 ^ 32 then Inr 65536 else Inl 12) 100 heap_start"
    by (simp add: malloc_ready_def mmap_fresh_def heap_start_def)
qed

lemma first_region: "\<exists>hp p k. program hp {(p, k)} \<and> 100 \<le> k"
proof -
  let ?mmap = "\<lambda>n. if n \<le> 2 ^ 32 then Inr 65536 else Inl 12"
  from crt_heap.alloc [OF heap_rep_start first_mapping(1)] first_mapping(2)
  obtain hp p k where m: "malloc ?mmap 100 heap_start = Some (hp, p)" "100 \<le> k" "heap_rep hp {(p, k)}"
    by (auto simp: malloc_def)
  with program.call_malloc [OF program.start first_mapping(1) m(1)]
    region_bytes(1) [OF m(3), of p k] usable_size [OF m(3), of p k] show ?thesis by auto
qed

text \<open>
  C4. Whatever a program without memory errors does with \<open>malloc\<close> and \<open>realloc\<close>, each for a size
  below 4 GiB - 128 KiB (2^32 - 2^17 bytes), with \<open>free\<close> and with writes into its own regions, the
  regions it owns are never empty, aligned to 16 bytes, readable and writable, and no two of them
  share a byte. Larger requests are excluded: their chunk size may lose its upper half.
\<close>

theorem heap_regions_stay_apart:
  assumes "program hp A"
  shows "(\<forall>(p, n) \<in> A. 0 < n \<and> 16 dvd p \<and> mapped (bytes hp) p n) \<and>
    (\<forall>(p, n) \<in> A. \<forall>(q, m) \<in> A. (p, n) \<noteq> (q, m) \<longrightarrow> p + n \<le> q \<or> q + m \<le> p)"
  using program_regions [OF assms] by blast

theorem heap_regions_stay_apart_witness:
  "\<exists>hp p k. program hp {(p, k)} \<and> 100 \<le> k \<and> 16 dvd p \<and> mapped (bytes hp) p k"
proof -
  obtain hp p k where "program hp {(p, k)}" "100 \<le> k" using first_region by blast
  with heap_regions_stay_apart [OF this(1)] show ?thesis by (intro exI [of _ hp] exI [of _ p] exI [of _ k]) simp
qed

text \<open>
  C5. For every request below 4 GiB - 128 KiB \<open>malloc\<close> returns; it adds one region of at least the
  requested size to those that are handed out, leaves the bytes of the others as they are, and
  fails only when the system has no memory or the table of mappings is full.
\<close>

theorem malloc_hands_out_fresh_region:
  assumes "heap_rep hp A" and "malloc_ready mmap n hp"
  shows "\<exists>hp' p. malloc mmap n hp = Some (hp', p) \<and> intact A (bytes hp) (bytes hp') \<and>
    (p = null \<and> malloc_full mmap n hp \<and> heap_rep hp' A \<or>
     (\<exists>k. n \<le> k \<and> (p, k) \<notin> A \<and> heap_rep hp' (insert (p, k) A)))"
  unfolding malloc_def by (rule crt_heap.alloc [OF assms])

theorem malloc_hands_out_fresh_region_witness:
  "\<exists>hp' p k. malloc (\<lambda>n. if n \<le> 2 ^ 32 then Inr 65536 else Inl 12) 100 heap_start = Some (hp', p) \<and>
    100 \<le> k \<and> heap_rep hp' {(p, k)}"
  using malloc_hands_out_fresh_region [OF heap_rep_start first_mapping(1)] first_mapping(2) by auto

text \<open>
  C6. \<open>free\<close> of a pointer that was handed out returns, takes exactly its region out of those
  handed out, and leaves the bytes of all others as they are.
\<close>

theorem free_takes_region_back:
  assumes "heap_rep hp A" and "(p, n) \<in> A"
  shows "\<exists>hp'. free p hp = Some hp' \<and> heap_rep hp' (A - {(p, n)}) \<and>
    intact (A - {(p, n)}) (bytes hp) (bytes hp')"
  unfolding free_def by (rule crt_heap.release [OF assms])

theorem free_takes_region_back_witness:
  "\<exists>hp p k hp'. program hp {(p, k)} \<and> free p hp = Some hp' \<and> heap_rep hp' {}"
proof -
  obtain hp p k where p: "program hp {(p, k)}" using first_region by blast
  with free_takes_region_back [OF program_rep [OF p] singletonI] show ?thesis by fastforce
qed

text \<open>
  C7. For a new size from 1 byte to below 4 GiB - 128 KiB, \<open>realloc\<close> returns a region of at least
  the new size that starts with the old contents, up to the smaller of the two sizes, in the place
  of the old region, whether it shrinks the block or moves it; or it fails, because the system has
  no memory or the table of mappings is full, and then the old region is still there with its
  contents. The other regions keep their bytes.
\<close>

theorem realloc_keeps_contents:
  assumes "heap_rep hp A" and "(p, n) \<in> A" and "sz \<noteq> 0" and "malloc_ready mmap sz hp"
    and "bytes_at (bytes hp) p t" and "length t = n"
  shows "\<exists>hp' q. realloc mmap p sz hp = Some (hp', q) \<and>
    (q = null \<and> malloc_full mmap sz hp \<and> heap_rep hp' A \<and> intact A (bytes hp) (bytes hp') \<or>
     (\<exists>j. sz \<le> j \<and> heap_rep hp' (insert (q, j) (A - {(p, n)})) \<and> bytes_at (bytes hp') q (take sz t) \<and>
       intact (A - {(p, n)}) (bytes hp) (bytes hp')))"
  by (rule realloc_ok [OF assms])

theorem realloc_keeps_contents_witness:
  "\<exists>hp p k t hp' q. program hp {(p, k)} \<and> length t = k \<and> bytes_at (bytes hp) p t \<and>
    realloc (\<lambda>_. Inl 12) p 200 hp = Some (hp', q) \<and>
    (q = null \<or> (\<exists>j\<ge>200. heap_rep hp' {(q, j)} \<and> bytes_at (bytes hp') q (take 200 t)))"
proof -
  obtain hp p k where p: "program hp {(p, k)}" using first_region by blast
  obtain t where t: "bytes_at (bytes hp) p t" "length t = k"
    using region_bytes(2) [OF program_rep [OF p] singletonI] by blast
  have "malloc_ready (\<lambda>_. Inl 12) 200 hp" by (simp add: malloc_ready_def mmap_fresh_def)
  from realloc_keeps_contents [OF program_rep [OF p] singletonI _ this t] p t show ?thesis by fastforce
qed

text \<open>
  C8. When the product of its arguments is below 4 GiB - 128 KiB, \<open>calloc\<close> hands out a region of
  at least \<open>nmemb * size\<close> bytes in which these bytes are zero, even where it reuses memory that
  was freed, or fails because the system has no memory or the table of mappings is full; a product
  beyond \<open>SIZE_MAX\<close> is refused with \<open>ENOMEM\<close> before anything is allocated. Of products in between
  nothing is said.
\<close>

theorem calloc_clears_region:
  assumes "heap_rep hp A"
  shows "(malloc_ready mmap (sz * nmemb) hp \<longrightarrow> (\<exists>hp' p. calloc mmap nmemb sz hp = Some (hp', p) \<and>
      intact A (bytes hp) (bytes hp') \<and>
      (p = null \<and> malloc_full mmap (sz * nmemb) hp \<and> heap_rep hp' A \<or>
       (\<exists>n. sz * nmemb \<le> n \<and> (p, n) \<notin> A \<and> heap_rep hp' (insert (p, n) A) \<and>
         bytes_at (bytes hp') p (replicate (sz * nmemb) NUL))))) \<and>
    (SIZE_MAX < sz * nmemb \<longrightarrow> calloc mmap nmemb sz hp = Some (hp\<lparr>errno := ENOMEM\<rparr>, null))"
  using calloc_ok [OF assms] calloc_overflow by blast

theorem calloc_clears_region_witness:
  "\<exists>hp' p n. calloc (\<lambda>n. if n \<le> 2 ^ 32 then Inr 65536 else Inl 12) 25 4 heap_start = Some (hp', p) \<and>
    100 \<le> n \<and> heap_rep hp' {(p, n)} \<and> bytes_at (bytes hp') p (replicate 100 NUL)"
  using calloc_clears_region [OF heap_rep_start, of "\<lambda>n. if n \<le> 2 ^ 32 then Inr 65536 else Inl 12" 4 25]
    first_mapping by auto

text \<open>
  C9. For every alignment that is a power of two from 8 on, and a size that with the alignment and
  the header of an aligned block is below 4 GiB - 128 KiB, \<open>posix_memalign\<close> either stores a
  pointer of that alignment with the requested room inside of a region of its own, and \<open>free\<close> of
  that pointer gives the whole region back, or it returns \<open>ENOMEM\<close>, stores no pointer and leaves
  the regions that are handed out as they are.
\<close>

theorem posix_memalign_aligns:
  assumes "heap_rep hp A" and "al = 2 ^ k" and "3 \<le> k" and "malloc_ready mmap (sz + al + ALIGNED_HDR) hp"
  shows "\<exists>hp' e q. posix_memalign mmap True al sz hp = Some (hp', e, q) \<and> intact A (bytes hp) (bytes hp') \<and>
    (e = ENOMEM \<and> q = None \<and> heap_rep hp' A \<or>
     (\<exists>p n r. e = 0 \<and> q = Some r \<and> al dvd r \<and> p \<le> r \<and> r + sz \<le> p + n \<and> (p, n) \<notin> A \<and>
       heap_rep hp' (insert (p, n) A) \<and> (\<exists>hp''. free r hp' = Some hp'' \<and> heap_rep hp'' A)))"
  by (rule posix_memalign_ok [OF assms])

theorem posix_memalign_aligns_witness:
  "\<exists>hp' e q. posix_memalign (\<lambda>n. if n \<le> 2 ^ 32 then Inr 65536 else Inl 12) True 256 100 heap_start = Some (hp', e, q) \<and>
    (q = None \<or> (\<exists>r. q = Some r \<and> 256 dvd r))"
proof -
  have "malloc_ready (\<lambda>n. if n \<le> 2 ^ 32 then Inr 65536 else Inl 12) (100 + 256 + ALIGNED_HDR) heap_start"
    by (simp add: malloc_ready_def mmap_fresh_def heap_start_def ALIGNED_HDR_def)
  from posix_memalign_aligns [OF heap_rep_start _ _ this, of 8] show ?thesis by fastforce
qed

text \<open>
  C10. Every byte of a region owned by a program whose requests are each below 4 GiB - 128 KiB
  lies in one of the mappings the allocator reports to \<open>fork\<close>, so that the child's copy of the
  heap misses nothing.
\<close>

theorem heap_regions_recorded:
  assumes "program hp A" and "(p, n) \<in> A" and "i < n"
  shows "\<exists>j. 0 \<le> j \<and> j < crt_malloc_os_region_count hp \<and> crt_malloc_os_region_base j hp \<le> p + i \<and>
    p + i < crt_malloc_os_region_base j hp + crt_malloc_os_region_size j hp"
proof -
  have "covered (os_regions hp) p n" by (rule program_regions(3) [OF assms(1,2)])
  then obtain a k where "(a, k) \<in> set (os_regions hp)" "a \<le> p + i" "p + i < a + k"
    using assms(3) by (auto simp: covered_def)
  then obtain j where "j < length (os_regions hp)" "os_regions hp ! j = (a, k)" "a \<le> p + i" "p + i < a + k"
    by (auto simp: in_set_conv_nth)
  then show ?thesis
    by (intro exI [of _ "int j"]) (simp add: crt_malloc_os_region_count_def crt_malloc_os_region_base_def
        crt_malloc_os_region_size_def)
qed

theorem heap_regions_recorded_witness:
  "\<exists>hp p k j. program hp {(p, k)} \<and> 100 \<le> k \<and> j < crt_malloc_os_region_count hp \<and>
    crt_malloc_os_region_base j hp \<le> p + 99"
proof -
  obtain hp p k where p: "program hp {(p, k)}" "100 \<le> k" using first_region by blast
  then have "99 < k" by simp
  from heap_regions_recorded [OF p(1) singletonI this] p show ?thesis by blast
qed

text \<open>
  C11. In every state that a program whose requests are each below 4 GiB - 128 KiB can reach,
  \<open>malloc\<close> and \<open>realloc\<close> of a further such size (for \<open>realloc\<close> not 0) and \<open>free\<close> of a region it
  owns return without a fault: the searches of the bins and the merging of neighbours end.
\<close>

theorem heap_calls_return:
  assumes "program hp A"
  shows "(malloc_ready mmap n hp \<longrightarrow> malloc mmap n hp \<noteq> None) \<and>
    ((p, k) \<in> A \<and> n \<noteq> 0 \<and> malloc_ready mmap n hp \<longrightarrow> realloc mmap p n hp \<noteq> None) \<and>
    ((p, k) \<in> A \<longrightarrow> free p hp \<noteq> None)"
  using program_progress [OF assms] by blast

theorem heap_calls_return_witness:
  "\<exists>hp p k. program hp {(p, k)} \<and> malloc (\<lambda>_. Inl 12) 50 hp \<noteq> None \<and>
    realloc (\<lambda>_. Inl 12) p 50 hp \<noteq> None \<and> free p hp \<noteq> None"
proof -
  obtain hp p k where p: "program hp {(p, k)}" using first_region by blast
  have "malloc_ready (\<lambda>_. Inl 12) 50 hp" by (simp add: malloc_ready_def mmap_fresh_def)
  with heap_calls_return [OF p, of "\<lambda>_. Inl 12" 50 p k] p show ?thesis by auto
qed

text \<open>The mask of align_chunk_size has 32 bits: a request of 4 GiB on an empty heap maps 64 KiB and succeeds with a block of 65,488 bytes.\<close>

theorem malloc_4GiB_short:
  assumes "heap_at hp [] {}" and "mmap 65536 = Inr a" and "a \<noteq> 0"
    and "length (os_regions hp) < CRT_MALLOC_MAX_OS_REGIONS"
  shows "\<exists>hp'. malloc mmap (2 ^ 32) hp = Some (hp', a + HDR) \<and> malloc_usable_size (a + HDR) hp' = 65488"
  using malloc_4GiB [of hp mmap a] assms by (simp add: HDR_def)

section \<open>The transport queue\<close>

text \<open>A queue of four bytes, empty and then full, with a producer that waits to write one more.\<close>

lemma small_queue:
  "reachable (initial \<lparr>buffer = ''....'', capacity = 4, high_watermark = 4, low_watermark = 2, head = 0, count = 0,
    eof_written = False, cancelled = False, has_error = False, stored_error = CRTMEDIA_OK, active_waiters = 0\<rparr>)"
  by (rule reachable.start [of 4 0 0 "Some ()" "''....''"]) (simp_all add: crtmedia_transport_queue_create_def)

definition full_system :: sys where
  "full_system = \<lparr>shared = \<lparr>buffer = ''abcd'', capacity = 4, high_watermark = 4, low_watermark = 2, head = 0, count = 4,
      eof_written = False, cancelled = False, has_error = False, stored_error = CRTMEDIA_OK, active_waiters = 1\<rparr>,
    producer = Asleep (Some ''e'', 1, 50), consumer = Ready, sent = ''abcd'', received = [], freed = False\<rparr>"

lemma full_queue: "reachable full_system" "contents (shared full_system) = ''abcd''"
proof -
  let ?q = "\<lparr>buffer = ''....'', capacity = 4, high_watermark = 4, low_watermark = 2, head = 0, count = 0,
    eof_written = False, cancelled = False, has_error = False, stored_error = CRTMEDIA_OK, active_waiters = 0\<rparr>"
  let ?q1 = "?q\<lparr>buffer := ''abcd'', count := 4\<rparr>"
  let ?s1 = "end_write (Some ''abcd'', 4, 0) ?q1 (Return (CRTMEDIA_OK, 4)) (notify [Signal not_empty] (initial ?q))"
  have w1: "crtmedia_transport_queue_write (Some (shared (initial ?q))) (Some ''abcd'') 4 0 True =
      Some (Some ?q1, Return (CRTMEDIA_OK, 4), [Signal not_empty])"
    by (simp add: initial_def crtmedia_transport_queue_write_def write_loop_def write_copy_def get_bytes_def put_bytes_def)
  have r1: "reachable ?s1"
    by (rule reachable.next_step [OF small_queue step.write_call [OF _ _ _ w1]])
      (simp_all add: initial_def valid_args_def source_bytes_def)
  let ?s2 = "end_write (Some ''e'', 1, 50) (bounded_wait_enter ?q1) Wait (notify [] ?s1)"
  have w2: "crtmedia_transport_queue_write (Some (shared ?s1)) (Some ''e'') 1 50 True =
      Some (Some (bounded_wait_enter ?q1), Wait, [])"
    by (simp add: crtmedia_transport_queue_write_def write_loop_def)
  have "reachable ?s2"
    by (rule reachable.next_step [OF r1 step.write_call [OF _ _ _ w2]])
      (simp_all add: initial_def valid_args_def source_bytes_def)
  moreover have "?s2 = full_system"
    by (simp add: full_system_def notify_def initial_def bounded_wait_enter_def source_bytes_def)
  ultimately show "reachable full_system" by (simp only:)
  have "[0..<4] = [0, 1, 2, 3 :: nat]" by (simp add: upt_rec)
  then show "contents (shared full_system) = ''abcd''" by (simp add: full_system_def contents_def)
qed

text \<open>
  C12. In every state the producer and the consumer thread can reach, the bytes accepted from the
  producer are the bytes delivered to the consumer followed by the bytes in the ring, in order,
  and the ring is well formed (never more bytes than its capacity).
\<close>

theorem queue_delivers_in_order:
  assumes "reachable s"
  shows "sent s = received s @ contents (shared s) \<and> queue_wf (shared s)"
  using reachable_inv [OF assms] by (simp add: inv_iff)

theorem queue_delivers_in_order_witness:
  "\<exists>s. reachable s \<and> sent s = ''abc'' \<and> sent s = received s @ contents (shared s) \<and> queue_wf (shared s)"
proof -
  let ?q = "\<lparr>buffer = ''....'', capacity = 4, high_watermark = 4, low_watermark = 2, head = 0, count = 0,
    eof_written = False, cancelled = False, has_error = False, stored_error = CRTMEDIA_OK,
    active_waiters = 0\<rparr>"
  let ?s = "initial ?q"
  have r: "reachable ?s"
    by (rule reachable.start [of 4 0 0 "Some ()" "''....''"])
      (simp_all add: crtmedia_transport_queue_create_def)
  have w: "crtmedia_transport_queue_write (Some (shared ?s)) (Some ''abc'') 3 0 True =
      Some (Some (?q\<lparr>buffer := ''abc.'', count := 3\<rparr>), Return (CRTMEDIA_OK, 3), [Signal not_empty])"
    by (simp add: initial_def crtmedia_transport_queue_write_def write_loop_def write_copy_def
        get_bytes_def put_bytes_def)
  have "step ?s (end_write (Some ''abc'', 3, 0) (?q\<lparr>buffer := ''abc.'', count := 3\<rparr>)
      (Return (CRTMEDIA_OK, 3)) (notify [Signal not_empty] ?s))"
    by (rule step.write_call [OF _ _ _ w]) (simp_all add: initial_def valid_args_def source_bytes_def)
  from reachable.next_step [OF r this] queue_delivers_in_order [OF reachable.next_step [OF r this]]
  show ?thesis
    by (intro exI conjI) (assumption, simp add: initial_def source_bytes_def, simp_all)
qed

text \<open>
  C13. No wake-up is lost: in every reachable state, a consumer that is asleep and not yet
  signalled has nothing to come back for (no byte is buffered, no end and no error has been
  written, the queue is not cancelled), and a producer that is asleep still finds the buffer over
  its low watermark, or at its high one, and the queue not cancelled. So the two are never both
  asleep, and a \<open>read\<close> with room for all of the buffered bytes returns them and signals the
  sleeping producer.
\<close>

theorem queue_never_deadlocks:
  assumes "reachable s"
  shows "(\<forall>b. consumer s = Asleep b \<longrightarrow> contents (shared s) = [] \<and> \<not> eof_written (shared s) \<and>
      \<not> has_error (shared s) \<and> \<not> cancelled (shared s)) \<and>
    (\<forall>a. producer s = Asleep a \<longrightarrow> \<not> cancelled (shared s) \<and> contents (shared s) \<noteq> [] \<and>
      (low_watermark (shared s) < count (shared s) \<or> high_watermark (shared s) \<le> count (shared s)) \<and>
      (\<forall>data cap t. valid_args (data, cap, t) \<and> count (shared s) \<le> cap \<longrightarrow>
        (\<exists>q out evs. crtmedia_transport_queue_read (Some (shared s)) data cap t True = Some (Some q, Return out, evs) \<and>
          result out = CRTMEDIA_OK \<and> out_bytes out = contents (shared s) \<and> hits not_full evs))) \<and>
    \<not> ((\<exists>a. producer s = Asleep a) \<and> (\<exists>b. consumer s = Asleep b))"
proof -
  note i = reachable_inv [OF assms]
  show ?thesis
    apply (intro conjI)
      apply (use sleeping_consumer [OF i] in blast)
     apply (use sleeping_producer [OF i] inv_read_wakes [OF i] in meson)
    apply (use inv_no_deadlock [OF i] in blast)
    done
qed

theorem queue_never_deadlocks_witness:
  "producer full_system = Asleep (Some ''e'', 1, 50) \<and> \<not> (\<exists>b. consumer full_system = Asleep b) \<and>
    (\<exists>q out evs. crtmedia_transport_queue_read (Some (shared full_system)) (Some ''....'') 4 0 True = Some (Some q, Return out, evs) \<and>
      out_bytes out = ''abcd'' \<and> hits not_full evs)"
proof -
  have p: "producer full_system = Asleep (Some ''e'', 1, 50)" and c: "count (shared full_system) \<le> 4"
    by (simp_all add: full_system_def)
  have v: "valid_args (Some ''....'', 4, 0)" by (simp add: valid_args_def source_bytes_def)
  from queue_never_deadlocks [OF full_queue(1)] p v c show ?thesis unfolding full_queue(2) by blast
qed

text \<open>
  C14. In every reachable state each locked section of \<open>write\<close> and \<open>read\<close>, and each of them after
  a wake-up, runs to its end or to a wait without a fault, whatever the capacity of the caller's
  block: no access leaves the ring buffer, the caller's data or the room the caller gives, and a
  \<open>read\<close> that returns has changed nothing of the caller's block behind this room.
\<close>

theorem queue_calls_return:
  assumes "reachable s" and "valid_args (data, n, t)"
  shows "crtmedia_transport_queue_write (Some (shared s)) data n t ok \<noteq> None \<and>
    write_resume (shared s) data n t r \<noteq> None \<and>
    crtmedia_transport_queue_read (Some (shared s)) data n t ok \<noteq> None \<and>
    read_resume (shared s) data n t r \<noteq> None \<and>
    (\<forall>out evs. (\<exists>q. crtmedia_transport_queue_read (Some (shared s)) data n t ok = Some (q, Return out, evs)) \<or>
        (\<exists>q. read_resume (shared s) data n t r = Some (q, Return out, evs)) \<longrightarrow>
      out_read out \<le> n \<and> length (out_data out) = length (source_bytes (data, n, t)) \<and>
      drop n (out_data out) = drop n (source_bytes (data, n, t)))"
  using sections_total [OF reachable_inv [OF assms(1)] assms(2)] read_room [OF reachable_inv [OF assms(1)] assms(2)]
  by blast

theorem queue_calls_return_witness:
  "crtmedia_transport_queue_write (Some (shared full_system)) (Some ''..#'') 2 0 True \<noteq> None \<and>
    (\<exists>q out evs. crtmedia_transport_queue_read (Some (shared full_system)) (Some ''..#'') 2 0 True = Some (q, Return out, evs) \<and>
      out_read out \<le> 2 \<and> out_data out = ''ab#'' \<and> drop 2 (out_data out) = ''#'')"
proof -
  have v: "valid_args (Some ''..#'', 2, 0)" and b: "source_bytes (Some ''..#'', 2, 0) = ''..#''"
    by (simp_all add: valid_args_def source_bytes_def)
  have r: "\<exists>q. crtmedia_transport_queue_read (Some (shared full_system)) (Some ''..#'') 2 0 True =
      Some (q, Return \<lparr>result = CRTMEDIA_OK, out_data = ''ab#'', out_read = 2, out_eof = False\<rparr>, [Broadcast not_full])"
    by (simp add: full_system_def crtmedia_transport_queue_read_def read_loop_def read_copy_def get_bytes_def
        put_bytes_def numeral_2_eq_2)
  from queue_calls_return [OF full_queue(1) v, of True CRTMEDIA_OK] r show ?thesis unfolding b by fastforce
qed



text \<open>When \<open>release\<close> frees the queue, no thread is asleep in it or on its way out of a wait.\<close>

theorem queue_released_without_waiters:
  assumes "reachable s" and "freed s"
  shows "producer s = Ready \<and> consumer s = Ready"
proof -
  have "waiters s = 0" using reachable_inv [OF assms(1)] assms(2) by (simp add: inv_def)
  then show ?thesis by (auto simp: waiters_def split: if_splits)
qed

theorem queue_released_without_waiters_witness:
  "\<exists>s. reachable s \<and> freed s \<and> producer s = Ready \<and> consumer s = Ready"
proof -
  let ?q = "\<lparr>buffer = ''....'', capacity = 4, high_watermark = 4, low_watermark = 2, head = 0, count = 0,
    eof_written = False, cancelled = False, has_error = False, stored_error = CRTMEDIA_OK, active_waiters = 0\<rparr>"
  let ?s = "notify [Broadcast not_full, Broadcast not_empty] ((initial ?q)\<lparr>shared := ?q\<lparr>cancelled := True\<rparr>\<rparr>)"
  have b: "release_begin (shared (initial ?q)) = (?q\<lparr>cancelled := True\<rparr>, [Broadcast not_full, Broadcast not_empty])"
    by (simp add: release_begin_def initial_def)
  have r: "reachable ?s"
    by (rule reachable.next_step [OF small_queue step.release_begin [OF _ b]]) (simp add: initial_def)
  have "reachable (?s\<lparr>freed := True\<rparr>)"
    by (rule reachable.next_step [OF r step.release_free]) (simp_all add: initial_def release_may_free_def)
  with queue_released_without_waiters [OF this] show ?thesis by (intro exI conjI) (assumption, simp_all)
qed

text \<open>The absolute deadline of a bounded wait is the clock reading plus the timeout, to the nanosecond, with its nanoseconds below one second as \<open>pthread_cond_timedwait\<close> requires.\<close>

theorem wait_deadline_exact:
  assumes "0 \<le> nsec" and "nsec < 1000000000" and "0 \<le> timeout_ms"
  shows "case wait_deadline (sec, nsec) timeout_ms of (s, n) \<Rightarrow> 0 \<le> n \<and> n < 1000000000 \<and>
    s * 1000000000 + n = sec * 1000000000 + nsec + timeout_ms * 1000000"
proof -
  obtain s n where "wait_deadline (sec, nsec) timeout_ms = (s, n)" by (metis surj_pair)
  with deadline_normal [OF assms this] show ?thesis by simp
qed

theorem wait_deadline_exact_witness:
  "wait_deadline (5, 900000000) 1250 = (7, 150000000) \<and> (0 :: int) \<le> 150000000 \<and> (150000000 :: int) < 1000000000"
  using wait_deadline_exact [of 900000000 1250 5] by (simp add: wait_deadline_def)

section \<open>Standard input and output\<close>

text \<open>A host for the examples: one file, whose state is its bytes and the offset; a call transfers at
  most three bytes.\<close>

definition ram_host :: "(string \<times> nat) host" where
  "ram_host = \<lparr>
     sys_open = (\<lambda>(d, u) path flags. ((if o_trunc flags then [] else d, 0), Inr 3)),
     sys_read = (\<lambda>(d, u) fd n. let s = take (min n 3) (drop u d) in ((d, u + length s), Inr s)),
     sys_write = (\<lambda>(d, u) fd s. ((put_at d u (take 3 s), u + min 3 (length s)), Inr (min 3 (length s)))),
     sys_lseek = (\<lambda>(d, u) fd off whence. let target = seek_target d u off whence in
        if target < 0 then ((d, u), Inl 22) else ((d, nat target), Inr target)),
     sys_close = (\<lambda>w fd. (w, Inr 0)),
     sys_malloc = (\<lambda>w n. (w, Some (1, replicate n NUL))),
     sys_realloc = (\<lambda>w p n. (w, Some (1, replicate n NUL))),
     sizeof_FILE = 152, sizeof_ext = 48, sizeof_cookie = 96\<rparr>"

text \<open>The same host with descriptors opened for appending.\<close>

definition append_host :: "(string \<times> nat) host" where
  "append_host = ram_host\<lparr>sys_write := \<lambda>(d, u) fd s. ((d @ take 3 s, length d + min 3 (length s)), Inr (min 3 (length s)))\<rparr>"

lemma ram_regular: "regular_file ram_host (3, False) (\<lambda>w. w)"
proof -
  have "reads_ok ram_host (3, False) (\<lambda>w. w)"
    unfolding reads_ok_def
  proof (intro allI)
    fix w :: "string \<times> nat" and n
    obtain d u where w: "w = (d, u)" by (cases w)
    show "case w of (d, u) \<Rightarrow> \<exists>w' k. k \<le> n \<and> (k = 0 \<longrightarrow> n = 0 \<or> length d \<le> u) \<and>
        sys_read ram_host w (fst (3, False)) n = (w', Inr (take k (drop u d))) \<and> w' = (d, u + length (take k (drop u d)))"
      unfolding w prod.case
      by (intro exI [of _ "(d, u + length (take (min n 3) (drop u d)))"] exI [of _ "min n 3"])
        (auto simp: ram_host_def Let_def min_def)
  qed
  moreover have "writes_ok ram_host (3, False) (\<lambda>w. w)"
    by (auto simp: writes_ok_def ram_host_def min_def intro!: exI [of _ 3])
  moreover have "seeks_ok ram_host (3, False) (\<lambda>w. w)"
    by (auto simp: seeks_ok_def ram_host_def Let_def ESPIPE_def)
  moreover have "memory_ok ram_host (\<lambda>w. w)"
    by (simp add: memory_ok_def ram_host_def)
  ultimately show ?thesis by (simp add: regular_file_def)
qed

lemma append_regular: "regular_file append_host (3, True) (\<lambda>w. w)"
proof -
  have "writes_ok append_host (3, True) (\<lambda>w. w)"
    by (auto simp: writes_ok_def append_host_def min_def put_at_at_end intro!: exI [of _ 3])
  moreover have "reads_ok append_host (3, True) v = reads_ok ram_host (3, False) v"
    "seeks_ok append_host (3, True) v = seeks_ok ram_host (3, False) v" "memory_ok append_host v = memory_ok ram_host v"
    for v :: "string \<times> nat \<Rightarrow> string \<times> nat"
    by (simp_all add: reads_ok_def seeks_ok_def memory_ok_def append_host_def)
  ultimately show ?thesis using ram_regular by (simp add: regular_file_def)
qed

text \<open>
  C16. A stream that \<open>fopen\<close> opens on a regular file behaves as the file itself, a list of bytes
  with a position: whatever sequence of \<open>getc\<close>, \<open>putc\<close>, \<open>ungetc\<close>, \<open>fflush\<close>, \<open>fseek\<close>, \<open>ftell\<close> and
  \<open>setvbuf\<close> the program makes, every call returns what the step on the abstract file returns, and
  a final \<open>fflush\<close> leaves the host's file and its offset as the abstract file has them; in every
  buffering mode, and however few bytes a system call transfers. The host has memory for the
  stream and its buffer. The sequence uses what the mode allows: it reads and writes as the stream
  was opened for, puts back only right behind a read, and on a stream opened for appending, whose
  host writes every byte at the end of the file, it writes only when the position is there.
\<close>

theorem stream_refines_file:
  assumes "regular_file h (fd, o_append flags) view" and "parse_mode mode = Some flags"
    and "sys_open h w path flags = (w', Inr fd)" and "view w' = (d, u)"
    and "ops_ok (o_append flags) (o_access flags \<noteq> O_WRONLY) (o_access flags \<noteq> O_RDONLY) ops (opened_file d u flags)"
  shows "\<exists>f f' f''. fopen h w e path mode = Inr f \<and>
    run_ops (map (run_op h) ops) f = (f', snd (run_ops (map file_step ops) (opened_file d u flags))) \<and>
    fflush h f' = (f'', 0) \<and>
    view (fp_os f'') = (let a = fst (run_ops (map file_step ops) (opened_file d u flags)) in (a_data a, a_pos a))"
  by (rule stream_is_file [OF assms])

theorem stream_refines_file_witness:
  "(\<exists>f f' f''. fopen append_host (''xyz'', 0) 0 ''f'' ''a+'' = Inr f \<and>
    run_ops (map (run_op append_host) [Putc (CHR ''B''), Seek 0 0, Getc, Seek 0 2, Putc (CHR ''C''), Tell]) f =
      (f', [66, 0, 120, 0, 67, 5]) \<and>
    fflush append_host f' = (f'', 0) \<and> fp_os f'' = (''xyzBC'', 5)) \<and>
   (\<exists>f f' f''. fopen ram_host (''xyz'', 0) 0 ''f'' ''r+'' = Inr f \<and>
    run_ops (map (run_op ram_host) [Getc, Ungetc (CHR ''q''), Tell, Getc, Putc (CHR ''B''), Tell]) f =
      (f', [120, 113, 0, 113, 66, 2]) \<and>
    fflush ram_host f' = (f'', 0) \<and> fp_os f'' = (''xBz'', 2))"
proof (intro conjI)
  note step = file_step_def a_getc_def a_putc_def a_ungetc_def a_tell_def a_seek_def seek_target_def whence_ok_def
    opened_file_def put_at_def op_ok_def SEEK_SET_def SEEK_CUR_def SEEK_END_def
  let ?fl = "\<lparr>o_access = O_RDWR, o_creat = True, o_trunc = False, o_append = True\<rparr>"
  have m: "parse_mode ''a+'' = Some ?fl" by (simp add: parse_mode_def)
  have o: "sys_open append_host (''xyz'', 0) ''f'' ?fl = ((''xyz'', 0), Inr 3)" by (simp add: append_host_def ram_host_def)
  have reg: "regular_file append_host (3, o_append ?fl) (\<lambda>w. w)" using append_regular by simp
  show "\<exists>f f' f''. fopen append_host (''xyz'', 0) 0 ''f'' ''a+'' = Inr f \<and>
    run_ops (map (run_op append_host) [Putc (CHR ''B''), Seek 0 0, Getc, Seek 0 2, Putc (CHR ''C''), Tell]) f =
      (f', [66, 0, 120, 0, 67, 5]) \<and>
    fflush append_host f' = (f'', 0) \<and> fp_os f'' = (''xyzBC'', 5)"
    using stream_refines_file [OF reg m o refl, of "[Putc (CHR ''B''), Seek 0 0, Getc, Seek 0 2, Putc (CHR ''C''), Tell]" 0]
    by (simp add: step eval_nat_numeral)
next
  note step = file_step_def a_getc_def a_putc_def a_ungetc_def a_tell_def opened_file_def put_at_def op_ok_def
  let ?fl = "\<lparr>o_access = O_RDWR, o_creat = False, o_trunc = False, o_append = False\<rparr>"
  have m: "parse_mode ''r+'' = Some ?fl" by (simp add: parse_mode_def)
  have o: "sys_open ram_host (''xyz'', 0) ''f'' ?fl = ((''xyz'', 0), Inr 3)" by (simp add: ram_host_def)
  have reg: "regular_file ram_host (3, o_append ?fl) (\<lambda>w. w)" using ram_regular by simp
  show "\<exists>f f' f''. fopen ram_host (''xyz'', 0) 0 ''f'' ''r+'' = Inr f \<and>
    run_ops (map (run_op ram_host) [Getc, Ungetc (CHR ''q''), Tell, Getc, Putc (CHR ''B''), Tell]) f =
      (f', [120, 113, 0, 113, 66, 2]) \<and>
    fflush ram_host f' = (f'', 0) \<and> fp_os f'' = (''xBz'', 2)"
    using stream_refines_file [OF reg m o refl,
        of "[Getc, Ungetc (CHR ''q''), Tell, Getc, Putc (CHR ''B''), Tell]" 0]
    by (simp add: step numeral_2_eq_2)
qed

text \<open>
  C17. On a regular file, with memory for the stream and its buffer: a block written with \<open>fwrite\<close>
  to a file just opened for update replaces the start of the file, or with mode \<open>a+\<close>, on a host
  that writes at the end of the file, goes behind its end; after \<open>rewind\<close>, \<open>fread\<close> reads the whole
  new file back, stops at its end and counts the bytes it got.
\<close>

theorem file_reads_back:
  assumes "regular_file h (fd, o_append flags) view" and "parse_mode mode = Some flags" and "o_access flags = O_RDWR"
    and "sys_open h w path flags = (w', Inr fd)" and "view w' = (d, 0)" and "length s \<le> SIZE_MAX" and "n \<le> SIZE_MAX"
  shows "\<exists>f f1 f2. fopen h w e path mode = Inr f \<and> fwrite_unlocked_impl h s 1 (length s) f = (f1, length s) \<and>
    (let new = (if o_append flags then d @ s else s @ drop (length s) d) in
     fread_unlocked_impl h 1 n (rewind h f1) = (f2, take n new, min n (length new)))"
proof -
  let ?new = "if o_append flags then d @ s else s @ drop (length s) d"
  obtain f where f: "fopen h w e path mode = Inr f" "sim (fd, o_append flags) view f (opened_file d 0 flags)"
    "ck_readable f" "ck_writable f"
    by (rule fopen_sim [OF assms(1,2,4,5)]) (use assms(3) in auto)
  have app: "snd (fd, o_append flags) \<longrightarrow> a_pos (opened_file d 0 flags) = length (a_data (opened_file d 0 flags))"
    by (simp add: opened_file_def)
  obtain f1 where f1: "fwrite_unlocked_impl h s 1 (length s) f = (f1, length s)"
    "sim (fd, o_append flags) view f1 (fold (\<lambda>c a. fst (a_putc c a)) s (opened_file d 0 flags))" "ck_readable f1"
    using fwrite_bytes_sim [OF assms(1) f(2,4) app assms(6)] f(3) by (auto simp: same_stream_def)
  have "a_data (fold (\<lambda>c a. fst (a_putc c a)) s (opened_file d 0 flags)) = ?new"
    by (simp add: putc_data opened_file_def put_at_at_end) (simp add: put_at_def)
  then have "file_source h (fd, o_append flags) view (rewind h f1)" "a_rest (file_of view (rewind h f1)) = ?new"
    using rewind_file [OF assms(1) f1(2,3)] by simp_all
  then obtain f2 where "fread_unlocked_impl h 1 n (rewind h f1) = (f2, take n ?new, min n (length ?new))"
    using fread_file [of h _ view "rewind h f1" n 1] assms(7) by (auto simp: min.commute)
  then show ?thesis using f(1) f1(1) unfolding Let_def by blast
qed

theorem file_reads_back_witness:
  "(\<exists>f f1 f2. fopen ram_host (''old text'', 0) 0 ''f'' ''r+'' = Inr f \<and>
    fwrite_unlocked_impl ram_host ''NEW'' 1 (length ''NEW'') f = (f1, length ''NEW'') \<and>
    fread_unlocked_impl ram_host 1 100 (rewind ram_host f1) = (f2, ''NEW text'', length ''NEW text'')) \<and>
   (\<exists>f f1 f2. fopen append_host (''old'', 0) 0 ''f'' ''a+'' = Inr f \<and>
    fwrite_unlocked_impl append_host '' new'' 1 (length '' new'') f = (f1, length '' new'') \<and>
    fread_unlocked_impl append_host 1 100 (rewind append_host f1) = (f2, ''old new'', length ''old new''))"
proof (rule conjI)
  let ?fl = "\<lparr>o_access = O_RDWR, o_creat = False, o_trunc = False, o_append = False\<rparr>"
  have m: "parse_mode ''r+'' = Some ?fl" by (simp add: parse_mode_def)
  have o: "sys_open ram_host (''old text'', 0) ''f'' ?fl = ((''old text'', 0), Inr 3)" by (simp add: ram_host_def)
  have reg: "regular_file ram_host (3, o_append ?fl) (\<lambda>w. w)" using ram_regular by simp
  from file_reads_back [OF reg m _ o refl, of "''NEW''" 100 0]
  show "\<exists>f f1 f2. fopen ram_host (''old text'', 0) 0 ''f'' ''r+'' = Inr f \<and>
    fwrite_unlocked_impl ram_host ''NEW'' 1 (length ''NEW'') f = (f1, length ''NEW'') \<and>
    fread_unlocked_impl ram_host 1 100 (rewind ram_host f1) = (f2, ''NEW text'', length ''NEW text'')"
    by (simp add: SIZE_MAX_def Let_def)
next
  let ?fl = "\<lparr>o_access = O_RDWR, o_creat = True, o_trunc = False, o_append = True\<rparr>"
  have m: "parse_mode ''a+'' = Some ?fl" by (simp add: parse_mode_def)
  have o: "sys_open append_host (''old'', 0) ''f'' ?fl = ((''old'', 0), Inr 3)" by (simp add: append_host_def ram_host_def)
  have reg: "regular_file append_host (3, o_append ?fl) (\<lambda>w. w)" using append_regular by simp
  from file_reads_back [OF reg m _ o refl, of "'' new''" 100 0]
  show "\<exists>f f1 f2. fopen append_host (''old'', 0) 0 ''f'' ''a+'' = Inr f \<and>
    fwrite_unlocked_impl append_host '' new'' 1 (length '' new'') f = (f1, length '' new'') \<and>
    fread_unlocked_impl append_host 1 100 (rewind append_host f1) = (f2, ''old new'', length ''old new'')"
    by (simp add: SIZE_MAX_def Let_def)
qed

text \<open>
  C18. On a stream open for reading, \<open>getline\<close> returns the next line of what is left of the file,
  its newline included, in a buffer with room for the terminator, and leaves the stream behind it;
  at the end of the file it returns -1. The buffer the caller passes may be of any size or none:
  it grows with the line.
\<close>

theorem getline_next_line:
  assumes "file_source h fd view f" and "length (a_rest (file_of view f)) < 2 ^ 62"
  shows "\<exists>f' p k. (let line = first_line (CHR 0x0A) (a_rest (file_of view f)) in
    getline h (Some (lineptr, n)) f = Some (f', p, k, line, if line = [] then -1 else int (length line)) \<and>
    length line < k \<and> file_source h fd view f' \<and>
    a_rest (file_of view f') = drop (length line) (a_rest (file_of view f)))"
  using getline_file [OF assms] by (simp add: Let_def)

theorem getline_next_line_witness:
  "\<exists>f f' p k. fopen ram_host (''ab'' @ [CHR 0x0A] @ ''c'', 0) 0 ''f'' ''r'' = Inr f \<and>
    getline ram_host (Some (0, 0)) f = Some (f', p, k, ''ab'' @ [CHR 0x0A], 3)"
proof -
  let ?d = "''ab'' @ [CHR 0x0A] @ ''c''"
  let ?fl = "\<lparr>o_access = O_RDONLY, o_creat = False, o_trunc = False, o_append = False\<rparr>"
  have m: "parse_mode ''r'' = Some ?fl" by (simp add: parse_mode_def)
  have o: "sys_open ram_host (?d, 0) ''f'' ?fl = ((?d, 0), Inr 3)" by (simp add: ram_host_def)
  have reg: "regular_file ram_host (3, o_append ?fl) (\<lambda>w. w)" using ram_regular by simp
  obtain f where f: "fopen ram_host (?d, 0) 0 ''f'' ''r'' = Inr f" "sim (3, False) (\<lambda>w. w) f (opened_file ?d 0 ?fl)" "ck_readable f"
    by (rule fopen_sim [OF reg m o refl, of 0]) auto
  have fo: "file_of (\<lambda>w. w) f = opened_file ?d 0 ?fl" using sim_file_of [OF f(2)] by simp
  have "file_source ram_host (3, False) (\<lambda>w. w) f" using f fo ram_regular by (simp add: file_source_def)
  from getline_next_line [OF this, of 0 0] f(1) show ?thesis
    unfolding fo by (auto simp: a_rest_def opened_file_def Let_def)
qed

text \<open>
  C19. \<open>open_memstream\<close> fails with \<open>EINVAL\<close> without the variables of the caller, and with \<open>ENOMEM\<close>
  only if there is no memory for the byte of the first block, the \<open>FILE\<close> or the cookie. Otherwise
  a string written to the stream with \<open>fputs\<close> is, without a flush, what the variables show: the
  block they point to holds the string and a terminator, and the size is its length; as long as
  \<open>realloc\<close> has memory for the block to grow, for strings of less than 2^62 bytes.
\<close>

theorem memstream_shows_text:
  assumes "blocks_ok h" and "grows_ok h" and "length s < 2 ^ 62"
  shows "open_memstream h w e False = Inl (w, EINVAL) \<and>
    ((\<exists>w'. open_memstream h w e True = Inl (w', ENOMEM) \<and>
       (\<exists>w1 k. k \<in> {1, sizeof_FILE h, sizeof_cookie h} \<and> snd (sys_malloc h w1 k) = None)) \<or>
     (\<exists>f f'. open_memstream h w e True = Inr f \<and> fputs_unlocked_impl h s f = (f', 0) \<and>
       mem_open f' = Some (mem_base f', length s) \<and> take (length s + 1) (mem_cells f') = s @ [NUL]))"
  using open_memstream_sink [OF assms, of w e] memstream_text [of h s]
  by (auto simp: open_memstream_def [of h w e False])

theorem memstream_shows_text_witness:
  "\<exists>f f'. open_memstream ram_host ([], 0) 0 True = Inr f \<and> fputs_unlocked_impl ram_host ''text'' f = (f', 0) \<and>
    mem_open f' = Some (mem_base f', length ''text'') \<and> take (length ''text'' + 1) (mem_cells f') = ''text'' @ [NUL]"
proof -
  have "blocks_ok ram_host" "grows_ok ram_host" by (simp_all add: blocks_ok_def grows_ok_def ram_host_def)
  from memstream_shows_text [OF this, of "''text''" "([], 0)" 0] show ?thesis by (simp add: ram_host_def)
qed

text \<open>
  C20. When the host takes only the first \<open>k\<close> bytes of a full flush and then fails, \<open>fflush\<close>
  reports the error, sets the error indicator and \<open>errno\<close>, and keeps the whole buffer, also the
  \<open>k\<close> bytes that are written: a second \<open>fflush\<close>, once the host works again, passes all of them
  again, so that the file gets them twice.
\<close>

theorem failed_flush_repeats_bytes:
  assumes "ck_kind f = KIND_FD" and "0 \<le> ck_fd f" and "stream_last_op f = STDIO_WRITE" and "has_write f"
    and "0 < k" and "k < length (pending_bytes f)" and "length (pending_bytes f) < 2 ^ 31"
    and "sys_write h (fp_os f) (ck_fd f) (pending_bytes f) = (w1, Inr k)"
    and "sys_write h w1 (ck_fd f) (drop k (pending_bytes f)) = (w2, Inl e)"
    and "sys_write h' w2 (ck_fd f) (pending_bytes f) = (w3, Inr (length (pending_bytes f)))"
  shows "\<exists>f' f''. fflush h f = (f', -1) \<and> fl_err f' \<and> fp_errno f' = e \<and> pending_bytes f' = pending_bytes f \<and>
    fflush h' f' = (f'', 0) \<and> fp_os f'' = w3 \<and> pending_bytes f'' = []"
proof -
  let ?f' = "set_stream_error (f\<lparr>fp_os := w2, fp_errno := e\<rparr>)"
  have pend: "pending_bytes ?f' = pending_bytes f"
    by (cases "fp_p f"; cases "bf_base f"; simp add: pending_bytes_def set_stream_error_def)
  have ne: "pending_bytes f \<noteq> []" using assms(6) by auto
  have mem: "\<not> is_memory_stream f" using assms(1) by (simp add: is_memory_stream_def)
  have one: "fflush h f = (?f', -1)"
    using flush_loop_partial [OF assms(1,2,7,5,6,8,9)] assms(3,4) ne mem
    by (simp add: fflush_def sflush_def flush_write_buffer_def CRT_Stdio.EOF_def)
  have "flush_loop h' ?f' (pending_bytes f) 0 = (?f'\<lparr>fp_os := w3\<rparr>, 0)"
    by (rule flush_loop_whole) (use assms ne in \<open>simp_all add: set_stream_error_def\<close>)
  moreover have "fl_wr f" using assms(3) by (simp add: last_op_iff)
  ultimately have "fflush h' ?f' = (reset_buffer_state (?f'\<lparr>fp_os := w3\<rparr>), 0)"
    using assms(3,4) ne mem pend
    by (simp add: fflush_def sflush_def flush_write_buffer_def is_memory_stream_def stream_last_op_def has_write_def
        set_stream_error_def)
  moreover have "pending_bytes (reset_buffer_state g) = []" "fp_os (reset_buffer_state g) = fp_os g" for g :: "'a FILE"
    by (cases "bf_base g"; simp add: reset_buffer_state_def sync_bionic_buffer_fields_def pending_bytes_def)+
  ultimately show ?thesis using one pend by (simp add: set_stream_error_def)
qed

theorem failed_flush_repeats_bytes_witness:
  "\<exists>f h1 h2 f' f''. pending_bytes f = ''abc'' \<and>
    fflush h1 f = (f', -1) \<and> fp_errno f' = 28 \<and> fflush h2 f' = (f'', 0) \<and> fp_os f'' = ''aabc''"
proof -
  let ?h1 = "\<lparr>sys_open = (\<lambda>w p fl. (w, Inl 2)), sys_read = (\<lambda>w fd n. (w, Inr [])),
    sys_write = (\<lambda>w fd s. if w = [] then (''a'', Inr 1) else (w, Inl 28)), sys_lseek = (\<lambda>w fd off wh. (w, Inl 29)),
    sys_close = (\<lambda>w fd. (w, Inr 0)), sys_malloc = (\<lambda>w n. (w, None)), sys_realloc = (\<lambda>w p n. (w, None)),
    sizeof_FILE = 152, sizeof_ext = 48, sizeof_cookie = 96\<rparr> :: string host"
  let ?h2 = "?h1\<lparr>sys_write := \<lambda>w fd s. (w @ s, Inr (length s))\<rparr>"
  obtain f :: "string FILE" where p: "pending_bytes f = ''abc''" "stream_last_op f = STDIO_WRITE" "has_write f"
    "ck_kind f = KIND_FD" "ck_fd f = 1" "fp_os f = []"
    by (rule that [of "(new_stream [] 0 1 True False True False True)
        \<lparr>fl_wr := True, fp_p := Some 3, bf_base := Some ''abc'', bf_size := 3\<rparr>"])
      (simp_all add: pending_bytes_def stream_last_op_def has_write_def new_stream_def)
  have "\<exists>f' f''. fflush ?h1 f = (f', -1) \<and> fl_err f' \<and> fp_errno f' = 28 \<and> pending_bytes f' = pending_bytes f \<and>
    fflush ?h2 f' = (f'', 0) \<and> fp_os f'' = ''aabc'' \<and> pending_bytes f'' = []"
    by (rule failed_flush_repeats_bytes [where k = 1 and ?w1.0 = "''a''" and ?w2.0 = "''a''"]) (simp_all add: p)
  then show ?thesis using p(1) by blast
qed

section \<open>Formatted output\<close>

text \<open>An environment for the examples: the C locale, and no digits of floating-point numbers.\<close>

definition sample_floats :: "unit float_env" where
  "sample_floats = \<lparr>dtoa = (\<lambda>_ _ _. None), ldtoa = (\<lambda>_ _ _. None), hdtoa = (\<lambda>_ _ _. None), hldtoa = (\<lambda>_ _ _. None),
     ld_of_double = (\<lambda>_. ()), ld_signbit = (\<lambda>_. False), ld_isnan = (\<lambda>_. False), ld_isinf = (\<lambda>_. False),
     ld_is_zero = (\<lambda>_. True), ld_minus = (\<lambda>_. ()), ld_ge_ten = (\<lambda>_. False), ld_less_one = (\<lambda>_. False),
     ld_div_ten = (\<lambda>_. ()), ld_mult_ten = (\<lambda>_. ())\<rparr>"

definition sample_env :: "unit printf_env" where
  "sample_env = \<lparr>localeconv = \<lparr>decimal_point = ''.'', thousands_sep = [], lc_grouping = []\<rparr>, errno_text = ''Success'',
     malloc_ok = (\<lambda>_. True), floats = sample_floats\<rparr>"

definition sample_scan :: "unit scan_env" where
  "sample_scan = \<lparr>sc_malloc_ok = (\<lambda>n. True), sc_strtod = (\<lambda>s. ((), 0)), sc_strtold = (\<lambda>s. ((), 0))\<rparr>"

text \<open>
  C21. What \<open>vsnprintf\<close> prints does not depend on the size of the buffer, whatever the conversions
  of the format, floating-point ones included: for a format and its arguments there is one text,
  one result and one set of \<open>%n\<close> stores, and a buffer of \<open>n\<close> bytes gets the first \<open>n - 1\<close>
  characters of the text and a terminator, nothing behind them, and nothing at all if \<open>n\<close> is 0.
  The result is the length of the whole text, or -1 for a format with a position over 64. A call
  that is undefined, because an argument is missing or of another type, or because a text overruns
  one of the local arrays of the conversions, as \<open>%f\<close> of 1e200 does, is undefined for every size.
  The digits of a floating-point number are what \<open>gdtoa\<close> computes.
\<close>

theorem snprintf_bounded:
  "(\<forall>n m. vsnprintf env n fmt args m = None) \<or>
   (\<exists>t d r. (r = int_of_size (length t) \<or> t = [] \<and> d = Map.empty \<and> r = -1) \<and>
     (\<forall>n m. vsnprintf env n fmt args m = (if dom d \<subseteq> dom m
        then Some (if n = 0 then Map.empty else mem_of 0 (take (n - 1) t @ [NUL]), m ++ d, r) else None)))"
  using vsnprintf_prints [of env fmt args] unfolding prints_def shown_def .

text \<open>A buffer in which \<open>snprintf(s, n, "%.*ld", k, v)\<close> has printed \<open>v\<close>, with its sign and its leading zeros, is read back by \<open>strtol\<close> in base 10 as \<open>v\<close>, to the last character printed and without touching \<open>errno\<close>; the result of \<open>snprintf\<close> is the number of characters.\<close>

theorem snprintf_strtol:
  assumes "0 < k" and "k < 2 ^ 31" and "\<bar>v\<bar> < 2 ^ 63" and "length (number_text v k) < n"
    and "vsnprintf env n ''%.*ld'' [ArgInt (word_of_nat k), ArgLong (word_of_int v)] m = Some (stores, m', r)"
    and "\<And>i c. stores i = Some c \<Longrightarrow> mem' (p + i) = Some c"
  shows "r = int_of_size (length (number_text v k)) \<and>
    strtol TYPE(64) mem' p 10 err = Some (v, err, p + length (number_text v k))"
proof -
  have "- (2 ^ 63) \<le> v" "v < 2 ^ 63" using assms(3) by simp_all
  note prints = prints_long [OF assms(1,2) this, of env, unfolded long_format_def long_args_def]
  then have s: "stores = shown n (number_text v k)" "r = int_of_size (length (number_text v k))"
    using assms(5) by (simp_all add: prints_def)
  have "cstr mem' p (number_text v k)"
    by (rule shown_cstr [OF assms(4)]) (use assms(6) s(1) number_text_NUL in auto)
  with s(2) strtol_number_text [OF assms(3)] show ?thesis by simp
qed

theorem snprintf_strtol_witness:
  "\<exists>stores. vsnprintf sample_env 16 ''%.*ld'' [ArgInt (word_of_nat 4), ArgLong (word_of_int (- 7))] Map.empty =
      Some (stores, Map.empty, 5) \<and> strtol TYPE(64) stores 0 10 0 = Some (- 7, 0, 5)"
proof -
  have three: "replicate 3 (CHR ''0'') = ''000''" by (simp add: numeral_3_eq_3)
  have t: "number_text (- 7) 4 = ''-0007''"
    by (simp add: number_text_def dec.simps char_of_def bit_Suc_0_iff three)
  have v: "vsnprintf sample_env 16 ''%.*ld'' [ArgInt (word_of_nat 4), ArgLong (word_of_int (- 7))] Map.empty =
      Some (shown 16 ''-0007'', Map.empty, 5)"
    using prints_long [of 4 "- 7" sample_env] unfolding prints_def long_format_def long_args_def t by simp
  show ?thesis
    using snprintf_strtol [of 4 "- 7", OF _ _ _ _ v, of "shown 16 ''-0007''" 0 0] v by (simp add: t)
qed

text \<open>A finite double with 160 digits or more before the point, as 1e200 has, overruns the array that the text of %f is built in, whatever the size of the caller's buffer.\<close>

theorem percent_f_overruns:
  assumes "dtoa (floats env) d 5 6 = Some (ds, decpt)" and "160 \<le> decpt" and "\<not> double_is_nan d" and "\<not> double_is_inf d"
  shows "vsnprintf env n ''%f'' [ArgDouble d] m = None"
proof -
  let ?out = "map (dtoa_digit_at ds) [0..decpt - 1]"
  have "length ?out = nat decpt" by simp
  then have "160 \<le> length ?out" using assms(2) by linarith
  then have long: "160 \<le> length (?out @ p @ q)" for p q by simp
  have nd: "\<not> is_digit (CHR ''f'')" by code_simp
  have spec: "parse_spec ''f'' [ArgDouble d] = Some (''f'', [ArgDouble d], empty_spec)"
    by (simp add: parse_spec_def parse_width_def parse_precision_def parse_length_def starts_with_def parse_decimal_def
        nd empty_spec_def)
  have "float_precision double_arrays empty_spec = 6"
    by (simp add: float_precision_def double_arrays_def empty_spec_def)
  then have "format_double_fixed (localeconv env) double_arrays (double_value (floats env) d) empty_spec b = None" for b
    using assms long by (auto simp: format_double_fixed_def double_value_def append_dtoa_fixed_digits_def
        printf_grouping_enabled_def empty_spec_def double_arrays_def Let_def not_less simp del: append_assoc)
  then have "convert_spec env (CHR ''f'') empty_spec [ArgDouble d] (b, m) = None" for b
    by (simp add: convert_spec_float convert_float_def empty_spec_def)
  then show ?thesis
    by (simp add: vsnprintf_def spec starts_with_def indexed_def flag_char_def nd)
qed

text \<open>
  C22. \<open>fprintf\<close> writes to the file what \<open>snprintf\<close> with a large enough buffer stores, all of it
  and without the terminator, whether the text fits the 1024 bytes on the stack or goes through a
  new block, and returns its length.
\<close>

theorem fprintf_writes_text:
  assumes "vsnprintf env (length t + 1) fmt args m = Some (mem_of 0 (t @ [NUL]), m', int (length t))"
    and "file_sink h fd view n f"
  shows "\<exists>f'. vfprintf env h f fmt args m = Some (f', m', int (length t)) \<and>
    a_written (file_of view f') = a_written (file_of view f) @ t \<and> file_sink h fd view n f'"
proof -
  obtain u d r where p: "prints env fmt args u d r" using vsnprintf_prints [of env fmt args] assms(1) by auto
  then have d: "dom d \<subseteq> dom m" "m' = m ++ d" "r = int (length t)"
    and eq: "shown (length t + 1) u = mem_of 0 (t @ [NUL])"
    using assms(1) by (auto simp: prints_def split: if_splits)
  have le: "length t \<le> length u" using p int_of_size_le [of "length u"] d(3) by (auto simp: prints_def)
  have "load_n (mem_of 0 (t @ [NUL])) 0 (length t) = Some t"
    using load_shown [of t "length t + 1"] shown_all [of t "length t + 1"] by simp
  then have "take (length t) u = t" using load_shown_part [OF le, of "length t + 1"] eq by simp
  then show ?thesis using vfprintf_file [OF p d(1) _ assms(2)] d by simp
qed

theorem fprintf_writes_text_witness:
  "\<exists>f f'. fopen ram_host (''old'', 0) 0 ''f'' ''w'' = Inr f \<and>
    vfprintf sample_env ram_host f ''a%%b'' [] Map.empty = Some (f', Map.empty, 3) \<and>
    a_written (file_of (\<lambda>w. w) f') = ''a%b''"
proof -
  let ?fl = "\<lparr>o_access = O_WRONLY, o_creat = True, o_trunc = True, o_append = False\<rparr>"
  have m: "parse_mode ''w'' = Some ?fl" by (simp add: parse_mode_def)
  have o: "sys_open ram_host (''old'', 0) ''f'' ?fl = (([], 0), Inr 3)" by (simp add: ram_host_def)
  have reg: "regular_file ram_host (3, o_append ?fl) (\<lambda>w. w)" using ram_regular by simp
  obtain f where f: "fopen ram_host (''old'', 0) 0 ''f'' ''w'' = Inr f" "sim (3, False) (\<lambda>w. w) f (opened_file [] 0 ?fl)" "ck_writable f"
    by (rule fopen_sim [OF reg m o refl, of 0]) auto
  have fo: "file_of (\<lambda>w. w) f = opened_file [] 0 ?fl" using sim_file_of [OF f(2)] by simp
  then have sink: "file_sink ram_host (3, False) (\<lambda>w. w) 0 f" using f ram_regular by (simp add: file_sink_def opened_file_def)
  have "vsnprintf_loop sample_env ''a%%b'' [] (b, m) = Some (buffer_write b ''a%b'', m)" for b m
    by (simp add: starts_with_def)
  moreover have "\<not> printf_has_positional_args ''a%%b''" by (simp add: starts_with_def)
  moreover have "pb_length (new_buffer n) = 0" for n by (simp add: new_buffer_def)
  ultimately have "vsnprintf sample_env (length ''a%b'' + 1) ''a%%b'' [] Map.empty =
      Some (mem_of 0 (''a%b'' @ [NUL]), Map.empty, int (length ''a%b''))"
    by (simp add: vsnprintf_def put_terminator_text buffer_length_write del: buffer_write.simps vsnprintf_loop.simps)
  from fprintf_writes_text [OF this sink] f(1) show ?thesis
    unfolding fo by (auto simp: a_written_def opened_file_def)
qed

text \<open>
  C23. What \<open>snprintf\<close> prints with a format of \<open>%ld\<close> and \<open>%s\<close>, each with a space behind it,
  \<open>sscanf\<close> reads back with the same format: for any number of longs (but the least) and of non-
  empty words without white space, in any order, it returns their number and stores the same
  values, and it leaves \<open>errno\<close> alone.
\<close>

theorem sscanf_inverts_snprintf:
  assumes "list_all io_item_ok ios" and "length (io_text ios) < n"
  shows "\<exists>buf s'. vsnprintf penv n (io_format ios) (map io_item_arg ios) m =
      Some (buf, m, int_of_size (length (io_text ios))) \<and>
    cstr buf 0 (io_text ios) \<and> vsscanf env h (io_text ios) (io_format ios) err = Some (s', int (length ios)) \<and>
    ss_stores s' = map io_item_store ios \<and> scan_errno s' = err"
proof -
  have "vsnprintf penv n (io_format ios) (map io_item_arg ios) m =
      Some (shown n (io_text ios), m, int_of_size (length (io_text ios)))"
    using prints_items [OF assms(1), of penv] by (simp add: prints_def)
  moreover have "cstr (shown n (io_text ios)) 0 (io_text ios)"
    by (rule shown_cstr [OF assms(2)]) (use io_text_NUL [OF assms(1)] in auto)
  ultimately show ?thesis using vsscanf_items [OF assms(1), of env h err] by blast
qed

theorem sscanf_inverts_snprintf_witness:
  "\<exists>buf s'. vsnprintf sample_env 16 ''%ld %s %ld '' [ArgLong (word_of_int (- 7)), ArgString (Some ''up''), ArgLong 0] Map.empty =
      Some (buf, Map.empty, int_of_size (length ''-7 up 0 '')) \<and>
    vsscanf sample_scan ram_host ''-7 up 0 '' ''%ld %s %ld '' 0 = Some (s', 3) \<and>
    ss_stores s' = [StoreSigned SCAN_LENGTH_L (- 7), StoreString (''up'' @ [NUL]), StoreSigned SCAN_LENGTH_L 0]"
proof -
  let ?ios = "[IoLong (- 7), IoWord ''up'', IoLong 0]"
  have t: "io_text ?ios = ''-7 up 0 ''"
    by (simp add: long_text_def number_text_def dec.simps char_of_def bit_Suc_0_iff)
  have ok: "list_all io_item_ok ?ios" by (simp add: is_space_char_def isspace_iff word_le_def)
  from sscanf_inverts_snprintf [OF ok, of 16 sample_env Map.empty sample_scan ram_host 0] show ?thesis
    unfolding t by auto
qed

text \<open>
  C24. On a file opened with mode \<open>w+\<close>, \<open>fprintf\<close> with such a format, \<open>rewind\<close> and \<open>fscanf\<close> with
  the same format give back the numbers and words that were written, whatever the size of the
  buffer and of the pieces that the host reads and writes: the character that ends a number or
  word, which \<open>fscanf\<close> puts back, is not lost.
\<close>

theorem fscanf_inverts_fprintf:
  assumes "list_all io_item_ok ios" and "length (io_text ios) < 2 ^ 31" and "regular_file h (fd, False) view"
    and "parse_mode ''w+'' = Some flags" and "sys_open h w path flags = (w', Inr fd)" and "view w' = ([], 0)"
  shows "\<exists>f f' s'. fopen h w e path ''w+'' = Inr f \<and>
    vfprintf penv h f (io_format ios) (map io_item_arg ios) m = Some (f', m, int (length (io_text ios))) \<and>
    vfscanf env h (rewind h f') (io_format ios) err = Some (s', int (length ios)) \<and> ss_stores s' = map io_item_store ios"
proof -
  have fl: "o_access flags = O_RDWR" "o_append flags = False" using assms(4) by (auto simp: parse_mode_def)
  have reg: "regular_file h (fd, o_append flags) view" using assms(3) fl(2) by simp
  obtain f where f: "fopen h w e path ''w+'' = Inr f" "sim (fd, False) view f (opened_file [] 0 flags)" "ck_readable f" "ck_writable f"
    by (rule fopen_sim [OF reg assms(4-6), of e]) (use fl in auto)
  show ?thesis
    using fprintf_fscanf_items [OF assms(1-3) f(2), of penv m env err] f fl by (simp add: opened_file_def)
qed

theorem fscanf_inverts_fprintf_witness:
  "\<exists>f f' s'. fopen ram_host (''old'', 0) 0 ''f'' ''w+'' = Inr f \<and>
    vfprintf sample_env ram_host f ''%ld %s '' [ArgLong 12, ArgString (Some ''km'')] Map.empty = Some (f', Map.empty, 6) \<and>
    vfscanf sample_scan ram_host (rewind ram_host f') ''%ld %s '' 0 = Some (s', 2) \<and>
    ss_stores s' = [StoreSigned SCAN_LENGTH_L 12, StoreString (''km'' @ [NUL])]"
proof -
  let ?fl = "\<lparr>o_access = O_RDWR, o_creat = True, o_trunc = True, o_append = False\<rparr>"
  let ?ios = "[IoLong 12, IoWord ''km'']"
  have m: "parse_mode ''w+'' = Some ?fl" by (simp add: parse_mode_def)
  have o: "sys_open ram_host (''old'', 0) ''f'' ?fl = (([], 0), Inr 3)" by (simp add: ram_host_def)
  have t: "io_text ?ios = ''12 km ''"
    by (simp add: long_text_def number_text_def dec.simps char_of_def bit_Suc_0_iff)
  have ok: "list_all io_item_ok ?ios" by (simp add: is_space_char_def isspace_iff word_le_def)
  show ?thesis
    using fscanf_inverts_fprintf [OF ok _ ram_regular m o refl, of 0 sample_env Map.empty sample_scan 0] unfolding t by simp
qed

section \<open>Multibyte characters\<close>

text \<open>
  C25. Every Unicode scalar value is written by \<open>wcrtomb\<close> as its UTF-8 form, and \<open>mbrtowc\<close> reads
  the same value back from it, consuming all of its bytes (0 for the null character) and leaving
  the initial state.
\<close>

theorem utf8_round_trip:
  assumes "valid_codepoint w" and "s \<noteq> null" and "mapped m s (length (utf8 w))"
  shows "\<exists>m'. wcrtomb m s w = Some (Bytes (length (utf8 w)), m') \<and> bytes_at m' s (utf8 w) \<and>
    mbrtowc m' s (length (utf8 w)) fresh = Some (Bytes (if w = 0 then 0 else length (utf8 w)), Some w, fresh)"
proof -
  have b: "bytes_at (mem_put m s (utf8 w)) s (utf8 w)" by simp
  show ?thesis
    using wcrtomb_Some [OF assms] mbrtowc_feed [OF b assms(2) mb_ok_fresh] feed_utf8 [OF assms(1), of "[]"] b by simp
qed

theorem utf8_round_trip_witness:
  "\<exists>m'. wcrtomb (mem_of 8 ''....'') 8 0x20ac = Some (Bytes 3, m') \<and>
    bytes_at m' 8 [CHR 0xe2, CHR 0x82, CHR 0xac] \<and> mbrtowc m' 8 3 fresh = Some (Bytes 3, Some 0x20ac, fresh)"
proof -
  have u: "utf8 0x20ac = [CHR 0xe2, CHR 0x82, CHR 0xac]" by (simp add: utf8_def char_of_def bit_Suc_0_iff)
  have v: "valid_codepoint 0x20ac" by (simp add: valid_codepoint_def)
  have mp: "mapped (mem_of 8 ''....'') 8 (length (utf8 0x20ac))"
    unfolding u by (simp add: mapped_iff mem_of_def mem_put_def)
  from utf8_round_trip [OF v _ mp] show ?thesis unfolding u by (simp add: numeral_3_eq_3)
qed

text \<open>
  C26. Whatever the bytes, when \<open>mbrtowc\<close> delivers a character from the initial state it is a
  Unicode scalar value and the bytes start with its one canonical UTF-8 form: overlong forms,
  surrogates and values beyond U+10FFFF are never accepted.
\<close>

theorem utf8_accepts_only_canonical:
  assumes "bytes_at m s bs" and "s \<noteq> null"
    and "mbrtowc m s (length bs) fresh = Some (Bytes k, Some w, st)"
  shows "valid_codepoint w \<and> (\<exists>rest. bs = utf8 w @ rest) \<and> k = (if w = 0 then 0 else length (utf8 w)) \<and> st = fresh"
proof -
  have "feed fresh bs = (Bytes k, Some w, st)" using assms(3) mbrtowc_feed [OF assms(1,2) mb_ok_fresh] by simp
  from feed_sound [OF this] show ?thesis by blast
qed

theorem utf8_accepts_only_canonical_witness:
  "mbrtowc (mem_of 8 [CHR 0xc3, CHR 0xa9]) 8 2 fresh = Some (Bytes 2, Some 0xe9, fresh) \<and> valid_codepoint 0xe9"
proof -
  let ?m = "mem_of 8 [CHR 0xc3, CHR 0xa9]"
  have b: "bytes_at ?m 8 [CHR 0xc3, CHR 0xa9]" by (simp only: mem_of_def bytes_at_mem_put)
  have u: "utf8 0xe9 = [CHR 0xc3, CHR 0xa9]" by (simp add: utf8_def char_of_def bit_Suc_0_iff)
  have v: "valid_codepoint 0xe9" by (simp add: valid_codepoint_def)
  have r: "mbrtowc ?m 8 (length [CHR 0xc3, CHR 0xa9]) fresh = Some (Bytes 2, Some 0xe9, fresh)"
    using mbrtowc_feed [OF b _ mb_ok_fresh] feed_utf8 [OF v, of "[]"] by (simp add: u)
  from utf8_accepts_only_canonical [OF b _ r] r show ?thesis by (simp add: numeral_2_eq_2)
qed

text \<open>
  C27. A character whose bytes arrive in two pieces is read as if they had arrived in one: the
  first call reports an incomplete character and keeps its state, the second delivers the
  character.
\<close>

theorem utf8_split_anywhere:
  assumes "valid_codepoint w" and "utf8 w = a @ b" and "a \<noteq> []" and "b \<noteq> []"
    and "bytes_at m p a" and "bytes_at m q b" and "p \<noteq> null" and "q \<noteq> null"
  shows "\<exists>st. mbrtowc m p (length a) fresh = Some (Partial, None, st) \<and>
    mbrtowc m q (length b) st = Some (Bytes (length b), Some w, fresh)"
  by (rule mbrtowc_split [OF assms])

theorem utf8_split_anywhere_witness:
  "\<exists>st. mbrtowc (mem_of 8 [CHR 0xe2, CHR 0x82, CHR 0xac]) 8 1 fresh = Some (Partial, None, st) \<and>
    mbrtowc (mem_of 8 [CHR 0xe2, CHR 0x82, CHR 0xac]) 9 2 st = Some (Bytes 2, Some 0x20ac, fresh)"
proof -
  let ?m = "mem_of 8 [CHR 0xe2, CHR 0x82, CHR 0xac]"
  have b: "bytes_at ?m 8 [CHR 0xe2]" "bytes_at ?m 9 [CHR 0x82, CHR 0xac]"
    by (simp_all add: mem_of_def mem_put_def)
  have u: "utf8 0x20ac = [CHR 0xe2] @ [CHR 0x82, CHR 0xac]" by (simp add: utf8_def char_of_def bit_Suc_0_iff)
  have "valid_codepoint 0x20ac" by (simp add: valid_codepoint_def)
  from utf8_split_anywhere [OF this u _ _ b] show ?thesis by (simp add: numeral_eq_Suc)
qed

lemma fitting_all: "length (mbs ws) \<le> n \<Longrightarrow> fitting ws n = ws"
  by (induction ws n rule: fitting.induct) auto

text \<open>
  C28. A wide string converted to UTF-8 by \<open>wcstombs\<close> and back by \<open>mbstowcs\<close>, each with room for
  the terminator, comes back unchanged, and both calls return the lengths without the terminator.
\<close>

theorem wide_string_round_trip:
  assumes "wide_ok ws" and "bytes_at w src (ws @ [0])" and "src \<noteq> null" and "dst \<noteq> null" and "wdst \<noteq> null"
    and "length ws < SIZE_MAX" and "length (mbs ws) < n" and "mapped m dst n" and "length ws < k" and "mapped w wdst k"
  shows "\<exists>m' w'. wcstombs m w dst src n = Some (Some (length (mbs ws)), m') \<and> bytes_at m' dst (mbs ws @ [NUL]) \<and>
    mbstowcs m' w wdst dst k = Some (Some (length ws), w') \<and> bytes_at w' wdst (ws @ [0])"
proof -
  let ?m = "mem_put m dst (mbs ws @ [NUL])"
  have f: "fitting ws n = ws" using assms(7) by (simp add: fitting_all)
  have a: "wcstombs m w dst src n = Some (Some (length (mbs ws)), ?m)"
    using wcs_loop_Some [OF assms(4,1,2), of 0 SIZE_MAX m 0 n src] assms(3,6-8) f
    by (simp add: wcstombs_def wcsrtombs_def wcsnrtombs_def Let_def)
  have c: "cstr ?m dst (mbs ws)" by (rule cstr_put [OF mbs_no_NUL [OF assms(1)]])
  have "mbstowcs ?m w wdst dst k = Some (Some (length ws), mem_put w wdst (ws @ [0]))"
    using mbs_loop_Some [OF assms(5,1) c assms(4), of w 0 k dst] assms(4,9,10)
    by (simp add: mbstowcs_def mbsrtowcs_def mbsnrtowcs_def Let_def fresh_def)
  then show ?thesis using a by (metis bytes_at_mem_put)
qed

theorem wide_string_round_trip_witness:
  "\<exists>m' w'. wcstombs (mem_of 1 ''........'') (mem_of 1 [0x68, 0xe9, 0, 7, 7, 7]) 1 1 8 = Some (Some 3, m') \<and>
    mbstowcs m' (mem_of 1 [0x68, 0xe9, 0, 7, 7, 7]) 4 1 3 = Some (Some 2, w') \<and> bytes_at w' 4 [0x68, 0xe9, 0]"
proof -
  let ?w = "mem_of 1 [0x68, 0xe9, 0, 7, 7, 7] :: wchar cells" and ?m = "mem_of 1 ''........''"
  have u: "utf8 0x68 = [CHR 0x68]" "utf8 0xe9 = [CHR 0xc3, CHR 0xa9]" by (simp_all add: utf8_def char_of_def bit_Suc_0_iff)
  have k: "wide_ok [0x68, 0xe9]" by (simp add: wide_ok_def valid_codepoint_def)
  have b: "bytes_at ?w 1 ([0x68, 0xe9] @ [0])" by (simp add: mem_of_def mem_put_def)
  have m: "mapped ?m 1 8" "mapped ?w 4 3" by (simp_all add: mapped_iff mem_of_def mem_put_def)
  have z: "length [0x68, 0xe9 :: wchar] < SIZE_MAX" by (simp add: SIZE_MAX_def)
  from wide_string_round_trip [OF k b _ _ _ z _ m(1) _ m(2)] show ?thesis
    by (auto simp: u numeral_2_eq_2 numeral_3_eq_3)
qed

text \<open>
  C29. \<open>mbrtoc16\<close> turns the UTF-8 form of a character beyond U+FFFF into its two UTF-16 units, the
  second from the state alone, and \<open>c16rtomb\<close> turns the two units back into the same bytes.
\<close>

theorem utf16_round_trip:
  assumes "valid_codepoint w" and "0xffff < w" and "bytes_at m s (utf8 w)" and "s \<noteq> null"
    and "d \<noteq> null" and "mapped m d (length (utf8 w))"
  shows "\<exists>hi lo st st'. utf16 w = [hi, lo] \<and>
    mbrtoc16 m s (length (utf8 w)) fresh = Some (Bytes (length (utf8 w)), Some hi, st) \<and>
    mbrtoc16 m s 0 st = Some (Pending, Some lo, fresh) \<and>
    c16rtomb m d hi fresh = Some (Bytes 0, m, st') \<and>
    c16rtomb m d lo st' = Some (Bytes (length (utf8 w)), mem_put m d (utf8 w), fresh)"
proof -
  have nz: "w \<noteq> 0" and gt: "\<not> w \<le> 0xffff" using assms(2) by (auto simp: not_le)
  have u: "utf16 w = [hd (utf16 w), utf16 w ! 1]" using gt by (simp add: utf16_def)
  have b: "bytes_at m s (utf8 w @ [])" using assms(3) by simp
  from mbrtoc16_units(2) [OF assms(1) nz b assms(4) gt] c16rtomb_units(2) [OF assms(1,5,6) gt] u assms(4)
  show ?thesis by fastforce
qed

theorem utf16_round_trip_witness:
  "\<exists>hi lo st. utf16 0x1f600 = [hi, lo] \<and>
    mbrtoc16 (mem_of 8 [CHR 0xf0, CHR 0x9f, CHR 0x98, CHR 0x80]) 8 4 fresh = Some (Bytes 4, Some hi, st)"
proof -
  let ?m = "mem_of 8 [CHR 0xf0, CHR 0x9f, CHR 0x98, CHR 0x80]"
  have u: "utf8 0x1f600 = [CHR 0xf0, CHR 0x9f, CHR 0x98, CHR 0x80]" by (simp add: utf8_def char_of_def bit_Suc_0_iff)
  have b: "bytes_at ?m 8 (utf8 0x1f600)" unfolding u by (simp only: mem_of_def bytes_at_mem_put)
  have v: "valid_codepoint 0x1f600" by (simp add: valid_codepoint_def)
  have "length (utf8 0x1f600) = 4" by (simp add: u)
  with utf16_round_trip [OF v _ b _ _ bytes_at_mapped [OF b]] show ?thesis by fastforce
qed

section \<open>Calendar time\<close>

text \<open>
  C30. For every time within 2^55 seconds of the epoch, before it or after it, the broken-down
  time has its fields in their ranges (31 February never appears), its year fits an \<open>int\<close>, and
  converting it back gives the same time.
\<close>

theorem time_round_trips:
  assumes "\<bar>s\<bar> \<le> 2 ^ 55"
  shows "\<exists>t. time_to_tm s = Some t \<and> tm_ok t \<and> \<bar>tm_year t\<bar> < 2 ^ 31 \<and> tm_to_time t = Some s"
  by (rule time_round_trip [OF assms])

theorem time_round_trips_witness:
  "\<exists>t. time_to_tm (- 1) = Some t \<and> tm_ok t \<and> tm_to_time t = Some (- 1)"
  using time_round_trips [of "- 1"] by auto

text \<open>
  C31. \<open>mktime\<close> of a broken-down time with its fields in range and a year that fits an \<open>int\<close>, also
  after 1900 is added to it, returns the time it denotes and leaves year, month, day, hour, minute
  and second as they are; with a \<open>tm_year\<close> so great that the sum does not fit, it is undefined.
\<close>

theorem mktime_inverts_fields:
  assumes "tm_ok t" and "fits_int (tm_year t)"
  shows "if fits_int (tm_year t + 1900)
    then \<exists>s t'. mktime (Some t) = Done (s, t') \<and> s = tm_day t * 86400 + tm_clock t \<and> tm_sec t' = tm_sec t \<and>
      tm_min t' = tm_min t \<and> tm_hour t' = tm_hour t \<and> tm_mday t' = tm_mday t \<and> tm_mon t' = tm_mon t \<and>
      tm_year t' = tm_year t
    else mktime (Some t) = Fault"
proof (cases "fits_int (tm_year t + 1900)")
  case True
  obtain t' where "time_to_tm (tm_day t * 86400 + tm_clock t) = Some t'" "tm_sec t' = tm_sec t" "tm_min t' = tm_min t"
    "tm_hour t' = tm_hour t" "tm_mday t' = tm_mday t" "tm_mon t' = tm_mon t" "tm_year t' = tm_year t"
    by (rule tm_round_trip [OF assms True refl])
  moreover have "tm_mon t div 12 = 0" using assms(1) by (simp add: tm_ok_def)
  ultimately show ?thesis using True by (simp add: mktime_def tm_to_time_Some)
qed (simp add: mktime_def tm_to_time_def split: prod.split)

theorem mktime_inverts_fields_witness:
  "\<exists>s t'. mktime (Some \<lparr>tm_sec = 30, tm_min = 20, tm_hour = 10, tm_mday = 29, tm_mon = 1, tm_year = 124,
    tm_wday = 0, tm_yday = 0, tm_isdst = 0\<rparr>) = Done (s, t') \<and> tm_mday t' = 29 \<and> tm_mon t' = 1"
proof -
  have "tm_ok \<lparr>tm_sec = 30, tm_min = 20, tm_hour = 10, tm_mday = 29, tm_mon = 1, tm_year = 124,
    tm_wday = 0, tm_yday = 0, tm_isdst = 0\<rparr>"
    by (simp add: tm_ok_def days_in_month_def is_leap_year_iff)
  from mktime_inverts_fields [OF this] show ?thesis by (auto simp: fits_int_def)
qed

text \<open>Within 2^55 seconds of the epoch, gmtime_r gives the right day of the week from the epoch on, and before it on the stroke of midnight; at any other time before the epoch it gives the weekday of the day after.\<close>

theorem gmtime_weekday:
  assumes "\<bar>s\<bar> \<le> 2 ^ 55"
  shows "\<exists>t. gmtime_r (Some s) True = Done t \<and> (let right = (s div 86400 + 4) mod 7 in
    if 0 \<le> s \<or> 86400 dvd s then tm_wday t = right else tm_wday t = (right + 1) mod 7)"
proof -
  obtain t where t: "time_to_tm s = Some t"
    "tm_wday t = (if 0 \<le> s \<or> 86400 dvd s then (s div 86400 + 4) mod 7 else (s div 86400 + 5) mod 7)"
    by (rule time_to_tm_Some [of s]) (use year_fits [OF assms] in blast)
  have "((d + 4) mod 7 + 1) mod 7 = (d + 5) mod 7" for d :: int by presburger
  with t show ?thesis by (auto simp: gmtime_r_def Let_def)
qed



section \<open>Numbers\<close>

text \<open>
  C33. On every string the 64-bit \<open>strtol\<close> refuses a base that is neither 0 nor 2 to 36 with
  \<open>EINVAL\<close>. Otherwise it takes the longest numeral of the base, as the C standard defines one,
  that stands behind the white space: it returns its exact value, or the nearest limit with
  \<open>ERANGE\<close> when the value does not fit, and an end pointer behind its last digit. When there is no
  numeral it returns 0 and the start. A prefix \<open>0x\<close> that no hexadecimal digit follows also gives 0
  and the start, where the standard takes the numeral \<open>0\<close>. \<open>errno\<close> stays as it was unless one of
  the two errors is reported.
\<close>

theorem strtol_exact:
  assumes "cstr m p s" and "spaces = length (takeWhile is_space_char s)" and "rest = dropWhile is_space_char s"
  shows "if \<not> (base = 0 \<or> 2 \<le> base \<and> base \<le> 36) then strtol TYPE(64) m p base err = Some (0, EINVAL, p)
    else if bare_prefix base rest \<or> no_numeral base rest then strtol TYPE(64) m p base err = Some (0, err, p)
    else \<exists>t neg b ds. longest_numeral base rest t \<and> numeral_form base t neg b ds \<and>
      (let v = text_value neg b ds; q = p + spaces + length t in
       strtol TYPE(64) m p base err = Some (
         if - (2 ^ 63) \<le> v \<and> v \<le> 2 ^ 63 - 1 then (v, err, q)
         else (if neg then - (2 ^ 63) else 2 ^ 63 - 1, ERANGE, q)))"
proof (cases "base = 0 \<or> 2 \<le> base \<and> base \<le> 36")
  case True
  have limits: "LONG_MIN TYPE(64) = - (2 ^ 63)" "LONG_MAX TYPE(64) = 2 ^ 63 - 1" by (simp_all add: LONG_MIN_def LONG_MAX_def)
  have valid: "\<not> \<not> (base = 0 \<or> 2 \<le> base \<and> base \<le> 36)" using True by simp
  show ?thesis unfolding if_not_P [OF valid] assms(2,3) Let_def
    by (rule strtol_longest [OF assms(1) _ True, where 'l = 64, of err, unfolded limits]) simp
next
  case False
  then have "base_of (scan_number base s) < 2 \<or> base_of (scan_number base s) > 36"
    by (auto simp: scan_number_def scan_base_def split: prod.splits if_splits)
  with False strtol_Some [OF assms(1) _ refl, where 'l = 64, of base err] show ?thesis by simp
qed

theorem strtol_exact_witness:
  "strtol TYPE(64) (mem_of 1 (''  0x'' @ [NUL])) 1 16 7 = Some (0, 7, 1) \<and>
   (\<exists>t neg b ds. longest_numeral 0 ''-0x1fz'' t \<and> numeral_form 0 t neg b ds \<and>
     (let v = text_value neg b ds; q = 1 + 1 + length t in
      strtol TYPE(64) (mem_of 1 ('' -0x1fz'' @ [NUL])) 1 0 7 = Some (
        if - (2 ^ 63) \<le> v \<and> v \<le> 2 ^ 63 - 1 then (v, 7, q)
        else (if neg then - (2 ^ 63) else 2 ^ 63 - 1, ERANGE, q))))"
proof (rule conjI)
  have c: "cstr (mem_of 1 (''  0x'' @ [NUL])) 1 ''  0x''" by (rule cstr_mem_of) simp
  have r: "length (takeWhile is_space_char ''  0x'') = 2" "dropWhile is_space_char ''  0x'' = ''0x''" by code_simp+
  have "bare_prefix 16 ''0x''" by (auto simp: bare_prefix_def signs_def hex_prefixes_def)
  with strtol_exact [OF c r [symmetric], of 16 7]
  show "strtol TYPE(64) (mem_of 1 (''  0x'' @ [NUL])) 1 16 7 = Some (0, 7, 1)" by simp
next
  have c: "cstr (mem_of 1 ('' -0x1fz'' @ [NUL])) 1 '' -0x1fz''" by (rule cstr_mem_of) simp
  have r: "length (takeWhile is_space_char '' -0x1fz'') = 1" "dropWhile is_space_char '' -0x1fz'' = ''-0x1fz''" by code_simp+
  have "\<not> bare_prefix 0 ''-0x1fz''"
    by (auto simp: bare_prefix_def signs_def hex_prefixes_def base_digit_def digit_value_def)
  moreover have "numeral_form 0 (take 5 ''-0x1fz'') True 16 ''1f''"
    by (auto simp: numeral_form_def signs_def hex_prefixes_def base_digit_def digit_value_def eval_nat_numeral)
  then have "is_numeral 0 (take 5 ''-0x1fz'')" unfolding is_numeral_def by blast
  then have "\<not> no_numeral 0 ''-0x1fz''" unfolding no_numeral_def by (intro notI) (drule spec [of _ 5], simp)
  ultimately show "\<exists>t neg b ds. longest_numeral 0 ''-0x1fz'' t \<and> numeral_form 0 t neg b ds \<and>
     (let v = text_value neg b ds; q = 1 + 1 + length t in
      strtol TYPE(64) (mem_of 1 ('' -0x1fz'' @ [NUL])) 1 0 7 = Some (
        if - (2 ^ 63) \<le> v \<and> v \<le> 2 ^ 63 - 1 then (v, 7, q)
        else (if neg then - (2 ^ 63) else 2 ^ 63 - 1, ERANGE, q)))"
    using strtol_exact [OF c r [symmetric], of 0 7] by simp
qed

section \<open>The environment\<close>

text \<open>An environment that starts with one variable.\<close>

lemma small_env: "\<exists>e. env_ok e \<and> env_map e = [''A'' \<mapsto> ''1'']"
proof -
  obtain e where e: "env_ok e" "env_map e = map_of (pairs (filter entry_ok [''A=1'']))"
    using env_init_imports [of "\<lambda>_. True" "[''A=1'']"] by (auto simp: list_all_iff)
  have "map_of (pairs (filter entry_ok [''A=1''])) = [''A'' \<mapsto> ''1'']"
    by (simp add: entry_ok_def pairs_def entry_name_def entry_value_def)
  with e show ?thesis by (intro exI [of _ e]) simp
qed

text \<open>
  C34. After a \<open>setenv\<close> that succeeds, \<open>getenv\<close> finds the new value under this name (the old one
  if it was set and overwriting was not asked for) and what it found before under every other;
  when it fails it is for lack of memory, with \<open>ENOMEM\<close>, and the environment is what it was.
\<close>

theorem setenv_then_getenv:
  assumes "env_ok e" and "name_ok n" and "NUL \<notin> set v" and "name_ok k"
  shows "\<exists>r e'. setenv mok e (Some n) (Some v) overwrite = Some (r, e') \<and> env_ok e' \<and>
    (r = 0 \<and> getenv mok e' (Some k) =
       Some (if k = n \<and> (overwrite \<or> env_map e n = None) then Some v else env_map e k, e') \<or>
     r = -1 \<and> env_errno e' = ENOMEM \<and> \<not> (\<forall>j. mok j) \<and> getenv mok e' (Some k) = Some (env_map e k, e'))"
proof -
  from setenv_updates [OF assms(1-3), of mok overwrite] obtain r e' where
    s: "setenv mok e (Some n) (Some v) overwrite = Some (r, e')"
    "updated mok e (if n \<in> dom (env_map e) \<and> \<not> overwrite then env_map e else (env_map e)(n \<mapsto> v)) (r, e')"
    by (metis surj_pair)
  then have e': "env_ok e'" by (simp add: updated_def)
  show ?thesis using s e' getenv_lookup [OF e' assms(4)]
    by (cases "r = 0") (auto simp: updated_def domIff split: if_splits)
qed

theorem setenv_then_getenv_witness:
  "\<exists>e r e'. env_ok e \<and> setenv (\<lambda>_. True) e (Some ''B'') (Some ''2'') True = Some (r, e') \<and>
    r = 0 \<and> getenv (\<lambda>_. True) e' (Some ''A'') = Some (Some ''1'', e')"
proof -
  obtain e where e: "env_ok e" "env_map e = [''A'' \<mapsto> ''1'']" using small_env by blast
  have "name_ok ''B''" "name_ok ''A''" by (simp_all add: name_ok_def)
  from setenv_then_getenv [OF e(1) this(1) _ this(2), of "''2''" "\<lambda>_. True" True] e show ?thesis by fastforce
qed

text \<open>\<open>unsetenv\<close> always succeeds on a valid name; \<open>getenv\<close> then finds nothing under this name and what it found before under every other.\<close>

theorem unsetenv_then_getenv:
  assumes "env_ok e" and "name_ok n" and "name_ok k"
  shows "\<exists>e'. unsetenv mok e (Some n) = Some (0, e') \<and> env_ok e' \<and>
    getenv mok e' (Some k) = Some (if k = n then None else env_map e k, e')"
proof -
  from unsetenv_removes [OF assms(1,2)] obtain e' where
    "unsetenv mok e (Some n) = Some (0, e')" "env_ok e'" "env_map e' = (env_map e)(n := None)" by blast
  with getenv_lookup [OF this(2) assms(3)] show ?thesis by simp
qed

theorem unsetenv_then_getenv_witness:
  "\<exists>e e'. env_map e ''A'' = Some ''1'' \<and> unsetenv (\<lambda>_. True) e (Some ''A'') = Some (0, e') \<and>
    getenv (\<lambda>_. True) e' (Some ''A'') = Some (None, e')"
proof -
  obtain e where e: "env_ok e" "env_map e = [''A'' \<mapsto> ''1'']" using small_env by blast
  have "name_ok ''A''" by (simp add: name_ok_def)
  from unsetenv_then_getenv [OF e(1) this this, of "\<lambda>_. True"] obtain e' where
    "unsetenv (\<lambda>_. True) e (Some ''A'') = Some (0, e')" "getenv (\<lambda>_. True) e' (Some ''A'') = Some (None, e')" by auto
  with e show ?thesis by (intro exI [of _ e] exI [of _ e']) simp
qed

text \<open>When memory suffices, the environment after start-up holds exactly the well-formed entries of the vector the system passed; the first of several with one name wins and malformed entries are skipped.\<close>

theorem environment_imported:
  assumes "\<forall>k. mok k" and "list_all (\<lambda>s. NUL \<notin> set s) envp" and "name_ok n"
  shows "\<exists>e. crt_env_init mok (env_start envp) None = Some e \<and> env_ok e \<and>
    getenv mok e (Some n) = Some (map_of (pairs (filter entry_ok envp)) n, e)"
proof -
  from env_init_imports [OF assms(1,2)] obtain e where "crt_env_init mok (env_start envp) None = Some e" "env_ok e"
    "env_map e = map_of (pairs (filter entry_ok envp))" by blast
  with getenv_lookup [OF this(2) assms(3), of mok] show ?thesis by simp
qed

section \<open>Strings\<close>

lemma mem_put_over: "length s \<le> length t \<Longrightarrow> mem_put (mem_put m p s) p t = mem_put m p t"
  by (rule ext) (auto simp: mem_put_def)

text \<open>
  C35. \<open>strlcpy\<close> and then \<open>strlcat\<close> into a buffer of n bytes, n at least 1, that overlaps neither
  of the two source strings leave there the concatenation cut to n - 1 characters with its
  terminator and write nothing outside of the buffer. \<open>strlcpy\<close> returns the length of the first
  string, and \<open>strlcat\<close> the length of what the buffer held of it, at most n - 1, plus the length
  of the second: the length of the whole only when the first was not cut.
\<close>

theorem strlcpy_strlcat_bounded:
  assumes "cstr m p s" and "cstr m q t" and "0 < n" and "mapped m d n" and "d \<noteq> null"
    and "d + n \<le> p \<or> p + length s < d" and "d + n \<le> q \<or> q + length t < d"
  shows "\<exists>m1 m2. strlcpy m d p n = Some (m1, length s) \<and>
    strlcat m1 d q n = Some (m2, length (take (n - 1) s) + length t) \<and>
    cstr m2 d (take (n - 1) (s @ t)) \<and> (\<forall>a. a < d \<or> d + n \<le> a \<longrightarrow> m2 a = m a)"
proof -
  let ?u = "take (n - 1) s"
  let ?m1 = "mem_put m d (?u @ [NUL])"
  have l: "length (?u @ [NUL]) \<le> n" using assms(3) by simp
  have z: "NUL \<notin> set s" "NUL \<notin> set t" using assms(1,2) by (simp_all add: cstr_def)
  have u: "NUL \<notin> set ?u" using z(1) by (auto dest: in_set_takeD)
  have "mapped m d (min n (Suc (length s)))" using mapped_mono [OF assms(4)] by simp
  from strlcpy_Some [OF assms(1,3) this] have c: "strlcpy m d p n = Some (?m1, length s)" .
  have m1: "mapped ?m1 d n" by (rule mapped_mem_put [OF assms(4)])
  then obtain b where b: "length b = n" "bytes_at ?m1 d b" using mapped_bytes by blast
  have "bytes_at ?m1 d (?u @ [NUL])" by (rule bytes_at_mem_put)
  then have "take (length (?u @ [NUL])) b = ?u @ [NUL]"
    using bytes_at_unique [OF bytes_at_take [OF b(2)]] b(1) l by fastforce
  then obtain r where br: "b = ?u @ NUL # r" by (metis append.assoc append_Cons append_Nil append_take_drop_id)
  have bef: "before NUL b = ?u" unfolding br using u by (subst takeWhile_append2) auto
  have "cstr ?m1 q t" by (rule cstr_put_other [OF _ assms(2)]) (use assms(7) l in linarith)
  from strlcat_Some [OF this b(2,1) assms(5) bef [symmetric]] br
  have cat: "strlcat ?m1 d q n = Some (mem_put ?m1 (d + length ?u) (take (n - length ?u - 1) t @ [NUL]), length ?u + length t)"
    by simp
  let ?w = "take (n - length ?u - 1) t"
  let ?m2 = "mem_put ?m1 (d + length ?u) (?w @ [NUL])"
  have tk: "take (n - 1) (s @ t) = ?u @ ?w"
    using assms(3) by (cases "length s \<le> n - 1") (simp_all add: diff_right_commute)
  have e: "?m2 = mem_put m d (?u @ ?w @ [NUL])"
    unfolding mem_put_append [of m d ?u] by (simp add: mem_put_over)
  have "NUL \<notin> set (?u @ ?w)" using u z(2) by (auto dest: in_set_takeD)
  with e have "cstr ?m2 d (?u @ ?w)" using cstr_put [of "?u @ ?w" m d] by simp
  moreover have "?m2 a = m a" if "a < d \<or> d + n \<le> a" for a
    unfolding e by (rule mem_put_outside) (use that assms(3) in auto)
  ultimately show ?thesis using c cat tk by auto
qed

theorem strlcpy_strlcat_bounded_witness:
  "\<exists>m1 m2. strlcpy (mem_of 1 (''ab'' @ [NUL] @ ''cde'' @ [NUL] @ ''....'')) 8 1 4 = Some (m1, 2) \<and>
    strlcat m1 8 4 4 = Some (m2, 5) \<and> cstr m2 8 ''abc''"
proof -
  let ?m = "mem_of 1 (''ab'' @ [NUL] @ ''cde'' @ [NUL] @ ''....'')"
  have s: "cstr ?m 1 ''ab''" "cstr ?m 4 ''cde''" by (simp_all add: cstr_def mem_of_def mem_put_def numeral_eq_Suc)
  have d: "mapped ?m 8 4" by (simp add: mapped_iff mem_of_def mem_put_def)
  from strlcpy_strlcat_bounded [OF s _ d] show ?thesis by (auto simp: numeral_eq_Suc)
qed

text \<open>
  C36. \<open>strstr\<close> returns the address of the first occurrence of the second string in the first and
  null when there is none, and \<open>memmem\<close> on the same characters returns the same address.
\<close>

theorem strstr_finds_first:
  assumes "cstr m p s" and "cstr m q f" and "p \<noteq> null"
  shows "\<exists>r. strstr m p q = Some r \<and> first_occurrence p s f 0 r \<and> memmem m p (length s) q (length f) = Some r"
proof -
  let ?r = "case find_sub f s of None \<Rightarrow> null | Some i \<Rightarrow> p + i"
  have f: "first_occurrence p s f 0 ?r"
  proof (cases "find_sub f s")
    case None
    then have "\<forall>i. \<not> occurs_at s f i" by (simp add: find_sub_None)
    moreover have "?r = null" using None by simp
    ultimately show ?thesis unfolding first_occurrence_def by blast
  next
    case (Some i)
    then have "occurs_at s f i" "\<forall>j<i. \<not> occurs_at s f j" by (simp_all add: find_sub_Some)
    then show ?thesis unfolding Some by (auto simp: first_occurrence_def)
  qed
  from memmem_Some [OF cstr_bytes [OF assms(1)] cstr_bytes [OF assms(2)] assms(3)]
  obtain r where r: "memmem m p (length s) q (length f) = Some r" "first_occurrence p s f 0 r" by blast
  have "r = ?r"
  proof (cases "find_sub f s")
    case None
    then have "\<forall>i. \<not> occurs_at s f i" by (simp add: find_sub_None)
    then show ?thesis using r(2) unfolding None by (simp add: first_occurrence_def)
  next
    case (Some i)
    then have i: "occurs_at s f i" "\<forall>j<i. \<not> occurs_at s f j" by (simp_all add: find_sub_Some)
    from r(2) i(1) obtain j where j: "r = p + j" "occurs_at s f j" "\<forall>k<j. \<not> occurs_at s f k"
      by (auto simp: first_occurrence_def)
    have "j = i" using i j(2,3) by (metis linorder_neqE_nat)
    then show ?thesis using Some j(1) by simp
  qed
  then show ?thesis using strstr_Some [OF assms(1,2)] f r(1) by simp
qed

theorem strstr_finds_first_witness:
  "\<exists>r. strstr (mem_of 1 (''banana'' @ [NUL] @ ''ana'' @ [NUL])) 1 8 = Some r \<and> first_occurrence 1 ''banana'' ''ana'' 0 r"
proof -
  let ?m = "mem_of 1 (''banana'' @ [NUL] @ ''ana'' @ [NUL])"
  have "cstr ?m 1 ''banana''" "cstr ?m 8 ''ana''"
    by (simp_all add: cstr_def mem_of_def mem_put_def numeral_eq_Suc)
  from strstr_finds_first [OF this] show ?thesis by auto
qed

text \<open>
  C37. \<open>strtok_r\<close>, on the string it is given or, given null, on the one at the saved position,
  skips the leading delimiters, returns the address of the longest run of other characters, ends
  it with a null character in place of the delimiter behind it and saves the position of the
  character after that, or of the end of the string when no delimiter follows. When only
  delimiters are left it returns null and leaves the string as it is; all it stores is the
  position of the end of the string, from where every further call returns null.
\<close>

theorem strtok_r_splits:
  assumes "start = (if p = null then saved else p)" and "cstr m start s" and "cstr m q d" and "start \<noteq> null" and "q \<noteq> null"
    and "dropWhile (\<lambda>c. c \<in> set d) s = t @ r" and "set t \<inter> set d = {}" and "r = [] \<or> hd r \<in> set d"
    and "k = length (takeWhile (\<lambda>c. c \<in> set d) s)"
  shows "strtok_r m p q (Some saved) =
      (if t = [] then Some (m, null, Some (start + length s))
       else if r = [] then Some (m, start + k, Some (start + length s))
       else Some (m(start + k + length t \<mapsto> NUL), start + k, Some (start + k + length t + 1))) \<and>
    strtok_r m null q (Some (start + length s)) = Some (m, null, Some (start + length s))" (is "?call \<and> ?last")
proof
  have "strtok_r m p q (Some saved) = strtok_r m start q (Some saved)"
    using assms(1,4) by (simp add: strtok_r_def)
  then show ?call by (simp only: strtok_r_Some [OF assms(2-9)])
  have stop: "cstr m (start + length s) []" using cstr_end [OF assms(2)] by (simp add: cstr_simps)
  have "strtok_r m (start + length s) q (Some 0) = Some (m, null, Some (start + length s))"
    using strtok_r_Some [OF stop assms(3) _ assms(5), of "[]" "[]" 0 0] assms(4,5) by simp
  moreover have "strtok_r m null q (Some (start + length s)) = strtok_r m (start + length s) q (Some 0)"
    using assms(4,5) by (simp add: strtok_r_def)
  ultimately show ?last by simp
qed

theorem strtok_r_splits_witness:
  "\<exists>m. strtok_r (mem_of 1 ('',,ab,c'' @ [NUL] @ '','' @ [NUL])) 1 8 (Some 0) = Some (m, 3, Some 6) \<and> cstr m 3 ''ab'' \<and>
    strtok_r m null 8 (Some 6) = Some (m, 6, Some 7) \<and> strtok_r m null 8 (Some 7) = Some (m, null, Some 7)"
proof -
  let ?m = "mem_of 1 ('',,ab,c'' @ [NUL] @ '','' @ [NUL])"
  let ?m' = "?m(1 + 2 + length ''ab'' \<mapsto> NUL)"
  have s: "cstr ?m 1 '',,ab,c''" "cstr ?m 8 '',''" "cstr ?m' 6 ''c''" "cstr ?m' 8 '',''" "cstr ?m' 3 ''ab''"
    by (simp_all add: cstr_def mem_of_def mem_put_def numeral_eq_Suc)
  have t: "dropWhile (\<lambda>c. c \<in> set '','') '',,ab,c'' = ''ab'' @ '',c''" "dropWhile (\<lambda>c. c \<in> set '','') ''c'' = ''c'' @ []" by simp_all
  from strtok_r_splits [OF _ s(1,2) _ _ t(1), of 1 0 2] have "strtok_r ?m 1 8 (Some 0) = Some (?m', 3, Some 6)" by simp
  moreover from strtok_r_splits [OF _ s(3,4) _ _ t(2), of null 6 0]
  have "strtok_r ?m' null 8 (Some 6) = Some (?m', 6, Some 7)" "strtok_r ?m' null 8 (Some 7) = Some (?m', null, Some 7)" by simp_all
  ultimately show ?thesis using s(5) by blast
qed

section \<open>Patterns and options\<close>

text \<open>
  C38. Without \<open>FNM_PERIOD\<close>, and with at most one of \<open>FNM_PATHNAME\<close> and \<open>FNM_LEADING_DIR\<close>,
  \<open>fnmatch\<close> returns 0 exactly when the string is what the items of the pattern mean: a star stands
  for any characters (no slash under \<open>FNM_PATHNAME\<close>), every other item for one character. The loop
  over the string, which stops at the first match, misses none.
\<close>

theorem fnmatch_matches_items:
  assumes "\<not> FNM_PERIOD flags" and "\<not> (FNM_PATHNAME flags \<and> FNM_LEADING_DIR flags)"
  shows "fnmatch (Some p) (Some s) flags = 0 \<longleftrightarrow> matches flags (items flags p) s"
  by (simp add: fnmatch_def FNM_NOMATCH_def match_here_items(1) [OF assms])

theorem fnmatch_matches_items_witness:
  "fnmatch (Some ''*.[ch]'') (Some ''a.b.c'') (fnm_flags.make False True False False False) = 0"
proof -
  let ?f = "fnm_flags.make False True False False False"
  have c: "uchar x = 99 \<longleftrightarrow> x = CHR ''c''" "uchar x = 104 \<longleftrightarrow> x = CHR ''h''" for x
    using of_char_eq_iff [of x "CHR ''c''", where ?'a = int] of_char_eq_iff [of x "CHR ''h''", where ?'a = int] by simp_all
  have bracket: "match_bracket ''ch]'' x ?f = Some ([], x = CHR ''c'' \<or> x = CHR ''h'')" for x
    by (simp add: match_bracket_def bracket_loop.simps bracket_item_def range_next_def unescape_def fold_char_def
        fnm_flags.make_def) (auto simp: c)
  have "items ?f ''*.[ch]'' = [Star, Literal False (CHR ''.''), Bracket (bracket_set ?f ''ch]'')]"
    by (simp add: bracket unescape_def)
  moreover have "matches ?f [Literal False (CHR ''.''), Bracket (bracket_set ?f ''ch]'')] ''.c''"
    by (simp add: item_matches_def bracket_set_def bracket [unfolded fnm_flags.make_def] fnm_flags.make_def)
  then have "matches ?f [Star, Literal False (CHR ''.''), Bracket (bracket_set ?f ''ch]'')] ''a.b.c''"
    by (subst matches.simps(2), unfold if_P [OF refl]) (rule exI [of _ "''a.b''"], rule exI [of _ "''.c''"], simp)
  ultimately have "matches ?f (items ?f ''*.[ch]'') ''a.b.c''" by (simp only:)
  moreover have "\<not> FNM_PERIOD ?f" "\<not> (FNM_PATHNAME ?f \<and> FNM_LEADING_DIR ?f)" by (simp_all add: fnm_flags.make_def)
  ultimately show ?thesis using fnmatch_matches_items by blast
qed

text \<open>
  C39. The loop over \<open>getopt\<close> takes a command line apart into what it was put together from:
  options with and without an argument, attached or in the next word, mixed with operands and
  perhaps ended by two hyphens. It returns the options in order with their arguments, then -1, and
  leaves all the options in front of the operands, both in their order, with \<open>optind\<close> at the first
  operand.
\<close>

theorem getopt_reads_command_line:
  assumes "\<forall>i\<in>set cmd. item_ok optstring i" and "\<not> starts_char (CHR ''+'') optstring"
    and "argv st = prog # words_of cmd @ end_words tail" and "optind st = 1" and "getopt_next st = None"
  shows "\<exists>st'. option_loop (getopt (Some optstring)) st = Some (st', map item_result (options_of cmd)) \<and>
    take (nat (optind st')) (argv st') = prog # words_of (options_of cmd) @ take 1 (end_words tail) \<and>
    drop (nat (optind st')) (argv st') = words_of (operands_of cmd) @ drop 1 (end_words tail)"
proof -
  obtain st' where "option_loop (getopt (Some optstring)) st = Some (st', map item_result (options_of cmd))"
    "argv st' = (prog # words_of (options_of cmd) @ take 1 (end_words tail)) @ words_of (operands_of cmd) @
      drop 1 (end_words tail)"
    "optind st' = int (length (prog # words_of (options_of cmd) @ take 1 (end_words tail)))"
    using option_loop_items [of cmd optstring st "[prog]" "[]" tail] assms by auto
  then show ?thesis by (intro exI [of _ st']) (simp del: append_Cons length_append)
qed

theorem getopt_reads_command_line_witness:
  "\<exists>st'. option_loop (getopt (Some ''ab:c::''))
      (getopt_state.make None 1 0 None
        [''cc'', ''in'', ''-a'', ''-b'', ''x'', ''-'', ''-bout'', ''--'', ''-c''] 0 Map.empty) =
    Some (st', [(uchar (CHR ''a''), None), (uchar (CHR ''b''), Some ''x''), (uchar (CHR ''b''), Some ''out'')]) \<and>
    drop (nat (optind st')) (argv st') = [''in'', ''-'', ''-c'']"
proof -
  let ?items = "[Operand ''in'', Flag (CHR ''a''), Separate (CHR ''b'') ''x'', Operand ''-'', Attached (CHR ''b'') ''out'']"
  let ?st = "getopt_state.make None 1 0 None
    [''cc'', ''in'', ''-a'', ''-b'', ''x'', ''-'', ''-bout'', ''--'', ''-c''] 0 Map.empty"
  have ok: "\<forall>i\<in>set ?items. item_ok ''ab:c::'' i"
    by (simp add: declared_def find_short_option_def short_options_start_def)
  have "argv ?st = ''cc'' # words_of ?items @ end_words (Some [''-c''])"
    by (simp add: getopt_state.make_def end_words_def)
  from getopt_reads_command_line [OF ok _ this] show ?thesis by (auto simp: getopt_state.make_def end_words_def)
qed

text \<open>
  C40. Whatever the command line, the option string and the table of long options, valid or not, a
  loop over \<open>getopt\<close>, \<open>getopt_long\<close> or \<open>getopt_long_only\<close> ends; \<open>optind\<close> is then inside of the
  command line, and the words are the same in another order: none is lost or doubled.
\<close>

theorem option_loops_end:
  assumes "next \<in> {getopt optstring, getopt_long optstring longopts has_index, getopt_long_only optstring longopts has_index}"
    and "argv st \<noteq> []" and "optind st = 1" and "getopt_next st = None"
  shows "\<exists>st' rs. option_loop next st = Some (st', rs) \<and> 1 \<le> optind st' \<and> optind st' \<le> argc st' \<and>
    mset (argv st') = mset (argv st)"
proof -
  have inv: "getopt_inv st" using assms(2-4) by (cases "argv st") (auto simp: getopt_inv_def)
  have "\<exists>l b only. next = getopt_internal optstring l b only"
    using assms(1) by (auto simp: getopt_def [abs_def] getopt_long_def [abs_def] getopt_long_only_def [abs_def])
  then obtain l b only where "next = getopt_internal optstring l b only" by blast
  with option_loop_ends [OF inv] show ?thesis by (force simp: getopt_inv_def)
qed

theorem option_loops_end_witness:
  "\<exists>st' rs. option_loop (getopt_long None None False)
      (getopt_state.make None 1 0 None [''ls'', ''x'', ''-q'', ''--''] 0 Map.empty) = Some (st', rs) \<and>
    mset (argv st') = mset [''ls'', ''x'', ''-q'', ''--'']"
  using option_loops_end [of "getopt_long None None False" None None False
      "getopt_state.make None 1 0 None [''ls'', ''x'', ''-q'', ''--''] 0 Map.empty"]
  by (auto simp: getopt_state.make_def)

text \<open>The loop of a star hands the current position to a call that takes it for the start of the string: under FNM_PERIOD a period inside a name counts as a leading one.\<close>

theorem fnmatch_period_inside_name:
  "fnmatch (Some ''*?c'') (Some ''a.c'') (fnm_flags.make False False True False False) = FNM_NOMATCH"
  by (simp add: fnmatch_def leading_period_def fnm_flags.make_def unescape_def fold_char_def)

text \<open>Under FNM_PATHNAME a backslash in front of a slash keeps it from matching.\<close>

theorem fnmatch_escaped_slash:
  "fnmatch (Some [CHR ''a'', CHR 0x5C, CHR ''/'', CHR ''b'']) (Some ''a/b'') (fnm_flags.make False True False False False) = FNM_NOMATCH"
  by (simp add: fnmatch_def leading_period_def fnm_flags.make_def unescape_def fold_char_def)

text \<open>Behind an operand, a word whose letter is no option is passed over: the result is -1, where the same word in front of the operand gives a question mark.\<close>

theorem getopt_passes_unknown_option:
  "snd (getopt (Some ''a'') (getopt_state.make None 1 0 None [''ls'', ''x'', ''-z''] 0 Map.empty)) = -1"
  "snd (getopt (Some ''a'') (getopt_state.make None 1 0 None [''ls'', ''-z'', ''x''] 0 Map.empty)) = uchar (CHR ''?'')"
  by (simp_all add: getopt_def getopt_internal_def getopt_state.make_def permute_next_option_def permute_scan.simps
      find_short_option_def short_options_start_def short_step_def option_error_def Let_def)

text \<open>The end of the input in front of a literal character gives 0, where the interface asks for EOF.\<close>

theorem sscanf_literal_at_end:
  "map_option snd (vsscanf env h [] ''a'' err) = Some 0"
proof -
  have "\<not> scan_isspace 97" by code_simp
  then show ?thesis
    unfolding vsscanf_def
    by (subst vscan_core.simps) (simp add: source_getc_def source_ungetc_def CRT_Stdio.EOF_def)
qed

text \<open>A range of one character in a scan set includes the character behind it, and the range of the last character writes behind the table.\<close>

theorem scan_set_single_range:
  "map_option (\<lambda>x. (fst x ! 97, fst x ! 98, fst x ! 99)) (scan_sccl ''a-a]'') = Some (True, True, False)"
  "scan_sccl [CHR 0xff, CHR ''-'', CHR 0xff, CHR '']''] = None"
  by (simp_all add: scan_sccl_def starts_with_def sccl_range_def upt_rec numeral_eq_Suc [of "num.One"])

end
